(* ===== verification/Sponge_Prelude.thy ===== *)
theory Sponge_Prelude
  imports Main "HOL-Library.Word" "HOL-Library.Monad_Syntax"
begin

text \<open>
  Shared vocabulary of the development: the machine integers of the C++ sources, the bytes and
  strings they move, runs of a component over a list of events, and the generic list and
  arithmetic lemmas that every component uses.

  \<^item> \<open>size_t\<close> and \<open>uint64_t\<close> are 64 bits wide on the platform the code targets. They are natural
    numbers below \<open>SIZE_MOD\<close>, with the wrap-around of unsigned arithmetic written out in \<open>sz_add\<close>
    and \<open>sz_sub\<close>. Every addition and subtraction of the code that could leave the range goes
    through these two functions.
  \<^item> \<open>uint8_t\<close>, \<open>char\<close>, \<open>uint16_t\<close>, \<open>uint32_t\<close> and \<open>unsigned int\<close> are words of the same width.
  \<^item> a \<open>std::string\<close> of payload bytes is a list of bytes.
\<close>

section \<open>Machine integers\<close>

type_synonym byte = "8 word"
type_synonym u16 = "16 word"
type_synonym u32 = "32 word"
type_synonym size_t = nat
type_synonym bytes = "byte list"

definition SIZE_MOD :: nat where
  "SIZE_MOD = 18446744073709551616"

definition sz_add :: "size_t \<Rightarrow> size_t \<Rightarrow> size_t" where
  "sz_add a b = (a + b) mod SIZE_MOD"

definition sz_sub :: "size_t \<Rightarrow> size_t \<Rightarrow> size_t" where
  "sz_sub a b = (a + (SIZE_MOD - b mod SIZE_MOD)) mod SIZE_MOD"

named_theorems sz_arith \<open>exact results of the wrapping operations\<close>
named_theorems bs_simps \<open>unfolding rules of the byte stream operations\<close>

lemma SIZE_MOD_pos [simp]: "0 < SIZE_MOD"
  by (simp add: SIZE_MOD_def)

lemma SIZE_MOD_gt_one [simp]: "Suc 0 < SIZE_MOD"
  by (simp add: SIZE_MOD_def)

lemma SIZE_MOD_power: "SIZE_MOD = 2 ^ 64"
  by (simp add: SIZE_MOD_def)

lemma sz_add_bound [simp]: "sz_add a b < SIZE_MOD"
  by (simp add: sz_add_def)

lemma sz_sub_bound [simp]: "sz_sub a b < SIZE_MOD"
  by (simp add: sz_sub_def)

lemma sz_add_exact [sz_arith]: "a + b < SIZE_MOD \<Longrightarrow> sz_add a b = a + b"
  by (simp add: sz_add_def)

lemma sz_sub_exact [sz_arith]:
  assumes "b \<le> a" and "a < SIZE_MOD"
  shows "sz_sub a b = a - b"
proof -
  have "a + (SIZE_MOD - b mod SIZE_MOD) = (a - b) + SIZE_MOD"
    using assms by simp
  moreover have "a - b < SIZE_MOD"
    using assms by simp
  ultimately show ?thesis
    by (simp add: sz_sub_def del: mod_less_eq_dividend)
qed

lemma sz_sub_wraps [sz_arith]:
  assumes "a < b" and "b < SIZE_MOD"
  shows "sz_sub a b = a + SIZE_MOD - b"
  using assms by (simp add: sz_sub_def)

lemma sz_sub_self [simp]: "a < SIZE_MOD \<Longrightarrow> sz_sub a a = 0"
  by (simp add: sz_sub_exact)

lemma sz_add_0 [simp]: "a < SIZE_MOD \<Longrightarrow> sz_add a 0 = a"
  by (simp add: sz_add_def)

lemma sz_sub_0 [simp]: "a < SIZE_MOD \<Longrightarrow> sz_sub a 0 = a"
  by (simp add: sz_sub_exact)

lemma sz_add_assoc: "sz_add (sz_add a b) c = sz_add a (b + c)"
  by (simp add: sz_add_def mod_simps add.assoc)

lemma sz_add_mod_left: "sz_add (a mod SIZE_MOD) b = (a + b) mod SIZE_MOD"
  by (simp add: sz_add_def mod_simps)

section \<open>Lists\<close>

lemma fold_append_nth:
  "n \<le> length xs \<Longrightarrow> fold (\<lambda>i b. b @ [xs ! i]) [0..<n] ys = ys @ take n xs"
  by (induction n) (auto simp: take_Suc_conv_app_nth)

lemma take_min_length [simp]:
  "take (min (length xs) n) xs = take n xs" "take (min n (length xs)) xs = take n xs"
  by (auto simp: min_def)

lemma drop_min_length [simp]:
  "drop (min (length xs) n) xs = drop n xs" "drop (min n (length xs)) xs = drop n xs"
  by (auto simp: min_def)

lemma upt_split: "i \<le> j \<Longrightarrow> j \<le> k \<Longrightarrow> [i..<j] @ [j..<k] = [i..<k]"
  by (metis le_add_diff_inverse upt_add_eq_append)

text \<open>A prefix of a stream \<open>f\<close> followed by the next bytes of it.\<close>

lemma stream_prefix_extend:
  assumes "ys = map f [i..<i + length ys]"
  shows "map f [0..<i] @ ys = map f [0..<i + length ys]"
proof -
  have "map f [0..<i] @ map f [i..<i + length ys] = map f [0..<i + length ys]"
    by (simp add: upt_split flip: map_append)
  with assms show ?thesis by metis
qed

lemma funpow_tl: "(tl ^^ n) xs = drop n xs"
  by (induction n arbitrary: xs) (auto simp: drop_Suc tl_drop funpow_swap1)

section \<open>Runs of a component\<close>

text \<open>
  A component is driven by a list of calls. A call that never returns is \<^const>\<open>None\<close>, and so is
  the run. \<open>run_admissible\<close> says that every call of the run meets a side condition in the state
  it is made in; the side conditions only bound counters away from the width of \<open>size_t\<close>.
\<close>

fun run_steps :: "('s \<Rightarrow> 'e \<Rightarrow> 's option) \<Rightarrow> 's \<Rightarrow> 'e list \<Rightarrow> 's option" where
  "run_steps step s [] = Some s"
| "run_steps step s (e # es) = step s e \<bind> (\<lambda>s'. run_steps step s' es)"

fun run_admissible :: "('s \<Rightarrow> 'e \<Rightarrow> 's option) \<Rightarrow> ('s \<Rightarrow> 'e \<Rightarrow> bool) \<Rightarrow> 's \<Rightarrow> 'e list \<Rightarrow> bool" where
  "run_admissible step ok s [] = True"
| "run_admissible step ok s (e # es) =
     (ok s e \<and> (case step s e of None \<Rightarrow> True | Some s' \<Rightarrow> run_admissible step ok s' es))"

text \<open>
  The contract of a component with an invariant: an admissible call made in a state that
  satisfies the invariant returns, and the invariant holds afterwards.
\<close>

locale invariant_machine =
  fixes step :: "'s \<Rightarrow> 'e \<Rightarrow> 's option"
    and ok :: "'s \<Rightarrow> 'e \<Rightarrow> bool"
    and inv :: "'s \<Rightarrow> bool"
  assumes step_total: "inv s \<Longrightarrow> ok s e \<Longrightarrow> \<exists>s'. step s e = Some s' \<and> inv s'"
begin

lemma run_total:
  "inv s \<Longrightarrow> run_admissible step ok s es \<Longrightarrow> \<exists>s'. run_steps step s es = Some s' \<and> inv s'"
proof (induction es arbitrary: s)
  case Nil
  then show ?case by simp
next
  case (Cons e es)
  then obtain s' where "step s e = Some s'" and "inv s'"
    using step_total by fastforce
  with Cons show ?case by simp
qed

end

text \<open>
  A forward simulation: an abstract state is related to the concrete one, the abstract machine
  makes a total step for every call, and admissible calls keep the two related.
\<close>

locale simulation =
  fixes step :: "'s \<Rightarrow> 'e \<Rightarrow> 's option"
    and ok :: "'s \<Rightarrow> 'e \<Rightarrow> bool"
    and astep :: "'a \<Rightarrow> 'e \<Rightarrow> 'a"
    and rel :: "'s \<Rightarrow> 'a \<Rightarrow> bool"
  assumes sim_step: "rel s a \<Longrightarrow> ok s e \<Longrightarrow> \<exists>s'. step s e = Some s' \<and> rel s' (astep a e)"
begin

lemma run_sim:
  "rel s a \<Longrightarrow> run_admissible step ok s es \<Longrightarrow>
     \<exists>s'. run_steps step s es = Some s' \<and> rel s' (foldl astep a es)"
proof (induction es arbitrary: s a)
  case Nil
  then show ?case by simp
next
  case (Cons e es)
  then obtain s' where "step s e = Some s'" and "rel s' (astep a e)"
    using sim_step by fastforce
  with Cons show ?case by simp
qed

end

text \<open>A simulated machine has the invariant \<open>\<exists>a. rel s a\<close>.\<close>

sublocale simulation \<subseteq> sim_inv: invariant_machine step ok "\<lambda>s. \<exists>a. rel s a"
  by unfold_locales (use sim_step in blast)

end
