(* ===== verification/Byte_Stream.thy ===== *)
theory Byte_Stream
  imports Sponge_Prelude
begin

text \<open>
  The in-order byte stream of \<open>libsponge/byte_stream.hh\<close> and \<open>byte_stream.cc\<close>: a bounded queue of
  bytes with an end-of-input flag, an error flag and two counters of the bytes that went in and
  came out. The record has the fields of the class, one definition models each member function.
  The second half relates the class to an abstract channel that remembers everything that was
  ever written.
\<close>

section \<open>The class\<close>

record byte_stream =
  bs_buff :: bytes
  bs_capacity :: size_t
  bs_bytes_r :: size_t
  bs_bytes_w :: size_t
  bs_end_input :: bool
  bs_error :: bool

definition bs_new :: "size_t \<Rightarrow> byte_stream" where
  "bs_new cap = \<lparr>bs_buff = [], bs_capacity = cap, bs_bytes_r = 0, bs_bytes_w = 0,
                 bs_end_input = False, bs_error = False\<rparr>"

definition input_ended :: "byte_stream \<Rightarrow> bool" where
  "input_ended s = bs_end_input s"

definition buffer_size :: "byte_stream \<Rightarrow> size_t" where
  "buffer_size s = length (bs_buff s)"

definition buffer_empty :: "byte_stream \<Rightarrow> bool" where
  "buffer_empty s = (bs_buff s = [])"

definition bs_eof :: "byte_stream \<Rightarrow> bool" where
  "bs_eof s = (input_ended s \<and> buffer_empty s)"

definition bytes_written :: "byte_stream \<Rightarrow> size_t" where
  "bytes_written s = bs_bytes_w s"

definition bytes_read :: "byte_stream \<Rightarrow> size_t" where
  "bytes_read s = bs_bytes_r s"

definition remaining_capacity :: "byte_stream \<Rightarrow> size_t" where
  "remaining_capacity s = sz_sub (bs_capacity s) (length (bs_buff s))"

definition set_error :: "byte_stream \<Rightarrow> byte_stream" where
  "set_error s = s\<lparr>bs_error := True\<rparr>"

definition end_input :: "byte_stream \<Rightarrow> byte_stream" where
  "end_input s = s\<lparr>bs_end_input := True\<rparr>"

text \<open>The loop of \<open>write\<close> pushes \<open>data[i]\<close> for \<open>i = 0, \<dots>, write_size - 1\<close>.\<close>

definition bs_write :: "byte_stream \<Rightarrow> bytes \<Rightarrow> size_t \<times> byte_stream" where
  "bs_write s data =
     (if input_ended s then (0, s)
      else
        let write_size = min (length data) (remaining_capacity s)
        in (write_size,
            s\<lparr>bs_bytes_w := sz_add (bs_bytes_w s) write_size,
              bs_buff := fold (\<lambda>i b. b @ [data ! i]) [0..<write_size] (bs_buff s)\<rparr>))"

definition peek_output :: "byte_stream \<Rightarrow> size_t \<Rightarrow> bytes" where
  "peek_output s len = (let peek_size = min len (length (bs_buff s)) in take peek_size (bs_buff s))"

text \<open>The loop of \<open>pop_output\<close> calls \<open>pop_front\<close> \<open>pop_size\<close> times.\<close>

definition pop_output :: "byte_stream \<Rightarrow> size_t \<Rightarrow> byte_stream" where
  "pop_output s len =
     (let pop_size = min len (length (bs_buff s))
      in s\<lparr>bs_bytes_r := sz_add (bs_bytes_r s) pop_size, bs_buff := (tl ^^ pop_size) (bs_buff s)\<rparr>)"

definition bs_read :: "byte_stream \<Rightarrow> size_t \<Rightarrow> bytes \<times> byte_stream" where
  "bs_read s len = (let r = peek_output s len in (r, pop_output s len))"

lemmas bs_accessor_defs =
  input_ended_def buffer_size_def buffer_empty_def bs_eof_def bytes_written_def bytes_read_def

section \<open>Invariant\<close>

text \<open>
  The buffer never exceeds the capacity, the counters are 64-bit values, and the bytes written are
  the bytes read plus the bytes buffered, in the arithmetic of \<open>size_t\<close>.
\<close>

definition bs_inv :: "byte_stream \<Rightarrow> bool" where
  "bs_inv s \<longleftrightarrow>
     length (bs_buff s) \<le> bs_capacity s \<and> bs_capacity s < SIZE_MOD \<and>
     bs_bytes_r s < SIZE_MOD \<and> bs_bytes_w s = sz_add (bs_bytes_r s) (length (bs_buff s))"

lemma bs_invD:
  assumes "bs_inv s"
  shows "length (bs_buff s) \<le> bs_capacity s" and "bs_capacity s < SIZE_MOD"
    and "bs_bytes_r s < SIZE_MOD" and "bs_bytes_w s < SIZE_MOD"
    and "bs_bytes_w s = sz_add (bs_bytes_r s) (length (bs_buff s))"
  using assms by (auto simp: bs_inv_def)

lemma bs_inv_new [simp]: "cap < SIZE_MOD \<Longrightarrow> bs_inv (bs_new cap)"
  by (simp add: bs_inv_def bs_new_def)

lemma remaining_capacity_exact:
  "bs_inv s \<Longrightarrow> remaining_capacity s = bs_capacity s - length (bs_buff s)"
  by (auto simp: remaining_capacity_def bs_inv_def sz_sub_exact)

text \<open>The two loops in closed form.\<close>

lemma bs_write_eq [bs_simps]:
  "bs_write s data =
     (if bs_end_input s then (0, s)
      else let n = min (length data) (remaining_capacity s)
           in (n, s\<lparr>bs_bytes_w := sz_add (bs_bytes_w s) n, bs_buff := bs_buff s @ take n data\<rparr>))"
  by (simp add: bs_write_def input_ended_def fold_append_nth Let_def del: upt_conv_Cons)

lemma pop_output_eq [bs_simps]:
  "pop_output s len =
     s\<lparr>bs_bytes_r := sz_add (bs_bytes_r s) (min len (length (bs_buff s))),
       bs_buff := drop len (bs_buff s)\<rparr>"
  by (simp add: pop_output_def Let_def funpow_tl min_def)

lemma peek_output_eq [bs_simps]: "peek_output s len = take len (bs_buff s)"
  by (simp add: peek_output_def Let_def min_def)

lemma bs_read_eq [bs_simps]: "bs_read s len = (take len (bs_buff s), pop_output s len)"
  by (simp add: bs_read_def peek_output_eq Let_def)

lemma bs_inv_write: "bs_inv s \<Longrightarrow> bs_inv (snd (bs_write s data))"
  by (auto simp: bs_write_eq bs_inv_def remaining_capacity_exact Let_def sz_add_assoc
      remaining_capacity_def sz_sub_exact min_def)

lemma bs_inv_pop: "bs_inv s \<Longrightarrow> bs_inv (pop_output s len)"
  by (auto simp: pop_output_eq bs_inv_def sz_add_assoc min_def)

lemma bs_inv_read: "bs_inv s \<Longrightarrow> bs_inv (snd (bs_read s len))"
  by (simp add: bs_read_eq bs_inv_pop)

lemma bs_inv_end_input [simp]: "bs_inv (end_input s) = bs_inv s"
  by (simp add: end_input_def bs_inv_def)

lemma bs_inv_set_error [simp]: "bs_inv (set_error s) = bs_inv s"
  by (simp add: set_error_def bs_inv_def)

section \<open>The queue contract\<close>

text \<open>
  What a user of a byte queue relies on: \<open>put\<close> appends the longest prefix that fits unless the
  queue is closed and returns its length, \<open>get\<close> removes and returns a prefix of the contents, and
  closing changes neither contents nor room. \<open>queue_trace\<close> runs a list of calls and collects the
  bytes that were accepted and the bytes that were delivered.
\<close>

datatype queue_call = Put bytes | Get nat | Close

fun queue_trace ::
  "('q \<Rightarrow> bytes \<Rightarrow> nat \<times> 'q) \<Rightarrow> ('q \<Rightarrow> nat \<Rightarrow> bytes \<times> 'q) \<Rightarrow> ('q \<Rightarrow> 'q) \<Rightarrow>
   'q \<Rightarrow> queue_call list \<Rightarrow> bytes \<times> bytes \<times> 'q" where
  "queue_trace put get close q [] = ([], [], q)"
| "queue_trace put get close q (Put d # cs) =
     (let (n, q') = put q d; (acc, del, q'') = queue_trace put get close q' cs
      in (take n d @ acc, del, q''))"
| "queue_trace put get close q (Get n # cs) =
     (let (d, q') = get q n; (acc, del, q'') = queue_trace put get close q' cs
      in (acc, d @ del, q''))"
| "queue_trace put get close q (Close # cs) = queue_trace put get close (close q) cs"

locale byte_queue =
  fixes inv :: "'q \<Rightarrow> bool"
    and contents :: "'q \<Rightarrow> bytes"
    and limit :: "'q \<Rightarrow> nat"
    and closed :: "'q \<Rightarrow> bool"
    and put :: "'q \<Rightarrow> bytes \<Rightarrow> nat \<times> 'q"
    and get :: "'q \<Rightarrow> nat \<Rightarrow> bytes \<times> 'q"
    and close :: "'q \<Rightarrow> 'q"
  assumes put_length: "inv q \<Longrightarrow> fst (put q d) =
      (if closed q then 0 else min (length d) (limit q - length (contents q)))"
    and put_contents: "inv q \<Longrightarrow> contents (snd (put q d)) = contents q @ take (fst (put q d)) d"
    and put_frame: "inv q \<Longrightarrow> inv (snd (put q d)) \<and> limit (snd (put q d)) = limit q \<and>
      closed (snd (put q d)) = closed q"
    and get_data: "inv q \<Longrightarrow> fst (get q n) = take n (contents q)"
    and get_contents: "inv q \<Longrightarrow> contents (snd (get q n)) = drop n (contents q)"
    and get_frame: "inv q \<Longrightarrow> inv (snd (get q n)) \<and> limit (snd (get q n)) = limit q \<and>
      closed (snd (get q n)) = closed q"
    and close_frame: "inv q \<Longrightarrow> inv (close q) \<and> contents (close q) = contents q \<and>
      limit (close q) = limit q \<and> closed (close q)"
    and contents_limit: "inv q \<Longrightarrow> length (contents q) \<le> limit q"
begin

lemma trace_fifo:
  "inv q \<Longrightarrow> queue_trace put get close q cs = (acc, del, q') \<Longrightarrow>
     inv q' \<and> limit q' = limit q \<and> contents q @ acc = del @ contents q'"
proof (induction cs arbitrary: q acc del)
  case Nil
  then show ?case by simp
next
  case (Cons c cs)
  show ?case
  proof (cases c)
    case (Put d)
    obtain n p where np: "put q d = (n, p)" by fastforce
    obtain acc' where tr: "queue_trace put get close p cs = (acc', del, q')"
      and acc: "acc = take n d @ acc'"
      using Cons.prems Put np by (auto split: prod.splits)
    have "inv p" "limit p = limit q" "contents p = contents q @ take n d"
      using put_frame [of q d] put_contents [of q d] Cons.prems np by auto
    with Cons.IH [OF _ tr] acc show ?thesis by simp
  next
    case (Get n)
    obtain d p where np: "get q n = (d, p)" by fastforce
    obtain del' where tr: "queue_trace put get close p cs = (acc, del', q')"
      and del: "del = d @ del'"
      using Cons.prems Get np by (auto split: prod.splits)
    have "inv p" "limit p = limit q" "contents p = drop n (contents q)" "d = take n (contents q)"
      using get_frame [of q n] get_contents [of q n] get_data [of q n] Cons.prems np by auto
    with Cons.IH [OF _ tr] del show ?thesis
      by (metis append.assoc append_take_drop_id)
  next
    case Close
    with Cons.prems Cons.IH [of "close q"] close_frame [of q] show ?thesis by simp
  qed
qed

lemma trace_closed:
  "inv q \<Longrightarrow> closed q \<Longrightarrow> queue_trace put get close q cs = (acc, del, q') \<Longrightarrow> acc = []"
proof (induction cs arbitrary: q acc del)
  case Nil
  then show ?case by simp
next
  case (Cons c cs)
  show ?case
  proof (cases c)
    case (Put d)
    with Cons.prems Cons.IH [of "snd (put q d)"] put_frame [of q d] put_length [of q d]
    show ?thesis by (auto split: prod.splits)
  next
    case (Get n)
    with Cons.prems Cons.IH [of "snd (get q n)"] get_frame [of q n]
    show ?thesis by (auto split: prod.splits)
  next
    case Close
    with Cons.prems Cons.IH [of "close q"] close_frame [of q] show ?thesis by simp
  qed
qed

lemma put_then_get:
  "inv q \<Longrightarrow> \<not> closed q \<Longrightarrow> length (contents q) + length d \<le> limit q \<Longrightarrow>
     contents q = [] \<Longrightarrow> fst (get (snd (put q d)) (length d)) = d"
  using put_frame put_contents put_length get_data by simp

lemma get_add:
  "inv q \<Longrightarrow> fst (get q (m + n)) = fst (get q m) @ fst (get (snd (get q m)) n)"
  using get_data get_frame get_contents by (simp add: take_add)

end

interpretation bsq: byte_queue bs_inv bs_buff bs_capacity bs_end_input bs_write bs_read end_input
proof
  fix q d
  assume inv: "bs_inv q"
  then show "fst (bs_write q d) =
      (if bs_end_input q then 0 else min (length d) (bs_capacity q - length (bs_buff q)))"
    by (simp add: bs_write_eq remaining_capacity_exact Let_def)
  from inv show "bs_buff (snd (bs_write q d)) = bs_buff q @ take (fst (bs_write q d)) d"
    by (simp add: bs_write_eq Let_def)
  from inv show "bs_inv (snd (bs_write q d)) \<and>
      bs_capacity (snd (bs_write q d)) = bs_capacity q \<and>
      bs_end_input (snd (bs_write q d)) = bs_end_input q"
    by (simp add: bs_inv_write) (simp add: bs_write_eq Let_def)
next
  fix q n
  assume inv: "bs_inv q"
  then show "fst (bs_read q n) = take n (bs_buff q)"
    and "bs_buff (snd (bs_read q n)) = drop n (bs_buff q)"
    by (simp_all add: bs_simps)
  from inv show "bs_inv (snd (bs_read q n)) \<and>
      bs_capacity (snd (bs_read q n)) = bs_capacity q \<and>
      bs_end_input (snd (bs_read q n)) = bs_end_input q"
    by (simp add: bs_inv_read) (simp add: bs_simps)
next
  fix q
  assume inv: "bs_inv q"
  then show "bs_inv (end_input q) \<and> bs_buff (end_input q) = bs_buff q \<and>
      bs_capacity (end_input q) = bs_capacity q \<and> bs_end_input (end_input q)"
    by (simp add: end_input_def bs_inv_def)
  from inv show "length (bs_buff q) \<le> bs_capacity q"
    by (rule bs_invD)
qed

section \<open>Refinement of an unbounded channel\<close>

text \<open>
  The abstract channel keeps the whole history of accepted bytes and how many of them were taken.
  All public mutators of the class appear as calls.
\<close>

record channel =
  ch_data :: bytes
  ch_taken :: nat
  ch_limit :: nat
  ch_ended :: bool
  ch_failed :: bool

datatype bs_call = BsWrite bytes | BsPop size_t | BsRead size_t | BsEndInput | BsSetError

fun bs_step :: "byte_stream \<Rightarrow> bs_call \<Rightarrow> byte_stream option" where
  "bs_step s (BsWrite d) = Some (snd (bs_write s d))"
| "bs_step s (BsPop n) = Some (pop_output s n)"
| "bs_step s (BsRead n) = Some (snd (bs_read s n))"
| "bs_step s BsEndInput = Some (end_input s)"
| "bs_step s BsSetError = Some (set_error s)"

definition ch_new :: "nat \<Rightarrow> channel" where
  "ch_new cap = \<lparr>ch_data = [], ch_taken = 0, ch_limit = cap, ch_ended = False, ch_failed = False\<rparr>"

fun ch_step :: "channel \<Rightarrow> bs_call \<Rightarrow> channel" where
  "ch_step c (BsWrite d) =
     (if ch_ended c then c
      else c\<lparr>ch_data := ch_data c @ take (ch_limit c - (length (ch_data c) - ch_taken c)) d\<rparr>)"
| "ch_step c (BsPop n) = c\<lparr>ch_taken := min (length (ch_data c)) (ch_taken c + n)\<rparr>"
| "ch_step c (BsRead n) = c\<lparr>ch_taken := min (length (ch_data c)) (ch_taken c + n)\<rparr>"
| "ch_step c BsEndInput = c\<lparr>ch_ended := True\<rparr>"
| "ch_step c BsSetError = c\<lparr>ch_failed := True\<rparr>"

definition bs_rel :: "byte_stream \<Rightarrow> channel \<Rightarrow> bool" where
  "bs_rel s c \<longleftrightarrow>
     bs_inv s \<and> ch_taken c \<le> length (ch_data c) \<and>
     bs_buff s = drop (ch_taken c) (ch_data c) \<and>
     bs_bytes_r s = ch_taken c mod SIZE_MOD \<and>
     bs_capacity s = ch_limit c \<and> bs_end_input s = ch_ended c \<and> bs_error s = ch_failed c"

lemma bs_rel_written: "bs_rel s c \<Longrightarrow> bs_bytes_w s = length (ch_data c) mod SIZE_MOD"
  by (auto simp: bs_rel_def bs_inv_def sz_add_mod_left)

lemma bs_rel_pop:
  "bs_rel s c \<Longrightarrow> bs_rel (pop_output s n) (c\<lparr>ch_taken := min (length (ch_data c)) (ch_taken c + n)\<rparr>)"
proof -
  assume rel: "bs_rel s c"
  then have "ch_taken c + min n (length (bs_buff s)) = min (length (ch_data c)) (ch_taken c + n)"
    by (auto simp: bs_rel_def)
  with rel show ?thesis
    using bs_inv_pop [of s n]
    by (auto simp: bs_rel_def pop_output_eq sz_add_mod_left ac_simps)
qed

lemma bs_rel_write:
  "bs_rel s c \<Longrightarrow> bs_rel (snd (bs_write s d)) (ch_step c (BsWrite d))"
  using bs_inv_write [of s d]
  by (auto simp: bs_rel_def bs_write_eq Let_def remaining_capacity_exact)

lemma bs_rel_step: "bs_rel s c \<Longrightarrow> \<exists>s'. bs_step s e = Some s' \<and> bs_rel s' (ch_step c e)"
proof (cases e)
  case (BsWrite d)
  then show "bs_rel s c \<Longrightarrow> ?thesis" using bs_rel_write [of s c d] by simp
qed (auto simp: bs_rel_pop bs_read_eq, auto simp: bs_rel_def end_input_def set_error_def bs_inv_def)

interpretation bsr: simulation bs_step "\<lambda>_ _. True" ch_step bs_rel
  by unfold_locales (rule bs_rel_step)

lemma run_admissible_True [simp]: "run_admissible step (\<lambda>_ _. True) s es"
  by (induction es arbitrary: s) (auto split: option.splits)

section \<open>Properties\<close>

text \<open>
  Whatever sequence of writes, reads and end-of-input calls is made on a new stream, the bytes
  the writes reported as accepted are exactly the bytes the reads returned, in order, followed by
  what is still in the buffer; and the buffer never exceeds the capacity.
\<close>

theorem byte_stream_fifo:
  assumes "cap < SIZE_MOD"
    and "queue_trace bs_write bs_read end_input (bs_new cap) calls = (accepted, delivered, s)"
  shows "accepted = delivered @ bs_buff s \<and> buffer_size s \<le> cap \<and>
    remaining_capacity s = cap - buffer_size s"
proof -
  have "bs_inv s \<and> bs_capacity s = cap \<and> accepted = delivered @ bs_buff s"
    using bsq.trace_fifo [OF _ assms(2)] assms(1) by (simp add: bs_new_def bs_inv_def)
  then show ?thesis
    using bs_invD(1) [of s] by (simp add: buffer_size_def remaining_capacity_exact)
qed

theorem byte_stream_fifo_witness:
  "(let (accepted, delivered, s) =
      queue_trace bs_write bs_read end_input (bs_new 3) [Put [1, 2], Get 1, Put [3, 4, 5], Get 2, Close, Put [6]]
    in accepted = [1, 2, 3, 4] \<and> delivered = [1, 2, 3] \<and> accepted = delivered @ bs_buff s)"
proof -
  have run: "queue_trace bs_write bs_read end_input (bs_new 3)
      [Put [1, 2], Get 1, Put [3, 4, 5], Get 2, Close, Put [6]] =
     ([1, 2, 3, 4], [1, 2, 3],
      \<lparr>bs_buff = [4], bs_capacity = 3, bs_bytes_r = 3, bs_bytes_w = 4, bs_end_input = True, bs_error = False\<rparr>)"
    by (simp add: bs_simps bs_new_def remaining_capacity_def sz_sub_def sz_add_def SIZE_MOD_def end_input_def)
  have cap: "(3::nat) < SIZE_MOD" by (simp add: SIZE_MOD_def)
  show ?thesis
    unfolding run using byte_stream_fifo [OF cap run] by simp
qed

text \<open>
  C38: The class refines the abstract channel: after any sequence of calls of its mutators on a new
  stream, the buffer is the part of the accepted history that was not taken yet, the flags agree,
  and the two counters are the lengths of history and of its taken part, modulo the width of
  \<open>size_t\<close>.
\<close>

theorem byte_stream_refines_channel:
  assumes "cap < SIZE_MOD"
  shows "\<exists>s. run_steps bs_step (bs_new cap) calls = Some s \<and>
    (let c = foldl ch_step (ch_new cap) calls in
       bs_buff s = drop (ch_taken c) (ch_data c) \<and>
       bytes_read s = ch_taken c mod SIZE_MOD \<and>
       bytes_written s = length (ch_data c) mod SIZE_MOD \<and>
       input_ended s = ch_ended c \<and> bs_error s = ch_failed c)"
proof -
  have "bs_rel (bs_new cap) (ch_new cap)"
    using assms by (simp add: bs_rel_def bs_inv_def bs_new_def ch_new_def)
  from bsr.run_sim [OF this run_admissible_True] obtain s where
    "run_steps bs_step (bs_new cap) calls = Some s"
    "bs_rel s (foldl ch_step (ch_new cap) calls)" by blast
  then show ?thesis
    using bs_rel_written [of s] by (auto simp: bs_rel_def bs_accessor_defs Let_def)
qed

theorem byte_stream_refines_channel_witness:
  "\<exists>s. run_steps bs_step (bs_new 2) [BsWrite [7, 8, 9], BsPop 1, BsSetError, BsEndInput] = Some s \<and>
     bs_buff s = [8] \<and> bytes_written s = 2 \<and> bytes_read s = 1 \<and> input_ended s \<and> bs_error s"
proof -
  have "(2::nat) < SIZE_MOD" by (simp add: SIZE_MOD_def)
  from byte_stream_refines_channel [OF this, of "[BsWrite [7, 8, 9], BsPop 1, BsSetError, BsEndInput]"]
  show ?thesis by (simp add: ch_new_def Let_def SIZE_MOD_def)
qed

end
