(* ===== verification/Stream_Reassembler.thy ===== *)
theory Stream_Reassembler
  imports Byte_Stream
begin

text \<open>
  The reassembler of \<open>libsponge/stream_reassembler.hh\<close> and \<open>stream_reassembler.cc\<close>. Substrings of a
  stream arrive in any order, with overlaps; the reassembler stores the pieces that are not yet
  contiguous in a \<open>std::set\<close> ordered by start index and writes what has become contiguous to its
  output stream. The \<open>std::set\<close> is a list that \<open>seg_insert\<close> keeps ordered and free of equal keys.
  A member function that may throw (through \<open>std::string::substr\<close>) returns an option.
\<close>

section \<open>The class\<close>

record segment =
  seg_idx :: size_t
  seg_data :: bytes

definition seg_length :: "segment \<Rightarrow> size_t" where
  "seg_length s = length (seg_data s)"

definition tail_idx :: "segment \<Rightarrow> size_t" where
  "tail_idx s = sz_sub (sz_add (seg_idx s) (seg_length s)) 1"

definition seg_less :: "segment \<Rightarrow> segment \<Rightarrow> bool" where
  "seg_less s t = (seg_idx s < seg_idx t)"

text \<open>Insertion into the ordered set: an element with an equal key is not inserted.\<close>

fun seg_insert :: "segment \<Rightarrow> segment list \<Rightarrow> segment list" where
  "seg_insert s [] = [s]"
| "seg_insert s (t # ts) =
     (if seg_less s t then s # t # ts
      else if seg_less t s then t # seg_insert s ts
      else t # ts)"

record stream_reassembler =
  sr_output :: byte_stream
  sr_capacity :: size_t
  sr_eof_index :: size_t
  sr_unassembled_bytes :: size_t
  sr_eof :: bool
  sr_buf :: "segment list"

definition sr_new :: "size_t \<Rightarrow> stream_reassembler" where
  "sr_new cap = \<lparr>sr_output = bs_new cap, sr_capacity = cap, sr_eof_index = 0,
                 sr_unassembled_bytes = 0, sr_eof = False, sr_buf = []\<rparr>"

definition first_unread :: "stream_reassembler \<Rightarrow> size_t" where
  "first_unread r = bytes_read (sr_output r)"

definition first_unassembled :: "stream_reassembler \<Rightarrow> size_t" where
  "first_unassembled r = bytes_written (sr_output r)"

definition first_unacceptable :: "stream_reassembler \<Rightarrow> size_t" where
  "first_unacceptable r = sz_add (first_unread r) (sr_capacity r)"

definition unassembled_bytes :: "stream_reassembler \<Rightarrow> size_t" where
  "unassembled_bytes r = sr_unassembled_bytes r"

definition sr_empty :: "stream_reassembler \<Rightarrow> bool" where
  "sr_empty r = (sr_buf r = [])"

definition buf_erase :: "stream_reassembler \<Rightarrow> segment \<Rightarrow> stream_reassembler" where
  "buf_erase r it =
     r\<lparr>sr_unassembled_bytes := sz_sub (sr_unassembled_bytes r) (seg_length it),
       sr_buf := remove1 it (sr_buf r)\<rparr>"

definition buf_insert :: "stream_reassembler \<Rightarrow> segment \<Rightarrow> stream_reassembler" where
  "buf_insert r seg =
     r\<lparr>sr_unassembled_bytes := sz_add (sr_unassembled_bytes r) (seg_length seg),
       sr_buf := seg_insert seg (sr_buf r)\<rparr>"

text \<open>\<open>std::string::substr(pos)\<close> and \<open>substr(pos, n)\<close> throw \<open>out_of_range\<close> when \<open>pos > size()\<close>.\<close>

definition substr_from :: "bytes \<Rightarrow> size_t \<Rightarrow> bytes option" where
  "substr_from s pos = (if pos \<le> length s then Some (drop pos s) else None)"

definition substr_to :: "bytes \<Rightarrow> size_t \<Rightarrow> bytes" where
  "substr_to s n = take n s"

definition merge_seg :: "segment \<Rightarrow> segment \<Rightarrow> segment option" where
  "merge_seg seg1 seg2 =
     (let seg1_tail = tail_idx seg1; seg2_tail = tail_idx seg2
      in if seg_idx seg1 < seg_idx seg2 \<and> seg1_tail \<le> seg2_tail then
           Some (seg1\<lparr>seg_data :=
             substr_to (seg_data seg1) (sz_sub (seg_idx seg2) (seg_idx seg1)) @ seg_data seg2\<rparr>)
         else if seg_idx seg1 \<ge> seg_idx seg2 \<and> seg1_tail > seg2_tail then do {
           rest \<leftarrow> substr_from (seg_data seg1)
             (sz_sub (sz_add (seg_idx seg2) (seg_length seg2)) (seg_idx seg1));
           Some (seg1\<lparr>seg_data := seg_data seg2 @ rest, seg_idx := seg_idx seg2\<rparr>)
         }
         else if seg_idx seg1 \<ge> seg_idx seg2 \<and> seg1_tail \<le> seg2_tail then
           Some (seg1\<lparr>seg_data := seg_data seg2, seg_idx := seg_idx seg2\<rparr>)
         else Some seg1)"

text \<open>
  One iteration of the loop of \<open>_handle_overlap\<close>, at the set element \<open>it\<close>. Erasing an element
  leaves the iterators to the others valid, so the loop visits the elements the set had at its
  start, in order.
\<close>

definition overlap_step ::
  "size_t \<Rightarrow> size_t \<Rightarrow> segment \<times> stream_reassembler \<Rightarrow> segment \<Rightarrow>
   (segment \<times> stream_reassembler) option" where
  "overlap_step seg_index seg_tail st it =
     (let (seg, r) = st; buf_index = seg_idx it; buf_tail = tail_idx it
      in if (seg_index \<le> buf_tail \<and> seg_index \<ge> buf_index) \<or>
            (seg_tail \<ge> buf_index \<and> seg_index \<le> buf_index) then do {
           seg' \<leftarrow> merge_seg seg it;
           Some (seg', buf_erase r it)
         }
         else Some (seg, r))"

definition handle_overlap :: "stream_reassembler \<Rightarrow> segment \<Rightarrow> stream_reassembler option" where
  "handle_overlap r seg = do {
     (seg', r') \<leftarrow> run_steps (overlap_step (seg_idx seg) (tail_idx seg)) (seg, r) (sr_buf r);
     Some (buf_insert r' seg')
   }"

text \<open>The two truncations of \<open>_handle_substring\<close>; \<open>index\<close> is the start index the segment had on entry.\<close>

definition clip_front :: "stream_reassembler \<Rightarrow> size_t \<Rightarrow> segment \<Rightarrow> segment option" where
  "clip_front r index seg =
     (if index < first_unassembled r \<and> tail_idx seg \<ge> first_unassembled r then do {
        d \<leftarrow> substr_from (seg_data seg) (sz_sub (first_unassembled r) index);
        Some (seg\<lparr>seg_data := d, seg_idx := first_unassembled r\<rparr>)
      }
      else Some seg)"

definition clip_back :: "stream_reassembler \<Rightarrow> size_t \<Rightarrow> segment \<Rightarrow> segment" where
  "clip_back r index seg =
     (if index < first_unacceptable r \<and> tail_idx seg \<ge> first_unacceptable r
      then seg\<lparr>seg_data := substr_to (seg_data seg) (sz_sub (first_unacceptable r) index)\<rparr>
      else seg)"

definition handle_substring :: "stream_reassembler \<Rightarrow> segment \<Rightarrow> stream_reassembler option" where
  "handle_substring r seg =
     (let index = seg_idx seg
      in if index \<ge> first_unacceptable r \<or> tail_idx seg < first_unassembled r then Some r
         else do {
           seg \<leftarrow> clip_front r index seg;
           let seg = clip_back r index seg;
           (if sr_buf r = [] then Some (buf_insert r seg) else handle_overlap r seg)
         })"

text \<open>The \<open>while\<close> loop of \<open>push_substring\<close>: each iteration erases the first stored segment.\<close>

function sr_flush :: "stream_reassembler \<Rightarrow> stream_reassembler" where
  "sr_flush r =
     (case sr_buf r of
        [] \<Rightarrow> r
      | it # _ \<Rightarrow>
          if seg_idx it = first_unassembled r
          then sr_flush (buf_erase (r\<lparr>sr_output := snd (bs_write (sr_output r) (seg_data it))\<rparr>) it)
          else r)"
  by pat_completeness auto
termination
  by (relation "measure (\<lambda>r. length (sr_buf r))") (auto simp: buf_erase_def)

definition push_substring ::
  "stream_reassembler \<Rightarrow> bytes \<Rightarrow> size_t \<Rightarrow> bool \<Rightarrow> stream_reassembler option" where
  "push_substring r data index eof = do {
     let r = (if eof then r\<lparr>sr_eof_index := sz_add index (length data), sr_eof := True\<rparr> else r);
     r \<leftarrow> (if data \<noteq> [] then handle_substring r \<lparr>seg_idx = index, seg_data = data\<rparr> else Some r);
     let r = sr_flush r;
     Some (if sr_eof r \<and> first_unassembled r = sr_eof_index r
           then r\<lparr>sr_output := end_input (sr_output r), sr_buf := []\<rparr> else r)
   }"

declare sr_flush.simps [simp del]

section \<open>Segments as intervals\<close>

definition seg_end :: "segment \<Rightarrow> nat" where
  "seg_end s = seg_idx s + length (seg_data s)"

definition seg_covers :: "segment \<Rightarrow> nat \<Rightarrow> bool" where
  "seg_covers s i \<longleftrightarrow> seg_idx s \<le> i \<and> i < seg_end s"

definition segs_cover :: "segment list \<Rightarrow> nat \<Rightarrow> bool" where
  "segs_cover ss i \<longleftrightarrow> (\<exists>s \<in> set ss. seg_covers s i)"

text \<open>\<open>P\<close> holds for every byte of a segment at its stream index.\<close>

definition data_all :: "(nat \<Rightarrow> byte \<Rightarrow> bool) \<Rightarrow> nat \<Rightarrow> bytes \<Rightarrow> bool" where
  "data_all P i xs \<longleftrightarrow> (\<forall>k < length xs. P (i + k) (xs ! k))"

definition seg_all :: "(nat \<Rightarrow> byte \<Rightarrow> bool) \<Rightarrow> segment \<Rightarrow> bool" where
  "seg_all P s = data_all P (seg_idx s) (seg_data s)"

text \<open>Non-empty segments in ascending order that do not overlap and start at \<open>lo\<close> or later.\<close>

fun seg_chain :: "nat \<Rightarrow> segment list \<Rightarrow> bool" where
  "seg_chain lo [] = True"
| "seg_chain lo (s # ss) = (lo \<le> seg_idx s \<and> seg_data s \<noteq> [] \<and> seg_chain (seg_end s) ss)"

definition seg_total :: "segment list \<Rightarrow> nat" where
  "seg_total ss = sum_list (map seg_length ss)"

lemma seg_end_gt: "seg_data s \<noteq> [] \<Longrightarrow> seg_idx s < seg_end s"
  by (simp add: seg_end_def)

lemma seg_data_nonempty_iff: "seg_data s \<noteq> [] \<longleftrightarrow> seg_idx s < seg_end s"
  by (simp add: seg_end_def)

lemma tail_idx_exact:
  assumes "seg_data s \<noteq> []" and "seg_end s \<le> SIZE_MOD"
  shows "tail_idx s = seg_end s - 1"
proof (cases "seg_end s = SIZE_MOD")
  case True
  then have "sz_add (seg_idx s) (seg_length s) = 0"
    by (simp add: sz_add_def seg_end_def seg_length_def)
  with True show ?thesis
    by (simp add: tail_idx_def sz_sub_wraps)
next
  case False
  with assms have "sz_add (seg_idx s) (seg_length s) = seg_end s"
    by (simp add: sz_add_exact seg_end_def seg_length_def)
  with False assms seg_end_gt [of s] show ?thesis
    by (simp add: tail_idx_def sz_sub_exact)
qed

lemma seg_chain_mono: "seg_chain hi ss \<Longrightarrow> lo \<le> hi \<Longrightarrow> seg_chain lo ss"
  by (cases ss) auto

lemma seg_chain_mem:
  "seg_chain lo ss \<Longrightarrow> s \<in> set ss \<Longrightarrow> lo \<le> seg_idx s \<and> seg_data s \<noteq> []"
proof (induction ss arbitrary: lo)
  case (Cons t ss)
  have "lo \<le> seg_end t" using Cons.prems(1) by (simp add: seg_end_def)
  with Cons show ?case by fastforce
qed simp

lemma seg_chain_distinct: "seg_chain lo ss \<Longrightarrow> distinct ss"
proof (induction ss arbitrary: lo)
  case (Cons t ss)
  then have "t \<notin> set ss"
    using seg_chain_mem [of "seg_end t" ss t] seg_end_gt [of t] by auto
  with Cons show ?case by auto
qed simp

lemma seg_chain_filter: "seg_chain lo ss \<Longrightarrow> seg_chain lo (filter P ss)"
proof (induction ss arbitrary: lo)
  case (Cons t ss)
  then have "seg_chain (seg_end t) (filter P ss)" by simp
  with Cons.prems show ?case
    by (auto simp: seg_end_def elim: seg_chain_mono)
qed simp

lemma seg_chain_disjoint:
  assumes "seg_chain lo ss" and "s \<in> set ss" and "t \<in> set ss" and "s \<noteq> t"
  shows "seg_end s \<le> seg_idx t \<or> seg_end t \<le> seg_idx s"
  using assms
proof (induction ss arbitrary: lo)
  case (Cons u ss)
  then show ?case
    using seg_chain_mem [of "seg_end u" ss] by auto
qed simp

lemma seg_chain_total: "seg_chain lo ss \<Longrightarrow> \<forall>s \<in> set ss. seg_end s \<le> hi \<Longrightarrow> lo \<le> hi \<Longrightarrow>
    seg_total ss \<le> hi - lo"
proof (induction ss arbitrary: lo)
  case (Cons t ss)
  then have "seg_total ss \<le> hi - seg_end t" by simp
  with Cons.prems show ?case
    by (auto simp: seg_total_def seg_length_def seg_end_def)
qed (simp add: seg_total_def)

lemma seg_insert_chain:
  assumes "seg_chain lo ss" and "lo \<le> seg_idx m" and "seg_data m \<noteq> []"
    and "\<forall>t \<in> set ss. seg_end m \<le> seg_idx t \<or> seg_end t \<le> seg_idx m"
  shows "seg_chain lo (seg_insert m ss) \<and> set (seg_insert m ss) = insert m (set ss) \<and>
    seg_total (seg_insert m ss) = seg_length m + seg_total ss"
  using assms
proof (induction ss arbitrary: lo)
  case Nil
  then show ?case by (simp add: seg_total_def)
next
  case (Cons t ss)
  have t: "seg_idx t < seg_end t" and m: "seg_idx m < seg_end m"
    using Cons.prems by (auto simp: seg_data_nonempty_iff)
  have dis: "seg_end m \<le> seg_idx t \<or> seg_end t \<le> seg_idx m"
    using Cons.prems by simp
  show ?case
  proof (cases "seg_idx m < seg_idx t")
    case True
    with dis t have "seg_end m \<le> seg_idx t" by linarith
    with True Cons.prems show ?thesis
      by (auto simp: seg_less_def seg_total_def)
  next
    case False
    with dis m have le: "seg_end t \<le> seg_idx m" by linarith
    with Cons.IH [of "seg_end t"] Cons.prems t show ?thesis
      by (auto simp: seg_less_def seg_total_def)
  qed
qed

section \<open>Bytes at stream indices\<close>

lemma data_all_Nil [simp]: "data_all P i []"
  by (simp add: data_all_def)

lemma data_all_append:
  "data_all P i (xs @ ys) \<longleftrightarrow> data_all P i xs \<and> data_all P (i + length xs) ys"
proof
  assume l: "data_all P i (xs @ ys)"
  have "P (i + k) (xs ! k)" if "k < length xs" for k
    using l that by (auto simp: data_all_def nth_append dest: spec [of _ k])
  moreover have "P (i + length xs + k) (ys ! k)" if "k < length ys" for k
    using l that by (auto simp: data_all_def nth_append add.assoc dest: spec [of _ "length xs + k"])
  ultimately show "data_all P i xs \<and> data_all P (i + length xs) ys"
    by (simp add: data_all_def)
next
  assume r: "data_all P i xs \<and> data_all P (i + length xs) ys"
  show "data_all P i (xs @ ys)"
    unfolding data_all_def
  proof (intro allI impI)
    fix k
    assume "k < length (xs @ ys)"
    with r show "P (i + k) ((xs @ ys) ! k)"
      by (cases "k < length xs")
        (auto simp: data_all_def nth_append dest: spec [of _ k] spec [of _ "k - length xs"])
  qed
qed

lemma data_all_take: "data_all P i xs \<Longrightarrow> data_all P i (take n xs)"
  by (metis append_take_drop_id data_all_append)

lemma data_all_drop: "data_all P i xs \<Longrightarrow> n \<le> length xs \<Longrightarrow> data_all P (i + n) (drop n xs)"
  using data_all_append [of P i "take n xs" "drop n xs"] by simp

lemma data_all_conj:
  "data_all (\<lambda>i b. P i b \<and> Q i b) i xs \<longleftrightarrow> data_all P i xs \<and> data_all Q i xs"
  by (auto simp: data_all_def)

section \<open>Merging\<close>

definition seg_meets :: "nat \<Rightarrow> nat \<Rightarrow> segment \<Rightarrow> bool" where
  "seg_meets a b t \<longleftrightarrow> a < seg_end t \<and> seg_idx t < b"

lemma merge_seg_spec:
  assumes "seg_data m \<noteq> []" and "seg_data t \<noteq> []"
    and "seg_end m \<le> SIZE_MOD" and "seg_end t \<le> SIZE_MOD"
    and "seg_meets (seg_idx m) (seg_end m) t"
  shows "\<exists>m'. merge_seg m t = Some m' \<and> seg_idx m' = min (seg_idx m) (seg_idx t) \<and>
    seg_end m' = max (seg_end m) (seg_end t) \<and> (\<forall>P. seg_all P m \<longrightarrow> seg_all P t \<longrightarrow> seg_all P m')"
proof -
  have tails: "tail_idx m = seg_end m - 1" "tail_idx t = seg_end t - 1"
    using assms by (simp_all add: tail_idx_exact)
  have ne: "seg_idx m < seg_end m" "seg_idx t < seg_end t"
    and meet: "seg_idx m < seg_end t" "seg_idx t < seg_end m"
    using assms by (simp_all add: seg_data_nonempty_iff seg_meets_def)
  consider (ext) "seg_idx m < seg_idx t" "seg_end m \<le> seg_end t"
    | (pre) "seg_idx t \<le> seg_idx m" "seg_end t < seg_end m"
    | (inside) "seg_idx t \<le> seg_idx m" "seg_end m \<le> seg_end t"
    | (around) "seg_idx m < seg_idx t" "seg_end t < seg_end m" by linarith
  then show ?thesis
  proof cases
    case ext
    let ?d = "take (seg_idx t - seg_idx m) (seg_data m) @ seg_data t"
    have merge: "merge_seg m t = Some (m\<lparr>seg_data := ?d\<rparr>)"
      using ext ne assms by (simp add: merge_seg_def tails substr_to_def sz_sub_exact Let_def)
    have len: "length (take (seg_idx t - seg_idx m) (seg_data m)) = seg_idx t - seg_idx m"
      using ext meet by (simp add: seg_end_def)
    show ?thesis
      using ext merge len
      by (auto simp: seg_all_def data_all_append data_all_take seg_end_def)
  next
    case pre
    let ?n = "seg_end t - seg_idx m"
    have n: "sz_sub (sz_add (seg_idx t) (seg_length t)) (seg_idx m) = ?n"
      using pre meet assms ne
      by (simp add: sz_add_exact sz_sub_exact seg_length_def seg_end_def)
    have le: "?n \<le> length (seg_data m)"
      using pre by (simp add: seg_end_def)
    have merge: "merge_seg m t =
        Some (m\<lparr>seg_data := seg_data t @ drop ?n (seg_data m), seg_idx := seg_idx t\<rparr>)"
      using pre ne le diff_less_mono [of "seg_end t" "seg_end m" 1]
      by (simp add: merge_seg_def tails n substr_from_def Let_def)
    have "seg_idx m + ?n = seg_idx t + length (seg_data t)"
      using meet by (simp add: seg_end_def)
    then have "seg_all P m \<Longrightarrow> data_all P (seg_idx t + length (seg_data t)) (drop ?n (seg_data m))" for P
      using data_all_drop [OF _ le] by (fastforce simp: seg_all_def)
    then show ?thesis
      using pre merge meet le by (auto simp: seg_all_def data_all_append seg_end_def)
  next
    case inside
    with ne have "merge_seg m t = Some (m\<lparr>seg_data := seg_data t, seg_idx := seg_idx t\<rparr>)"
      using diff_le_mono [of "seg_end m" "seg_end t" 1] by (simp add: merge_seg_def tails Let_def)
    with inside show ?thesis by (auto simp: seg_all_def seg_end_def)
  next
    case around
    with ne have "merge_seg m t = Some m"
      using diff_less_mono [of "seg_end t" "seg_end m" 1] by (simp add: merge_seg_def tails Let_def)
    with around show ?thesis by auto
  qed
qed

lemma overlap_test_iff:
  assumes "a < b" and "seg_data t \<noteq> []" and "seg_end t \<le> SIZE_MOD"
  shows "((a \<le> tail_idx t \<and> a \<ge> seg_idx t) \<or> (b - 1 \<ge> seg_idx t \<and> a \<le> seg_idx t)) = seg_meets a b t"
  using assms by (auto simp: tail_idx_exact seg_meets_def seg_data_nonempty_iff)

lemma overlap_step_meets:
  assumes "a < b" and "seg_data t \<noteq> []" and "seg_end t \<le> SIZE_MOD"
  shows "overlap_step a (b - 1) (m, r) t =
    (if seg_meets a b t then merge_seg m t \<bind> (\<lambda>m'. Some (m', buf_erase r t)) else Some (m, r))"
  by (simp only: overlap_step_def Let_def prod.case overlap_test_iff [OF assms])

lemma seg_total_simps [simp]:
  "seg_total [] = 0" "seg_total (s # ss) = length (seg_data s) + seg_total ss"
  "seg_total (ss @ ts) = seg_total ss + seg_total ts"
  by (simp_all add: seg_total_def seg_length_def)

text \<open>\<open>m'\<close> is \<open>m\<close> with the segments \<open>ms\<close> merged into it.\<close>

definition merged_from :: "segment \<Rightarrow> segment list \<Rightarrow> segment \<Rightarrow> bool" where
  "merged_from m ms m' \<longleftrightarrow> seg_idx m' \<le> seg_idx m \<and> seg_end m \<le> seg_end m' \<and>
     (\<forall>i. seg_covers m' i \<longleftrightarrow> seg_covers m i \<or> segs_cover ms i) \<and>
     (\<forall>P. seg_all P m \<longrightarrow> (\<forall>t \<in> set ms. seg_all P t) \<longrightarrow> seg_all P m')"

lemma segs_cover_simps [simp]:
  "segs_cover [] i = False" "segs_cover (s # ss) i = (seg_covers s i \<or> segs_cover ss i)"
  by (simp_all add: segs_cover_def)

lemma merged_from_refl: "merged_from m [] m"
  by (simp add: merged_from_def)

lemma merged_from_trans: "merged_from m [t] m1 \<Longrightarrow> merged_from m1 ts m' \<Longrightarrow> merged_from m (t # ts) m'"
  by (auto simp: merged_from_def)

lemma merged_from_merge:
  assumes "seg_data m \<noteq> []" and "seg_data t \<noteq> []"
    and "seg_end m \<le> SIZE_MOD" and "seg_end t \<le> SIZE_MOD"
    and "seg_meets (seg_idx m) (seg_end m) t"
  shows "\<exists>m'. merge_seg m t = Some m' \<and> merged_from m [t] m' \<and> seg_end m' \<le> SIZE_MOD"
proof -
  from merge_seg_spec [OF assms] obtain m' where m': "merge_seg m t = Some m'"
    "seg_idx m' = min (seg_idx m) (seg_idx t)" "seg_end m' = max (seg_end m) (seg_end t)"
    "\<forall>P. seg_all P m \<longrightarrow> seg_all P t \<longrightarrow> seg_all P m'" by blast
  then have "seg_covers m' i \<longleftrightarrow> seg_covers m i \<or> seg_covers t i" for i
    using assms(5) by (auto simp: seg_covers_def seg_meets_def)
  with m' assms(3,4) show ?thesis
    by (auto simp: merged_from_def)
qed

text \<open>\<open>r'\<close> is \<open>r\<close> with \<open>B\<close> as its stored segments; an exact byte count stays exact.\<close>

definition counted :: "stream_reassembler \<Rightarrow> bool" where
  "counted r \<longleftrightarrow> sr_unassembled_bytes r = seg_total (sr_buf r)"

definition rebuffered :: "stream_reassembler \<Rightarrow> segment list \<Rightarrow> stream_reassembler \<Rightarrow> bool" where
  "rebuffered r B r' \<longleftrightarrow> (\<exists>u. r' = r\<lparr>sr_unassembled_bytes := u, sr_buf := B\<rparr>) \<and>
     (counted r \<longrightarrow> seg_total (sr_buf r) < SIZE_MOD \<longrightarrow> counted r')"

lemma rebuffered_refl: "rebuffered r (sr_buf r) r"
  by (auto simp: rebuffered_def intro!: exI [of _ "sr_unassembled_bytes r"])

lemma rebuffered_erase:
  assumes "sr_buf r = kept @ t # ts" and "t \<notin> set kept"
  shows "rebuffered r (kept @ ts) (buf_erase r t)"
  using assms
  by (auto simp: rebuffered_def buf_erase_def counted_def remove1_append sz_sub_exact seg_length_def)

lemma rebuffered_trans:
  assumes "rebuffered r B r1" and "rebuffered r1 C r2" and "seg_total B \<le> seg_total (sr_buf r)"
  shows "rebuffered r C r2"
  using assms by (auto simp: rebuffered_def)

text \<open>
  The loop of \<open>_handle_overlap\<close> from a point where the elements \<open>kept\<close> have been visited and kept
  and the elements \<open>ts\<close> are still to come. \<open>[a, b)\<close> is the interval of the new segment, \<open>m\<close> the
  segment merged so far.
\<close>

lemma overlap_run:
  assumes "seg_chain lo ts" and "\<forall>t \<in> set ts. seg_end t \<le> SIZE_MOD"
    and "a < b" and "seg_idx m \<le> a" and "b \<le> seg_end m" and "seg_end m \<le> SIZE_MOD"
    and "sr_buf r = kept @ ts" and "set kept \<inter> set ts = {}"
  shows "\<exists>m' r'. run_steps (overlap_step a (b - 1)) (m, r) ts = Some (m', r') \<and>
    merged_from m (filter (seg_meets a b) ts) m' \<and> seg_end m' \<le> SIZE_MOD \<and>
    rebuffered r (kept @ filter (\<lambda>t. \<not> seg_meets a b t) ts) r'"
  using assms
proof (induction ts arbitrary: lo m r kept)
  case Nil
  then show ?case by (auto simp: merged_from_refl intro: rebuffered_refl [of r, simplified])
next
  case (Cons t ts)
  have ne: "seg_data t \<noteq> []" "seg_end t \<le> SIZE_MOD" "seg_data m \<noteq> []"
    using Cons.prems by (auto simp: seg_data_nonempty_iff)
  have chain: "seg_chain (seg_end t) ts" and tn: "t \<notin> set kept" "t \<notin> set ts"
    using Cons.prems seg_chain_distinct [of lo "t # ts"] by auto
  note step = overlap_step_meets [OF Cons.prems(3) ne(1,2)]
  show ?case
  proof (cases "seg_meets a b t")
    case True
    then have "seg_meets (seg_idx m) (seg_end m) t"
      using Cons.prems by (auto simp: seg_meets_def)
    from merged_from_merge [OF ne(3) ne(1) _ ne(2) this] Cons.prems(6) obtain m1 where
      m1: "merge_seg m t = Some m1" "merged_from m [t] m1" "seg_end m1 \<le> SIZE_MOD" by blast
    have r1: "rebuffered r (kept @ ts) (buf_erase r t)"
      by (rule rebuffered_erase [OF Cons.prems(7) tn(1)])
    then have buf1: "sr_buf (buf_erase r t) = kept @ ts"
      by (auto simp: rebuffered_def)
    have "\<exists>m' r'. run_steps (overlap_step a (b - 1)) (m1, buf_erase r t) ts = Some (m', r') \<and>
      merged_from m1 (filter (seg_meets a b) ts) m' \<and> seg_end m' \<le> SIZE_MOD \<and>
      rebuffered (buf_erase r t) (kept @ filter (\<lambda>t. \<not> seg_meets a b t) ts) r'"
      using Cons.prems m1(2,3) buf1 by (intro Cons.IH [OF chain]) (auto simp: merged_from_def)
    then show ?thesis
      using True m1(1) step merged_from_trans [OF m1(2)] rebuffered_trans [OF r1] Cons.prems(7)
      by auto
  next
    case False
    have "\<exists>m' r'. run_steps (overlap_step a (b - 1)) (m, r) ts = Some (m', r') \<and>
      merged_from m (filter (seg_meets a b) ts) m' \<and> seg_end m' \<le> SIZE_MOD \<and>
      rebuffered r ((kept @ [t]) @ filter (\<lambda>t. \<not> seg_meets a b t) ts) r'"
      using Cons.prems tn by (intro Cons.IH [OF chain]) auto
    with False step show ?thesis by auto
  qed
qed

text \<open>
  \<open>r'\<close> stores what \<open>r\<close> stores and \<open>seg\<close>: the same stream indices are covered, each byte comes from
  one of the two, and only segments that were stored before or that reach back to the start of
  \<open>seg\<close> occur.
\<close>

definition absorbs :: "nat \<Rightarrow> stream_reassembler \<Rightarrow> segment \<Rightarrow> stream_reassembler \<Rightarrow> bool" where
  "absorbs lo r seg r' \<longleftrightarrow> rebuffered r (sr_buf r') r' \<and> seg_chain lo (sr_buf r') \<and>
     (\<forall>i. segs_cover (sr_buf r') i \<longleftrightarrow> segs_cover (sr_buf r) i \<or> seg_covers seg i) \<and>
     (\<forall>P. seg_all P seg \<longrightarrow> list_all (seg_all P) (sr_buf r) \<longrightarrow> list_all (seg_all P) (sr_buf r')) \<and>
     (\<forall>t \<in> set (sr_buf r'). t \<in> set (sr_buf r) \<or> seg_idx t \<le> seg_idx seg)"

lemma seg_total_filter: "seg_total (filter P ss) \<le> seg_total ss"
  by (induction ss) auto

lemma seg_disjointI:
  assumes "\<And>i. seg_covers s i \<Longrightarrow> seg_covers t i \<Longrightarrow> False"
    and "seg_data s \<noteq> []" and "seg_data t \<noteq> []"
  shows "seg_end s \<le> seg_idx t \<or> seg_end t \<le> seg_idx s"
proof (rule ccontr)
  assume "\<not> ?thesis"
  with assms(2,3) have "seg_covers s (max (seg_idx s) (seg_idx t))"
    and "seg_covers t (max (seg_idx s) (seg_idx t))"
    by (simp_all add: seg_covers_def seg_data_nonempty_iff)
  then show False by (rule assms(1))
qed

lemma seg_chain_cover_ge: "seg_chain lo ss \<Longrightarrow> segs_cover ss i \<Longrightarrow> lo \<le> i"
  using seg_chain_mem by (fastforce simp: segs_cover_def seg_covers_def)

lemma rebuffered_insert:
  assumes "seg_total (seg_insert m (sr_buf r)) = seg_length m + seg_total (sr_buf r)"
    and "seg_length m + seg_total (sr_buf r) < SIZE_MOD"
  shows "rebuffered r (seg_insert m (sr_buf r)) (buf_insert r m)"
  using assms
  by (auto simp: rebuffered_def buf_insert_def counted_def sz_add_exact add.commute)

lemma buf_insert_absorbs:
  assumes chain: "seg_chain lo (sr_buf r)" and "lo \<le> seg_idx m" and "seg_data m \<noteq> []"
    and "\<forall>t \<in> set (sr_buf r). seg_end m \<le> seg_idx t \<or> seg_end t \<le> seg_idx m"
    and ends: "\<forall>t \<in> set (sr_buf r). seg_end t \<le> hi" and "seg_end m \<le> hi" and "hi < SIZE_MOD"
  shows "absorbs lo r m (buf_insert r m)"
proof -
  note ins = seg_insert_chain [OF assms(1-4)]
  then have "seg_total (seg_insert m (sr_buf r)) \<le> hi - lo"
    using assms by (intro seg_chain_total) (auto simp: seg_end_def)
  with ins \<open>hi < SIZE_MOD\<close> have "rebuffered r (seg_insert m (sr_buf r)) (buf_insert r m)"
    by (intro rebuffered_insert) auto
  with ins show ?thesis
    by (auto simp: absorbs_def buf_insert_def segs_cover_def list_all_iff)
qed

lemma merged_disjoint:
  assumes chain: "seg_chain lo ss" and mf: "merged_from seg (filter (seg_meets (seg_idx seg) (seg_end seg)) ss) m"
    and m: "seg_data m \<noteq> []" and t: "t \<in> set ss" "\<not> seg_meets (seg_idx seg) (seg_end seg) t"
  shows "seg_end m \<le> seg_idx t \<or> seg_end t \<le> seg_idx m"
proof (rule seg_disjointI)
  fix i
  assume i: "seg_covers m i" "seg_covers t i"
  then consider "seg_covers seg i"
    | u where "u \<in> set ss" "seg_meets (seg_idx seg) (seg_end seg) u" "seg_covers u i"
    using mf by (auto simp: merged_from_def segs_cover_def)
  then show False
  proof cases
    case 1
    with i t show False by (auto simp: seg_covers_def seg_meets_def)
  next
    case 2
    then have "u \<noteq> t" using t by auto
    with seg_chain_disjoint [OF chain, of u t] 2 i t show False
      by (auto simp: seg_covers_def)
  qed
qed (use m t seg_chain_mem [OF chain] in auto)

lemma segs_cover_split:
  "segs_cover ss i \<longleftrightarrow> segs_cover (filter Q ss) i \<or> segs_cover (filter (\<lambda>t. \<not> Q t) ss) i"
  by (induction ss) auto

text \<open>Storing the merged segment beside the segments it does not meet stores the new segment.\<close>

lemma absorbs_merged:
  assumes "absorbs lo r1 m r2" and "sr_buf r1 = filter (\<lambda>t. \<not> Q t) (sr_buf r)"
    and "merged_from seg (filter Q (sr_buf r)) m" and "rebuffered r (sr_buf r2) r2"
  shows "absorbs lo r seg r2"
  unfolding absorbs_def
proof (intro conjI allI impI ballI)
  show "segs_cover (sr_buf r2) i = (segs_cover (sr_buf r) i \<or> seg_covers seg i)" for i
    using assms(1-3) segs_cover_split [of "sr_buf r" i Q]
    unfolding absorbs_def merged_from_def by metis
  show "list_all (seg_all P) (sr_buf r2)" if "seg_all P seg" "list_all (seg_all P) (sr_buf r)" for P
  proof -
    have "seg_all P m" and "list_all (seg_all P) (sr_buf r1)"
      using assms(2,3) that by (simp_all add: merged_from_def list_all_iff)
    with assms(1) show ?thesis by (simp add: absorbs_def)
  qed
  show "t \<in> set (sr_buf r) \<or> seg_idx t \<le> seg_idx seg" if "t \<in> set (sr_buf r2)" for t
    using assms(1-3) that by (fastforce simp: absorbs_def merged_from_def)
qed (use assms(1,4) in \<open>simp_all add: absorbs_def\<close>)

lemma handle_overlap_absorbs:
  assumes chain: "seg_chain lo (sr_buf r)" and lo: "lo \<le> seg_idx seg" and ne: "seg_data seg \<noteq> []"
    and ends: "\<forall>t \<in> set (sr_buf r). seg_end t \<le> hi" and upto: "seg_end seg \<le> hi"
    and hi: "hi < SIZE_MOD"
  shows "\<exists>r'. handle_overlap r seg = Some r' \<and> absorbs lo r seg r'"
proof -
  let ?a = "seg_idx seg" and ?b = "seg_end seg"
  let ?K = "filter (\<lambda>t. \<not> seg_meets ?a ?b t) (sr_buf r)" and ?M = "filter (seg_meets ?a ?b) (sr_buf r)"
  have ab: "?a < ?b" using ne by (rule seg_end_gt)
  have tail: "tail_idx seg = ?b - 1" using ne upto hi by (simp add: tail_idx_exact)
  from overlap_run [OF chain, of ?a ?b seg r "[]"] ends upto hi ab obtain m r1 where
    run: "run_steps (overlap_step ?a (?b - 1)) (seg, r) (sr_buf r) = Some (m, r1)"
    and mf: "merged_from seg ?M m" and rb: "rebuffered r ?K r1" by fastforce
  then have buf1: "sr_buf r1 = ?K" by (auto simp: rebuffered_def)
  have m: "seg_data m \<noteq> []" using mf ab by (auto simp: merged_from_def seg_data_nonempty_iff)
  have cov: "seg_covers m i \<longleftrightarrow> seg_covers seg i \<or> segs_cover ?M i" for i
    using mf by (simp add: merged_from_def)
  have dis: "\<forall>t \<in> set ?K. seg_end m \<le> seg_idx t \<or> seg_end t \<le> seg_idx m"
    using merged_disjoint [OF chain mf m] by auto
  have "segs_cover ?M i \<Longrightarrow> segs_cover (sr_buf r) i" for i
    by (auto simp: segs_cover_def)
  moreover have "seg_covers m (seg_idx m)" "seg_covers m (seg_end m - 1)"
    using m by (auto simp: seg_covers_def seg_data_nonempty_iff)
  moreover have "segs_cover (sr_buf r) i \<Longrightarrow> lo \<le> i \<and> i < hi" for i
    using ends seg_chain_cover_ge [OF chain] by (fastforce simp: segs_cover_def seg_covers_def)
  ultimately have "lo \<le> seg_idx m" and "seg_end m \<le> hi"
    using cov [of "seg_idx m"] cov [of "seg_end m - 1"] lo upto by (fastforce simp: seg_covers_def)+
  then have ab: "absorbs lo r1 m (buf_insert r1 m)"
    using m dis ends hi by (intro buf_insert_absorbs) (auto simp: buf1 seg_chain_filter [OF chain])
  have "seg_total ?K \<le> seg_total (sr_buf r)"
    by (rule seg_total_filter)
  with ab rb have "rebuffered r (sr_buf (buf_insert r1 m)) (buf_insert r1 m)"
    by (auto simp: absorbs_def elim: rebuffered_trans)
  with ab buf1 mf have "absorbs lo r seg (buf_insert r1 m)"
    by (rule absorbs_merged)
  with run tail show ?thesis by (simp add: handle_overlap_def)
qed

lemma store_absorbs:
  assumes "seg_chain lo (sr_buf r)" and "lo \<le> seg_idx seg" and "seg_data seg \<noteq> []"
    and "\<forall>t \<in> set (sr_buf r). seg_end t \<le> hi" and "seg_end seg \<le> hi" and "hi < SIZE_MOD"
  shows "\<exists>r'. (if sr_buf r = [] then Some (buf_insert r seg) else handle_overlap r seg) = Some r' \<and>
    absorbs lo r seg r'"
proof (cases "sr_buf r = []")
  case True
  with assms show ?thesis by (auto intro!: buf_insert_absorbs [of lo r seg hi])
next
  case False
  with handle_overlap_absorbs [OF assms] show ?thesis by simp
qed

section \<open>Invariant\<close>

text \<open>
  The output stream is well formed and shares the capacity, and the window that ends at
  \<open>first_unread + capacity\<close> lies within the range of \<open>size_t\<close>.
\<close>

definition sr_limit :: "stream_reassembler \<Rightarrow> nat" where
  "sr_limit r = bs_bytes_r (sr_output r) + sr_capacity r"

definition sr_core :: "stream_reassembler \<Rightarrow> bool" where
  "sr_core r \<longleftrightarrow> bs_inv (sr_output r) \<and> bs_capacity (sr_output r) = sr_capacity r \<and> sr_limit r < SIZE_MOD"

text \<open>
  The stored segments are non-empty, ordered, disjoint, inside the window, and the first of them
  does not continue the output; while the stream is open the byte count is their total length.
\<close>

definition sr_inv :: "stream_reassembler \<Rightarrow> bool" where
  "sr_inv r \<longleftrightarrow> sr_core r \<and> seg_chain (first_unassembled r) (sr_buf r) \<and>
     (\<forall>t \<in> set (sr_buf r). seg_end t \<le> sr_limit r) \<and>
     (sr_buf r \<noteq> [] \<longrightarrow> seg_idx (hd (sr_buf r)) \<noteq> first_unassembled r) \<and>
     (\<not> input_ended (sr_output r) \<longrightarrow> counted r)"

lemma sr_core_written:
  assumes "sr_core r"
  shows "first_unassembled r = bs_bytes_r (sr_output r) + length (bs_buff (sr_output r))"
    and "first_unassembled r \<le> sr_limit r"
    and "remaining_capacity (sr_output r) = sr_limit r - first_unassembled r"
  using assms
  by (auto simp: sr_core_def sr_limit_def bs_inv_def first_unassembled_def bytes_written_def
      sz_add_exact remaining_capacity_def sz_sub_exact)

lemma sr_core_limit: "sr_core r \<Longrightarrow> first_unacceptable r = sr_limit r"
  by (auto simp: sr_core_def sr_limit_def first_unacceptable_def first_unread_def bytes_read_def sz_add_exact)

lemma clip_front_eq:
  assumes "first_unassembled r < seg_end seg" and "seg_end seg \<le> SIZE_MOD" and "seg_data seg \<noteq> []"
  shows "clip_front r (seg_idx seg) seg =
    Some \<lparr>seg_idx = max (seg_idx seg) (first_unassembled r),
          seg_data = drop (first_unassembled r - seg_idx seg) (seg_data seg)\<rparr>"
  using assms
  by (auto simp: clip_front_def tail_idx_exact substr_from_def sz_sub_exact seg_end_def max_def)

lemma clip_back_eq:
  assumes "sr_core r" and "index < sr_limit r" and "seg_data seg \<noteq> []" and "seg_end seg \<le> SIZE_MOD"
  shows "clip_back r index seg =
    (if sr_limit r < seg_end seg then seg\<lparr>seg_data := take (sr_limit r - index) (seg_data seg)\<rparr> else seg)"
  using assms seg_end_gt [of seg]
  by (auto simp: clip_back_def sr_core_limit tail_idx_exact substr_to_def sr_core_def sz_sub_exact)

text \<open>What the two truncations leave of a segment that meets the window.\<close>

definition clipped :: "stream_reassembler \<Rightarrow> segment \<Rightarrow> segment \<Rightarrow> bool" where
  "clipped r seg seg' \<longleftrightarrow> seg_data seg' \<noteq> [] \<and> first_unassembled r \<le> seg_idx seg' \<and>
     seg_end seg' \<le> seg_end seg \<and>
     (seg_end seg' \<le> sr_limit r \<or> seg_idx seg' = first_unassembled r) \<and>
     (\<forall>i < sr_limit r. seg_covers seg' i \<longleftrightarrow> seg_covers seg i \<and> first_unassembled r \<le> i) \<and>
     (\<forall>P. seg_all P seg \<longrightarrow> seg_all P seg')"

lemma clip_spec:
  assumes core: "sr_core r" and lt: "seg_idx seg < sr_limit r" "first_unassembled r < seg_end seg"
    and ne: "seg_data seg \<noteq> []" and bound: "seg_end seg \<le> SIZE_MOD"
  shows "\<exists>seg1. clip_front r (seg_idx seg) seg = Some seg1 \<and>
    clipped r seg (clip_back r (seg_idx seg) seg1)"
proof -
  let ?k = "first_unassembled r - seg_idx seg"
  let ?s1 = "\<lparr>seg_idx = max (seg_idx seg) (first_unassembled r), seg_data = drop ?k (seg_data seg)\<rparr>"
  have front: "clip_front r (seg_idx seg) seg = Some ?s1"
    using lt bound ne by (rule_tac clip_front_eq) auto
  have end1: "seg_end ?s1 = seg_end seg" and k: "?k \<le> length (seg_data seg)"
    using lt by (auto simp: seg_end_def)
  have ne1: "seg_data ?s1 \<noteq> []" using lt ne by (cases "seg_idx seg \<le> first_unassembled r") (auto simp: seg_end_def)
  have idx1: "seg_idx seg + ?k = seg_idx ?s1" by simp
  have all1: "seg_all P seg \<Longrightarrow> seg_all P ?s1" for P
    using data_all_drop [OF _ k, of P "seg_idx seg"] unfolding seg_all_def idx1 by simp
  have bk: "clip_back r (seg_idx seg) ?s1 = (if sr_limit r < seg_end seg
      then ?s1\<lparr>seg_data := take (sr_limit r - seg_idx seg) (seg_data ?s1)\<rparr> else ?s1)"
    using clip_back_eq [OF core lt(1) ne1] end1 bound by simp
  have "clipped r seg ?s1" if "seg_end seg \<le> sr_limit r"
    using that ne1 end1 all1 by (auto simp: clipped_def seg_covers_def)
  moreover have "clipped r seg (?s1\<lparr>seg_data := take (sr_limit r - seg_idx seg) (seg_data ?s1)\<rparr>)"
    if "sr_limit r < seg_end seg"
    using that ne1 lt all1 sr_core_written(2) [OF core]
    by (auto simp: clipped_def seg_covers_def seg_all_def data_all_take seg_end_def max_def)
  ultimately show ?thesis using front bk by auto
qed

text \<open>
  Between storing a segment and writing out what is contiguous, a segment that starts right at
  the first unassembled byte may reach beyond the window.
\<close>

definition sr_pending :: "stream_reassembler \<Rightarrow> bool" where
  "sr_pending r \<longleftrightarrow> sr_core r \<and> seg_chain (first_unassembled r) (sr_buf r) \<and>
     (\<forall>t \<in> set (sr_buf r). seg_end t \<le> sr_limit r \<or> seg_idx t = first_unassembled r) \<and>
     seg_total (sr_buf r) < SIZE_MOD \<and>
     (\<not> input_ended (sr_output r) \<longrightarrow> counted r)"

lemma sr_inv_pending: "sr_inv r \<Longrightarrow> sr_pending r"
  using seg_chain_total [of "first_unassembled r" "sr_buf r" "sr_limit r"] sr_core_written(2) [of r]
  by (auto simp: sr_inv_def sr_pending_def sr_core_def)

lemma rebuffered_frame:
  assumes "rebuffered r B r'"
  shows "sr_output r' = sr_output r" "sr_capacity r' = sr_capacity r" "sr_eof r' = sr_eof r"
    "sr_eof_index r' = sr_eof_index r" "sr_buf r' = B" "sr_limit r' = sr_limit r"
    "sr_core r' = sr_core r" "first_unassembled r' = first_unassembled r"
  using assms by (auto simp: rebuffered_def sr_limit_def sr_core_def first_unassembled_def)

lemma absorbs_pending:
  assumes inv: "sr_inv r" and ab: "absorbs (first_unassembled r) r seg r'"
    and cl: "clipped r seg0 seg" and bound: "seg_end seg0 < SIZE_MOD"
  shows "sr_pending r'"
proof -
  note frame = rebuffered_frame [OF ab [unfolded absorbs_def, THEN conjunct1]]
  have chain: "seg_chain (first_unassembled r) (sr_buf r')"
    using ab by (simp add: absorbs_def)
  have covers: "segs_cover (sr_buf r') i \<Longrightarrow> i < sr_limit r \<or> i < seg_end seg" for i
    using ab inv by (auto simp: absorbs_def sr_inv_def segs_cover_def seg_covers_def)
  have top: "seg_end t \<le> max (sr_limit r) (seg_end seg)" if "t \<in> set (sr_buf r')" for t
  proof -
    have "seg_covers t (seg_end t - 1)"
      using seg_chain_mem [OF chain that] by (auto simp: seg_covers_def seg_data_nonempty_iff)
    with that have "segs_cover (sr_buf r') (seg_end t - 1)" by (auto simp: segs_cover_def)
    with covers show ?thesis by fastforce
  qed
  have ends: "seg_end t \<le> sr_limit r \<or> seg_idx t = first_unassembled r" if t: "t \<in> set (sr_buf r')" for t
  proof (cases "t \<in> set (sr_buf r)")
    case True
    with inv show ?thesis by (simp add: sr_inv_def)
  next
    case False
    with ab t have "seg_idx t \<le> seg_idx seg" by (auto simp: absorbs_def)
    with cl top [OF t] seg_chain_mem [OF chain t] show ?thesis
      by (auto simp: clipped_def)
  qed
  have "seg_total (sr_buf r') \<le> max (sr_limit r) (seg_end seg) - first_unassembled r"
    using inv top sr_core_written(2) [of r]
    by (intro seg_chain_total [OF chain]) (auto simp: sr_inv_def le_max_iff_disj)
  moreover have "max (sr_limit r) (seg_end seg) < SIZE_MOD"
    using cl bound inv by (auto simp: clipped_def sr_inv_def sr_core_def)
  moreover have "seg_total (sr_buf r) < SIZE_MOD"
    using sr_inv_pending [OF inv] by (simp add: sr_pending_def)
  ultimately show ?thesis
    using inv frame chain ends ab by (auto simp: sr_pending_def sr_inv_def absorbs_def rebuffered_def)
qed

lemma handle_substring_spec:
  assumes inv: "sr_inv r" and ne: "seg_data seg \<noteq> []" and fits: "sr_limit r + length (seg_data seg) < SIZE_MOD"
  shows "\<exists>r'. handle_substring r seg = Some r' \<and> sr_pending r' \<and> rebuffered r (sr_buf r') r' \<and>
    (\<forall>i < sr_limit r. segs_cover (sr_buf r') i \<longleftrightarrow>
        segs_cover (sr_buf r) i \<or> seg_covers seg i \<and> first_unassembled r \<le> i) \<and>
    (\<forall>P. seg_all P seg \<longrightarrow> list_all (seg_all P) (sr_buf r) \<longrightarrow> list_all (seg_all P) (sr_buf r'))"
proof -
  have core: "sr_core r" and lim: "first_unacceptable r = sr_limit r"
    using inv by (simp_all add: sr_inv_def sr_core_limit)
  show ?thesis
  proof (cases "sr_limit r \<le> seg_idx seg \<or> seg_end seg \<le> first_unassembled r")
    case True
    then have "first_unacceptable r \<le> seg_idx seg \<or> tail_idx seg < first_unassembled r"
    proof (cases "sr_limit r \<le> seg_idx seg")
      case False
      with True have "seg_end seg \<le> first_unassembled r" "tail_idx seg = seg_end seg - 1"
        using fits ne by (auto simp: tail_idx_exact seg_end_def)
      with seg_end_gt [OF ne] show ?thesis by linarith
    qed (simp add: lim)
    then have "handle_substring r seg = Some r" by (simp add: handle_substring_def)
    with True inv show ?thesis
      by (auto simp: sr_inv_pending rebuffered_refl seg_covers_def)
  next
    case False
    then have lt: "seg_idx seg < sr_limit r" "first_unassembled r < seg_end seg" by auto
    then have bound: "seg_end seg < SIZE_MOD" using fits by (simp add: seg_end_def)
    from clip_spec [OF core lt ne] bound obtain seg1 where
      front: "clip_front r (seg_idx seg) seg = Some seg1"
      and cl: "clipped r seg (clip_back r (seg_idx seg) seg1)" by auto
    let ?s = "clip_back r (seg_idx seg) seg1"
    have s: "first_unassembled r \<le> seg_idx ?s" "seg_data ?s \<noteq> []" "seg_end ?s < SIZE_MOD"
      using cl bound by (auto simp: clipped_def)
    have chain: "seg_chain (first_unassembled r) (sr_buf r)"
      and ends: "\<forall>t \<in> set (sr_buf r). seg_end t \<le> max (sr_limit r) (seg_end ?s)"
      using inv by (auto simp: sr_inv_def)
    have hi: "max (sr_limit r) (seg_end ?s) < SIZE_MOD" using s core by (simp add: sr_core_def)
    obtain r' where r': "(if sr_buf r = [] then Some (buf_insert r ?s) else handle_overlap r ?s) = Some r'"
      and ab: "absorbs (first_unassembled r) r ?s r'"
      using store_absorbs [OF chain s(1,2) ends _ hi] by auto
    have "\<not> tail_idx seg < first_unassembled r"
      using lt ne bound by (simp add: tail_idx_exact)
    then have "handle_substring r seg = Some r'"
      using lt r' front by (simp add: handle_substring_def lim Let_def)
    with ab cl inv bound show ?thesis
      by (auto simp: absorbs_pending) (auto simp: absorbs_def clipped_def)
  qed
qed

section \<open>Writing out\<close>

text \<open>Stream indices whose byte is in the output stream or stored.\<close>

definition sr_known :: "stream_reassembler \<Rightarrow> nat \<Rightarrow> bool" where
  "sr_known r i \<longleftrightarrow> i < first_unassembled r \<or> segs_cover (sr_buf r) i"

text \<open>\<open>P\<close> holds for every byte held by the reassembler, at its stream index.\<close>

definition sr_all :: "(nat \<Rightarrow> byte \<Rightarrow> bool) \<Rightarrow> stream_reassembler \<Rightarrow> bool" where
  "sr_all P r \<longleftrightarrow> data_all P (bs_bytes_r (sr_output r)) (bs_buff (sr_output r)) \<and>
     list_all (seg_all P) (sr_buf r)"

definition flushes :: "stream_reassembler \<Rightarrow> stream_reassembler \<Rightarrow> bool" where
  "flushes r r' \<longleftrightarrow> sr_capacity r' = sr_capacity r \<and> sr_eof r' = sr_eof r \<and>
     sr_eof_index r' = sr_eof_index r \<and>
     bs_bytes_r (sr_output r') = bs_bytes_r (sr_output r) \<and>
     bs_error (sr_output r') = bs_error (sr_output r) \<and>
     input_ended (sr_output r') = input_ended (sr_output r) \<and>
     (\<exists>new. bs_buff (sr_output r') = bs_buff (sr_output r) @ new) \<and>
     (\<not> input_ended (sr_output r) \<longrightarrow> (\<forall>i < sr_limit r. sr_known r' i \<longleftrightarrow> sr_known r i)) \<and>
     (input_ended (sr_output r) \<longrightarrow> sr_output r' = sr_output r) \<and>
     (\<forall>P. sr_all P r \<longrightarrow> sr_all P r')"

lemma flushes_refl: "flushes r r"
  by (auto simp: flushes_def)

lemma flushes_trans: "flushes r r1 \<Longrightarrow> flushes r1 r2 \<Longrightarrow> flushes r r2"
  by (auto simp: flushes_def sr_limit_def)

lemma rebuffered_counted_erase:
  assumes "sr_buf r = t # ts" and "counted r" and "seg_total (sr_buf r) < SIZE_MOD"
  shows "counted (buf_erase (r\<lparr>sr_output := out\<rparr>) t)"
  using assms by (simp add: counted_def buf_erase_def sz_sub_exact seg_length_def)

text \<open>The state after one iteration of the loop.\<close>

definition flush_step :: "stream_reassembler \<Rightarrow> segment \<Rightarrow> stream_reassembler" where
  "flush_step r it = buf_erase (r\<lparr>sr_output := snd (bs_write (sr_output r) (seg_data it))\<rparr>) it"

lemma flush_step_closed:
  assumes "sr_pending r" and "sr_buf r = it # rest" and "input_ended (sr_output r)"
  shows "sr_pending (flush_step r it) \<and> flushes r (flush_step r it)"
proof -
  have "flush_step r it = r\<lparr>sr_unassembled_bytes := sr_unassembled_bytes (flush_step r it), sr_buf := rest\<rparr>"
    using assms by (simp add: flush_step_def buf_erase_def bs_write_def)
  moreover have "seg_chain (first_unassembled r) rest"
    using assms seg_end_gt [of it]
    by (auto simp: sr_pending_def elim: seg_chain_mono)
  ultimately show ?thesis
    using assms
    by (cases "flush_step r it")
      (auto simp: sr_pending_def flushes_def sr_core_def sr_limit_def first_unassembled_def sr_all_def)
qed

lemma flush_step_output:
  fixes it :: segment
  assumes core: "sr_core r" and "\<not> input_ended (sr_output r)"
  defines "n \<equiv> min (length (seg_data it)) (sr_limit r - first_unassembled r)"
  shows "sr_output (flush_step r it) = (sr_output r)\<lparr>bs_bytes_w := first_unassembled r + n,
      bs_buff := bs_buff (sr_output r) @ take n (seg_data it)\<rparr>"
    and "sr_core (flush_step r it)" and "sr_limit (flush_step r it) = sr_limit r"
    and "first_unassembled (flush_step r it) = first_unassembled r + n"
proof -
  have "first_unassembled r + n < SIZE_MOD"
    using core sr_core_written(2) [OF core] by (auto simp: n_def sr_core_def)
  then show out: "sr_output (flush_step r it) = (sr_output r)\<lparr>bs_bytes_w := first_unassembled r + n,
      bs_buff := bs_buff (sr_output r) @ take n (seg_data it)\<rparr>"
    using assms(2) sr_core_written(3) [OF core]
    by (simp add: flush_step_def buf_erase_def bs_write_eq input_ended_def Let_def n_def sz_add_exact
        first_unassembled_def bytes_written_def)
  then show "first_unassembled (flush_step r it) = first_unassembled r + n"
    by (simp add: first_unassembled_def bytes_written_def)
  from out show lim: "sr_limit (flush_step r it) = sr_limit r"
    by (simp add: sr_limit_def flush_step_def buf_erase_def)
  have "bs_inv (snd (bs_write (sr_output r) (seg_data it)))"
    using core by (auto simp: sr_core_def intro: bs_inv_write)
  then show "sr_core (flush_step r it)"
    using core lim out by (simp add: sr_core_def) (simp add: flush_step_def buf_erase_def)
qed

lemma flush_step_open:
  assumes pend: "sr_pending r" and buf: "sr_buf r = it # rest" and idx: "seg_idx it = first_unassembled r"
    and op: "\<not> input_ended (sr_output r)"
  shows "sr_pending (flush_step r it) \<and> flushes r (flush_step r it)"
proof -
  have core: "sr_core r" and chain: "seg_chain (seg_end it) rest" and ne: "seg_data it \<noteq> []"
    using pend buf by (auto simp: sr_pending_def)
  note out = flush_step_output [OF core op, of it]
  have buf': "sr_buf (flush_step r it) = rest"
    using buf by (simp add: flush_step_def buf_erase_def)
  have ends: "seg_end t \<le> sr_limit r" if "t \<in> set rest" for t
    using pend buf idx that seg_chain_mem [OF chain that] seg_end_gt [OF ne]
    by (fastforce simp: sr_pending_def)
  have rest: "rest = []" if "sr_limit r < seg_end it"
    using ends chain that by (cases rest) (fastforce simp: seg_data_nonempty_iff)+
  have fua: "first_unassembled (flush_step r it) = min (seg_end it) (sr_limit r)"
    using out(4) idx sr_core_written(2) [OF core] by (auto simp: seg_end_def)
  have "seg_chain (first_unassembled (flush_step r it)) rest"
    using chain rest fua by (cases "sr_limit r < seg_end it") (auto elim: seg_chain_mono)
  moreover have "counted (flush_step r it)"
    using pend op buf unfolding flush_step_def
    by (intro rebuffered_counted_erase) (auto simp: sr_pending_def)
  ultimately have "sr_pending (flush_step r it)"
    using out(2,3) ends buf' pend buf by (auto simp: sr_pending_def)
  moreover have "sr_known (flush_step r it) i \<longleftrightarrow> sr_known r i" if "i < sr_limit r" for i
    using that fua buf buf' idx seg_end_gt [OF ne] by (auto simp: sr_known_def seg_covers_def)
  moreover have "sr_all P (flush_step r it)" if "sr_all P r" for P
    using that out(1) buf buf' idx sr_core_written(1) [OF core]
    by (auto simp: sr_all_def data_all_append seg_all_def data_all_take)
  ultimately show ?thesis
    using op out(1,3) by (auto simp: flushes_def input_ended_def) (auto simp: flush_step_def buf_erase_def)
qed

lemma sr_flush_spec:
  "sr_pending r \<Longrightarrow> sr_inv (sr_flush r) \<and> flushes r (sr_flush r)"
proof (induction r rule: sr_flush.induct)
  case (1 r)
  show ?case
  proof (cases "\<exists>it rest. sr_buf r = it # rest \<and> seg_idx it = first_unassembled r")
    case True
    then obtain it rest where it: "sr_buf r = it # rest" "seg_idx it = first_unassembled r" by blast
    then have "sr_flush r = sr_flush (flush_step r it)"
      by (subst sr_flush.simps) (simp add: flush_step_def)
    moreover have "sr_pending (flush_step r it) \<and> flushes r (flush_step r it)"
      using flush_step_open [OF "1.prems" it] flush_step_closed [OF "1.prems" it(1)] by blast
    moreover have "sr_pending (flush_step r it) \<Longrightarrow>
        sr_inv (sr_flush (flush_step r it)) \<and> flushes (flush_step r it) (sr_flush (flush_step r it))"
      using "1.IH" [OF it] by (simp add: flush_step_def)
    ultimately show ?thesis using flushes_trans by metis
  next
    case False
    then have "sr_flush r = r"
      by (subst sr_flush.simps) (auto split: list.splits)
    moreover have "sr_inv r"
    proof -
      have "seg_idx t \<noteq> first_unassembled r" if t: "t \<in> set (sr_buf r)" for t
      proof (cases "sr_buf r")
        case (Cons s ss)
        with "1.prems" t have "t = s \<or> seg_end s \<le> seg_idx t" "first_unassembled r \<le> seg_idx s" "seg_idx s < seg_end s"
          using seg_chain_mem [of "seg_end s" ss t] by (auto simp: sr_pending_def seg_data_nonempty_iff)
        with False Cons show ?thesis by auto
      qed (use t in simp)
      with "1.prems" show ?thesis
        by (auto simp: sr_inv_def sr_pending_def)
    qed
    ultimately show ?thesis by (simp add: flushes_refl)
  qed
qed

section \<open>Pushing a substring\<close>

lemma sr_eof_update [simp]:
  "sr_inv (r\<lparr>sr_eof_index := e, sr_eof := b\<rparr>) = sr_inv r"
  "sr_limit (r\<lparr>sr_eof_index := e, sr_eof := b\<rparr>) = sr_limit r"
  "sr_known (r\<lparr>sr_eof_index := e, sr_eof := b\<rparr>) i = sr_known r i"
  "sr_all P (r\<lparr>sr_eof_index := e, sr_eof := b\<rparr>) = sr_all P r"
  "first_unassembled (r\<lparr>sr_eof_index := e, sr_eof := b\<rparr>) = first_unassembled r"
  by (simp_all add: sr_inv_def sr_core_def sr_limit_def first_unassembled_def counted_def sr_known_def sr_all_def)

text \<open>
  The state before the last \<open>if\<close> of \<open>push_substring\<close>: the new bytes inside the window are known,
  everything contiguous is written out.
\<close>

lemma push_prefix:
  assumes inv: "sr_inv r" and fits: "sr_limit r + length data < SIZE_MOD"
  shows "\<exists>r1. (if data \<noteq> [] then handle_substring r \<lparr>seg_idx = index, seg_data = data\<rparr> else Some r) = Some r1 \<and>
    sr_inv (sr_flush r1) \<and> sr_limit (sr_flush r1) = sr_limit r \<and>
    flushes (r\<lparr>sr_buf := sr_buf r1\<rparr>) (sr_flush r1) \<and>
    (\<not> input_ended (sr_output r) \<longrightarrow>
      (\<forall>i < sr_limit r. sr_known (sr_flush r1) i \<longleftrightarrow> sr_known r i \<or> index \<le> i \<and> i < index + length data)) \<and>
    (\<forall>P. data_all P index data \<longrightarrow> sr_all P r \<longrightarrow> sr_all P (sr_flush r1))"
proof -
  let ?seg = "\<lparr>seg_idx = index, seg_data = data\<rparr>"
  have "\<exists>r1. (if data \<noteq> [] then handle_substring r ?seg else Some r) = Some r1 \<and>
    sr_pending r1 \<and> rebuffered r (sr_buf r1) r1 \<and>
    (\<forall>i < sr_limit r. segs_cover (sr_buf r1) i \<longleftrightarrow>
        segs_cover (sr_buf r) i \<or> seg_covers ?seg i \<and> first_unassembled r \<le> i) \<and>
    (\<forall>P. seg_all P ?seg \<longrightarrow> list_all (seg_all P) (sr_buf r) \<longrightarrow> list_all (seg_all P) (sr_buf r1))"
    using handle_substring_spec [OF inv, of ?seg] fits inv
    by (cases "data = []") (auto simp: sr_inv_pending rebuffered_refl seg_covers_def seg_end_def)
  then obtain r1 where r1: "(if data \<noteq> [] then handle_substring r ?seg else Some r) = Some r1"
    "sr_pending r1" "rebuffered r (sr_buf r1) r1"
    "\<And>i. i < sr_limit r \<Longrightarrow> segs_cover (sr_buf r1) i \<longleftrightarrow>
        segs_cover (sr_buf r) i \<or> seg_covers ?seg i \<and> first_unassembled r \<le> i"
    "\<And>P. seg_all P ?seg \<Longrightarrow> list_all (seg_all P) (sr_buf r) \<Longrightarrow> list_all (seg_all P) (sr_buf r1)"
    by blast
  note frame = rebuffered_frame [OF r1(3)]
  note flush = sr_flush_spec [OF r1(2)]
  have known: "sr_known r1 i \<longleftrightarrow> sr_known r i \<or> index \<le> i \<and> i < index + length data"
    if "i < sr_limit r" for i
    using r1(4) [OF that] frame by (auto simp: sr_known_def seg_covers_def seg_end_def)
  have all: "sr_all P r1" if "data_all P index data" "sr_all P r" for P
    using that r1(5) [of P] frame by (simp add: sr_all_def seg_all_def)
  have "flushes (r\<lparr>sr_buf := sr_buf r1\<rparr>) (sr_flush r1)"
    using flush frame
    by (auto simp: flushes_def sr_limit_def sr_known_def sr_all_def first_unassembled_def)
  moreover have "sr_limit (sr_flush r1) = sr_limit r"
    using flush frame by (simp add: flushes_def sr_limit_def)
  ultimately show ?thesis
    using r1(1) flush known all frame by (auto simp: flushes_def)
qed

lemma sr_first_unknown: "sr_inv r \<Longrightarrow> \<not> sr_known r (first_unassembled r)"
proof -
  assume inv: "sr_inv r"
  have "first_unassembled r < seg_idx t" if t: "t \<in> set (sr_buf r)" for t
  proof (cases "sr_buf r")
    case (Cons s ss)
    with inv t have "first_unassembled r < seg_idx s" "t = s \<or> seg_end s \<le> seg_idx t" "seg_idx s < seg_end s"
      using seg_chain_mem [of "seg_end s" ss t] by (auto simp: sr_inv_def seg_data_nonempty_iff)
    then show ?thesis by auto
  qed (use t in simp)
  then show ?thesis by (fastforce simp: sr_known_def segs_cover_def seg_covers_def)
qed

text \<open>
  The last \<open>if\<close> of \<open>push_substring\<close> ends the output and drops what is still stored once the whole
  stream is assembled. \<open>extends\<close> describes the state before it.
\<close>

definition sr_close :: "stream_reassembler \<Rightarrow> stream_reassembler" where
  "sr_close r = (if sr_eof r \<and> first_unassembled r = sr_eof_index r
     then r\<lparr>sr_output := end_input (sr_output r), sr_buf := []\<rparr> else r)"

definition extends :: "stream_reassembler \<Rightarrow> bytes \<Rightarrow> nat \<Rightarrow> bool \<Rightarrow> stream_reassembler \<Rightarrow> bool" where
  "extends r data index eof r' \<longleftrightarrow>
     sr_limit r' = sr_limit r \<and> sr_capacity r' = sr_capacity r \<and>
     sr_eof r' = (sr_eof r \<or> eof) \<and>
     sr_eof_index r' = (if eof then sz_add index (length data) else sr_eof_index r) \<and>
     bs_bytes_r (sr_output r') = bs_bytes_r (sr_output r) \<and>
     bs_error (sr_output r') = bs_error (sr_output r) \<and>
     input_ended (sr_output r') = input_ended (sr_output r) \<and>
     (\<exists>new. bs_buff (sr_output r') = bs_buff (sr_output r) @ new) \<and>
     (input_ended (sr_output r) \<longrightarrow> sr_output r' = sr_output r) \<and>
     (\<not> input_ended (sr_output r) \<longrightarrow> (\<forall>i < sr_limit r.
        sr_known r' i \<longleftrightarrow> sr_known r i \<or> index \<le> i \<and> i < index + length data)) \<and>
     (\<forall>P. data_all P index data \<longrightarrow> sr_all P r \<longrightarrow> sr_all P r')"

lemma push_substring_extends:
  assumes inv: "sr_inv r" and fits: "sr_limit r + length data < SIZE_MOD"
  shows "\<exists>r'. push_substring r data index eof = Some (sr_close r') \<and> sr_inv r' \<and> extends r data index eof r'"
proof -
  let ?r = "if eof then r\<lparr>sr_eof_index := sz_add index (length data), sr_eof := True\<rparr> else r"
  have r: "sr_inv ?r" "sr_limit ?r = sr_limit r" "sr_output ?r = sr_output r" "sr_capacity ?r = sr_capacity r"
    "sr_eof ?r = (sr_eof r \<or> eof)"
    "sr_eof_index ?r = (if eof then sz_add index (length data) else sr_eof_index r)"
    "sr_known ?r i = sr_known r i" "sr_all P ?r = sr_all P r" for i P
    using inv by simp_all
  from push_prefix [OF r(1), of data index] fits obtain r1 where
    h: "(if data \<noteq> [] then handle_substring ?r \<lparr>seg_idx = index, seg_data = data\<rparr> else Some ?r) = Some r1"
    and "sr_inv (sr_flush r1)" and "sr_limit (sr_flush r1) = sr_limit r"
    and "flushes (?r\<lparr>sr_buf := sr_buf r1\<rparr>) (sr_flush r1)"
    and "\<not> input_ended (sr_output r) \<longrightarrow> (\<forall>i < sr_limit r.
      sr_known (sr_flush r1) i \<longleftrightarrow> sr_known r i \<or> index \<le> i \<and> i < index + length data)"
    and "\<forall>P. data_all P index data \<longrightarrow> sr_all P r \<longrightarrow> sr_all P (sr_flush r1)"
    unfolding r by blast
  then have "extends r data index eof (sr_flush r1)"
    using r by (auto simp: extends_def flushes_def)
  moreover have "push_substring r data index eof = Some (sr_close (sr_flush r1))"
    using h by (simp add: push_substring_def sr_close_def Let_def)
  ultimately show ?thesis using \<open>sr_inv (sr_flush r1)\<close> by blast
qed

lemma sr_close_frame [simp]:
  "sr_limit (sr_close r) = sr_limit r" "sr_capacity (sr_close r) = sr_capacity r"
  "first_unassembled (sr_close r) = first_unassembled r"
  "sr_eof (sr_close r) = sr_eof r" "sr_eof_index (sr_close r) = sr_eof_index r"
  "bs_buff (sr_output (sr_close r)) = bs_buff (sr_output r)"
  "bs_bytes_r (sr_output (sr_close r)) = bs_bytes_r (sr_output r)"
  "bs_error (sr_output (sr_close r)) = bs_error (sr_output r)"
  by (simp_all add: sr_close_def sr_limit_def first_unassembled_def bytes_written_def end_input_def)

lemma sr_close_ended:
  "input_ended (sr_output (sr_close r)) \<longleftrightarrow>
     input_ended (sr_output r) \<or> sr_eof r \<and> first_unassembled r = sr_eof_index r"
  by (auto simp: sr_close_def input_ended_def end_input_def)

lemma sr_close_inv: "sr_inv r \<Longrightarrow> sr_inv (sr_close r)"
  by (auto simp: sr_close_def sr_inv_def sr_core_def sr_limit_def first_unassembled_def
      bytes_written_def input_ended_def end_input_def bs_inv_def)

lemma sr_close_all: "sr_all P r \<Longrightarrow> sr_all P (sr_close r)"
  by (simp add: sr_close_def sr_all_def end_input_def)

lemma sr_close_known: "sr_known (sr_close r) i \<Longrightarrow> sr_known r i"
  by (auto simp: sr_close_def sr_known_def first_unassembled_def bytes_written_def end_input_def split: if_splits)

lemma sr_close_open: "\<not> input_ended (sr_output (sr_close r)) \<Longrightarrow> sr_close r = r"
  by (auto simp: sr_close_def input_ended_def end_input_def)

section \<open>Runs\<close>

text \<open>
  A run pushes substrings and reads from the output stream (\<open>stream_out().read(n)\<close>). The side
  condition of a call keeps the window below the width of \<open>size_t\<close>.
\<close>

datatype sr_call = SrPush bytes size_t bool | SrRead size_t

fun sr_step :: "stream_reassembler \<Rightarrow> sr_call \<Rightarrow> stream_reassembler option" where
  "sr_step r (SrPush d i e) = push_substring r d i e"
| "sr_step r (SrRead n) = Some (r\<lparr>sr_output := snd (bs_read (sr_output r) n)\<rparr>)"

fun sr_fits :: "stream_reassembler \<Rightarrow> sr_call \<Rightarrow> bool" where
  "sr_fits r (SrPush d i e) = (sr_limit r + length d < SIZE_MOD)"
| "sr_fits r (SrRead n) = (sr_limit r + buffer_size (sr_output r) < SIZE_MOD)"

text \<open>The pushed bytes are those of the stream \<open>S\<close>.\<close>

fun sr_from :: "(nat \<Rightarrow> byte) \<Rightarrow> sr_call \<Rightarrow> bool" where
  "sr_from S (SrPush d i e) = (d = map S [i..<i + length d])"
| "sr_from S (SrRead n) = True"

fun sr_reads :: "stream_reassembler \<Rightarrow> sr_call list \<Rightarrow> bytes" where
  "sr_reads r [] = []"
| "sr_reads r (SrPush d i e # cs) =
     (case push_substring r d i e of None \<Rightarrow> [] | Some r' \<Rightarrow> sr_reads r' cs)"
| "sr_reads r (SrRead n # cs) =
     (let (out, s) = bs_read (sr_output r) n in out @ sr_reads (r\<lparr>sr_output := s\<rparr>) cs)"

lemma sr_new_inv: "cap < SIZE_MOD \<Longrightarrow> sr_inv (sr_new cap)"
  by (simp add: sr_inv_def sr_core_def sr_limit_def sr_new_def counted_def bs_inv_def bs_new_def)

lemma data_all_stream: "data_all (\<lambda>i b. b = S i) i xs \<longleftrightarrow> xs = map S [i..<i + length xs]"
  unfolding data_all_def list_eq_iff_nth_eq [of xs "map S [i..<i + length xs]"] by simp

lemma sr_read_step:
  fixes n :: nat
  assumes inv: "sr_inv r" and fits: "sr_limit r + buffer_size (sr_output r) < SIZE_MOD"
  defines "r' \<equiv> r\<lparr>sr_output := snd (bs_read (sr_output r) n)\<rparr>"
  shows "sr_inv r'" and "sr_all P r \<Longrightarrow> sr_all P r'"
    and "bs_bytes_r (sr_output r') = bs_bytes_r (sr_output r) + length (fst (bs_read (sr_output r) n))"
    and "sr_all P r \<Longrightarrow> data_all P (bs_bytes_r (sr_output r)) (fst (bs_read (sr_output r) n))"
proof -
  let ?b = "bs_buff (sr_output r)" and ?k = "min n (length (bs_buff (sr_output r)))"
  have br: "bs_bytes_r (sr_output r') = bs_bytes_r (sr_output r) + ?k"
    using fits by (auto simp: r'_def bs_simps sr_limit_def buffer_size_def intro!: sz_add_exact)
  then show "bs_bytes_r (sr_output r') = bs_bytes_r (sr_output r) + length (fst (bs_read (sr_output r) n))"
    by (simp add: bs_simps min.commute)
  have "bs_inv (sr_output r')"
    using inv by (simp add: r'_def sr_inv_def sr_core_def bs_inv_read)
  moreover have "sr_limit r' = sr_limit r + ?k"
    using br by (simp add: sr_limit_def r'_def)
  moreover have "first_unassembled r' = first_unassembled r" "sr_buf r' = sr_buf r" "sr_capacity r' = sr_capacity r"
    "bs_capacity (sr_output r') = bs_capacity (sr_output r)" "input_ended (sr_output r') = input_ended (sr_output r)"
    "counted r' = counted r"
    by (simp_all add: r'_def bs_simps first_unassembled_def bytes_written_def input_ended_def counted_def)
  ultimately show "sr_inv r'"
    using inv fits by (fastforce simp: sr_inv_def sr_core_def buffer_size_def)
  have split: "data_all P (bs_bytes_r (sr_output r)) ?b \<longleftrightarrow>
      data_all P (bs_bytes_r (sr_output r)) (take ?k ?b) \<and>
      data_all P (bs_bytes_r (sr_output r) + ?k) (drop ?k ?b)"
    using data_all_append [of P _ "take ?k ?b" "drop ?k ?b"] by (simp add: min.commute)
  then show "sr_all P r \<Longrightarrow> sr_all P r'"
    using br by (simp add: sr_all_def r'_def bs_simps)
  from split show "sr_all P r \<Longrightarrow> data_all P (bs_bytes_r (sr_output r)) (fst (bs_read (sr_output r) n))"
    by (simp add: sr_all_def bs_simps)
qed

lemma sr_push_step:
  assumes "sr_inv r" and "sr_limit r + length d < SIZE_MOD"
  shows "\<exists>r'. push_substring r d i e = Some r' \<and> sr_inv r' \<and>
    bs_bytes_r (sr_output r') = bs_bytes_r (sr_output r) \<and> sr_capacity r' = sr_capacity r \<and>
    (\<forall>P. data_all P i d \<longrightarrow> sr_all P r \<longrightarrow> sr_all P r')"
  using push_substring_extends [OF assms, of i e]
  by (auto simp: extends_def sr_close_inv sr_close_all)

lemma sr_step_total:
  assumes "sr_inv r" and "sr_fits r c"
  shows "\<exists>r'. sr_step r c = Some r' \<and> sr_inv r' \<and> sr_capacity r' = sr_capacity r \<and>
    (sr_from S c \<longrightarrow> sr_all (\<lambda>i b. b = S i) r \<longrightarrow> sr_all (\<lambda>i b. b = S i) r')"
proof (cases c)
  case (SrPush d i e)
  with sr_push_step [OF assms(1), of d i e] assms(2) show ?thesis
    by (auto simp: data_all_stream)
next
  case (SrRead n)
  with sr_read_step [OF assms(1), where n = n] assms(2) show ?thesis by simp
qed

interpretation srm: invariant_machine sr_step sr_fits "\<lambda>r. sr_inv r \<and> sr_capacity r = cap" for cap
  by unfold_locales (use sr_step_total in metis)

lemma sr_run_stream:
  assumes "sr_inv r" and "sr_all (\<lambda>i b. b = S i) r" and "run_admissible sr_step sr_fits r cs"
    and "list_all (sr_from S) cs"
  shows "\<exists>r'. run_steps sr_step r cs = Some r' \<and> sr_inv r' \<and> sr_all (\<lambda>i b. b = S i) r' \<and>
    bs_bytes_r (sr_output r) \<le> bs_bytes_r (sr_output r') \<and>
    sr_reads r cs = map S [bs_bytes_r (sr_output r)..<bs_bytes_r (sr_output r')]"
  using assms
proof (induction cs arbitrary: r)
  case Nil
  then show ?case by simp
next
  case (Cons c cs)
  show ?case
  proof (cases c)
    case (SrPush d i e)
    with Cons.prems sr_push_step [of r d i e] obtain r1 where r1: "push_substring r d i e = Some r1"
      "sr_inv r1" "bs_bytes_r (sr_output r1) = bs_bytes_r (sr_output r)" "sr_all (\<lambda>i b. b = S i) r1"
      by (auto simp: data_all_stream)
    with Cons.IH [of r1] Cons.prems SrPush show ?thesis by auto
  next
    case (SrRead n)
    let ?r1 = "r\<lparr>sr_output := snd (bs_read (sr_output r) n)\<rparr>"
    have fits: "sr_limit r + buffer_size (sr_output r) < SIZE_MOD"
      using Cons.prems SrRead by simp
    note r1 = sr_read_step [OF Cons.prems(1) fits, where n = n]
    have out: "fst (bs_read (sr_output r) n) = map S [bs_bytes_r (sr_output r)..<bs_bytes_r (sr_output ?r1)]"
      using r1(4) [of "\<lambda>i b. b = S i", OF Cons.prems(2)] unfolding r1(3) data_all_stream .
    obtain r' where r': "run_steps sr_step ?r1 cs = Some r'" "sr_inv r'" "sr_all (\<lambda>i b. b = S i) r'"
      "bs_bytes_r (sr_output ?r1) \<le> bs_bytes_r (sr_output r')"
      "sr_reads ?r1 cs = map S [bs_bytes_r (sr_output ?r1)..<bs_bytes_r (sr_output r')]"
      using Cons.IH [OF r1(1) r1(2) [OF Cons.prems(2)]] Cons.prems SrRead by auto
    have "sr_reads r (c # cs) = map S [bs_bytes_r (sr_output r)..<bs_bytes_r (sr_output r')]"
      using out r'(4,5) r1(3) SrRead
      by (simp add: prod.case_eq_if upt_split flip: map_append)
    with r' r1(3) SrRead show ?thesis by simp
  qed
qed

section \<open>The contract for the receiver\<close>

text \<open>
  What the TCP receiver needs of a reassembler: a push returns, never gives back assembled bytes,
  does not move the end of the window, and keeps the assembled and stored bytes those of the stream.
\<close>

locale stream_assembler =
  fixes inv :: "'s \<Rightarrow> bool" and push :: "'s \<Rightarrow> bytes \<Rightarrow> nat \<Rightarrow> bool \<Rightarrow> 's option"
    and assembled limit :: "'s \<Rightarrow> nat" and from_stream :: "(nat \<Rightarrow> byte) \<Rightarrow> 's \<Rightarrow> bool"
  assumes push_total: "inv s \<Longrightarrow> limit s + length d < SIZE_MOD \<Longrightarrow>
      \<exists>s'. push s d i e = Some s' \<and> inv s' \<and> assembled s \<le> assembled s' \<and> limit s' = limit s \<and>
        (\<forall>S. d = map S [i..<i + length d] \<longrightarrow> from_stream S s \<longrightarrow> from_stream S s')"
    and within: "inv s \<Longrightarrow> assembled s \<le> limit s"
begin

text \<open>What a push assembles is taken from the window: its end does not move.\<close>

lemma push_window:
  assumes "inv s" and "limit s + length d < SIZE_MOD" and "push s d i e = Some s'"
  shows "inv s'" and "assembled s \<le> assembled s'"
    and "limit s' - assembled s' = (limit s - assembled s) - (assembled s' - assembled s)"
    and "assembled s' + (limit s' - assembled s') = limit s"
  using push_total [OF assms(1,2), of i e] within [of s'] assms(3) by auto

text \<open>Any number of pushes returns.\<close>

lemma pushes_total:
  "inv s \<Longrightarrow> \<forall>(d, i, e) \<in> set ps. limit s + length d < SIZE_MOD \<Longrightarrow>
   \<exists>s'. run_steps (\<lambda>s (d, i, e). push s d i e) s ps = Some s' \<and> inv s' \<and>
     assembled s \<le> assembled s' \<and> limit s' = limit s"
proof (induction ps arbitrary: s)
  case (Cons p ps)
  obtain d i e where p: "p = (d, i, e)" by (cases p)
  with Cons.prems push_total [of s d i e] obtain s1 where
    s1: "push s d i e = Some s1" "inv s1" "assembled s \<le> assembled s1" "limit s1 = limit s" by auto
  with Cons.IH [of s1] Cons.prems p show ?case by fastforce
qed simp

end

interpretation sra: stream_assembler sr_inv push_substring first_unassembled sr_limit
  "\<lambda>S. sr_all (\<lambda>i b. b = S i)"
proof unfold_locales
  fix s and d :: bytes and i e
  assume inv: "sr_inv s" and fits: "sr_limit s + length d < SIZE_MOD"
  from push_substring_extends [OF this, of i e] obtain r where
    r: "push_substring s d i e = Some (sr_close r)" "sr_inv r" "extends s d i e r" by blast
  have "sr_core s" "sr_core r" using inv r(2) by (simp_all add: sr_inv_def)
  from this [THEN sr_core_written(1)] have "first_unassembled s \<le> first_unassembled r"
    using r(3) by (auto simp: extends_def)
  with r show "\<exists>s'. push_substring s d i e = Some s' \<and> sr_inv s' \<and>
      first_unassembled s \<le> first_unassembled s' \<and> sr_limit s' = sr_limit s \<and>
      (\<forall>S. d = map S [i..<i + length d] \<longrightarrow> sr_all (\<lambda>i b. b = S i) s \<longrightarrow> sr_all (\<lambda>i b. b = S i) s')"
    by (auto simp: extends_def sr_close_inv sr_close_all data_all_stream)
qed (simp add: sr_inv_def sr_core_written(2))

section \<open>Complete delivery\<close>

text \<open>
  A stream of \<open>N\<close> bytes cut into substrings: a piece is its bytes, its index and its end-of-stream
  flag. The reassembler simulates the machine that only collects the pieces it was given.
\<close>

type_synonym piece = "bytes \<times> size_t \<times> bool"

fun push_piece :: "stream_reassembler \<Rightarrow> piece \<Rightarrow> stream_reassembler option" where
  "push_piece r (d, i, e) = push_substring r d i e"

fun piece_of :: "(nat \<Rightarrow> byte) \<Rightarrow> nat \<Rightarrow> piece \<Rightarrow> bool" where
  "piece_of S N (d, i, e) \<longleftrightarrow> d = map S [i..<i + length d] \<and> i + length d \<le> N \<and> (e \<longrightarrow> i + length d = N)"

fun piece_covers :: "nat \<Rightarrow> piece \<Rightarrow> bool" where
  "piece_covers i (d, j, e) \<longleftrightarrow> j \<le> i \<and> i < j + length d"

definition collected :: "(nat \<Rightarrow> byte) \<Rightarrow> nat \<Rightarrow> nat \<Rightarrow> stream_reassembler \<Rightarrow> piece list \<Rightarrow> bool" where
  "collected S N cap r ps \<longleftrightarrow> sr_inv r \<and> sr_limit r = cap \<and> bs_bytes_r (sr_output r) = 0 \<and>
     list_all (piece_of S N) ps \<and> sr_all (\<lambda>i b. b = S i) r \<and>
     (\<forall>i < cap. sr_known r i \<longleftrightarrow> list_ex (piece_covers i) ps) \<and>
     sr_eof r = list_ex (\<lambda>(d, i, e). e) ps \<and> (sr_eof r \<longrightarrow> sr_eof_index r = N) \<and>
     input_ended (sr_output r) = (sr_eof r \<and> first_unassembled r = N)"

lemma collected_new: "cap < SIZE_MOD \<Longrightarrow> collected S N cap (sr_new cap) []"
  by (simp add: collected_def sr_new_inv)
    (simp add: sr_new_def sr_limit_def bs_new_def sr_all_def sr_known_def first_unassembled_def
      bytes_written_def input_ended_def)

lemma collected_known_bound:
  assumes "list_all (piece_of S N) ps" and "list_ex (piece_covers i) ps"
  shows "i < N"
  using assms by (fastforce simp: list_all_iff list_ex_iff)

text \<open>What is known after a push, whether or not the push completes the stream.\<close>

lemma collected_known:
  assumes col: "collected S N cap r ps" and p: "piece_of S N (d, i, e)" and ext: "extends r d i e r2"
    and eof2: "sr_eof r2 \<longrightarrow> sr_eof_index r2 = N"
    and ended: "input_ended (sr_output r) \<Longrightarrow> sr_eof r2 \<and> first_unassembled r2 = N"
    and j: "j < cap"
  shows "sr_known (sr_close r2) j \<longleftrightarrow> list_ex (piece_covers j) (ps @ [(d, i, e)])"
proof -
  have known: "sr_known r j \<longleftrightarrow> list_ex (piece_covers j) ps"
    using col j by (simp add: collected_def)
  have known2: "sr_known r2 j \<longleftrightarrow> list_ex (piece_covers j) (ps @ [(d, i, e)])"
    if "\<not> input_ended (sr_output r)"
    using that ext known j col by (simp add: extends_def collected_def)
  show ?thesis
  proof (cases "sr_eof r2 \<and> first_unassembled r2 = N")
    case True
    then have "sr_known (sr_close r2) j \<longleftrightarrow> j < N"
      using eof2 by (simp add: sr_known_def sr_close_def first_unassembled_def bytes_written_def end_input_def)
    moreover have "list_ex (piece_covers j) (ps @ [(d, i, e)])" if "j < N"
    proof (cases "input_ended (sr_output r)")
      case True
      then have "sr_known r j" using col that by (simp add: collected_def sr_known_def)
      with known show ?thesis by simp
    next
      case False
      have "sr_known r2 j" using True that by (simp add: sr_known_def)
      with known2 False show ?thesis by simp
    qed
    moreover have "list_ex (piece_covers j) (ps @ [(d, i, e)]) \<Longrightarrow> j < N"
      using collected_known_bound [of S N "ps @ [(d, i, e)]" j] col p by (simp add: collected_def)
    ultimately show ?thesis by blast
  next
    case False
    then have "sr_close r2 = r2" using eof2 by (auto simp: sr_close_def)
    with known2 ended False show ?thesis by auto
  qed
qed

lemma collected_push:
  assumes col: "collected S N cap r ps" and p: "piece_of S N p" and bounds: "N \<le> cap" "cap + N < SIZE_MOD"
  shows "\<exists>r'. push_piece r p = Some r' \<and> collected S N cap r' (ps @ [p])"
proof -
  obtain d i e where [simp]: "p = (d, i, e)" by (cases p)
  have inv: "sr_inv r" and fits: "sr_limit r + length d < SIZE_MOD"
    using col p bounds by (auto simp: collected_def)
  from push_substring_extends [OF inv fits, of i e] obtain r2 where
    push: "push_substring r d i e = Some (sr_close r2)" and inv2: "sr_inv r2"
    and ext: "extends r d i e r2" by blast
  have eof2: "sr_eof r2 = list_ex (\<lambda>(d, i, e). e) (ps @ [p])" "sr_eof r2 \<longrightarrow> sr_eof_index r2 = N"
    using ext col p bounds by (auto simp: extends_def collected_def sz_add_exact)
  have ended: "input_ended (sr_output r) \<Longrightarrow> sr_eof r2 \<and> first_unassembled r2 = N"
    using ext col by (auto simp: extends_def collected_def first_unassembled_def)
  have "sr_known (sr_close r2) j \<longleftrightarrow> list_ex (piece_covers j) (ps @ [p])" if "j < cap" for j
    using collected_known [OF col _ ext eof2(2) ended that] p by simp
  moreover have "input_ended (sr_output (sr_close r2)) = (sr_eof r2 \<and> first_unassembled r2 = N)"
    using eof2 ended ext by (auto simp: sr_close_ended extends_def)
  moreover have "sr_all (\<lambda>i b. b = S i) (sr_close r2)"
    using ext col p by (intro sr_close_all) (auto simp: extends_def collected_def data_all_stream)
  ultimately have "collected S N cap (sr_close r2) (ps @ [p])"
    using col p eof2 ext inv2 by (simp add: collected_def sr_close_inv extends_def)
  with push show ?thesis by auto
qed

interpretation src: simulation push_piece "\<lambda>_ p. N \<le> cap \<and> cap + N < SIZE_MOD \<and> piece_of S N p"
  "\<lambda>ps p. ps @ [p]" "collected S N cap" for S N cap
  by unfold_locales (use collected_push in blast)

lemma run_admissible_const:
  "list_all ok es \<Longrightarrow> run_admissible step (\<lambda>_. ok) s es"
  by (induction es arbitrary: s) (auto split: option.splits)

lemma foldl_snoc: "foldl (\<lambda>ps p. ps @ [p]) xs ys = xs @ ys"
  by (induction ys arbitrary: xs) auto

lemma collected_complete:
  assumes col: "collected S N cap r ps" and cov: "\<And>i. i < N \<Longrightarrow> list_ex (piece_covers i) ps"
    and eof: "list_ex (\<lambda>(d, i, e). e) ps" and N: "N \<le> cap"
  shows "bs_buff (sr_output r) = map S [0..<N] \<and> input_ended (sr_output r)"
proof -
  have inv: "sr_inv r" and known: "\<And>i. i < cap \<Longrightarrow> sr_known r i \<longleftrightarrow> list_ex (piece_covers i) ps"
    using col by (auto simp: collected_def)
  have core: "sr_core r" using inv by (simp add: sr_inv_def)
  have "\<not> first_unassembled r < N"
    using sr_first_unknown [OF inv] known cov N by auto
  moreover have "\<not> N < first_unassembled r"
  proof
    assume "N < first_unassembled r"
    moreover have "first_unassembled r \<le> cap"
      using sr_core_written(2) [OF core] col by (simp add: collected_def)
    ultimately have "list_ex (piece_covers N) ps" using known [of N] by (simp add: sr_known_def)
    then show False using collected_known_bound [of S N ps N] col by (simp add: collected_def)
  qed
  ultimately have fua: "first_unassembled r = N" by simp
  then have "length (bs_buff (sr_output r)) = N"
    using sr_core_written(1) [OF core] col by (simp add: collected_def)
  moreover have "bs_bytes_r (sr_output r) = 0" and "data_all (\<lambda>i b. b = S i) (bs_bytes_r (sr_output r)) (bs_buff (sr_output r))"
    using col by (auto simp: collected_def sr_all_def)
  ultimately show ?thesis
    using col eof fua by (simp add: data_all_stream collected_def)
qed

lemmas sr_run_defs = sr_new_def bs_new_def push_substring_def handle_substring_def handle_overlap_def
  overlap_step_def merge_seg_def clip_front_def clip_back_def buf_insert_def buf_erase_def tail_idx_def
  seg_length_def seg_less_def substr_from_def substr_to_def sr_flush.simps first_unassembled_def
  first_unacceptable_def first_unread_def sr_limit_def bytes_read_def bytes_written_def end_input_def
  bs_write_def bs_read_def peek_output_def pop_output_def remaining_capacity_def buffer_size_def
  sz_add_def sz_sub_def

section \<open>Properties\<close>

text \<open>
  C22: One call of \<open>push_substring\<close> on a well-formed reassembler whose stream is still open returns,
  keeps the reassembler well formed, only appends to the output, and assembles exactly as far as
  possible: every byte below the new \<open>first_unassembled\<close> was known before or is in the pushed
  substring, and the byte at the new \<open>first_unassembled\<close> is neither, unless the window is full.
\<close>

theorem push_substring_assembles:
  assumes "sr_inv r" and "\<not> input_ended (sr_output r)"
    and "first_unacceptable r + length data < SIZE_MOD"
  shows "\<exists>r'. push_substring r data index eof = Some r' \<and> sr_inv r' \<and>
    (\<exists>new. bs_buff (sr_output r') = bs_buff (sr_output r) @ new) \<and>
    first_unassembled r' \<le> first_unacceptable r \<and>
    (\<forall>i < first_unassembled r'. sr_known r i \<or> index \<le> i \<and> i < index + length data) \<and>
    (first_unassembled r' < first_unacceptable r \<longrightarrow>
       \<not> (sr_known r (first_unassembled r') \<or>
          index \<le> first_unassembled r' \<and> first_unassembled r' < index + length data))"
proof -
  have lim: "first_unacceptable r = sr_limit r"
    using assms(1) by (simp add: sr_inv_def sr_core_limit)
  from push_substring_extends [OF assms(1), of data index eof] assms(3) obtain r2 where
    r2: "push_substring r data index eof = Some (sr_close r2)" "sr_inv r2" "extends r data index eof r2"
    unfolding lim by blast
  have known: "i < sr_limit r \<Longrightarrow> sr_known r2 i \<longleftrightarrow> sr_known r i \<or> index \<le> i \<and> i < index + length data" for i
    using r2(3) assms(2) by (simp add: extends_def)
  have "first_unassembled r2 \<le> sr_limit r"
    using r2(2,3) sr_core_written(2) [of r2] by (simp add: sr_inv_def extends_def)
  moreover have "sr_known r2 i" if "i < first_unassembled r2" for i
    using that by (simp add: sr_known_def)
  moreover have "\<exists>new. bs_buff (sr_output r2) = bs_buff (sr_output r) @ new"
    using r2(3) by (simp add: extends_def)
  ultimately show ?thesis
    using r2(1) sr_close_inv [OF r2(2)] known sr_first_unknown [OF r2(2)] unfolding lim by auto
qed

theorem push_substring_assembles_witness:
  "\<exists>r'. push_substring (sr_new 4) [7, 8] 0 False = Some r' \<and> first_unassembled r' = 2"
proof -
  have h: "sr_inv (sr_new 4)" "\<not> input_ended (sr_output (sr_new 4))"
    "first_unacceptable (sr_new 4) + length [7 :: byte, 8] < SIZE_MOD" "first_unacceptable (sr_new 4) = 4"
    by (simp_all add: sr_new_inv SIZE_MOD_def)
      (simp_all add: sr_new_def bs_new_def input_ended_def first_unacceptable_def first_unread_def
        bytes_read_def sz_add_def SIZE_MOD_def)
  have known: "\<not> sr_known (sr_new 4) i" for i
    by (simp add: sr_known_def sr_new_def first_unassembled_def bytes_written_def bs_new_def)
  from push_substring_assembles [OF h(1-3), of 0 False] obtain r' where
    r': "push_substring (sr_new 4) [7, 8] 0 False = Some r'" "first_unassembled r' \<le> 4"
      "\<forall>i < first_unassembled r'. i < 2" "first_unassembled r' < 4 \<longrightarrow> \<not> first_unassembled r' < 2"
    using known by (auto simp: h(4) simp flip: numeral_2_eq_2)
  have "\<not> 2 < first_unassembled r'" using r'(3) by auto
  with r' show ?thesis by auto
qed

text \<open>
  C10: Whatever the order, overlap and duplication of the pushed substrings of a stream \<open>S\<close>, and
  however reads are interleaved with the pushes, every call returns and the bytes read so far
  followed by the bytes waiting in the output are exactly the first bytes of \<open>S\<close>.
\<close>

theorem reassembly_delivers_stream:
  assumes "cap < SIZE_MOD" and "list_all (sr_from S) calls"
    and "run_admissible sr_step sr_fits (sr_new cap) calls"
  shows "\<exists>r. run_steps sr_step (sr_new cap) calls = Some r \<and>
    sr_reads (sr_new cap) calls @ bs_buff (sr_output r) = map S [0..<first_unassembled r]"
proof -
  have new: "sr_inv (sr_new cap)" "sr_all (\<lambda>i b. b = S i) (sr_new cap)" "bs_bytes_r (sr_output (sr_new cap)) = 0"
    using assms(1) sr_new_inv by (simp_all add: sr_all_def) (simp_all add: sr_new_def bs_new_def)
  from sr_run_stream [OF new(1,2) assms(3,2)] obtain r where r: "run_steps sr_step (sr_new cap) calls = Some r"
    "sr_inv r" "sr_all (\<lambda>i b. b = S i) r" "sr_reads (sr_new cap) calls = map S [0..<bs_bytes_r (sr_output r)]"
    unfolding new(3) by blast
  have "bs_buff (sr_output r) = map S [bs_bytes_r (sr_output r)..<bs_bytes_r (sr_output r) + length (bs_buff (sr_output r))]"
    using r(3) by (simp add: sr_all_def data_all_stream)
  from stream_prefix_extend [OF this] show ?thesis
    using r(1,2,4) sr_core_written(1) [of r] by (simp add: sr_inv_def)
qed

theorem reassembly_delivers_stream_witness:
  "\<exists>r. run_steps sr_step (sr_new 4) [SrPush [2, 3] 2 True, SrPush [0, 1, 2] 0 False, SrRead 3, SrPush [1, 2] 1 False] = Some r \<and>
     sr_reads (sr_new 4) [SrPush [2, 3] 2 True, SrPush [0, 1, 2] 0 False, SrRead 3, SrPush [1, 2] 1 False] @ bs_buff (sr_output r)
       = map of_nat [0..<first_unassembled r]"
  by (rule reassembly_delivers_stream) (simp_all add: SIZE_MOD_def sr_run_defs)

text \<open>
  C11: If the pieces of an \<open>N\<close> byte stream that were pushed cover it and one of them carries the end
  of the stream, then after any order and any repetition of the pushes the output holds exactly the
  stream and its input has ended. The stream has to fit the capacity, as nothing is read meanwhile.
\<close>

theorem reassembly_complete:
  assumes "N \<le> cap" and "cap + N < SIZE_MOD" and "list_all (piece_of S N) pieces"
    and "\<forall>i < N. list_ex (piece_covers i) pieces" and "list_ex (\<lambda>(d, i, e). e) pieces"
  shows "\<exists>r. run_steps push_piece (sr_new cap) pieces = Some r \<and>
    bs_buff (sr_output r) = map S [0..<N] \<and> input_ended (sr_output r)"
proof -
  have "list_all (\<lambda>p. N \<le> cap \<and> cap + N < SIZE_MOD \<and> piece_of S N p) pieces"
    using assms(1-3) by (simp add: list_all_iff)
  from src.run_sim [OF collected_new run_admissible_const [OF this]] assms(2) obtain r where
    "run_steps push_piece (sr_new cap) pieces = Some r" "collected S N cap r pieces"
    unfolding foldl_snoc by auto
  with collected_complete [of S N cap r pieces] assms show ?thesis by blast
qed

theorem reassembly_complete_witness:
  "\<exists>r. run_steps push_piece (sr_new 5) [([3, 4], 3, True), ([1, 2], 1, False), ([0, 1], 0, False), ([2], 2, False)] = Some r \<and>
     bs_buff (sr_output r) = [0, 1, 2, 3, 4] \<and> input_ended (sr_output r)"
proof -
  let ?S = "\<lambda>i. of_nat i :: byte"
  let ?ps = "[([3, 4], 3, True), ([1, 2], 1, False), ([0, 1], 0, False), ([2], 2, False)] :: piece list"
  have "list_all (piece_of ?S 5) ?ps" by (simp add: upt_rec)
  moreover have "\<forall>i < 5. list_ex (piece_covers i) ?ps" by auto
  ultimately show ?thesis
    using reassembly_complete [of 5 5 ?S ?ps] by (simp add: SIZE_MOD_def upt_rec)
qed

text \<open>
  C37: At any point of a run, the bytes waiting in the output and the bytes stored out of order
  together never exceed the capacity; while the stream is open \<open>unassembled_bytes\<close> is the number of
  bytes stored out of order.
\<close>

theorem reassembler_memory_bound:
  assumes "cap < SIZE_MOD" and "run_admissible sr_step sr_fits (sr_new cap) calls"
  shows "\<exists>r. run_steps sr_step (sr_new cap) calls = Some r \<and>
    buffer_size (sr_output r) + seg_total (sr_buf r) \<le> cap \<and>
    (\<not> input_ended (sr_output r) \<longrightarrow> unassembled_bytes r = seg_total (sr_buf r))"
proof -
  have "sr_capacity (sr_new cap) = cap" by (simp add: sr_new_def)
  with srm.run_total [OF _ assms(2), of cap] sr_new_inv [OF assms(1)] obtain r where
    r: "run_steps sr_step (sr_new cap) calls = Some r" "sr_inv r" "sr_capacity r = cap" by blast
  have core: "sr_core r" using r(2) by (simp add: sr_inv_def)
  have "seg_total (sr_buf r) \<le> sr_limit r - first_unassembled r"
    using r(2) sr_core_written(2) [OF core] by (intro seg_chain_total) (auto simp: sr_inv_def)
  then have "buffer_size (sr_output r) + seg_total (sr_buf r) \<le> cap"
    using sr_core_written(1,2) [OF core] r(3) by (simp add: sr_limit_def buffer_size_def)
  with r show ?thesis
    by (auto simp: sr_inv_def counted_def unassembled_bytes_def)
qed

theorem reassembler_memory_bound_witness:
  "\<exists>r. run_steps sr_step (sr_new 4) [SrPush [2, 3] 2 True, SrPush [0, 1] 0 False, SrRead 3] = Some r \<and>
     buffer_size (sr_output r) + seg_total (sr_buf r) \<le> 4"
proof -
  have "run_admissible sr_step sr_fits (sr_new 4) [SrPush [2, 3] 2 True, SrPush [0, 1] 0 False, SrRead 3]"
    by (simp add: SIZE_MOD_def sr_run_defs)
  from reassembler_memory_bound [OF _ this] show ?thesis by (auto simp: SIZE_MOD_def)
qed

text \<open>
  Once the end of the stream is reached with pieces still stored, the storage is cleared without
  updating the counter: the reassembler is empty while \<open>unassembled_bytes\<close> still counts the discarded
  piece. The example pushes a byte at index 5 and then a one byte stream with its end.
\<close>

theorem unassembled_bytes_stale_after_eof:
  "\<exists>r. run_steps push_piece (sr_new 8) [([a], 5, False), ([b], 0, True)] = Some r \<and>
     input_ended (sr_output r) \<and> sr_empty r \<and> unassembled_bytes r = 1"
  by (simp add: SIZE_MOD_def sr_run_defs sr_empty_def unassembled_bytes_def input_ended_def)

end
