(* ===== verification/Wrapping_Integers.thy ===== *)
theory Wrapping_Integers
  imports Sponge_Prelude
begin

text \<open>
  The 32 bit sequence numbers of \<open>libsponge/wrapping_integers.hh\<close> and \<open>wrapping_integers.cc\<close>, and
  the conversions between them and 64 bit absolute sequence numbers. The locale \<open>seq_codec\<close> is the
  contract the receiver and the sender rely on; it is interpreted on \<open>wrap\<close> and \<open>unwrap\<close>.
\<close>

section \<open>The class and its operators\<close>

datatype wrapping_int32 = WrappingInt32 (raw_value: u32)

text \<open>\<open>operator-(WrappingInt32, WrappingInt32)\<close> returns an \<open>int32_t\<close>: the signed reading of the difference.\<close>

definition wi_diff :: "wrapping_int32 \<Rightarrow> wrapping_int32 \<Rightarrow> int" where
  "wi_diff a b = sint (raw_value a - raw_value b)"

definition wi_plus :: "wrapping_int32 \<Rightarrow> u32 \<Rightarrow> wrapping_int32" where
  "wi_plus a b = WrappingInt32 (raw_value a + b)"

definition wi_minus :: "wrapping_int32 \<Rightarrow> u32 \<Rightarrow> wrapping_int32" where
  "wi_minus a b = wi_plus a (- b)"

definition wi_eq :: "wrapping_int32 \<Rightarrow> wrapping_int32 \<Rightarrow> bool" where
  "wi_eq a b = (raw_value a = raw_value b)"

definition wrap :: "size_t \<Rightarrow> wrapping_int32 \<Rightarrow> wrapping_int32" where
  "wrap n isn = WrappingInt32 (raw_value isn + of_nat n)"

definition unwrap :: "wrapping_int32 \<Rightarrow> wrapping_int32 \<Rightarrow> size_t \<Rightarrow> size_t" where
  "unwrap n isn checkpoint =
     (let offset = (of_int (wi_diff n (wrap checkpoint isn)) :: u32);
          pos = sz_add checkpoint (unat offset)
      in if offset > 2147483648 \<and> pos \<ge> 4294967296 then sz_sub pos 4294967296 else pos)"

section \<open>Arithmetic of the wrap-around\<close>

definition SEQ_MOD :: nat where
  "SEQ_MOD = 4294967296"

lemma SEQ_MOD_pos [simp]: "0 < SEQ_MOD"
  by (simp add: SEQ_MOD_def)

lemma unat_of_nat_u32: "unat (of_nat n :: u32) = n mod SEQ_MOD"
  by (simp add: unat_of_nat SEQ_MOD_def)

lemma wrap_eq_iff: "wrap m isn = wrap n isn \<longleftrightarrow> m mod SEQ_MOD = n mod SEQ_MOD"
proof -
  have "(of_nat m :: u32) = of_nat n \<longleftrightarrow> unat (of_nat m :: u32) = unat (of_nat n :: u32)"
    by (rule word_unat_eq_iff)
  then show ?thesis
    by (simp add: wrap_def unat_of_nat_u32)
qed

lemma wi_eq_iff [simp]: "wi_eq a b \<longleftrightarrow> a = b"
  by (cases a; cases b) (simp add: wi_eq_def)

lemma wrap_surj: "\<exists>x < SEQ_MOD. n = wrap x isn"
proof -
  have "n = wrap (unat (raw_value n - raw_value isn)) isn"
    by (simp add: wrap_def)
  moreover have "unat (raw_value n - raw_value isn) < SEQ_MOD"
    using unsigned_less [of "raw_value n - raw_value isn"] by (simp add: SEQ_MOD_def)
  ultimately show ?thesis by blast
qed

lemma wrap_plus: "wi_plus (wrap n isn) (of_nat k) = wrap (n + k) isn"
  by (simp add: wi_plus_def wrap_def)

lemma wrap_minus: "k \<le> n \<Longrightarrow> wi_minus (wrap n isn) (of_nat k) = wrap (n - k) isn"
  by (simp add: wi_minus_def wi_plus_def wrap_def of_nat_diff)

lemma wrap_0 [simp]: "wrap 0 isn = isn"
  by (simp add: wrap_def)

text \<open>The 32 bit offset that \<open>unwrap\<close> adds to the checkpoint.\<close>

definition seq_offset :: "wrapping_int32 \<Rightarrow> wrapping_int32 \<Rightarrow> nat \<Rightarrow> nat" where
  "seq_offset n isn cp = unat (raw_value n - raw_value (wrap cp isn))"

lemma seq_offset_less: "seq_offset n isn cp < SEQ_MOD"
  using unsigned_less [of "raw_value n - raw_value (wrap cp isn)"]
  by (simp add: seq_offset_def SEQ_MOD_def)

lemma wrap_seq_offset: "wrap (cp + seq_offset n isn cp) isn = n"
  by (simp add: wrap_def seq_offset_def)

lemma unwrap_cases:
  "unwrap n isn cp =
     (let o1 = seq_offset n isn cp; pos = sz_add cp o1
      in if o1 > 2147483648 \<and> pos \<ge> SEQ_MOD then pos - SEQ_MOD else pos)"
proof -
  have "(2147483648 :: u32) < w \<longleftrightarrow> 2147483648 < unat w" for w :: u32
    by (simp add: word_less_nat_alt)
  then show ?thesis
    by (simp add: unwrap_def seq_offset_def wi_diff_def Let_def SEQ_MOD_def sz_sub_exact)
qed

lemma unwrap_bound [simp]: "unwrap n isn cp < SIZE_MOD"
  unfolding unwrap_cases Let_def
  using sz_add_bound [of cp "seq_offset n isn cp"] by (auto intro: less_imp_diff_less)

lemma size_mod_seq_mod: "(n mod SIZE_MOD) mod SEQ_MOD = n mod SEQ_MOD"
  by (simp add: SIZE_MOD_def SEQ_MOD_def mod_mod_cancel)

lemma wrap_unwrap [simp]: "wrap (unwrap n isn cp) isn = n"
proof -
  let ?o = "seq_offset n isn cp"
  have "unwrap n isn cp mod SEQ_MOD = (cp + ?o) mod SEQ_MOD"
    unfolding unwrap_cases Let_def
    by (auto simp: sz_add_def size_mod_seq_mod le_mod_geq [symmetric])
  then have "wrap (unwrap n isn cp) isn = wrap (cp + ?o) isn"
    by (simp add: wrap_eq_iff)
  then show ?thesis by (simp add: wrap_seq_offset)
qed

text \<open>Congruent sequence numbers differ by a multiple of \<open>2\<^sup>3\<^sup>2\<close>.\<close>

lemma wrap_eq_multiple:
  assumes "wrap x isn = wrap y isn"
  obtains k where "int x = int y + 4294967296 * k"
proof -
  have "int (x mod SEQ_MOD) = int (y mod SEQ_MOD)"
    using assms by (simp add: wrap_eq_iff)
  then have "int SEQ_MOD dvd int x - int y"
    by (simp add: zmod_int mod_eq_dvd_iff)
  then have "4294967296 dvd int x - int y" by (simp add: SEQ_MOD_def)
  then obtain k where "int x - int y = 4294967296 * k" by (rule dvdE)
  then show ?thesis by (intro that [of k]) simp
qed

lemma unwrap_closest_nat:
  assumes x: "wrap x isn = n" and cp: "cp + SEQ_MOD < SIZE_MOD"
  shows "\<bar>int (unwrap n isn cp) - int cp\<bar> \<le> \<bar>int x - int cp\<bar>"
proof -
  define d where "d = seq_offset n isn cp"
  have d: "d < 4294967296" using seq_offset_less by (simp add: d_def SEQ_MOD_def)
  have "wrap x isn = wrap (cp + d) isn"
    using x by (simp add: d_def wrap_seq_offset)
  then obtain k where k: "int x = int (cp + d) + 4294967296 * k"
    by (rule wrap_eq_multiple)
  have "sz_add cp d = cp + d"
    using d cp by (simp add: sz_add_exact SEQ_MOD_def)
  then have u: "unwrap n isn cp = (if d > 2147483648 \<and> cp + d \<ge> 4294967296 then cp + d - 4294967296 else cp + d)"
    by (simp add: unwrap_cases d_def [symmetric] Let_def SEQ_MOD_def)
  consider "k \<ge> 0" | "k \<le> -1" by linarith
  then show ?thesis
  proof cases
    case 1
    then show ?thesis using d k unfolding u by auto
  next
    case 2
    then have "cp + d \<ge> 4294967296" using k by linarith
    with 2 show ?thesis using d k unfolding u by auto
  qed
qed

lemma unwrap_wrap_near:
  assumes a: "a \<le> cp + 2147483648" "cp < a + 2147483648" and cp: "cp + SEQ_MOD < SIZE_MOD"
  shows "unwrap (wrap a isn) isn cp = a"
proof -
  let ?u = "unwrap (wrap a isn) isn cp"
  define d where "d = seq_offset (wrap a isn) isn cp"
  have d: "d < 4294967296" using seq_offset_less by (simp add: d_def SEQ_MOD_def)
  have "wrap a isn = wrap (cp + d) isn"
    by (simp add: d_def wrap_seq_offset)
  then obtain k where k: "int a = int (cp + d) + 4294967296 * k"
    by (rule wrap_eq_multiple)
  have "sz_add cp d = cp + d"
    using d cp by (simp add: sz_add_exact SEQ_MOD_def)
  then have u: "?u = (if d > 2147483648 \<and> cp + d \<ge> 4294967296 then cp + d - 4294967296 else cp + d)"
    by (simp add: unwrap_cases d_def [symmetric] Let_def SEQ_MOD_def)
  have "k = 0 \<or> k = -1" using a d k by linarith
  then show ?thesis using a d k unfolding u by auto
qed

section \<open>The contract of the conversions\<close>

text \<open>
  What the two ends of a stream rely on: \<open>w\<close> and \<open>u\<close> are inverse to each other for an absolute
  sequence number that is less than \<open>2\<^sup>3\<^sup>1\<close> away from the checkpoint, advancing a relative number
  advances the absolute one, and a decoded number always encodes to the number received.
\<close>

locale seq_codec =
  fixes w :: "nat \<Rightarrow> 'q \<Rightarrow> 'q" and u :: "'q \<Rightarrow> 'q \<Rightarrow> nat \<Rightarrow> nat" and window limit :: nat
  assumes decode_encode: "a \<le> cp + window \<Longrightarrow> cp < a + window \<Longrightarrow> cp < limit \<Longrightarrow> u (w a isn) isn cp = a"
    and encode_decode: "w (u n isn cp) isn = n"
    and encode_0: "w 0 isn = isn"
begin

text \<open>Two numbers near the checkpoint are told apart by their encodings.\<close>

lemma encode_inj_near:
  assumes "w a isn = w b isn" and "cp < limit"
    and "a \<le> cp + window" "cp < a + window" "b \<le> cp + window" "cp < b + window"
  shows "a = b"
  using assms decode_encode by metis

text \<open>A byte at stream index \<open>i\<close> travels with absolute sequence number \<open>i + 1\<close> and is found again.\<close>

lemma stream_index:
  assumes "Suc i \<le> cp + window" and "cp \<le> i + window" and "cp < limit"
  shows "u (w (Suc i) isn) isn cp - 1 = i"
  using decode_encode [of "Suc i" cp isn] assms by simp

text \<open>Every relative number is the encoding of some absolute number.\<close>

lemma encode_surj: "\<exists>a. n = w a isn"
  using encode_decode by metis

end

interpretation seq: seq_codec wrap unwrap 2147483648 "SIZE_MOD - SEQ_MOD"
proof unfold_locales
  fix a cp isn
  assume "a \<le> cp + 2147483648" "cp < a + 2147483648" "cp < SIZE_MOD - SEQ_MOD"
  then show "unwrap (wrap a isn) isn cp = a"
    by (intro unwrap_wrap_near) (auto simp: less_diff_conv)
qed simp_all

section \<open>Properties\<close>

text \<open>
  C20: \<open>unwrap\<close> returns an absolute sequence number that wraps to \<open>n\<close>, and no other absolute sequence
  number that wraps to \<open>n\<close> is closer to the checkpoint, for every checkpoint that is not within
  \<open>2\<^sup>3\<^sup>2\<close> of the end of the 64 bit range.
\<close>

theorem unwrap_closest:
  assumes "checkpoint + SEQ_MOD < SIZE_MOD"
  shows "wrap (unwrap n isn checkpoint) isn = n \<and>
    (\<forall>x. wrap x isn = n \<longrightarrow>
       \<bar>int (unwrap n isn checkpoint) - int checkpoint\<bar> \<le> \<bar>int x - int checkpoint\<bar>)"
  using assms by (auto intro: unwrap_closest_nat)

theorem unwrap_closest_witness:
  "wrap (unwrap (WrappingInt32 0) (WrappingInt32 0) 4294967290) (WrappingInt32 0) = WrappingInt32 0 \<and>
   \<bar>int (unwrap (WrappingInt32 0) (WrappingInt32 0) 4294967290) - 4294967290\<bar> \<le> 6"
proof -
  have "4294967290 + SEQ_MOD < SIZE_MOD" by (simp add: SEQ_MOD_def SIZE_MOD_def)
  moreover have "wrap 4294967296 (WrappingInt32 0) = WrappingInt32 0" by (simp add: wrap_def)
  ultimately show ?thesis using unwrap_closest [of 4294967290 "WrappingInt32 0" "WrappingInt32 0"] by auto
qed

text \<open>
  C21: An absolute sequence number that is at most \<open>2\<^sup>3\<^sup>1\<close> ahead of the checkpoint and less than \<open>2\<^sup>3\<^sup>1\<close>
  behind it survives the trip through its 32 bit form, for every initial sequence number.
\<close>

theorem unwrap_wrap_roundtrip:
  assumes "a \<le> checkpoint + 2147483648" and "checkpoint < a + 2147483648"
    and "checkpoint + SEQ_MOD < SIZE_MOD"
  shows "unwrap (wrap a isn) isn checkpoint = a"
  using assms by (intro seq.decode_encode) auto

theorem unwrap_wrap_roundtrip_witness:
  "unwrap (wrap 4294967297 (WrappingInt32 4294967295)) (WrappingInt32 4294967295) 4294967290 = 4294967297"
  by (rule unwrap_wrap_roundtrip) (simp_all add: SEQ_MOD_def SIZE_MOD_def)

end
