(* ===== verification/Net_Buffer.thy ===== *)
theory Net_Buffer
  imports Sponge_Prelude
begin

text \<open>
  The strings of \<open>libsponge/util/buffer.hh\<close> and \<open>buffer.cc\<close>: \<open>Buffer\<close> (a shared string of which a
  prefix has been discarded), \<open>BufferList\<close> (a queue of buffers) and \<open>BufferViewList\<close> (a queue of
  string views). The storage of a \<open>Buffer\<close> is never modified, only shared, so a copy of a \<open>Buffer\<close> is
  a copy of the storage pointer and the offset; a reset pointer is \<^const>\<open>None\<close>. An operation that
  throws returns \<^const>\<open>None\<close>. The locale \<open>discardable\<close> is the contract the three classes share.
\<close>

section \<open>Buffer\<close>

record buffer =
  buf_storage :: "bytes option"
  starting_offset :: size_t

definition buffer_default :: buffer where
  "buffer_default = \<lparr>buf_storage = None, starting_offset = 0\<rparr>"

definition buffer_of :: "bytes \<Rightarrow> buffer" where
  "buffer_of s = \<lparr>buf_storage = Some s, starting_offset = 0\<rparr>"

definition buffer_str :: "buffer \<Rightarrow> bytes" where
  "buffer_str b = (case buf_storage b of None \<Rightarrow> [] | Some s \<Rightarrow> drop (starting_offset b) s)"

definition buffer_at :: "buffer \<Rightarrow> size_t \<Rightarrow> byte option" where
  "buffer_at b n = (if n < length (buffer_str b) then Some (buffer_str b ! n) else None)"

definition buf_size :: "buffer \<Rightarrow> size_t" where
  "buf_size b = length (buffer_str b)"

definition buffer_copy :: "buffer \<Rightarrow> bytes" where
  "buffer_copy b = buffer_str b"

definition buffer_remove_prefix :: "buffer \<Rightarrow> size_t \<Rightarrow> buffer option" where
  "buffer_remove_prefix b n =
     (if n > length (buffer_str b) then None
      else let off = sz_add (starting_offset b) n
           in Some \<lparr>buf_storage = (case buf_storage b of
                       None \<Rightarrow> None
                     | Some s \<Rightarrow> if off = length s then None else Some s),
                    starting_offset = off\<rparr>)"

section \<open>BufferList\<close>

record buffer_list =
  bl_buffers :: "buffer list"

definition bl_default :: buffer_list where
  "bl_default = \<lparr>bl_buffers = []\<rparr>"

definition bl_of_buffer :: "buffer \<Rightarrow> buffer_list" where
  "bl_of_buffer b = \<lparr>bl_buffers = [b]\<rparr>"

definition bl_append :: "buffer_list \<Rightarrow> buffer_list \<Rightarrow> buffer_list" where
  "bl_append l other = fold (\<lambda>b l. l\<lparr>bl_buffers := bl_buffers l @ [b]\<rparr>) (bl_buffers other) l"

definition bl_of_string :: "bytes \<Rightarrow> buffer_list" where
  "bl_of_string s = bl_append bl_default (bl_of_buffer (buffer_of s))"

definition bl_to_buffer :: "buffer_list \<Rightarrow> buffer option" where
  "bl_to_buffer l =
     (case bl_buffers l of [] \<Rightarrow> Some buffer_default | [b] \<Rightarrow> Some b | _ \<Rightarrow> None)"

definition bl_concatenate :: "buffer_list \<Rightarrow> bytes" where
  "bl_concatenate l = fold (\<lambda>b ret. ret @ buffer_str b) (bl_buffers l) []"

definition bl_size :: "buffer_list \<Rightarrow> size_t" where
  "bl_size l = fold (\<lambda>b ret. sz_add ret (buf_size b)) (bl_buffers l) 0"

text \<open>The loop of \<open>remove_prefix\<close>; an iteration discards \<open>n\<close> bytes of the front buffer or drops it.\<close>

fun bl_discard :: "buffer list \<Rightarrow> size_t \<Rightarrow> buffer list option" where
  "bl_discard [] n = (if n > 0 then None else Some [])"
| "bl_discard (b # bs) n =
     (if n > 0 then
        if n < length (buffer_str b) then do {
          b' \<leftarrow> buffer_remove_prefix b n;
          Some (b' # bs)
        }
        else bl_discard bs (n - length (buffer_str b))
      else Some (b # bs))"

definition bl_remove_prefix :: "buffer_list \<Rightarrow> size_t \<Rightarrow> buffer_list option" where
  "bl_remove_prefix l n = map_option (\<lambda>bs. l\<lparr>bl_buffers := bs\<rparr>) (bl_discard (bl_buffers l) n)"

section \<open>BufferViewList\<close>

record buffer_view_list =
  bv_views :: "bytes list"

definition bv_of_view :: "bytes \<Rightarrow> buffer_view_list" where
  "bv_of_view s = \<lparr>bv_views = [s]\<rparr>"

definition bv_of_list :: "buffer_list \<Rightarrow> buffer_view_list" where
  "bv_of_list l = \<lparr>bv_views = fold (\<lambda>b vs. vs @ [buffer_str b]) (bl_buffers l) []\<rparr>"

fun bv_discard :: "bytes list \<Rightarrow> size_t \<Rightarrow> bytes list option" where
  "bv_discard [] n = (if n > 0 then None else Some [])"
| "bv_discard (v # vs) n =
     (if n > 0 then
        if n < length v then Some (drop n v # vs)
        else bv_discard vs (n - length v)
      else Some (v # vs))"

definition bv_remove_prefix :: "buffer_view_list \<Rightarrow> size_t \<Rightarrow> buffer_view_list option" where
  "bv_remove_prefix l n = map_option (\<lambda>vs. l\<lparr>bv_views := vs\<rparr>) (bv_discard (bv_views l) n)"

definition bv_size :: "buffer_view_list \<Rightarrow> size_t" where
  "bv_size l = fold (\<lambda>v ret. sz_add ret (length v)) (bv_views l) 0"

text \<open>An \<open>iovec\<close> is the memory it points to and its length.\<close>

record iovec =
  iov_base :: bytes
  iov_len :: size_t

definition as_iovecs :: "buffer_view_list \<Rightarrow> iovec list" where
  "as_iovecs l = fold (\<lambda>v ret. ret @ [\<lparr>iov_base = v, iov_len = length v\<rparr>]) (bv_views l) []"

section \<open>Contents\<close>

definition buffer_inv :: "buffer \<Rightarrow> bool" where
  "buffer_inv b \<longleftrightarrow> (case buf_storage b of None \<Rightarrow> True
     | Some s \<Rightarrow> starting_offset b \<le> length s \<and> length s < SIZE_MOD)"

lemma fold_snoc: "fold (\<lambda>x ys. ys @ [f x]) xs ys = ys @ map f xs"
  by (induction xs arbitrary: ys) auto

lemma fold_append: "fold (\<lambda>x ys. ys @ f x) xs ys = ys @ concat (map f xs)"
  by (induction xs arbitrary: ys) auto

lemma fold_sz_add:
  "ret + sum_list (map f xs) < SIZE_MOD \<Longrightarrow> fold (\<lambda>x ret. sz_add ret (f x)) xs ret = ret + sum_list (map f xs)"
  by (induction xs arbitrary: ret) (auto simp: sz_add_exact add.assoc)

lemma buffer_str_simps [simp]:
  "buffer_str buffer_default = []" "buffer_str (buffer_of s) = s"
  by (simp_all add: buffer_str_def buffer_default_def buffer_of_def)

lemma buffer_inv_simps [simp]:
  "buffer_inv buffer_default" "length s < SIZE_MOD \<Longrightarrow> buffer_inv (buffer_of s)"
  by (simp_all add: buffer_inv_def buffer_default_def buffer_of_def)

lemma bl_append_buffers [simp]: "bl_buffers (bl_append l m) = bl_buffers l @ bl_buffers m"
proof -
  have "bl_buffers (fold (\<lambda>b l. l\<lparr>bl_buffers := bl_buffers l @ [b]\<rparr>) bs l) = bl_buffers l @ bs" for bs
    by (induction bs arbitrary: l) auto
  then show ?thesis by (simp add: bl_append_def)
qed

lemma bl_concatenate_concat: "bl_concatenate l = concat (map buffer_str (bl_buffers l))"
  by (simp add: bl_concatenate_def fold_append)

lemma bl_concatenate_append [simp]: "bl_concatenate (bl_append l m) = bl_concatenate l @ bl_concatenate m"
  by (simp add: bl_concatenate_concat)

lemma bl_concatenate_simps [simp]:
  "bl_concatenate bl_default = []" "bl_concatenate (bl_of_buffer b) = buffer_str b"
  "bl_concatenate (bl_of_string s) = s"
  by (simp_all add: bl_concatenate_concat bl_default_def bl_of_buffer_def bl_of_string_def)

lemma buffer_remove_prefix_ok:
  assumes "buffer_inv b" and "n \<le> length (buffer_str b)"
  shows "\<exists>b'. buffer_remove_prefix b n = Some b' \<and> buffer_inv b' \<and> buffer_str b' = drop n (buffer_str b)"
proof (cases "buf_storage b")
  case None
  with assms show ?thesis
    by (simp add: buffer_remove_prefix_def buffer_inv_def buffer_str_def)
next
  case (Some s)
  with assms have "starting_offset b + n \<le> length s" "length s < SIZE_MOD"
    by (auto simp: buffer_inv_def buffer_str_def)
  with Some assms show ?thesis
    by (auto simp: buffer_remove_prefix_def buffer_inv_def buffer_str_def sz_add_exact add.commute Let_def)
qed

lemma buffer_remove_prefix_None:
  "length (buffer_str b) < n \<Longrightarrow> buffer_remove_prefix b n = None"
  by (simp add: buffer_remove_prefix_def)

lemma bl_discard_ok:
  "list_all buffer_inv bs \<Longrightarrow> n \<le> length (concat (map buffer_str bs)) \<Longrightarrow>
   \<exists>bs'. bl_discard bs n = Some bs' \<and> list_all buffer_inv bs' \<and>
     concat (map buffer_str bs') = drop n (concat (map buffer_str bs))"
proof (induction bs arbitrary: n)
  case (Cons b bs)
  show ?case
  proof (cases "n < length (buffer_str b)")
    case True
    with Cons.prems buffer_remove_prefix_ok [of b n] show ?thesis by auto
  next
    case False
    with Cons show ?thesis by auto
  qed
qed simp

lemma bl_discard_None:
  "length (concat (map buffer_str bs)) < n \<Longrightarrow> bl_discard bs n = None"
  by (induction bs arbitrary: n) auto

lemma bv_discard_bl:
  assumes "list_all buffer_inv bs"
  shows "bv_discard (map buffer_str bs) n = map_option (map buffer_str) (bl_discard bs n)"
  using assms
proof (induction bs arbitrary: n)
  case (Cons b bs)
  then show ?case
    using buffer_remove_prefix_ok [of b n] by (auto simp: not_less)
qed simp

lemma bv_discard_ok:
  "n \<le> length (concat vs) \<Longrightarrow> \<exists>vs'. bv_discard vs n = Some vs' \<and> concat vs' = drop n (concat vs)"
  by (induction vs arbitrary: n) auto

lemma bv_discard_None: "length (concat vs) < n \<Longrightarrow> bv_discard vs n = None"
  by (induction vs arbitrary: n) auto

section \<open>The contract of the three classes\<close>

text \<open>
  A string from whose front bytes can be discarded: \<open>contents\<close> is the string, \<open>len\<close> its size, and
  discarding fails exactly when more bytes are asked for than there are.
\<close>

locale discardable =
  fixes ok :: "'b \<Rightarrow> bool" and contents :: "'b \<Rightarrow> bytes" and len :: "'b \<Rightarrow> nat"
    and discard :: "'b \<Rightarrow> nat \<Rightarrow> 'b option"
  assumes len_contents: "ok b \<Longrightarrow> len b = length (contents b)"
    and discard_ok: "ok b \<Longrightarrow> n \<le> length (contents b) \<Longrightarrow>
      \<exists>b'. discard b n = Some b' \<and> ok b' \<and> contents b' = drop n (contents b)"
    and discard_fails: "ok b \<Longrightarrow> length (contents b) < n \<Longrightarrow> discard b n = None"
begin

lemma discard_iff: "ok b \<Longrightarrow> discard b n = None \<longleftrightarrow> len b < n"
  using discard_ok [of b n] discard_fails [of b n] len_contents [of b] by (cases "n \<le> len b") auto

lemma discard_SomeD:
  "ok b \<Longrightarrow> discard b n = Some b' \<Longrightarrow> ok b' \<and> contents b' = drop n (contents b) \<and> n \<le> len b"
  using discard_ok [of b n] discard_fails [of b n] len_contents [of b]
  by (cases "n \<le> length (contents b)") auto

text \<open>Discarding in steps is discarding at once, also when it fails.\<close>

lemma discard_twice:
  assumes "ok b"
  shows "map_option contents (discard b m \<bind> (\<lambda>b. discard b n)) = map_option contents (discard b (m + n))"
proof (cases "m \<le> length (contents b)")
  case True
  then obtain c where c: "discard b m = Some c" "ok c" "contents c = drop m (contents b)"
    using discard_ok assms by blast
  show ?thesis
  proof (cases "n \<le> length (contents c)")
    case True
    then have "m + n \<le> length (contents b)" using c \<open>m \<le> length (contents b)\<close> by simp
    with True discard_ok [OF c(2), of n] discard_ok [OF assms, of "m + n"] c
    show ?thesis by (auto simp: add.commute)
  next
    case False
    with discard_fails [OF c(2), of n] discard_fails [OF assms, of "m + n"] c
    show ?thesis by simp
  qed
next
  case False
  then show ?thesis using discard_fails assms by simp
qed

lemma discard_all: "ok b \<Longrightarrow> \<exists>b'. discard b (len b) = Some b' \<and> contents b' = []"
  using discard_ok [of b "len b"] len_contents [of b] by auto

end

definition bl_inv :: "buffer_list \<Rightarrow> bool" where
  "bl_inv l \<longleftrightarrow> list_all buffer_inv (bl_buffers l) \<and> length (bl_concatenate l) < SIZE_MOD"

definition bv_contents :: "buffer_view_list \<Rightarrow> bytes" where
  "bv_contents l = concat (bv_views l)"

lemma bl_size_exact: "length (bl_concatenate l) < SIZE_MOD \<Longrightarrow> bl_size l = length (bl_concatenate l)"
  using fold_sz_add [of 0 "\<lambda>b. length (buffer_str b)" "bl_buffers l"]
  by (simp add: bl_size_def bl_concatenate_concat length_concat buf_size_def comp_def)

lemma bv_size_exact: "length (bv_contents l) < SIZE_MOD \<Longrightarrow> bv_size l = length (bv_contents l)"
  using fold_sz_add [of 0 length "bv_views l"]
  by (simp add: bv_size_def bv_contents_def length_concat)

interpretation buf: discardable buffer_inv buffer_str buf_size buffer_remove_prefix
  by unfold_locales (auto simp: buf_size_def buffer_remove_prefix_None intro: buffer_remove_prefix_ok)

interpretation bl: discardable bl_inv bl_concatenate bl_size bl_remove_prefix
proof unfold_locales
  fix l n
  assume l: "bl_inv l" and n: "n \<le> length (bl_concatenate l)"
  then show "\<exists>l'. bl_remove_prefix l n = Some l' \<and> bl_inv l' \<and> bl_concatenate l' = drop n (bl_concatenate l)"
    using bl_discard_ok [of "bl_buffers l" n]
    by (auto simp: bl_remove_prefix_def bl_inv_def bl_concatenate_concat)
qed (auto simp: bl_inv_def bl_size_exact bl_remove_prefix_def bl_discard_None bl_concatenate_concat)

interpretation bv: discardable "\<lambda>l. length (bv_contents l) < SIZE_MOD" bv_contents bv_size bv_remove_prefix
proof unfold_locales
  fix l n
  assume l: "length (bv_contents l) < SIZE_MOD" and n: "n \<le> length (bv_contents l)"
  then show "\<exists>l'. bv_remove_prefix l n = Some l' \<and> length (bv_contents l') < SIZE_MOD \<and>
      bv_contents l' = drop n (bv_contents l)"
    using bv_discard_ok [of n "bv_views l"] by (auto simp: bv_remove_prefix_def bv_contents_def)
qed (auto simp: bv_size_exact bv_remove_prefix_def bv_discard_None bv_contents_def)

section \<open>Properties\<close>

text \<open>
  Discarding a prefix of a \<open>BufferList\<close> succeeds exactly when the list holds that many bytes; it
  then leaves the rest of the concatenated string, whatever the boundaries between the buffers are,
  and discarding in two steps is the same as discarding at once.
\<close>

theorem buffer_list_remove_prefix:
  assumes "bl_inv l"
  shows "(bl_remove_prefix l n = None \<longleftrightarrow> bl_size l < n) \<and>
    (\<forall>l'. bl_remove_prefix l n = Some l' \<longrightarrow> bl_inv l' \<and> bl_concatenate l' = drop n (bl_concatenate l)) \<and>
    map_option bl_concatenate (bl_remove_prefix l m \<bind> (\<lambda>l. bl_remove_prefix l n)) =
      map_option bl_concatenate (bl_remove_prefix l (m + n))"
  using bl.discard_iff [OF assms] bl.discard_SomeD [OF assms] bl.discard_twice [OF assms] by blast

theorem buffer_list_remove_prefix_witness:
  "bl_remove_prefix (bl_append (bl_of_string [1, 2]) (bl_of_string [3, 4, 5])) 6 = None"
proof -
  let ?l = "bl_append (bl_of_string [1, 2]) (bl_of_string [3, 4, 5])"
  have inv: "bl_inv ?l"
    by (simp add: bl_inv_def SIZE_MOD_def) (simp add: bl_of_string_def bl_of_buffer_def bl_default_def SIZE_MOD_def)
  then have "bl_size ?l < 6" using bl_size_exact [of ?l] by (simp add: bl_inv_def)
  with buffer_list_remove_prefix [OF inv] show ?thesis by blast
qed

text \<open>
  Viewing a \<open>BufferList\<close> as a \<open>BufferViewList\<close> commutes with discarding a prefix, errors
  included, and the \<open>iovec\<close>s handed to \<open>writev\<close> spell the concatenated string.
\<close>

theorem buffer_views_follow_list:
  assumes "bl_inv l"
  shows "bv_remove_prefix (bv_of_list l) n = map_option bv_of_list (bl_remove_prefix l n) \<and>
    concat (map (\<lambda>v. take (iov_len v) (iov_base v)) (as_iovecs (bv_of_list l))) = bl_concatenate l"
proof -
  have views: "bv_of_list l = \<lparr>bv_views = map buffer_str (bl_buffers l)\<rparr>" for l
    by (simp add: bv_of_list_def fold_snoc)
  show ?thesis
    using bv_discard_bl [of "bl_buffers l" n] assms
    by (simp add: views bl_inv_def bv_remove_prefix_def bl_remove_prefix_def option.map_comp comp_def
        as_iovecs_def fold_snoc bl_concatenate_concat)
qed

theorem buffer_views_follow_list_witness:
  "bv_remove_prefix (bv_of_list (bl_append (bl_of_string [1, 2]) (bl_of_string [3, 4]))) 3 =
     map_option bv_of_list (bl_remove_prefix (bl_append (bl_of_string [1, 2]) (bl_of_string [3, 4])) 3)"
proof -
  let ?l = "bl_append (bl_of_string [1, 2]) (bl_of_string [3, 4])"
  have "bl_inv ?l"
    by (simp add: bl_inv_def SIZE_MOD_def) (simp add: bl_of_string_def bl_of_buffer_def bl_default_def SIZE_MOD_def)
  from buffer_views_follow_list [OF this, of 3] show ?thesis by blast
qed

end
