(* ===== verification/TCP_Segment.thy ===== *)
theory TCP_Segment
  imports Wrapping_Integers Net_Buffer
begin

text \<open>
  The header and segment of \<open>libsponge/tcp_helpers/tcp_header.hh\<close> and \<open>tcp_segment.hh\<close>: their fields
  with their default values, the length of a segment in sequence space, and the comparison of two
  headers. Their parsing and serialization are in the theory \<open>TCP_Wire\<close>.
\<close>

record tcp_header =
  sport :: u16
  dport :: u16
  seqno :: wrapping_int32
  ackno :: wrapping_int32
  doff :: byte
  urg :: bool
  ack :: bool
  psh :: bool
  rst :: bool
  syn :: bool
  fin :: bool
  win :: u16
  cksum :: u16
  uptr :: u16

definition tcp_header_default :: tcp_header where
  "tcp_header_default =
     \<lparr>sport = 0, dport = 0, seqno = WrappingInt32 0, ackno = WrappingInt32 0, doff = 20 div 4,
      urg = False, ack = False, psh = False, rst = False, syn = False, fin = False,
      win = 0, cksum = 0, uptr = 0\<rparr>"

definition tcp_header_eq :: "tcp_header \<Rightarrow> tcp_header \<Rightarrow> bool" where
  "tcp_header_eq h g \<longleftrightarrow>
     wi_eq (seqno h) (seqno g) \<and> wi_eq (ackno h) (ackno g) \<and> doff h = doff g \<and> urg h = urg g \<and>
     ack h = ack g \<and> psh h = psh g \<and> rst h = rst g \<and> syn h = syn g \<and> fin h = fin g \<and>
     win h = win g \<and> uptr h = uptr g"

record tcp_segment =
  header :: tcp_header
  payload :: buffer

definition tcp_segment_default :: tcp_segment where
  "tcp_segment_default = \<lparr>header = tcp_header_default, payload = buffer_default\<rparr>"

definition length_in_sequence_space :: "tcp_segment \<Rightarrow> size_t" where
  "length_in_sequence_space seg =
     sz_add (sz_add (length (buffer_str (payload seg))) (if syn (header seg) then 1 else 0))
       (if fin (header seg) then 1 else 0)"

lemma tcp_header_default_simps [simp]:
  "seqno tcp_header_default = WrappingInt32 0" "syn tcp_header_default = False"
  "fin tcp_header_default = False" "ack tcp_header_default = False" "rst tcp_header_default = False"
  "doff tcp_header_default = 5"
  by (simp_all add: tcp_header_default_def)

lemma tcp_segment_default_simps [simp]:
  "header tcp_segment_default = tcp_header_default" "payload tcp_segment_default = buffer_default"
  by (simp_all add: tcp_segment_default_def)

lemma length_in_sequence_space_exact:
  "length (buffer_str (payload seg)) + 2 < SIZE_MOD \<Longrightarrow>
   length_in_sequence_space seg =
     length (buffer_str (payload seg)) + of_bool (syn (header seg)) + of_bool (fin (header seg))"
  by (simp add: length_in_sequence_space_def sz_add_exact)

lemma length_in_sequence_space_0_iff:
  "length (buffer_str (payload seg)) + 2 < SIZE_MOD \<Longrightarrow>
   length_in_sequence_space seg = 0 \<longleftrightarrow>
     buffer_str (payload seg) = [] \<and> \<not> syn (header seg) \<and> \<not> fin (header seg)"
  by (simp add: length_in_sequence_space_exact)

text \<open>The comparison ignores the ports and the checksum and nothing else.\<close>

lemma tcp_header_eq_iff:
  "tcp_header_eq h g \<longleftrightarrow> h\<lparr>sport := 0, dport := 0, cksum := 0\<rparr> = g\<lparr>sport := 0, dport := 0, cksum := 0\<rparr>"
  by (cases h; cases g) (auto simp: tcp_header_eq_def)

end
