(* ===== verification/TCP_Receiver.thy ===== *)
theory TCP_Receiver
  imports Stream_Reassembler TCP_Segment
begin

text \<open>
  The receiver of \<open>libsponge/tcp_receiver.hh\<close> and \<open>tcp_receiver.cc\<close>. It learns the initial sequence
  number from the first SYN, converts sequence numbers of later segments to stream indices and
  hands their payload to the reassembler; it reports the acknowledgment number and the window.
\<close>

section \<open>The class\<close>

record tcp_receiver =
  rc_reassembler :: stream_reassembler
  rc_capacity :: size_t
  rc_syn :: bool
  rc_isn :: wrapping_int32

definition rc_new :: "size_t \<Rightarrow> tcp_receiver" where
  "rc_new capacity = \<lparr>rc_reassembler = sr_new capacity, rc_capacity = capacity,
                      rc_syn = False, rc_isn = WrappingInt32 0\<rparr>"

definition rc_stream_out :: "tcp_receiver \<Rightarrow> byte_stream" where
  "rc_stream_out r = sr_output (rc_reassembler r)"

definition rc_unassembled_bytes :: "tcp_receiver \<Rightarrow> size_t" where
  "rc_unassembled_bytes r = unassembled_bytes (rc_reassembler r)"

definition rc_segment_received :: "tcp_receiver \<Rightarrow> tcp_segment \<Rightarrow> tcp_receiver option" where
  "rc_segment_received r seg =
     (if \<not> rc_syn r then
        if \<not> syn (header seg) then Some r
        else do {
          let r = r\<lparr>rc_isn := seqno (header seg), rc_syn := syn (header seg)\<rparr>;
          ra \<leftarrow> push_substring (rc_reassembler r) (buffer_copy (payload seg)) 0 (fin (header seg));
          Some (r\<lparr>rc_reassembler := ra\<rparr>)
        }
      else do {
        let abs_seqno = unwrap (seqno (header seg)) (rc_isn r) (first_unassembled (rc_reassembler r));
        ra \<leftarrow> push_substring (rc_reassembler r) (buffer_copy (payload seg)) (sz_sub abs_seqno 1)
                (fin (header seg));
        Some (r\<lparr>rc_reassembler := ra\<rparr>)
      })"

definition rc_ackno :: "tcp_receiver \<Rightarrow> wrapping_int32 option" where
  "rc_ackno r =
     (if \<not> rc_syn r then None
      else let ack1 = sz_add (first_unassembled (rc_reassembler r)) 1;
               ack2 = (if input_ended (rc_stream_out r) then sz_add ack1 1 else ack1)
           in Some (wrap ack2 (rc_isn r)))"

definition rc_window_size :: "tcp_receiver \<Rightarrow> size_t" where
  "rc_window_size r =
     sz_sub (first_unacceptable (rc_reassembler r)) (first_unassembled (rc_reassembler r))"

section \<open>Invariant\<close>

definition rc_inv :: "tcp_receiver \<Rightarrow> bool" where
  "rc_inv r \<longleftrightarrow> sr_inv (rc_reassembler r) \<and> sr_capacity (rc_reassembler r) = rc_capacity r"

text \<open>A segment whose payload keeps the window inside the range of \<open>size_t\<close>.\<close>

definition rc_fits :: "tcp_receiver \<Rightarrow> tcp_segment \<Rightarrow> bool" where
  "rc_fits r seg \<longleftrightarrow> sr_limit (rc_reassembler r) + length (buffer_str (payload seg)) < SIZE_MOD"

lemma rc_new_inv: "cap < SIZE_MOD \<Longrightarrow> rc_inv (rc_new cap)"
  by (simp add: rc_inv_def rc_new_def sr_new_inv) (simp add: sr_new_def)

lemma rc_ackno_None_iff [simp]: "rc_ackno r = None \<longleftrightarrow> \<not> rc_syn r"
  by (simp add: rc_ackno_def Let_def)

lemma rc_window_size_exact:
  assumes "rc_inv r"
  shows "rc_window_size r = sr_limit (rc_reassembler r) - first_unassembled (rc_reassembler r)"
    and "rc_window_size r = rc_capacity r - buffer_size (rc_stream_out r)"
    and "first_unassembled (rc_reassembler r) + rc_window_size r = sr_limit (rc_reassembler r)"
    and "sr_limit (rc_reassembler r) < SIZE_MOD"
proof -
  have core: "sr_core (rc_reassembler r)" using assms by (simp add: rc_inv_def sr_inv_def)
  show lim: "sr_limit (rc_reassembler r) < SIZE_MOD" using core by (simp add: sr_core_def)
  show win: "rc_window_size r = sr_limit (rc_reassembler r) - first_unassembled (rc_reassembler r)"
    using sr_core_written(2) [OF core] lim by (simp add: rc_window_size_def sr_core_limit [OF core] sz_sub_exact)
  show "rc_window_size r = rc_capacity r - buffer_size (rc_stream_out r)"
    using sr_core_written(1) [OF core] assms
    by (simp add: win sr_limit_def rc_inv_def rc_stream_out_def buffer_size_def)
  show "first_unassembled (rc_reassembler r) + rc_window_size r = sr_limit (rc_reassembler r)"
    using sr_core_written(2) [OF core] by (simp add: win)
qed

text \<open>The stream index at which a segment is pushed.\<close>

definition rc_index :: "tcp_receiver \<Rightarrow> tcp_segment \<Rightarrow> size_t" where
  "rc_index r seg =
     (if rc_syn r
      then sz_sub (unwrap (seqno (header seg)) (rc_isn r) (first_unassembled (rc_reassembler r))) 1
      else 0)"

lemma rc_segment_received_push:
  assumes "rc_syn r \<or> syn (header seg)"
  shows "rc_segment_received r seg =
    map_option (\<lambda>ra. r\<lparr>rc_reassembler := ra, rc_syn := True,
                       rc_isn := (if rc_syn r then rc_isn r else seqno (header seg))\<rparr>)
      (push_substring (rc_reassembler r) (buffer_str (payload seg)) (rc_index r seg) (fin (header seg)))"
  using assms
  by (cases "push_substring (rc_reassembler r) (buffer_str (payload seg)) (rc_index r seg) (fin (header seg))")
    (auto simp: rc_segment_received_def rc_index_def buffer_copy_def Let_def)

lemma rc_segment_received_ignored:
  "\<not> rc_syn r \<Longrightarrow> \<not> syn (header seg) \<Longrightarrow> rc_segment_received r seg = Some r"
  by (simp add: rc_segment_received_def)

text \<open>Every segment is processed: the receiver never throws, never gives up an acknowledged byte and
  never takes back the window it advertised.\<close>

lemma rc_segment_received_total:
  assumes inv: "rc_inv r" and fits: "rc_fits r seg"
  shows "\<exists>r'. rc_segment_received r seg = Some r' \<and> rc_inv r' \<and>
    rc_syn r' = (rc_syn r \<or> syn (header seg)) \<and> (rc_syn r \<longrightarrow> rc_isn r' = rc_isn r) \<and>
    rc_capacity r' = rc_capacity r \<and>
    bs_bytes_r (rc_stream_out r') = bs_bytes_r (rc_stream_out r) \<and>
    bs_error (rc_stream_out r') = bs_error (rc_stream_out r) \<and>
    (input_ended (rc_stream_out r) \<longrightarrow> input_ended (rc_stream_out r')) \<and>
    first_unassembled (rc_reassembler r) \<le> first_unassembled (rc_reassembler r') \<and>
    sr_limit (rc_reassembler r') = sr_limit (rc_reassembler r)"
proof (cases "rc_syn r \<or> syn (header seg)")
  case True
  from push_substring_extends [of "rc_reassembler r" "buffer_str (payload seg)" "rc_index r seg" "fin (header seg)"]
  obtain ra where ra: "push_substring (rc_reassembler r) (buffer_str (payload seg)) (rc_index r seg)
      (fin (header seg)) = Some (sr_close ra)"
    "sr_inv ra" "extends (rc_reassembler r) (buffer_str (payload seg)) (rc_index r seg) (fin (header seg)) ra"
    using inv fits by (auto simp: rc_inv_def rc_fits_def)
  have "first_unassembled (rc_reassembler r) \<le> first_unassembled (sr_close ra)"
    using sra.push_window(2) [OF _ _ ra(1)] inv fits by (simp add: rc_inv_def rc_fits_def)
  with ra inv True show ?thesis
    by (simp add: rc_segment_received_push [OF True] rc_inv_def sr_close_inv extends_def rc_stream_out_def
        sr_close_ended)
next
  case False
  then show ?thesis using inv by (simp add: rc_segment_received_ignored)
qed

section \<open>Streams on the wire\<close>

definition syn_segment :: "wrapping_int32 \<Rightarrow> tcp_segment" where
  "syn_segment isn = tcp_segment_default\<lparr>header := tcp_header_default\<lparr>syn := True, seqno := isn\<rparr>\<rparr>"

text \<open>
  A segment of the stream \<open>S\<close> of \<open>N\<close> bytes: a SYN carries the initial sequence number and nothing else,
  as the sender of the library builds it; a segment without payload and FIN says nothing of the
  stream; any other segment carries bytes of \<open>S\<close> from some index \<open>i\<close> on, which is not further than
  \<open>2\<^sup>3\<^sup>1\<close> from the first byte the receiver is missing, and a FIN only with the last byte.
\<close>

definition carries :: "(nat \<Rightarrow> byte) \<Rightarrow> nat \<Rightarrow> wrapping_int32 \<Rightarrow> nat \<Rightarrow> tcp_segment \<Rightarrow> bool" where
  "carries S N isn i seg \<longleftrightarrow> seqno (header seg) = wrap (Suc i) isn \<and>
     buffer_str (payload seg) = map S [i..<i + length (buffer_str (payload seg))] \<and>
     (fin (header seg) \<longrightarrow> i + length (buffer_str (payload seg)) = N)"

definition near :: "tcp_receiver \<Rightarrow> nat \<Rightarrow> bool" where
  "near r i \<longleftrightarrow> (let n = first_unassembled (rc_reassembler r)
     in Suc i \<le> n + 2147483648 \<and> n \<le> i + 2147483648 \<and> n + SEQ_MOD < SIZE_MOD)"

definition segment_of :: "(nat \<Rightarrow> byte) \<Rightarrow> nat \<Rightarrow> wrapping_int32 \<Rightarrow> tcp_receiver \<Rightarrow> tcp_segment \<Rightarrow> bool" where
  "segment_of S N isn r seg \<longleftrightarrow>
     (if syn (header seg)
      then seqno (header seg) = isn \<and> buffer_str (payload seg) = [] \<and> \<not> fin (header seg)
      else buffer_str (payload seg) = [] \<and> \<not> fin (header seg) \<or> (\<exists>i. near r i \<and> carries S N isn i seg))"

lemma rc_index_near:
  assumes "rc_syn r" and "seqno (header seg) = wrap (Suc i) (rc_isn r)" and "near r i"
  shows "rc_index r seg = i"
proof -
  let ?n = "first_unassembled (rc_reassembler r)"
  have "unwrap (wrap (Suc i) (rc_isn r)) (rc_isn r) ?n = Suc i"
    using assms(3) by (intro seq.decode_encode) (auto simp: near_def Let_def)
  moreover have "Suc i < SIZE_MOD"
    using assms(3) unwrap_bound [of "wrap (Suc i) (rc_isn r)" "rc_isn r" ?n] calculation by simp
  ultimately show ?thesis using assms(1,2) by (simp add: rc_index_def sz_sub_exact)
qed

text \<open>
  A receiver together with the application that reads from it: the log is what was read so far.
\<close>

datatype rc_call = RcSegment tcp_segment | RcRead size_t

fun rc_step :: "tcp_receiver \<times> bytes \<Rightarrow> rc_call \<Rightarrow> (tcp_receiver \<times> bytes) option" where
  "rc_step (r, log) (RcSegment seg) = map_option (\<lambda>r'. (r', log)) (rc_segment_received r seg)"
| "rc_step (r, log) (RcRead n) =
     (let (out, s) = bs_read (rc_stream_out r) n
      in Some (r\<lparr>rc_reassembler := (rc_reassembler r)\<lparr>sr_output := s\<rparr>\<rparr>, log @ out))"

fun rc_ok :: "(nat \<Rightarrow> byte) \<Rightarrow> nat \<Rightarrow> wrapping_int32 \<Rightarrow> tcp_receiver \<times> bytes \<Rightarrow> rc_call \<Rightarrow> bool" where
  "rc_ok S N isn (r, log) (RcSegment seg) = (rc_fits r seg \<and> segment_of S N isn r seg)"
| "rc_ok S N isn (r, log) (RcRead n) =
     (sr_limit (rc_reassembler r) + buffer_size (rc_stream_out r) < SIZE_MOD)"

text \<open>The receiver holds a part of the stream and knows at most its true end.\<close>

definition rc_part :: "(nat \<Rightarrow> byte) \<Rightarrow> nat \<Rightarrow> stream_reassembler \<Rightarrow> bool" where
  "rc_part S N ra \<longleftrightarrow> sr_all (\<lambda>i b. b = S i) ra \<and> (sr_eof ra \<longrightarrow> sr_eof_index ra = N) \<and>
     (input_ended (sr_output ra) \<longrightarrow> first_unassembled ra = N)"

fun rc_tracks :: "(nat \<Rightarrow> byte) \<Rightarrow> nat \<Rightarrow> wrapping_int32 \<Rightarrow> nat \<Rightarrow> tcp_receiver \<times> bytes \<Rightarrow> bool" where
  "rc_tracks S N isn cap (r, log) =
     (rc_inv r \<and> rc_capacity r = cap \<and> (rc_syn r \<longrightarrow> rc_isn r = isn) \<and>
      rc_part S N (rc_reassembler r) \<and> log = map S [0..<bs_bytes_r (rc_stream_out r)])"

lemma segment_of_pushes:
  assumes "segment_of S N isn r seg" and "rc_syn r \<or> syn (header seg)" and "rc_syn r \<Longrightarrow> rc_isn r = isn"
  shows "buffer_str (payload seg) = map S [rc_index r seg..<rc_index r seg + length (buffer_str (payload seg))]"
    and "fin (header seg) \<Longrightarrow> rc_index r seg + length (buffer_str (payload seg)) = N"
proof -
  let ?d = "buffer_str (payload seg)"
  consider "?d = []" "\<not> fin (header seg)" | i where "\<not> syn (header seg)" "near r i" "carries S N isn i seg"
    using assms(1) by (auto simp: segment_of_def split: if_splits)
  then have "?d = map S [rc_index r seg..<rc_index r seg + length ?d] \<and>
    (fin (header seg) \<longrightarrow> rc_index r seg + length ?d = N)"
  proof cases
    case 2
    with assms(2,3) show ?thesis
      using rc_index_near [of r seg i] by (auto simp: carries_def)
  qed simp
  then show "?d = map S [rc_index r seg..<rc_index r seg + length ?d]"
    and "fin (header seg) \<Longrightarrow> rc_index r seg + length ?d = N" by auto
qed

lemma rc_part_push:
  assumes "rc_part S N ra" and "sr_inv ra" and "sr_limit ra + length d < SIZE_MOD"
    and "d = map S [i..<i + length d]" and "e \<Longrightarrow> i + length d = N" and "N < SIZE_MOD"
    and push: "push_substring ra d i e = Some ra'"
  shows "rc_part S N ra'"
proof -
  from push_substring_extends [OF assms(2,3), of i e] push obtain r where
    r: "ra' = sr_close r" "extends ra d i e r" by auto
  have all: "sr_all (\<lambda>i b. b = S i) r"
    using r(2) assms(1,4) by (auto simp: extends_def rc_part_def data_all_stream)
  have eof: "sr_eof r \<longrightarrow> sr_eof_index r = N"
    using r(2) assms(1,5,6) by (auto simp: extends_def rc_part_def sz_add_exact)
  have "input_ended (sr_output r) \<Longrightarrow> first_unassembled r = N"
    using r(2) assms(1) by (simp add: extends_def rc_part_def first_unassembled_def)
  then have "input_ended (sr_output ra') \<Longrightarrow> first_unassembled ra' = N"
    using eof by (auto simp: r(1) sr_close_ended)
  with all eof show ?thesis by (simp add: rc_part_def r(1) sr_close_all)
qed

lemma rc_tracks_segment:
  assumes "rc_tracks S N isn cap (r, log)" and "rc_ok S N isn (r, log) (RcSegment seg)" and "N < SIZE_MOD"
  shows "\<exists>s. rc_step (r, log) (RcSegment seg) = Some s \<and> rc_tracks S N isn cap s"
proof (cases "rc_syn r \<or> syn (header seg)")
  case True
  from rc_segment_received_total [of r seg] assms obtain r' where
    r': "rc_segment_received r seg = Some r'" "rc_inv r'" "rc_capacity r' = cap"
      "bs_bytes_r (rc_stream_out r') = bs_bytes_r (rc_stream_out r)"
    by auto
  have isn: "rc_syn r \<Longrightarrow> rc_isn r = isn" and of: "segment_of S N isn r seg"
    using assms by auto
  obtain ra where push: "push_substring (rc_reassembler r) (buffer_str (payload seg)) (rc_index r seg)
      (fin (header seg)) = Some ra" and ra: "rc_reassembler r' = ra"
    using r'(1) by (auto simp: rc_segment_received_push [OF True])
  have "rc_part S N ra"
    using assms segment_of_pushes [OF of True isn]
    by (intro rc_part_push [OF _ _ _ _ _ _ push]) (auto simp: rc_inv_def rc_fits_def)
  moreover have "rc_syn r' \<longrightarrow> rc_isn r' = isn"
    using r'(1) assms True
    by (auto simp: rc_segment_received_push [OF True] segment_of_def split: if_splits)
  ultimately show ?thesis using r' ra assms by auto
next
  case False
  then show ?thesis using assms by (auto simp: rc_segment_received_ignored)
qed

lemma rc_tracks_read:
  assumes "rc_tracks S N isn cap (r, log)" and "rc_ok S N isn (r, log) (RcRead n)"
  shows "\<exists>s. rc_step (r, log) (RcRead n) = Some s \<and> rc_tracks S N isn cap s"
proof -
  let ?ra = "rc_reassembler r"
  let ?ra' = "?ra\<lparr>sr_output := snd (bs_read (sr_output ?ra) n)\<rparr>"
  have h: "sr_inv ?ra" "sr_limit ?ra + buffer_size (sr_output ?ra) < SIZE_MOD" "sr_all (\<lambda>i b. b = S i) ?ra"
    using assms by (auto simp: rc_inv_def rc_stream_out_def rc_part_def)
  note rd = sr_read_step [OF h(1,2), where n = n]
  have "fst (bs_read (sr_output ?ra) n) = map S [bs_bytes_r (sr_output ?ra)..<bs_bytes_r (sr_output ?ra')]"
    using rd(4) [OF h(3)] unfolding rd(3) data_all_stream .
  then have "log @ fst (bs_read (sr_output ?ra) n) = map S [0..<bs_bytes_r (sr_output ?ra')]"
    using assms(1) rd(3) by (simp add: rc_stream_out_def upt_split flip: map_append)
  moreover have "rc_part S N ?ra'"
    using rd(2) [OF h(3)] assms(1)
    by (simp add: rc_part_def first_unassembled_def bytes_written_def input_ended_def bs_simps)
  ultimately show ?thesis using rd(1) assms(1)
    by (simp add: prod.case_eq_if rc_inv_def rc_stream_out_def)
qed

interpretation rcm: invariant_machine rc_step "\<lambda>s c. N < SIZE_MOD \<and> rc_ok S N isn s c"
  "rc_tracks S N isn cap" for S N isn cap
proof unfold_locales
  fix s c
  assume "rc_tracks S N isn cap s" "N < SIZE_MOD \<and> rc_ok S N isn s c"
  then show "\<exists>s'. rc_step s c = Some s' \<and> rc_tracks S N isn cap s'"
    using rc_tracks_segment rc_tracks_read by (cases s; cases c) blast+
qed

lemma rc_ackno_exact:
  assumes "rc_inv r" and "rc_syn r" and "first_unassembled (rc_reassembler r) + 2 < SIZE_MOD"
  shows "rc_ackno r = Some (wrap (first_unassembled (rc_reassembler r) + 1 + of_bool (input_ended (rc_stream_out r))) (rc_isn r))"
  using assms by (simp add: rc_ackno_def sz_add_exact Let_def)

section \<open>Properties\<close>

text \<open>
  C12: Whatever segments of an \<open>N\<close> byte stream arrive, in any order and any number of times,
  interleaved with reads of the application: every segment is processed, what was read followed by
  what is waiting is the beginning of the stream, the input ends only when the whole stream is
  there, and after the SYN the acknowledgment number is one past the last byte received in order,
  or two past it once the stream has ended.
\<close>

theorem receiver_delivers_stream:
  assumes "cap < SIZE_MOD" and "N < SIZE_MOD"
    and "run_admissible rc_step (rc_ok S N isn) (rc_new cap, []) calls"
  shows "\<exists>r log. run_steps rc_step (rc_new cap, []) calls = Some (r, log) \<and>
    log @ bs_buff (rc_stream_out r) = map S [0..<first_unassembled (rc_reassembler r)] \<and>
    (input_ended (rc_stream_out r) \<longrightarrow> first_unassembled (rc_reassembler r) = N) \<and>
    (rc_syn r \<longrightarrow> first_unassembled (rc_reassembler r) + 2 < SIZE_MOD \<longrightarrow>
      rc_ackno r = Some (wrap (first_unassembled (rc_reassembler r) + 1 +
        of_bool (input_ended (rc_stream_out r))) isn))"
proof -
  have "rc_part S N (sr_new cap)" "bs_bytes_r (sr_output (sr_new cap)) = 0"
    by (simp_all add: rc_part_def sr_all_def sr_new_def bs_new_def input_ended_def)
  then have "rc_tracks S N isn cap (rc_new cap, [])"
    using rc_new_inv [OF assms(1)] by (simp add: rc_stream_out_def) (simp add: rc_new_def)
  from rcm.run_total [OF this] assms(2,3) obtain r log where
    run: "run_steps rc_step (rc_new cap, []) calls = Some (r, log)" "rc_tracks S N isn cap (r, log)"
    by auto
  let ?ra = "rc_reassembler r"
  have fua: "first_unassembled ?ra = bs_bytes_r (sr_output ?ra) + length (bs_buff (sr_output ?ra))"
    using run(2) sr_core_written(1) [of ?ra] by (simp add: rc_inv_def sr_inv_def)
  have "bs_buff (sr_output ?ra) = map S [bs_bytes_r (sr_output ?ra)..<bs_bytes_r (sr_output ?ra) + length (bs_buff (sr_output ?ra))]"
    using run(2) by (simp add: rc_part_def sr_all_def data_all_stream)
  from stream_prefix_extend [OF this] have "log @ bs_buff (rc_stream_out r) = map S [0..<first_unassembled ?ra]"
    using run(2) fua by (simp add: rc_stream_out_def)
  with run rc_ackno_exact [of r] show ?thesis by (auto simp: rc_part_def rc_stream_out_def)
qed

theorem receiver_delivers_stream_witness:
  "\<exists>r log. run_steps rc_step (rc_new 4, [])
       [RcSegment (syn_segment (WrappingInt32 4294967295)),
        RcSegment (tcp_segment_default\<lparr>payload := buffer_of [0, 1]\<rparr>), RcRead 1] = Some (r, log) \<and>
     log @ bs_buff (rc_stream_out r) = map of_nat [0..<first_unassembled (rc_reassembler r)]"
proof -
  let ?isn = "WrappingInt32 4294967295" and ?d = "tcp_segment_default\<lparr>payload := buffer_of [0, 1]\<rparr>"
  let ?S = "\<lambda>i. of_nat i :: byte"
  let ?r1 = "(rc_new 4)\<lparr>rc_syn := True, rc_isn := ?isn\<rparr>"
  note defs = rc_new_def syn_segment_def rc_fits_def buffer_copy_def rc_stream_out_def SIZE_MOD_def
    sr_run_defs input_ended_def
  have ok1: "rc_ok ?S 2 ?isn (rc_new 4, []) (RcSegment (syn_segment ?isn))"
    by (simp add: segment_of_def defs)
  have step1: "rc_step (rc_new 4, []) (RcSegment (syn_segment ?isn)) = Some (?r1, [])"
    by (simp add: rc_segment_received_def defs)
  have "near ?r1 0" "carries ?S 2 ?isn 0 ?d"
    by (simp_all add: near_def carries_def SEQ_MOD_def wrap_def defs)
  then have ok2: "rc_ok ?S 2 ?isn (?r1, []) (RcSegment ?d)"
    by (auto simp: segment_of_def) (simp add: defs)
  have "run_admissible rc_step (rc_ok ?S 2 ?isn) (rc_new 4, [])
      [RcSegment (syn_segment ?isn), RcSegment ?d, RcRead 1]"
    using ok1 ok2
    by (simp add: step1 del: rc_ok.simps rc_step.simps)
      (simp add: rc_segment_received_def unwrap_def wi_diff_def wrap_def defs)
  from receiver_delivers_stream [OF _ _ this] show ?thesis by (auto simp: SIZE_MOD_def)
qed

text \<open>
  C33: The window is what the capacity leaves beside the bytes waiting to be read. A segment never
  moves the acknowledged position back, and never shrinks the right edge of the window: what the
  acknowledgment gains is exactly what the window loses.
\<close>

theorem receiver_window_edge:
  assumes "rc_inv r" and "rc_fits r seg"
  shows "\<exists>r'. rc_segment_received r seg = Some r' \<and> rc_inv r' \<and>
    rc_window_size r' = rc_capacity r' - buffer_size (rc_stream_out r') \<and>
    first_unassembled (rc_reassembler r) \<le> first_unassembled (rc_reassembler r') \<and>
    first_unassembled (rc_reassembler r') + rc_window_size r' =
      first_unassembled (rc_reassembler r) + rc_window_size r \<and>
    (rc_ackno r' = None \<longleftrightarrow> \<not> rc_syn r \<and> \<not> syn (header seg))"
proof -
  from rc_segment_received_total [OF assms] obtain r' where
    r': "rc_segment_received r seg = Some r'" "rc_inv r'" "rc_syn r' = (rc_syn r \<or> syn (header seg))"
    "first_unassembled (rc_reassembler r) \<le> first_unassembled (rc_reassembler r')"
    "sr_limit (rc_reassembler r') = sr_limit (rc_reassembler r)" by blast
  then show ?thesis
    using rc_window_size_exact(2,3) [OF r'(2)] rc_window_size_exact(3) [OF assms(1)] by simp
qed

theorem receiver_window_edge_witness:
  "\<exists>r'. rc_segment_received (rc_new 8) (syn_segment (WrappingInt32 5)) = Some r' \<and>
     first_unassembled (rc_reassembler r') + rc_window_size r' = 8"
proof -
  have inv: "rc_inv (rc_new 8)" by (rule rc_new_inv) (simp add: SIZE_MOD_def)
  have lim: "first_unassembled (rc_reassembler (rc_new 8)) + rc_window_size (rc_new 8) = 8"
    by (simp add: rc_window_size_exact(3) [OF inv]) (simp add: rc_new_def sr_run_defs)
  have "rc_fits (rc_new 8) (syn_segment (WrappingInt32 5))"
    by (simp add: rc_fits_def syn_segment_def rc_new_def sr_run_defs SIZE_MOD_def)
  from receiver_window_edge [OF inv this] lim show ?thesis by auto
qed

text \<open>
  When the SYN arrives again with payload, the payload is lost: its stream index is computed as
  \<open>0 - 1\<close>, which wraps to \<open>2\<^sup>6\<^sup>4 - 1\<close> and lies outside every window. The first SYN with the same payload
  is accepted.
\<close>

theorem syn_retransmit_drops_payload:
  "(\<exists>r. run_steps rc_segment_received (rc_new 8)
           [syn_segment isn, (syn_segment isn)\<lparr>payload := buffer_of [b]\<rparr>] = Some r \<and>
         bs_buff (rc_stream_out r) = []) \<and>
   (\<exists>r. run_steps rc_segment_received (rc_new 8) [(syn_segment isn)\<lparr>payload := buffer_of [b]\<rparr>] = Some r \<and>
         bs_buff (rc_stream_out r) = [b])"
  by (simp add: syn_segment_def rc_new_def rc_segment_received_def buffer_copy_def rc_stream_out_def
      unwrap_def wi_diff_def SIZE_MOD_def sr_run_defs input_ended_def)

end
