(* ===== verification/TCP_Sender.thy ===== *)
theory TCP_Sender
  imports Byte_Stream TCP_Segment
begin

text \<open>
  The sender of \<open>libsponge/tcp_sender.hh\<close> and \<open>tcp_sender.cc\<close> with its retransmission timer and the
  constants of \<open>tcp_helpers/tcp_config.hh\<close>. Queues are lists with the front first. The loop of
  \<open>fill_window\<close> has no bound of its own and is a partial function: \<^const>\<open>None\<close> would be a loop that
  never ends; that this does not happen is proved. \<open>std::random_device\<close> is an argument of the
  constructor.
\<close>

section \<open>Configuration\<close>

definition DEFAULT_CAPACITY :: size_t where "DEFAULT_CAPACITY = 64000"
definition MAX_PAYLOAD_SIZE :: size_t where "MAX_PAYLOAD_SIZE = 1000"
definition TIMEOUT_DFLT :: u16 where "TIMEOUT_DFLT = 1000"
definition MAX_RETX_ATTEMPTS :: u32 where "MAX_RETX_ATTEMPTS = 8"

record tcp_config =
  rt_timeout :: u16
  recv_capacity :: size_t
  send_capacity :: size_t
  fixed_isn :: "wrapping_int32 option"

definition tcp_config_default :: tcp_config where
  "tcp_config_default = \<lparr>rt_timeout = TIMEOUT_DFLT, recv_capacity = DEFAULT_CAPACITY,
                         send_capacity = DEFAULT_CAPACITY, fixed_isn = None\<rparr>"

section \<open>The retransmission timer\<close>

record retransmission_timer =
  tm_remaining :: u32
  tm_expired :: bool
  tm_started :: bool

definition timer_default :: retransmission_timer where
  "timer_default = \<lparr>tm_remaining = 0, tm_expired = False, tm_started = False\<rparr>"

definition timer_start :: "retransmission_timer \<Rightarrow> u32 \<Rightarrow> retransmission_timer" where
  "timer_start t rto = t\<lparr>tm_started := True, tm_expired := False, tm_remaining := rto\<rparr>"

definition timer_stop :: "retransmission_timer \<Rightarrow> retransmission_timer" where
  "timer_stop t = t\<lparr>tm_started := False, tm_expired := False, tm_remaining := 0\<rparr>"

definition is_start :: "retransmission_timer \<Rightarrow> bool" where
  "is_start t = tm_started t"

definition is_expired :: "retransmission_timer \<Rightarrow> bool" where
  "is_expired t = (tm_expired t \<and> tm_started t)"

definition timer_tick :: "retransmission_timer \<Rightarrow> size_t \<Rightarrow> retransmission_timer" where
  "timer_tick t ms =
     (if \<not> is_start t then t
      else if ms \<ge> unat (tm_remaining t) then t\<lparr>tm_expired := True\<rparr>
      else t\<lparr>tm_remaining := tm_remaining t - of_nat ms\<rparr>)"

section \<open>The sender\<close>

record tcp_sender =
  sn_isn :: wrapping_int32
  sn_segments_out :: "tcp_segment list"
  sn_initial_retransmission_timeout :: u32
  sn_stream :: byte_stream
  sn_next_seqno :: size_t
  sn_RTO :: u32
  sn_retransmission_count :: u32
  sn_last_ackno :: size_t
  sn_last_win :: u16
  sn_timer :: retransmission_timer
  sn_outstanding_seg :: "tcp_segment list"

definition sn_new :: "u32 \<Rightarrow> size_t \<Rightarrow> u16 \<Rightarrow> wrapping_int32 option \<Rightarrow> tcp_sender" where
  "sn_new random capacity retx_timeout fixed =
     \<lparr>sn_isn = (case fixed of Some i \<Rightarrow> i | None \<Rightarrow> WrappingInt32 random),
      sn_segments_out = [],
      sn_initial_retransmission_timeout = ucast retx_timeout,
      sn_stream = bs_new capacity,
      sn_next_seqno = 0,
      sn_RTO = ucast retx_timeout,
      sn_retransmission_count = 0,
      sn_last_ackno = 0,
      sn_last_win = 1,
      sn_timer = timer_default,
      sn_outstanding_seg = []\<rparr>"

definition sn_bytes_in_flight :: "tcp_sender \<Rightarrow> size_t" where
  "sn_bytes_in_flight s = sz_sub (sn_next_seqno s) (sn_last_ackno s)"

definition consecutive_retransmissions :: "tcp_sender \<Rightarrow> u32" where
  "consecutive_retransmissions s = sn_retransmission_count s"

definition next_seqno_absolute :: "tcp_sender \<Rightarrow> size_t" where
  "next_seqno_absolute s = sn_next_seqno s"

definition next_seqno :: "tcp_sender \<Rightarrow> wrapping_int32" where
  "next_seqno s = wrap (sn_next_seqno s) (sn_isn s)"

text \<open>\<open>send_segment\<close> takes the segment by reference: the updated segment is returned with the sender.\<close>

definition sn_send_segment :: "tcp_sender \<Rightarrow> tcp_segment \<Rightarrow> tcp_segment \<times> tcp_sender" where
  "sn_send_segment s seg =
     (let seg = seg\<lparr>header := (header seg)\<lparr>seqno := next_seqno s\<rparr>\<rparr>;
          s = s\<lparr>sn_next_seqno := sz_add (sn_next_seqno s) (length_in_sequence_space seg)\<rparr>;
          s = s\<lparr>sn_segments_out := sn_segments_out s @ [seg],
                sn_outstanding_seg := sn_outstanding_seg s @ [seg]\<rparr>
      in (seg, if \<not> is_start (sn_timer s)
               then s\<lparr>sn_timer := timer_start (sn_timer s) (sn_RTO s)\<rparr> else s))"

text \<open>The loop of \<open>fill_window\<close>; \<open>seg\<close> is the local segment that the iterations share.\<close>

partial_function (option) fill_loop :: "u16 \<Rightarrow> tcp_segment \<Rightarrow> tcp_sender \<Rightarrow> tcp_sender option" where
  "fill_loop cur_win seg s =
     (let remaining_win = sz_sub (unat cur_win) (sn_bytes_in_flight s)
      in if remaining_win = 0 then Some s
         else if \<not> bs_eof (sn_stream s) \<and> next_seqno_absolute s > sn_bytes_in_flight s then
           let payload_size = min MAX_PAYLOAD_SIZE remaining_win;
               rd = bs_read (sn_stream s) payload_size;
               s = s\<lparr>sn_stream := snd rd\<rparr>;
               seg = seg\<lparr>payload := buffer_of (fst rd)\<rparr>;
               seg = (if bs_eof (sn_stream s) \<and> length_in_sequence_space seg < remaining_win
                      then seg\<lparr>header := (header seg)\<lparr>fin := True\<rparr>\<rparr> else seg)
           in if length_in_sequence_space seg = 0 then Some s
              else let sent = sn_send_segment s seg in fill_loop cur_win (fst sent) (snd sent)
         else if bs_eof (sn_stream s) then
           if next_seqno_absolute s < sz_add (bytes_written (sn_stream s)) 2
           then Some (snd (sn_send_segment s (seg\<lparr>header := (header seg)\<lparr>fin := True\<rparr>\<rparr>)))
           else Some s
         else fill_loop cur_win seg s)"

definition fill_window :: "tcp_sender \<Rightarrow> tcp_sender option" where
  "fill_window s =
     (let seg = tcp_segment_default
      in if next_seqno_absolute s = 0
         then Some (snd (sn_send_segment s (seg\<lparr>header := (header seg)\<lparr>syn := True\<rparr>\<rparr>)))
         else if next_seqno_absolute s > 0 \<and> next_seqno_absolute s = sn_bytes_in_flight s then Some s
         else let cur_win = (if sn_last_win s = 0 then 1 else sn_last_win s)
              in fill_loop cur_win seg s)"

text \<open>The test for a fully acknowledged segment adds in 64 bits: a 32 bit value plus a \<open>size_t\<close>.\<close>

definition seg_acked :: "wrapping_int32 \<Rightarrow> tcp_segment \<Rightarrow> bool" where
  "seg_acked ack_no seg \<longleftrightarrow>
     sz_add (unat (raw_value (seqno (header seg)))) (length_in_sequence_space seg) \<le> unat (raw_value ack_no)"

fun pop_acked :: "wrapping_int32 \<Rightarrow> tcp_segment list \<Rightarrow> tcp_segment list" where
  "pop_acked ack_no [] = []"
| "pop_acked ack_no (seg # segs) = (if seg_acked ack_no seg then pop_acked ack_no segs else seg # segs)"

definition sn_ack_received :: "tcp_sender \<Rightarrow> wrapping_int32 \<Rightarrow> u16 \<Rightarrow> tcp_sender option" where
  "sn_ack_received s ack_no window_size =
     (let abs_ack = unwrap ack_no (sn_isn s) (sn_last_ackno s)
      in if abs_ack > sn_next_seqno s then Some s
         else
           let s = (if abs_ack > sn_last_ackno s then
                      let s = s\<lparr>sn_last_ackno := abs_ack,
                                sn_outstanding_seg := pop_acked ack_no (sn_outstanding_seg s),
                                sn_retransmission_count := 0,
                                sn_RTO := sn_initial_retransmission_timeout s\<rparr>
                      in s\<lparr>sn_timer := (if sn_outstanding_seg s \<noteq> []
                                        then timer_start (sn_timer s) (sn_RTO s)
                                        else timer_stop (sn_timer s))\<rparr>
                    else s);
               s = s\<lparr>sn_last_win := window_size\<rparr>
           in fill_window s)"

definition sn_tick :: "tcp_sender \<Rightarrow> size_t \<Rightarrow> tcp_sender" where
  "sn_tick s ms =
     (let s = s\<lparr>sn_timer := timer_tick (sn_timer s) ms\<rparr>
      in if sn_outstanding_seg s \<noteq> [] \<and> is_expired (sn_timer s) then
           let s = s\<lparr>sn_segments_out := sn_segments_out s @ [hd (sn_outstanding_seg s)]\<rparr>;
               s = (if sn_last_win s > 0
                    then s\<lparr>sn_retransmission_count := sn_retransmission_count s + 1,
                           sn_RTO := sn_RTO s * 2\<rparr>
                    else s)
           in s\<lparr>sn_timer := timer_start (sn_timer s) (sn_RTO s)\<rparr>
         else if sn_outstanding_seg s = [] then s\<lparr>sn_timer := timer_stop (sn_timer s)\<rparr>
         else s)"

definition send_empty_segment :: "tcp_sender \<Rightarrow> tcp_sender" where
  "send_empty_segment s =
     (let seg = tcp_segment_default\<lparr>header := tcp_header_default\<lparr>seqno := next_seqno s\<rparr>\<rparr>
      in s\<lparr>sn_segments_out := sn_segments_out s @ [seg]\<rparr>)"

section \<open>Segments of a stream\<close>

text \<open>
  \<open>S\<close> is the stream the application writes and \<open>N\<close> its length. \<open>seg_at S N isn a seg\<close>
  says that \<open>seg\<close> is a segment the sender builds for absolute sequence number \<open>a\<close>: the SYN at \<open>0\<close>, and
  from \<open>1\<close> on the bytes of the stream, where only the last byte may come with the FIN.
\<close>

definition seq_len :: "tcp_segment \<Rightarrow> nat" where
  "seq_len seg = length (buffer_str (payload seg)) + of_bool (syn (header seg)) + of_bool (fin (header seg))"

definition seg_at :: "(nat \<Rightarrow> byte) \<Rightarrow> nat \<Rightarrow> wrapping_int32 \<Rightarrow> nat \<Rightarrow> tcp_segment \<Rightarrow> bool" where
  "seg_at S N isn a seg \<longleftrightarrow>
     seqno (header seg) = wrap a isn \<and> length (buffer_str (payload seg)) \<le> MAX_PAYLOAD_SIZE \<and> 0 < seq_len seg \<and>
     (if a = 0 then syn (header seg) \<and> buffer_str (payload seg) = [] \<and> \<not> fin (header seg)
      else \<not> syn (header seg) \<and>
        buffer_str (payload seg) = map S [a - 1..<a - 1 + length (buffer_str (payload seg))] \<and>
        a - 1 + length (buffer_str (payload seg)) \<le> N \<and>
        (fin (header seg) \<longrightarrow> a - 1 + length (buffer_str (payload seg)) = N))"

text \<open>Segments that follow each other without gap in sequence space, from \<open>a\<close> up to \<open>b\<close>.\<close>

fun seg_run :: "(nat \<Rightarrow> byte) \<Rightarrow> nat \<Rightarrow> wrapping_int32 \<Rightarrow> nat \<Rightarrow> tcp_segment list \<Rightarrow> nat \<Rightarrow> bool" where
  "seg_run S N isn a [] b \<longleftrightarrow> a = b"
| "seg_run S N isn a (seg # segs) b \<longleftrightarrow> seg_at S N isn a seg \<and> seg_run S N isn (a + seq_len seg) segs b"

lemma seg_run_append:
  "seg_run S N isn a (xs @ ys) b \<longleftrightarrow> (\<exists>m. seg_run S N isn a xs m \<and> seg_run S N isn m ys b)"
  by (induction xs arbitrary: a) auto

lemma seg_run_snoc:
  "seg_run S N isn a xs m \<Longrightarrow> seg_at S N isn m seg \<Longrightarrow> seg_run S N isn a (xs @ [seg]) (m + seq_len seg)"
  by (auto simp: seg_run_append)

lemma seg_run_le: "seg_run S N isn a segs b \<Longrightarrow> a \<le> b"
  by (induction segs arbitrary: a) (auto dest: add_leD1)

lemma seg_run_mem:
  "seg_run S N isn a segs b \<Longrightarrow> seg \<in> set segs \<Longrightarrow> \<exists>m. a \<le> m \<and> seg_at S N isn m seg \<and> m + seq_len seg \<le> b"
proof (induction segs arbitrary: a)
  case (Cons x xs)
  then show ?case
    using seg_run_le [of S N isn "a + seq_len x" xs b] by (fastforce dest: add_leD1)
qed simp

lemma seq_len_exact:
  "length (buffer_str (payload seg)) \<le> MAX_PAYLOAD_SIZE \<Longrightarrow> length_in_sequence_space seg = seq_len seg"
  by (simp add: length_in_sequence_space_exact seq_len_def MAX_PAYLOAD_SIZE_def SIZE_MOD_def)

lemma seg_at_len: "seg_at S N isn a seg \<Longrightarrow> length_in_sequence_space seg = seq_len seg"
  by (simp add: seg_at_def seq_len_exact)

text \<open>A segment that asks nothing of the receiver's stream: no payload, SYN or FIN.\<close>

definition bare :: "tcp_segment \<Rightarrow> bool" where
  "bare seg \<longleftrightarrow> buffer_str (payload seg) = [] \<and> \<not> syn (header seg) \<and> \<not> fin (header seg)"

text \<open>A segment for the network: bare, or one of the stream whose sequence numbers below \<open>n\<close> are in use.\<close>

definition sent_seg :: "(nat \<Rightarrow> byte) \<Rightarrow> nat \<Rightarrow> wrapping_int32 \<Rightarrow> nat \<Rightarrow> tcp_segment \<Rightarrow> bool" where
  "sent_seg S N isn n seg \<longleftrightarrow> bare seg \<or> (\<exists>a. seg_at S N isn a seg \<and> a + seq_len seg \<le> n)"

lemma sent_seg_mono: "sent_seg S N isn n seg \<Longrightarrow> n \<le> n' \<Longrightarrow> sent_seg S N isn n' seg"
  by (auto simp: sent_seg_def intro: le_trans)

section \<open>Invariant\<close>

text \<open>The unsent part of the stream; two sequence numbers beside its bytes stay below \<open>2\<^sup>6\<^sup>4\<close>.\<close>

definition stream_part :: "(nat \<Rightarrow> byte) \<Rightarrow> nat \<Rightarrow> byte_stream \<Rightarrow> bool" where
  "stream_part S N st \<longleftrightarrow> bs_inv st \<and> bs_bytes_r st + length (bs_buff st) + 2 < SIZE_MOD \<and>
     bs_buff st = map S [bs_bytes_r st..<bs_bytes_r st + length (bs_buff st)] \<and>
     bs_bytes_r st + length (bs_buff st) \<le> N \<and>
     (bs_end_input st \<longrightarrow> bs_bytes_r st + length (bs_buff st) = N)"

text \<open>
  The next sequence number counts the SYN, the bytes taken from the stream and, once the stream is
  exhausted, possibly the FIN.
\<close>

definition seq_phase :: "nat \<Rightarrow> byte_stream \<Rightarrow> bool" where
  "seq_phase n st \<longleftrightarrow> n = 0 \<and> bs_bytes_r st = 0 \<or> n = bs_bytes_r st + 1 \<or> n = bs_bytes_r st + 2 \<and> bs_eof st"

text \<open>
  The outstanding segments cover everything from the last acknowledged number on; each segment in
  the output queue is bare or a segment of the stream that has been sent.
\<close>

definition sn_inv :: "(nat \<Rightarrow> byte) \<Rightarrow> nat \<Rightarrow> tcp_sender \<Rightarrow> bool" where
  "sn_inv S N s \<longleftrightarrow>
     stream_part S N (sn_stream s) \<and> seq_phase (sn_next_seqno s) (sn_stream s) \<and>
     sn_last_ackno s \<le> sn_next_seqno s \<and>
     (\<exists>a \<le> sn_last_ackno s. seg_run S N (sn_isn s) a (sn_outstanding_seg s) (sn_next_seqno s)) \<and>
     (sn_outstanding_seg s \<noteq> [] \<longrightarrow> is_start (sn_timer s)) \<and> \<not> tm_expired (sn_timer s) \<and>
     (\<forall>seg \<in> set (sn_segments_out s). sent_seg S N (sn_isn s) (sn_next_seqno s) seg)"

lemma seq_phase_bound: "seq_phase n st \<Longrightarrow> stream_part S N st \<Longrightarrow> n < SIZE_MOD"
  by (auto simp: seq_phase_def stream_part_def)

lemma stream_part_written: "stream_part S N st \<Longrightarrow> bs_bytes_w st = bs_bytes_r st + length (bs_buff st)"
  by (simp add: stream_part_def bs_inv_def sz_add_exact)

lemma sn_bytes_in_flight_exact:
  "sn_inv S N s \<Longrightarrow> sn_bytes_in_flight s = sn_next_seqno s - sn_last_ackno s"
  using seq_phase_bound [of "sn_next_seqno s" "sn_stream s" S N]
  by (simp add: sn_bytes_in_flight_def sz_sub_exact sn_inv_def)

lemma stream_part_read:
  fixes n :: nat and st :: byte_stream
  assumes "stream_part S N st"
  defines "k \<equiv> min n (length (bs_buff st))"
  shows "stream_part S N (snd (bs_read st n))" and "bs_bytes_r (snd (bs_read st n)) = bs_bytes_r st + k"
    and "fst (bs_read st n) = map S [bs_bytes_r st..<bs_bytes_r st + k]"
    and "length (bs_buff (snd (bs_read st n))) = length (bs_buff st) - k"
proof -
  have r: "bs_bytes_r (snd (bs_read st n)) = bs_bytes_r st + k"
    using assms by (auto simp: bs_simps stream_part_def k_def intro!: sz_add_exact)
  moreover have buff: "bs_buff st = map S [bs_bytes_r st..<bs_bytes_r st + length (bs_buff st)]"
    using assms by (simp add: stream_part_def)
  have "take k (bs_buff st) = map S [bs_bytes_r st..<bs_bytes_r st + k]"
    by (subst buff) (simp add: k_def take_map)
  then show "fst (bs_read st n) = map S [bs_bytes_r st..<bs_bytes_r st + k]"
    by (simp add: bs_simps k_def)
  have "drop k (bs_buff st) = map S [bs_bytes_r st + k..<bs_bytes_r st + length (bs_buff st)]"
    by (subst buff) (simp add: k_def drop_map)
  then have "bs_buff (snd (bs_read st n)) = map S [bs_bytes_r st + k..<bs_bytes_r st + length (bs_buff st)]"
    by (simp add: bs_simps k_def)
  moreover show "length (bs_buff (snd (bs_read st n))) = length (bs_buff st) - k"
    by (simp add: bs_simps k_def)
  ultimately show "stream_part S N (snd (bs_read st n))"
    using assms(1) bs_inv_read [of st n] by (auto simp: stream_part_def bs_simps k_def)
  show "bs_bytes_r (snd (bs_read st n)) = bs_bytes_r st + k" by (rule r)
qed

text \<open>What sending a segment changes.\<close>

definition grows :: "tcp_segment list \<Rightarrow> tcp_sender \<Rightarrow> tcp_sender \<Rightarrow> bool" where
  "grows new s s' \<longleftrightarrow>
     sn_segments_out s' = sn_segments_out s @ new \<and> sn_outstanding_seg s' = sn_outstanding_seg s @ new \<and>
     sn_isn s' = sn_isn s \<and> sn_last_ackno s' = sn_last_ackno s \<and> sn_last_win s' = sn_last_win s \<and>
     sn_RTO s' = sn_RTO s \<and> sn_retransmission_count s' = sn_retransmission_count s \<and>
     sn_initial_retransmission_timeout s' = sn_initial_retransmission_timeout s \<and>
     sn_next_seqno s \<le> sn_next_seqno s' \<and> sn_next_seqno s' - sn_next_seqno s = sum_list (map seq_len new) \<and>
     bs_bytes_w (sn_stream s') = bs_bytes_w (sn_stream s) \<and> bs_error (sn_stream s') = bs_error (sn_stream s) \<and>
     bs_end_input (sn_stream s') = bs_end_input (sn_stream s) \<and>
     bs_capacity (sn_stream s') = bs_capacity (sn_stream s)"

lemma grows_refl: "grows [] s s"
  by (simp add: grows_def)

lemma grows_trans: "grows xs s t \<Longrightarrow> grows ys t u \<Longrightarrow> grows (xs @ ys) s u"
  by (auto simp: grows_def)

text \<open>Sending a segment of the stream at the next sequence number, the stream having moved to \<open>st\<close>.\<close>

lemma send_segment_inv:
  fixes st :: byte_stream and seg :: tcp_segment
  assumes inv: "sn_inv S N s" and st: "stream_part S N st" and phase: "seq_phase (sn_next_seqno s + seq_len seg) st"
    and frame: "bs_bytes_w st = bs_bytes_w (sn_stream s)" "bs_error st = bs_error (sn_stream s)"
      "bs_end_input st = bs_end_input (sn_stream s)" "bs_capacity st = bs_capacity (sn_stream s)"
  defines "seg' \<equiv> seg\<lparr>header := (header seg)\<lparr>seqno := next_seqno s\<rparr>\<rparr>"
  assumes at: "seg_at S N (sn_isn s) (sn_next_seqno s) seg'"
  defines "s' \<equiv> snd (sn_send_segment (s\<lparr>sn_stream := st\<rparr>) seg)"
  shows "sn_inv S N s'" and "grows [seg'] s s'" and "sn_next_seqno s' = sn_next_seqno s + seq_len seg"
    and "sn_stream s' = st" and "fst (sn_send_segment (s\<lparr>sn_stream := st\<rparr>) seg) = seg'"
proof -
  have len: "seq_len seg' = seq_len seg" by (simp add: seg'_def seq_len_def)
  have "length_in_sequence_space seg' = seq_len seg" using seg_at_len [OF at] len by simp
  then show next': "sn_next_seqno s' = sn_next_seqno s + seq_len seg"
    using seq_phase_bound [OF phase st]
    by (simp add: s'_def sn_send_segment_def Let_def next_seqno_def seg'_def sz_add_exact)
  show st': "sn_stream s' = st" by (simp add: s'_def sn_send_segment_def Let_def)
  show "fst (sn_send_segment (s\<lparr>sn_stream := st\<rparr>) seg) = seg'"
    by (simp add: sn_send_segment_def Let_def next_seqno_def seg'_def)
  show g: "grows [seg'] s s'"
    using frame next' st' len by (simp add: grows_def) (simp add: s'_def sn_send_segment_def Let_def next_seqno_def seg'_def)
  have "is_start (sn_timer s')" "\<not> tm_expired (sn_timer s')"
    using inv by (simp_all add: s'_def sn_send_segment_def Let_def is_start_def timer_start_def sn_inv_def)
  moreover have "\<exists>a \<le> sn_last_ackno s. seg_run S N (sn_isn s) a (sn_outstanding_seg s @ [seg']) (sn_next_seqno s + seq_len seg)"
    using inv seg_run_snoc [OF _ at] len unfolding sn_inv_def by metis
  moreover have "sent_seg S N (sn_isn s) (sn_next_seqno s') seg'"
    using at len next' by (auto simp: sent_seg_def)
  moreover have "\<forall>x \<in> set (sn_segments_out s). sent_seg S N (sn_isn s) (sn_next_seqno s') x"
    using inv next' by (auto simp: sn_inv_def intro: sent_seg_mono)
  ultimately show "sn_inv S N s'"
    using inv g st st' phase next' unfolding sn_inv_def grows_def by auto
qed

section \<open>Filling the window\<close>

text \<open>
  The loop stops when the window is full or when there is nothing left to send: the stream is
  drained and, if it has ended, the FIN is out.
\<close>

definition window_filled :: "u16 \<Rightarrow> tcp_sender \<Rightarrow> bool" where
  "window_filled w s \<longleftrightarrow> sn_bytes_in_flight s = unat w \<or>
     bs_buff (sn_stream s) = [] \<and>
     (bs_end_input (sn_stream s) \<longrightarrow> sn_next_seqno s = bs_bytes_w (sn_stream s) + 2)"

lemma sz_sub_0_iff: "a < SIZE_MOD \<Longrightarrow> b < SIZE_MOD \<Longrightarrow> sz_sub a b = 0 \<longleftrightarrow> a = b"
  by (cases "b \<le> a") (auto simp: sz_sub_exact sz_sub_wraps)

lemma unat_u16_size: "unat (w :: u16) < SIZE_MOD"
proof -
  have "unat w < 2 ^ LENGTH(16)" by (rule unsigned_less)
  then show ?thesis by (simp add: SIZE_MOD_def)
qed

lemma fill_loop_full:
  "sn_bytes_in_flight s = unat w \<Longrightarrow> fill_loop w seg s = Some s"
  by (subst fill_loop.simps) (simp add: unat_u16_size)

lemma fill_loop_fin_sent:
  assumes "sn_inv S N s" and "bs_eof (sn_stream s)" and "sn_next_seqno s = bs_bytes_w (sn_stream s) + 2"
  shows "fill_loop w seg s = Some s"
proof -
  have "sz_add (bytes_written (sn_stream s)) 2 = sn_next_seqno s"
    using assms stream_part_written [of S N "sn_stream s"]
    by (simp add: bytes_written_def sz_add_exact sn_inv_def stream_part_def)
  then show ?thesis
    by (subst fill_loop.simps) (simp add: assms(2) next_seqno_absolute_def Let_def)
qed

text \<open>The part of the loop that sends the FIN alone.\<close>

lemma fill_loop_fin:
  assumes inv: "sn_inv S N s" and eof: "bs_eof (sn_stream s)" and next1: "sn_next_seqno s = bs_bytes_r (sn_stream s) + 1"
    and seg: "\<not> syn (header seg)" "buffer_str (payload seg) = []" and open': "sn_bytes_in_flight s \<noteq> unat w"
  shows "\<exists>s' new. fill_loop w seg s = Some s' \<and> sn_inv S N s' \<and> grows new s s' \<and> window_filled w s' \<and>
    sn_next_seqno s' = sn_next_seqno s + 1"
proof -
  let ?seg = "seg\<lparr>header := (header seg)\<lparr>fin := True\<rparr>\<rparr>" and ?st = "sn_stream s"
  let ?s' = "snd (sn_send_segment s ?seg)"
  have st: "stream_part S N ?st" and buff: "bs_buff ?st = []" "bs_end_input ?st"
    using inv eof by (auto simp: sn_inv_def bs_accessor_defs)
  have len: "seq_len ?seg = 1" using seg by (simp add: seq_len_def)
  have "seq_phase (sn_next_seqno s + seq_len ?seg) ?st"
    using next1 eof len by (simp add: seq_phase_def)
  moreover have "seg_at S N (sn_isn s) (sn_next_seqno s) (?seg\<lparr>header := (header ?seg)\<lparr>seqno := next_seqno s\<rparr>\<rparr>)"
    using seg next1 st buff by (simp add: seg_at_def next_seqno_def seq_len_def stream_part_def)
  ultimately have sent: "sn_inv S N ?s'" "grows [?seg\<lparr>header := (header ?seg)\<lparr>seqno := next_seqno s\<rparr>\<rparr>] s ?s'"
    "sn_next_seqno ?s' = sn_next_seqno s + 1" "sn_stream ?s' = ?st"
    using send_segment_inv [OF inv st, of ?seg] len by simp_all
  have bw: "bs_bytes_w ?st = bs_bytes_r ?st" using stream_part_written [OF st] buff by simp
  have "sz_add (bytes_written ?st) 2 = bs_bytes_r ?st + 2"
    using st buff bw by (simp add: bytes_written_def sz_add_exact stream_part_def)
  moreover have "sn_bytes_in_flight s < SIZE_MOD" by (simp add: sn_bytes_in_flight_def)
  ultimately have "fill_loop w seg s = Some ?s'"
    using eof next1 open' by (subst fill_loop.simps) (simp add: next_seqno_absolute_def sz_sub_0_iff unat_u16_size Let_def)
  moreover have "window_filled w ?s'"
    using sent(3,4) buff bw next1 by (simp add: window_filled_def)
  ultimately show ?thesis using sent by blast
qed

text \<open>One iteration that takes bytes from the stream.\<close>

definition data_segment :: "tcp_sender \<Rightarrow> tcp_segment \<Rightarrow> nat \<Rightarrow> tcp_segment" where
  "data_segment s seg rem =
     (let rd = bs_read (sn_stream s) (min MAX_PAYLOAD_SIZE rem); seg = seg\<lparr>payload := buffer_of (fst rd)\<rparr>
      in if bs_eof (snd rd) \<and> length_in_sequence_space seg < rem
         then seg\<lparr>header := (header seg)\<lparr>fin := True\<rparr>\<rparr> else seg)"

lemma fill_loop_read:
  assumes "rem = sz_sub (unat w) (sn_bytes_in_flight s)" and "rem \<noteq> 0"
    and "\<not> bs_eof (sn_stream s)" and "sn_bytes_in_flight s < sn_next_seqno s"
  shows "fill_loop w seg s =
    (let s1 = s\<lparr>sn_stream := snd (bs_read (sn_stream s) (min MAX_PAYLOAD_SIZE rem))\<rparr>;
         seg1 = data_segment s seg rem
     in if length_in_sequence_space seg1 = 0 then Some s1
        else fill_loop w (fst (sn_send_segment s1 seg1)) (snd (sn_send_segment s1 seg1)))"
  using assms by (subst fill_loop.simps) (simp add: next_seqno_absolute_def data_segment_def Let_def)

lemma fill_loop_data:
  assumes inv: "sn_inv S N s" and last: "0 < sn_last_ackno s" and buff: "bs_buff (sn_stream s) \<noteq> []"
    and seg: "\<not> syn (header seg)" "\<not> fin (header seg)" and open': "sn_bytes_in_flight s \<noteq> unat w"
  defines "rem \<equiv> sz_sub (unat w) (sn_bytes_in_flight s)"
  defines "k \<equiv> min (min MAX_PAYLOAD_SIZE rem) (length (bs_buff (sn_stream s)))"
  obtains seg1 s1 where "fill_loop w seg s = fill_loop w seg1 s1" and "sn_inv S N s1" and "grows [seg1] s s1"
    and "\<not> syn (header seg1)" and "length (buffer_str (payload seg1)) = k" and "0 < k"
    and "length (bs_buff (sn_stream s1)) = length (bs_buff (sn_stream s)) - k"
    and "sn_next_seqno s1 = sn_next_seqno s + k + of_bool (fin (header seg1))"
    and "fin (header seg1) \<longleftrightarrow> bs_eof (sn_stream s1) \<and> k < rem"
    and "seq_phase (sn_next_seqno s1) (sn_stream s1)"
    and "bs_bytes_r (sn_stream s1) + 1 + of_bool (fin (header seg1)) = sn_next_seqno s1"
proof -
  let ?st = "sn_stream s" and ?d = "data_segment s seg rem"
  let ?rd = "bs_read ?st (min MAX_PAYLOAD_SIZE rem)"
  let ?seg1 = "?d\<lparr>header := (header ?d)\<lparr>seqno := next_seqno s\<rparr>\<rparr>"
  let ?s1 = "snd (sn_send_segment (s\<lparr>sn_stream := snd ?rd\<rparr>) ?d)"
  have st: "stream_part S N ?st" and bif: "sn_bytes_in_flight s = sn_next_seqno s - sn_last_ackno s"
    using inv sn_bytes_in_flight_exact by (auto simp: sn_inv_def)
  have rem0: "rem \<noteq> 0" using open' by (simp add: rem_def sz_sub_0_iff unat_u16_size sn_bytes_in_flight_def)
  then have k0: "0 < k" using buff by (simp add: k_def MAX_PAYLOAD_SIZE_def)
  note rd = stream_part_read [OF st, where n = "min MAX_PAYLOAD_SIZE rem", folded k_def]
  have noteof: "\<not> bs_eof ?st" using buff by (simp add: bs_accessor_defs)
  have next0: "sn_next_seqno s = bs_bytes_r ?st + 1"
    using inv noteof last by (auto simp: sn_inv_def seq_phase_def)
  have k: "k \<le> MAX_PAYLOAD_SIZE" by (simp add: k_def)
  have pay: "buffer_str (payload ?d) = map S [bs_bytes_r ?st..<bs_bytes_r ?st + k]" "\<not> syn (header ?d)"
    using seg rd(3) by (auto simp: data_segment_def Let_def)
  have "length_in_sequence_space (seg\<lparr>payload := buffer_of (fst ?rd)\<rparr>) = k"
    using seg k rd(3) by (subst seq_len_exact) (simp_all add: seq_len_def)
  then have fin1: "fin (header ?d) \<longleftrightarrow> bs_eof (snd ?rd) \<and> k < rem"
    using seg by (simp add: data_segment_def Let_def)
  have len: "seq_len ?d = k + of_bool (fin (header ?d))" using pay by (simp add: seq_len_def)
  have end': "bs_eof (snd ?rd) \<Longrightarrow> bs_bytes_r ?st + k = N"
    using rd(1,2,4) by (auto simp: stream_part_def bs_accessor_defs)
  have phase: "seq_phase (sn_next_seqno s + seq_len ?d) (snd ?rd)"
    using fin1 len next0 rd(2) by (auto simp: seq_phase_def)
  have "bs_bytes_r ?st + k \<le> N" using rd(1,2) by (simp add: stream_part_def)
  then have at: "seg_at S N (sn_isn s) (sn_next_seqno s) ?seg1"
    using pay k k0 next0 fin1 end' by (auto simp: seg_at_def next_seqno_def seq_len_def)
  have frame: "bs_bytes_w (snd ?rd) = bs_bytes_w ?st" "bs_error (snd ?rd) = bs_error ?st"
    "bs_end_input (snd ?rd) = bs_end_input ?st" "bs_capacity (snd ?rd) = bs_capacity ?st"
    by (simp_all add: bs_simps)
  note sent = send_segment_inv [OF inv rd(1) phase frame at]
  have "seq_len ?d \<noteq> 0" using len k0 by simp
  moreover have "length_in_sequence_space ?d = seq_len ?d"
    using pay k by (intro seq_len_exact) simp
  ultimately have "length_in_sequence_space ?d \<noteq> 0" by simp
  moreover have "sn_bytes_in_flight s < sn_next_seqno s" using bif last next0 by simp
  ultimately have "fill_loop w seg s = fill_loop w (fst (sn_send_segment (s\<lparr>sn_stream := snd ?rd\<rparr>) ?d)) ?s1"
    using fill_loop_read [of rem w s seg] noteof rem0 by (simp add: rem_def [symmetric] Let_def)
  with sent(5) have "fill_loop w seg s = fill_loop w ?seg1 ?s1" by simp
  then show ?thesis
    using sent(1-4) pay k0 rd(2,4) fin1 len phase next0 by (intro that [of ?seg1 ?s1]) (auto simp: add.assoc)
qed

text \<open>Nothing to send yet: the loop reads nothing and returns.\<close>

lemma fill_loop_idle:
  assumes inv: "sn_inv S N s" and last: "0 < sn_last_ackno s"
    and idle: "bs_buff (sn_stream s) = []" "\<not> bs_end_input (sn_stream s)"
    and seg: "\<not> syn (header seg)" "\<not> fin (header seg)" and open': "sn_bytes_in_flight s \<noteq> unat w"
  shows "fill_loop w seg s = Some s"
proof -
  have noteof: "\<not> bs_eof (sn_stream s)" using idle by (simp add: bs_accessor_defs)
  then have bif: "sn_bytes_in_flight s < sn_next_seqno s"
    using inv last sn_bytes_in_flight_exact [OF inv] by (auto simp: sn_inv_def)
  have rem: "sz_sub (unat w) (sn_bytes_in_flight s) \<noteq> 0"
    using open' by (simp add: sz_sub_0_iff unat_u16_size sn_bytes_in_flight_def)
  have rd: "fst (bs_read (sn_stream s) n) = []" "snd (bs_read (sn_stream s) n) = sn_stream s" for n
    using inv idle by (simp_all add: bs_simps sn_inv_def stream_part_def)
  have "length_in_sequence_space (data_segment s seg n) = 0" for n
    using seg noteof rd by (simp add: data_segment_def Let_def length_in_sequence_space_def)
  then show ?thesis
    using fill_loop_read [OF refl rem noteof bif, of seg] rd by (simp add: Let_def)
qed

text \<open>The next iteration after one that took bytes: it has less to send, and the FIN ends the loop.\<close>

lemma fill_loop_step:
  assumes inv: "sn_inv S N s" and last: "0 < sn_last_ackno s" and buff: "bs_buff (sn_stream s) \<noteq> []"
    and seg: "\<not> syn (header seg)" "\<not> fin (header seg)" and open': "sn_bytes_in_flight s \<noteq> unat w"
  shows "\<exists>seg1 s1. fill_loop w seg s = fill_loop w seg1 s1 \<and> sn_inv S N s1 \<and> grows [seg1] s s1 \<and>
    \<not> syn (header seg1) \<and> length (bs_buff (sn_stream s1)) < length (bs_buff (sn_stream s)) \<and>
    (fin (header seg1) \<longrightarrow> fill_loop w seg1 s1 = Some s1 \<and> window_filled w s1) \<and>
    (\<not> fin (header seg1) \<longrightarrow> bs_eof (sn_stream s1) \<longrightarrow> sn_bytes_in_flight s1 = unat w) \<and>
    (sn_bytes_in_flight s \<le> unat w \<longrightarrow> sn_bytes_in_flight s1 \<le> unat w)"
proof -
  let ?rem = "sz_sub (unat w) (sn_bytes_in_flight s)"
  obtain seg1 s1 k where k: "k = min (min MAX_PAYLOAD_SIZE ?rem) (length (bs_buff (sn_stream s)))" "0 < k"
    and loop: "fill_loop w seg s = fill_loop w seg1 s1" and s1: "sn_inv S N s1" "grows [seg1] s s1"
    and seg1: "\<not> syn (header seg1)" "fin (header seg1) \<longleftrightarrow> bs_eof (sn_stream s1) \<and> k < ?rem"
    and st1: "length (bs_buff (sn_stream s1)) = length (bs_buff (sn_stream s)) - k"
    and next1: "sn_next_seqno s1 = sn_next_seqno s + k + of_bool (fin (header seg1))"
      "bs_bytes_r (sn_stream s1) + 1 + of_bool (fin (header seg1)) = sn_next_seqno s1"
    by (rule fill_loop_data [OF assms]) blast
  have bif: "sn_bytes_in_flight s = sn_next_seqno s - sn_last_ackno s" "sn_last_ackno s \<le> sn_next_seqno s"
    using inv sn_bytes_in_flight_exact by (auto simp: sn_inv_def)
  have bif1: "sn_bytes_in_flight s1 = sn_bytes_in_flight s + k + of_bool (fin (header seg1))"
    using sn_bytes_in_flight_exact [OF s1(1)] s1(2) next1(1) bif by (simp add: grows_def)
  have small: "sn_bytes_in_flight s1 < SIZE_MOD" by (simp add: sn_bytes_in_flight_def)
  have rem_le: "?rem = unat w - sn_bytes_in_flight s" if "sn_bytes_in_flight s \<le> unat w"
    using that unat_u16_size by (simp add: sz_sub_exact)
  have "sn_bytes_in_flight s < SIZE_MOD" by (simp add: sn_bytes_in_flight_def)
  then have rem_gt: "sn_bytes_in_flight s + ?rem = unat w + SIZE_MOD" if "unat w < sn_bytes_in_flight s"
    using that sz_sub_wraps by simp
  have kr: "k \<le> ?rem" by (simp add: k(1))
  then have kf: "k + of_bool (fin (header seg1)) \<le> ?rem"
    using seg1(2) by (cases "fin (header seg1)") simp_all
  have "sn_bytes_in_flight s1 \<le> unat w" if "sn_bytes_in_flight s \<le> unat w"
    using rem_le [OF that] that bif1 kf by linarith
  moreover have "sn_bytes_in_flight s1 = unat w" if "\<not> fin (header seg1)" "bs_eof (sn_stream s1)"
  proof -
    have "k = ?rem" using that seg1(2) kr by linarith
    then have "sn_bytes_in_flight s1 = sn_bytes_in_flight s + ?rem" using bif1 that(1) by simp
    then show ?thesis using rem_le rem_gt small by (cases "sn_bytes_in_flight s \<le> unat w") auto
  qed
  moreover have "fill_loop w seg1 s1 = Some s1 \<and> window_filled w s1" if "fin (header seg1)"
  proof -
    have eof: "bs_eof (sn_stream s1)" using that seg1(2) by blast
    then have "sn_next_seqno s1 = bs_bytes_w (sn_stream s1) + 2" "bs_buff (sn_stream s1) = []"
      using that next1(2) s1(1) stream_part_written [of S N "sn_stream s1"] by (auto simp: sn_inv_def bs_accessor_defs)
    with fill_loop_fin_sent [OF s1(1) eof] show ?thesis by (simp add: window_filled_def)
  qed
  moreover have "length (bs_buff (sn_stream s1)) < length (bs_buff (sn_stream s))"
    using st1 k(2) buff by (simp add: length_greater_0_conv)
  ultimately show ?thesis using loop s1 seg1(1) by blast
qed

lemma fill_loop_spec:
  assumes "sn_inv S N s" and "0 < sn_last_ackno s" and "\<not> syn (header seg)" and "\<not> fin (header seg)"
    and "bs_eof (sn_stream s) \<Longrightarrow> buffer_str (payload seg) = [] \<or> sn_bytes_in_flight s = unat w"
  shows "\<exists>s' new. fill_loop w seg s = Some s' \<and> sn_inv S N s' \<and> grows new s s' \<and> window_filled w s' \<and>
    (sn_bytes_in_flight s \<le> unat w \<longrightarrow> sn_bytes_in_flight s' \<le> unat w)"
  using assms
proof (induction "length (bs_buff (sn_stream s))" arbitrary: s seg rule: less_induct)
  case less
  note bif = sn_bytes_in_flight_exact [OF less.prems(1)]
  show ?case
  proof (cases "sn_bytes_in_flight s = unat w")
    case True
    then have "fill_loop w seg s = Some s" "window_filled w s"
      by (simp_all add: fill_loop_full window_filled_def)
    then show ?thesis using less.prems(1) grows_refl by blast
  next
    case open': False
    consider (sent) "bs_eof (sn_stream s)" "sn_next_seqno s = bs_bytes_r (sn_stream s) + 2"
      | (fin) "bs_eof (sn_stream s)" "sn_next_seqno s = bs_bytes_r (sn_stream s) + 1"
      | (idle) "bs_buff (sn_stream s) = []" "\<not> bs_end_input (sn_stream s)"
      | (data) "bs_buff (sn_stream s) \<noteq> []"
      using less.prems(1,2) by (auto simp: sn_inv_def seq_phase_def bs_accessor_defs)
    then show ?thesis
    proof cases
      case sent
      then have "sn_next_seqno s = bs_bytes_w (sn_stream s) + 2" "bs_buff (sn_stream s) = []"
        using less.prems(1) stream_part_written [of S N "sn_stream s"] by (auto simp: sn_inv_def bs_accessor_defs)
      then show ?thesis
        using fill_loop_fin_sent [OF less.prems(1) sent(1)] less.prems(1) grows_refl
        by (auto simp: window_filled_def)
    next
      case fin
      have "buffer_str (payload seg) = []" using less.prems(5) fin(1) open' by blast
      from fill_loop_fin [OF less.prems(1) fin less.prems(3) this open'] obtain s' new where
        s': "fill_loop w seg s = Some s'" "sn_inv S N s'" "grows new s s'" "window_filled w s'"
          "sn_next_seqno s' = sn_next_seqno s + 1" by blast
      moreover have "sn_bytes_in_flight s \<le> unat w \<longrightarrow> sn_bytes_in_flight s' \<le> unat w"
        using s'(2,3,5) bif open' sn_bytes_in_flight_exact [of S N s'] by (auto simp: grows_def)
      ultimately show ?thesis by blast
    next
      case idle
      then show ?thesis using fill_loop_idle [OF less.prems(1,2) idle less.prems(3,4) open'] less.prems(1) grows_refl
        by (auto simp: window_filled_def)
    next
      case data
      from fill_loop_step [OF less.prems(1,2) data less.prems(3,4) open'] obtain seg1 s1 where
        step: "fill_loop w seg s = fill_loop w seg1 s1" "sn_inv S N s1" "grows [seg1] s s1"
          "\<not> syn (header seg1)" "length (bs_buff (sn_stream s1)) < length (bs_buff (sn_stream s))"
          "fin (header seg1) \<Longrightarrow> fill_loop w seg1 s1 = Some s1 \<and> window_filled w s1"
          "\<not> fin (header seg1) \<Longrightarrow> bs_eof (sn_stream s1) \<Longrightarrow> sn_bytes_in_flight s1 = unat w"
          "sn_bytes_in_flight s \<le> unat w \<Longrightarrow> sn_bytes_in_flight s1 \<le> unat w" by blast
      show ?thesis
      proof (cases "fin (header seg1)")
        case True
        then show ?thesis using step by auto
      next
        case False
        have "0 < sn_last_ackno s1" using step(3) less.prems(2) by (simp add: grows_def)
        from less.hyps [OF step(5,2) this step(4) False] step(7) [OF False] obtain s' new where
          s': "fill_loop w seg1 s1 = Some s'" "sn_inv S N s'" "grows new s1 s'" "window_filled w s'"
            "sn_bytes_in_flight s1 \<le> unat w \<longrightarrow> sn_bytes_in_flight s' \<le> unat w" by blast
        with step(1,8) grows_trans [OF step(3) s'(3)] show ?thesis by auto
      qed
    qed
  qed
qed

lemma cur_win_pos: "0 < unat (if w = 0 then 1 else w :: u16)"
  by (simp add: unat_gt_0)

lemma fill_window_spec:
  assumes inv: "sn_inv S N s"
  defines "w \<equiv> if sn_last_win s = 0 then 1 else sn_last_win s"
  shows "\<exists>s' new. fill_window s = Some s' \<and> sn_inv S N s' \<and> grows new s s' \<and>
    (sn_next_seqno s = 0 \<longrightarrow> sn_next_seqno s' = 1 \<and> (\<exists>seg. new = [seg] \<and> syn (header seg))) \<and>
    (0 < sn_last_ackno s \<longrightarrow> window_filled w s' \<and>
      (sn_bytes_in_flight s \<le> unat w \<longrightarrow> sn_bytes_in_flight s' \<le> unat w))"
proof -
  note bif = sn_bytes_in_flight_exact [OF inv]
  consider "sn_next_seqno s = 0" | "0 < sn_next_seqno s" "sn_last_ackno s = 0" | "0 < sn_last_ackno s"
    by linarith
  then show ?thesis
  proof cases
    case 1
    let ?seg = "tcp_segment_default\<lparr>header := tcp_header_default\<lparr>syn := True\<rparr>\<rparr>"
    let ?seg' = "?seg\<lparr>header := (header ?seg)\<lparr>seqno := next_seqno s\<rparr>\<rparr>"
    let ?s' = "snd (sn_send_segment s ?seg)"
    have st: "stream_part S N (sn_stream s)" "bs_bytes_r (sn_stream s) = 0"
      using inv 1 by (auto simp: sn_inv_def seq_phase_def)
    have at: "seg_at S N (sn_isn s) (sn_next_seqno s) ?seg'"
      using 1 by (simp add: seg_at_def seq_len_def next_seqno_def)
    have len: "seq_len ?seg = 1" by (simp add: seq_len_def)
    then have "seq_phase (sn_next_seqno s + seq_len ?seg) (sn_stream s)"
      using 1 st(2) by (simp add: seq_phase_def)
    from send_segment_inv [OF inv st(1) this _ _ _ _ at]
    have "sn_inv S N ?s'" "grows [?seg'] s ?s'" "sn_next_seqno ?s' = 1"
      using 1 len by simp_all
    moreover have "fill_window s = Some ?s'"
      using 1 by (simp add: fill_window_def next_seqno_absolute_def Let_def)
    moreover have "sn_last_ackno s = 0" using 1 inv by (simp add: sn_inv_def)
    ultimately show ?thesis by auto
  next
    case 2
    then have "fill_window s = Some s" using bif by (simp add: fill_window_def next_seqno_absolute_def)
    then show ?thesis using inv grows_refl 2 by auto
  next
    case 3
    then have "sn_next_seqno s \<noteq> 0" "sn_next_seqno s \<noteq> sn_bytes_in_flight s"
      using inv bif by (auto simp: sn_inv_def)
    then have "fill_window s = fill_loop w tcp_segment_default s"
      by (simp add: fill_window_def next_seqno_absolute_def w_def Let_def)
    then show ?thesis
      using fill_loop_spec [OF inv 3, of tcp_segment_default w] \<open>sn_next_seqno s \<noteq> 0\<close> by auto
  qed
qed

lemma fill_window_idle:
  assumes inv: "sn_inv S N s" and last: "0 < sn_last_ackno s"
    and idle: "bs_buff (sn_stream s) = []" "\<not> bs_end_input (sn_stream s)"
  shows "fill_window s = Some s"
proof -
  let ?w = "if sn_last_win s = 0 then 1 else sn_last_win s"
  have "sn_next_seqno s \<noteq> 0" "sn_next_seqno s \<noteq> sn_bytes_in_flight s"
    using inv last sn_bytes_in_flight_exact [OF inv] by (auto simp: sn_inv_def)
  then have "fill_window s = fill_loop ?w tcp_segment_default s"
    by (simp add: fill_window_def next_seqno_absolute_def Let_def)
  also have "\<dots> = Some s"
    using fill_loop_idle [OF inv last idle, of tcp_segment_default ?w] fill_loop_full [of s ?w] by (cases "sn_bytes_in_flight s = unat ?w") simp_all
  finally show ?thesis .
qed

section \<open>Acknowledgments\<close>

lemma raw_wrap: "unat (raw_value (wrap n isn)) = (unat (raw_value isn) + n) mod SEQ_MOD"
  by (simp add: wrap_def unat_word_ariths unat_of_nat SEQ_MOD_def mod_simps)

text \<open>
  A segment that starts at or below the acknowledged number and passes the test is fully acknowledged:
  wrapping around can only make the test fail.
\<close>

lemma seg_acked_sound:
  assumes "seg_at S N isn a seg" and "a \<le> m" and "seg_acked (wrap m isn) seg"
  shows "a + seq_len seg \<le> m"
proof -
  obtain j where m: "m = a + j" using assms(2) le_Suc_ex by blast
  define r where "r = (unat (raw_value isn) + a) mod SEQ_MOD"
  have r: "unat (raw_value (seqno (header seg))) = r"
    using assms(1) by (simp add: seg_at_def raw_wrap r_def)
  have "seq_len seg \<le> MAX_PAYLOAD_SIZE + 2" using assms(1) by (simp add: seg_at_def seq_len_def)
  moreover have "r < SEQ_MOD" by (simp add: r_def)
  ultimately have "sz_add r (seq_len seg) = r + seq_len seg"
    by (intro sz_add_exact) (simp add: SEQ_MOD_def SIZE_MOD_def MAX_PAYLOAD_SIZE_def)
  then have "r + seq_len seg \<le> unat (raw_value (wrap m isn))"
    using assms(3) seg_at_len [OF assms(1)] r by (simp add: seg_acked_def)
  also have "\<dots> = (r + j) mod SEQ_MOD"
    by (simp add: m raw_wrap r_def mod_simps add.assoc)
  also have "\<dots> \<le> r + j" by simp
  finally show ?thesis by (simp add: m)
qed

lemma pop_acked_run:
  "seg_run S N isn a segs b \<Longrightarrow> a \<le> m \<Longrightarrow> \<exists>a' \<le> m. seg_run S N isn a' (pop_acked (wrap m isn) segs) b"
proof (induction segs arbitrary: a)
  case (Cons seg segs)
  show ?case
  proof (cases "seg_acked (wrap m isn) seg")
    case True
    with Cons.prems seg_acked_sound [of S N isn a seg m] have "a + seq_len seg \<le> m" by simp
    with Cons.IH [of "a + seq_len seg"] Cons.prems True show ?thesis by auto
  next
    case False
    with Cons.prems show ?thesis by auto
  qed
qed auto

text \<open>The acknowledgment step up to the call of \<open>fill_window\<close>.\<close>

definition ack_accept :: "tcp_sender \<Rightarrow> wrapping_int32 \<Rightarrow> u16 \<Rightarrow> tcp_sender" where
  "ack_accept s ack_no window_size =
     (let abs_ack = unwrap ack_no (sn_isn s) (sn_last_ackno s); segs = pop_acked ack_no (sn_outstanding_seg s)
      in if abs_ack > sn_last_ackno s then
           s\<lparr>sn_last_ackno := abs_ack, sn_outstanding_seg := segs, sn_retransmission_count := 0,
             sn_RTO := sn_initial_retransmission_timeout s,
             sn_timer := (if segs \<noteq> [] then timer_start (sn_timer s) (sn_initial_retransmission_timeout s)
                          else timer_stop (sn_timer s)),
             sn_last_win := window_size\<rparr>
         else s\<lparr>sn_last_win := window_size\<rparr>)"

lemma sn_ack_received_eq:
  "sn_ack_received s ack_no window_size =
     (if unwrap ack_no (sn_isn s) (sn_last_ackno s) > sn_next_seqno s then Some s
      else fill_window (ack_accept s ack_no window_size))"
  by (simp add: sn_ack_received_def ack_accept_def Let_def)

lemma ack_accept_inv:
  assumes inv: "sn_inv S N s" and le: "unwrap ack_no (sn_isn s) (sn_last_ackno s) \<le> sn_next_seqno s"
  shows "sn_inv S N (ack_accept s ack_no w)"
proof (cases "unwrap ack_no (sn_isn s) (sn_last_ackno s) > sn_last_ackno s")
  case True
  let ?m = "unwrap ack_no (sn_isn s) (sn_last_ackno s)"
  obtain a where "a \<le> sn_last_ackno s" "seg_run S N (sn_isn s) a (sn_outstanding_seg s) (sn_next_seqno s)"
    using inv by (auto simp: sn_inv_def)
  with pop_acked_run [of S N "sn_isn s" a _ _ ?m] True
  have "\<exists>a \<le> ?m. seg_run S N (sn_isn s) a (pop_acked ack_no (sn_outstanding_seg s)) (sn_next_seqno s)" by auto
  with inv le True show ?thesis
    by (simp add: sn_inv_def ack_accept_def Let_def is_start_def timer_start_def timer_stop_def)
next
  case False
  with inv show ?thesis by (simp add: sn_inv_def ack_accept_def Let_def)
qed

text \<open>What the loop removes is a run of fully acknowledged segments.\<close>

lemma pop_acked_split:
  "seg_run S N isn a segs b \<Longrightarrow> a \<le> m \<Longrightarrow>
   \<exists>acked e. segs = acked @ pop_acked (wrap m isn) segs \<and> e \<le> m \<and> seg_run S N isn a acked e"
proof (induction segs arbitrary: a)
  case (Cons seg segs)
  show ?case
  proof (cases "seg_acked (wrap m isn) seg")
    case True
    with Cons.prems seg_acked_sound [of S N isn a seg m] have "a + seq_len seg \<le> m" by simp
    with Cons.IH [of "a + seq_len seg"] Cons.prems obtain acked e where
      "segs = acked @ pop_acked (wrap m isn) segs" "e \<le> m" "seg_run S N isn (a + seq_len seg) acked e" by auto
    with True Cons.prems show ?thesis by (intro exI [of _ "seg # acked"] exI [of _ e]) simp
  next
    case False
    with Cons.prems show ?thesis by (intro exI [of _ "[]"] exI [of _ a]) simp
  qed
qed auto

lemma pop_acked_subset: "set (pop_acked k segs) \<subseteq> set segs"
  by (induction segs) auto

text \<open>Without wrap-around the loop removes all that is acknowledged.\<close>

lemma pop_acked_complete:
  "seg_run S N isn a segs b \<Longrightarrow> m \<le> b \<Longrightarrow> unat (raw_value isn) + b < SEQ_MOD \<Longrightarrow>
   \<forall>seg \<in> set (pop_acked (wrap m isn) segs). \<exists>c. seg_at S N isn c seg \<and> m < c + seq_len seg"
proof (induction segs arbitrary: a)
  case (Cons seg segs)
  have run: "seg_at S N isn a seg" "seg_run S N isn (a + seq_len seg) segs b" and ab: "a + seq_len seg \<le> b"
    using Cons.prems(1) seg_run_le by auto
  show ?case
  proof (cases "seg_acked (wrap m isn) seg")
    case True
    then show ?thesis using Cons.IH [OF run(2) Cons.prems(2,3)] by simp
  next
    case False
    have "unat (raw_value (seqno (header seg))) = unat (raw_value isn) + a"
      using run(1) ab Cons.prems(3) by (simp add: seg_at_def raw_wrap)
    moreover have "unat (raw_value (wrap m isn)) = unat (raw_value isn) + m"
      using Cons.prems(2,3) by (simp add: raw_wrap)
    moreover have "unat (raw_value isn) + a + seq_len seg < SIZE_MOD"
      using ab Cons.prems(3) by (simp add: SEQ_MOD_def SIZE_MOD_def)
    ultimately have gt: "m < a + seq_len seg"
      using False seg_at_len [OF run(1)] by (simp add: seg_acked_def sz_add_exact)
    have "\<exists>c. seg_at S N isn c x \<and> m < c + seq_len x" if "x \<in> set segs" for x
      using seg_run_mem [OF run(2) that] gt by (meson le_add1 less_le_trans)
    with run(1) gt False show ?thesis by auto
  qed
qed simp

lemma ack_accept_splits:
  assumes inv: "sn_inv S N s"
  shows "\<exists>acked. sn_outstanding_seg s = acked @ sn_outstanding_seg (ack_accept s ack_no w) \<and>
    (acked = [] \<or> (\<exists>a e. a \<le> sn_last_ackno s \<and> e \<le> unwrap ack_no (sn_isn s) (sn_last_ackno s) \<and>
       seg_run S N (sn_isn s) a acked e))"
proof (cases "unwrap ack_no (sn_isn s) (sn_last_ackno s) > sn_last_ackno s")
  case True
  let ?m = "unwrap ack_no (sn_isn s) (sn_last_ackno s)"
  obtain a where a: "a \<le> sn_last_ackno s" "seg_run S N (sn_isn s) a (sn_outstanding_seg s) (sn_next_seqno s)"
    using inv by (auto simp: sn_inv_def)
  with pop_acked_split [OF a(2), of ?m] True obtain acked e where
    "sn_outstanding_seg s = acked @ pop_acked ack_no (sn_outstanding_seg s)" "e \<le> ?m"
    "seg_run S N (sn_isn s) a acked e" by auto
  with a(1) True show ?thesis by (auto simp: ack_accept_def Let_def)
next
  case False
  then show ?thesis by (simp add: ack_accept_def Let_def)
qed

lemma sn_ack_received_spec:
  assumes inv: "sn_inv S N s"
  shows "\<exists>s'. sn_ack_received s ack_no w = Some s' \<and> sn_inv S N s' \<and>
    sn_isn s' = sn_isn s \<and> sn_last_ackno s \<le> sn_last_ackno s' \<and> sn_next_seqno s \<le> sn_next_seqno s' \<and>
    bs_bytes_w (sn_stream s') = bs_bytes_w (sn_stream s) \<and> bs_error (sn_stream s') = bs_error (sn_stream s) \<and>
    bs_end_input (sn_stream s') = bs_end_input (sn_stream s)"
proof (cases "unwrap ack_no (sn_isn s) (sn_last_ackno s) > sn_next_seqno s")
  case True
  then show ?thesis using inv by (simp add: sn_ack_received_eq)
next
  case False
  let ?s1 = "ack_accept s ack_no w"
  from ack_accept_inv [OF inv] False have "sn_inv S N ?s1" by simp
  from fill_window_spec [OF this] obtain s' new where "fill_window ?s1 = Some s'" "sn_inv S N s'" "grows new ?s1 s'"
    by blast
  moreover have "sn_isn ?s1 = sn_isn s" "sn_last_ackno s \<le> sn_last_ackno ?s1" "sn_next_seqno ?s1 = sn_next_seqno s"
    "sn_stream ?s1 = sn_stream s" by (simp_all add: ack_accept_def Let_def)
  ultimately show ?thesis using False by (auto simp: sn_ack_received_eq grows_def)
qed

section \<open>Time\<close>

lemma sn_tick_cases:
  "sn_tick s ms =
     (if sn_outstanding_seg s = [] then s\<lparr>sn_timer := timer_stop (sn_timer s)\<rparr>
      else if is_start (sn_timer s) \<and> (tm_expired (sn_timer s) \<or> unat (tm_remaining (sn_timer s)) \<le> ms) then
        s\<lparr>sn_segments_out := sn_segments_out s @ [hd (sn_outstanding_seg s)],
          sn_retransmission_count := sn_retransmission_count s + (if sn_last_win s > 0 then 1 else 0),
          sn_RTO := (if sn_last_win s > 0 then sn_RTO s * 2 else sn_RTO s),
          sn_timer := timer_start (sn_timer s) (if sn_last_win s > 0 then sn_RTO s * 2 else sn_RTO s)\<rparr>
      else s\<lparr>sn_timer := timer_tick (sn_timer s) ms\<rparr>)"
  by (cases "sn_outstanding_seg s = []"; cases "0 < sn_last_win s"; cases "tm_started (sn_timer s)";
      cases "tm_expired (sn_timer s)"; cases "unat (tm_remaining (sn_timer s)) \<le> ms")
    (simp_all add: sn_tick_def Let_def timer_tick_def timer_start_def timer_stop_def is_start_def is_expired_def)

lemma sn_tick_inv:
  assumes inv: "sn_inv S N s"
  shows "sn_inv S N (sn_tick s ms)"
proof (cases "sn_outstanding_seg s")
  case Nil
  with inv show ?thesis by (simp add: sn_tick_cases sn_inv_def timer_stop_def)
next
  case (Cons seg segs)
  then have "sent_seg S N (sn_isn s) (sn_next_seqno s) seg"
    using inv seg_run_le by (fastforce simp: sn_inv_def sent_seg_def)
  moreover have "is_start (timer_tick t ms) = is_start t" "is_start (timer_start t x)" for t x
    by (simp_all add: timer_tick_def is_start_def timer_start_def)
  moreover have "\<not> tm_expired (timer_start t x)"
    "\<not> tm_expired t \<Longrightarrow> ms < unat (tm_remaining t) \<Longrightarrow> \<not> tm_expired (timer_tick t ms)" for t x
    by (simp_all add: timer_tick_def timer_start_def)
  ultimately show ?thesis using inv Cons by (auto simp: sn_tick_cases sn_inv_def)
qed

lemma send_empty_segment_inv: "sn_inv S N s \<Longrightarrow> sn_inv S N (send_empty_segment s)"
  by (auto simp: send_empty_segment_def sn_inv_def sent_seg_def bare_def Let_def)

lemma sn_new_inv:
  "cap + 2 < SIZE_MOD \<Longrightarrow> sn_inv S N (sn_new rnd cap rto isn)"
  by (simp add: sn_new_def sn_inv_def stream_part_def seq_phase_def timer_default_def) (simp add: bs_new_def)

section \<open>The machine of the sender\<close>

text \<open>
  The calls that drive a sender: the application writes and ends its stream, the connection fills the
  window, passes on acknowledgments and time, asks for an empty segment, takes a segment from the
  output queue and marks the stream as failed.
\<close>

datatype sn_call = SnWrite bytes | SnEndInput | SnFill | SnAck wrapping_int32 u16 | SnTick size_t
  | SnEmpty | SnPop | SnSetError

fun sn_step :: "tcp_sender \<Rightarrow> sn_call \<Rightarrow> tcp_sender option" where
  "sn_step s (SnWrite d) = Some (s\<lparr>sn_stream := snd (bs_write (sn_stream s) d)\<rparr>)"
| "sn_step s SnEndInput = Some (s\<lparr>sn_stream := end_input (sn_stream s)\<rparr>)"
| "sn_step s SnFill = fill_window s"
| "sn_step s (SnAck a w) = sn_ack_received s a w"
| "sn_step s (SnTick ms) = Some (sn_tick s ms)"
| "sn_step s SnEmpty = Some (send_empty_segment s)"
| "sn_step s SnPop = Some (s\<lparr>sn_segments_out := tl (sn_segments_out s)\<rparr>)"
| "sn_step s SnSetError = Some (s\<lparr>sn_stream := set_error (sn_stream s)\<rparr>)"

text \<open>The application writes the stream \<open>S\<close> in order and ends it after its last byte.\<close>

fun sn_ok :: "(nat \<Rightarrow> byte) \<Rightarrow> nat \<Rightarrow> tcp_sender \<Rightarrow> sn_call \<Rightarrow> bool" where
  "sn_ok S N s (SnWrite d) =
     (bs_bytes_w (sn_stream s) + length d + 2 < SIZE_MOD \<and> bs_bytes_w (sn_stream s) + length d \<le> N \<and>
      d = map S [bs_bytes_w (sn_stream s)..<bs_bytes_w (sn_stream s) + length d])"
| "sn_ok S N s SnEndInput = (bs_bytes_w (sn_stream s) = N)"
| "sn_ok S N s _ = True"

lemma set_tl_mem: "x \<in> set (tl xs) \<Longrightarrow> x \<in> set xs"
  by (cases xs) auto

lemma stream_part_write:
  assumes st: "stream_part S N st" and "bs_bytes_w st + length d + 2 < SIZE_MOD" and "bs_bytes_w st + length d \<le> N"
    and d: "d = map S [bs_bytes_w st..<bs_bytes_w st + length d]"
  shows "stream_part S N (snd (bs_write st d))" and "bs_bytes_r (snd (bs_write st d)) = bs_bytes_r st"
    and "bs_eof st \<Longrightarrow> snd (bs_write st d) = st"
proof -
  let ?n = "min (length d) (remaining_capacity st)"
  have w: "bs_bytes_w st = bs_bytes_r st + length (bs_buff st)" by (rule stream_part_written [OF st])
  have "take ?n d = map S [bs_bytes_w st..<bs_bytes_w st + ?n]"
    by (subst d) (simp add: take_map)
  moreover have "bs_buff st = map S [bs_bytes_r st..<bs_bytes_w st]"
    using st w by (simp add: stream_part_def)
  ultimately have "bs_buff st @ take ?n d = map S [bs_bytes_r st..<bs_bytes_w st] @ map S [bs_bytes_w st..<bs_bytes_w st + ?n]"
    by simp
  then have buff: "bs_buff st @ take ?n d = map S [bs_bytes_r st..<bs_bytes_w st + ?n]"
    using w by (simp add: upt_split flip: map_append)
  show "stream_part S N (snd (bs_write st d))"
  proof (cases "bs_end_input st")
    case False
    have "bs_inv (snd (bs_write st d))" using st bs_inv_write by (simp add: stream_part_def)
    moreover have "bs_bytes_r st + length (bs_buff st @ take ?n d) = bs_bytes_w st + ?n" by (simp add: w)
    moreover have "bs_bytes_w st + ?n + 2 < SIZE_MOD" "bs_bytes_w st + ?n \<le> N" using assms(2,3) by linarith+
    ultimately show ?thesis
      using False buff assms(2,3) unfolding stream_part_def bs_write_eq by (simp add: Let_def)
  qed (use st in \<open>simp add: bs_write_eq\<close>)
  show "bs_bytes_r (snd (bs_write st d)) = bs_bytes_r st" by (simp add: bs_write_eq Let_def)
  show "bs_eof st \<Longrightarrow> snd (bs_write st d) = st" by (simp add: bs_write_eq bs_accessor_defs)
qed

lemma stream_part_end_input:
  assumes "stream_part S N st" and "bs_bytes_w st = N"
  shows "stream_part S N (end_input st)"
proof -
  have "bs_inv (end_input st)" using assms(1) by (simp add: stream_part_def)
  moreover have "bs_bytes_r st + length (bs_buff st) = N" using stream_part_written [OF assms(1)] assms(2) by simp
  ultimately show ?thesis using assms(1) unfolding stream_part_def by (simp add: end_input_def)
qed

lemma seq_phase_end_input: "seq_phase n st \<Longrightarrow> seq_phase n (end_input st)"
  by (auto simp: seq_phase_def end_input_def bs_accessor_defs)

lemma seq_phase_set_error: "seq_phase n (set_error st) = seq_phase n st"
  by (simp add: seq_phase_def set_error_def bs_accessor_defs)

lemma stream_part_set_error: "stream_part S N (set_error st) = stream_part S N st"
  unfolding stream_part_def bs_inv_set_error by (simp add: set_error_def)

lemma sn_step_write:
  assumes inv: "sn_inv S N s" and ok: "sn_ok S N s (SnWrite d)"
  shows "sn_inv S N (s\<lparr>sn_stream := snd (bs_write (sn_stream s) d)\<rparr>)"
proof -
  note w = stream_part_write [of S N "sn_stream s" d]
  have "stream_part S N (snd (bs_write (sn_stream s) d))"
    using inv ok by (intro w) (auto simp: sn_inv_def)
  moreover have "seq_phase (sn_next_seqno s) (snd (bs_write (sn_stream s) d))"
    using inv ok w(2,3) by (auto simp: sn_inv_def seq_phase_def)
  ultimately show ?thesis using inv by (simp add: sn_inv_def)
qed

lemma sn_step_total:
  assumes inv: "sn_inv S N s" and ok: "sn_ok S N s c"
  shows "\<exists>s'. sn_step s c = Some s' \<and> sn_inv S N s'"
proof (cases c)
  case (SnWrite d)
  then show ?thesis using sn_step_write [OF inv] ok by simp
next
  case SnEndInput
  then have "stream_part S N (end_input (sn_stream s))" "seq_phase (sn_next_seqno s) (end_input (sn_stream s))"
    using inv ok stream_part_end_input seq_phase_end_input by (auto simp: sn_inv_def)
  then show ?thesis using inv SnEndInput by (simp add: sn_inv_def)
next
  case SnFill
  then show ?thesis using fill_window_spec [OF inv] by auto
next
  case (SnAck a w)
  then show ?thesis using sn_ack_received_spec [OF inv, of a w] by auto
next
  case (SnTick ms)
  then show ?thesis using sn_tick_inv [OF inv] by simp
next
  case SnEmpty
  then show ?thesis using send_empty_segment_inv [OF inv] by simp
next
  case SnPop
  then show ?thesis using inv by (auto simp: sn_inv_def dest!: set_tl_mem)
next
  case SnSetError
  then show ?thesis using inv by (simp add: sn_inv_def stream_part_set_error seq_phase_set_error)
qed

interpretation snm: invariant_machine sn_step "sn_ok S N" "sn_inv S N" for S N
  by unfold_locales (rule sn_step_total)

section \<open>Timing of retransmissions\<close>

lemma sn_tick_quiet:
  assumes "sn_outstanding_seg s \<noteq> []" and "is_start (sn_timer s)" and "\<not> tm_expired (sn_timer s)"
    and "m < unat (tm_remaining (sn_timer s))"
  shows "sn_tick s m = s\<lparr>sn_timer := (sn_timer s)\<lparr>tm_remaining := tm_remaining (sn_timer s) - of_nat m\<rparr>\<rparr>"
    and "unat (tm_remaining (sn_timer s) - of_nat m) = unat (tm_remaining (sn_timer s)) - m"
proof -
  show "sn_tick s m = s\<lparr>sn_timer := (sn_timer s)\<lparr>tm_remaining := tm_remaining (sn_timer s) - of_nat m\<rparr>\<rparr>"
    using assms by (simp add: sn_tick_cases timer_tick_def)
  have "m < 2 ^ LENGTH(32)"
    using assms(4) unsigned_less [of "tm_remaining (sn_timer s)", where ?'a = nat] by linarith
  then have "unat (of_nat m :: u32) = m" by (simp add: unat_of_nat)
  then show "unat (tm_remaining (sn_timer s) - of_nat m) = unat (tm_remaining (sn_timer s)) - m"
    using assms(4) by (simp add: unat_sub_if')
qed

lemma sn_ticks_quiet:
  assumes "sn_outstanding_seg s \<noteq> []" and "is_start (sn_timer s)" and "\<not> tm_expired (sn_timer s)"
    and "sum_list ms < unat (tm_remaining (sn_timer s))"
  shows "\<exists>rem. fold (\<lambda>m s. sn_tick s m) ms s = s\<lparr>sn_timer := (sn_timer s)\<lparr>tm_remaining := rem\<rparr>\<rparr> \<and>
    unat rem = unat (tm_remaining (sn_timer s)) - sum_list ms"
  using assms
proof (induction ms arbitrary: s)
  case (Cons m ms)
  note q = sn_tick_quiet [of s m]
  let ?s1 = "sn_tick s m"
  have s1: "?s1 = s\<lparr>sn_timer := (sn_timer s)\<lparr>tm_remaining := tm_remaining (sn_timer s) - of_nat m\<rparr>\<rparr>"
    "unat (tm_remaining (sn_timer ?s1)) = unat (tm_remaining (sn_timer s)) - m"
    using q Cons.prems by auto
  with Cons.IH [of ?s1] Cons.prems show ?case by (auto simp: is_start_def)
next
  case Nil
  then show ?case by (intro exI [of _ "tm_remaining (sn_timer s)"]) simp
qed

text \<open>The effect of an expiry.\<close>

lemma sn_tick_expiry:
  assumes "sn_outstanding_seg s \<noteq> []" and "is_start (sn_timer s)" and "unat (tm_remaining (sn_timer s)) \<le> m"
  shows "sn_segments_out (sn_tick s m) = sn_segments_out s @ [hd (sn_outstanding_seg s)]"
    and "sn_outstanding_seg (sn_tick s m) = sn_outstanding_seg s"
    and "sn_RTO (sn_tick s m) = (if sn_last_win s > 0 then sn_RTO s * 2 else sn_RTO s)"
    and "sn_retransmission_count (sn_tick s m) = sn_retransmission_count s + (if sn_last_win s > 0 then 1 else 0)"
    and "sn_timer (sn_tick s m) = timer_start (sn_timer s) (sn_RTO (sn_tick s m))"
    and "sn_last_win (sn_tick s m) = sn_last_win s"
  using assms by (simp_all add: sn_tick_cases)

section \<open>Properties\<close>

text \<open>
  C13: Every run of a sender returns from every call, whatever acknowledgments and times it is given.
  The sender then has numbered the SYN, the bytes it took from the stream and the FIN without gap,
  the outstanding segments cover everything that is not acknowledged, in order and with the bytes of
  the stream, and while anything is in flight a segment is outstanding and the timer runs.
\<close>

theorem sender_run_covers_unacknowledged:
  assumes "cap + 2 < SIZE_MOD" and "run_admissible sn_step (sn_ok S N) (sn_new rnd cap rto isn) calls"
  shows "\<exists>s. run_steps sn_step (sn_new rnd cap rto isn) calls = Some s \<and>
    sn_last_ackno s \<le> sn_next_seqno s \<and> sn_next_seqno s \<le> bs_bytes_w (sn_stream s) + 2 \<and>
    sn_bytes_in_flight s = sn_next_seqno s - sn_last_ackno s \<and>
    (\<exists>a \<le> sn_last_ackno s. seg_run S N (sn_isn s) a (sn_outstanding_seg s) (sn_next_seqno s)) \<and>
    (0 < sn_bytes_in_flight s \<longrightarrow> sn_outstanding_seg s \<noteq> [] \<and> is_start (sn_timer s))"
proof -
  from snm.run_total [OF sn_new_inv [OF assms(1)] assms(2)] obtain s where
    s: "run_steps sn_step (sn_new rnd cap rto isn) calls = Some s" "sn_inv S N s" by blast
  have "sn_next_seqno s \<le> bs_bytes_w (sn_stream s) + 2"
    using s(2) stream_part_written [of S N "sn_stream s"] by (auto simp: sn_inv_def seq_phase_def)
  moreover have "sn_outstanding_seg s \<noteq> []" if "sn_last_ackno s < sn_next_seqno s"
    using s(2) that by (auto simp: sn_inv_def)
  ultimately show ?thesis
    using s sn_bytes_in_flight_exact [OF s(2)] by (auto simp: sn_inv_def)
qed

theorem sender_run_covers_unacknowledged_witness:
  "\<exists>s. run_steps sn_step (sn_new 0 64000 1000 None) [SnWrite [1, 2], SnFill, SnEndInput, SnTick 1000] = Some s \<and>
     sn_last_ackno s \<le> sn_next_seqno s"
proof -
  let ?S = "\<lambda>i. of_nat (Suc i) :: byte"
  have "run_admissible sn_step (sn_ok ?S 2) (sn_new 0 64000 1000 None)
      [SnWrite [1, 2], SnFill, SnEndInput, SnTick 1000]"
    by (simp add: sn_new_def bs_new_def bs_write_eq remaining_capacity_def SIZE_MOD_def sz_add_def sz_sub_def
        fill_window_def next_seqno_absolute_def sn_send_segment_def Let_def)
  from sender_run_covers_unacknowledged [OF _ this] show ?thesis by (auto simp: SIZE_MOD_def)
qed

text \<open>
  C16: \<open>fill_window\<close> ends. Before the connection is open it sends the SYN and nothing else. Afterwards
  it stops only with a full window or with nothing left to send, FIN included, where a zero window
  counts as one; if what is in flight respected the window before, it does so afterwards. It only
  appends to its queues, the same segments to both, and only the next sequence number and the stream
  move.
\<close>

theorem fill_window_fills_window:
  assumes "sn_inv S N s"
  shows "\<exists>s' new. fill_window s = Some s' \<and> sn_inv S N s' \<and> grows new s s' \<and>
    (sn_next_seqno s = 0 \<longrightarrow> sn_next_seqno s' = 1 \<and> (\<exists>seg. new = [seg] \<and> syn (header seg))) \<and>
    (0 < sn_last_ackno s \<longrightarrow>
      window_filled (if sn_last_win s = 0 then 1 else sn_last_win s) s' \<and>
      (sn_bytes_in_flight s \<le> max 1 (unat (sn_last_win s)) \<longrightarrow>
       sn_bytes_in_flight s' \<le> max 1 (unat (sn_last_win s))))"
proof -
  have "unat (if sn_last_win s = 0 then 1 else sn_last_win s) = max 1 (unat (sn_last_win s))"
    using cur_win_pos [of "sn_last_win s"] by (simp add: max_def Suc_le_eq split: if_splits)
  with fill_window_spec [OF assms] show ?thesis by simp
qed

theorem fill_window_fills_window_witness:
  "\<exists>s' new. fill_window (sn_new 7 10 1000 None) = Some s' \<and> grows new (sn_new 7 10 1000 None) s' \<and>
     sn_next_seqno s' = 1"
proof -
  have "sn_inv (\<lambda>_. 0) 0 (sn_new 7 10 1000 None)" by (rule sn_new_inv) (simp add: SIZE_MOD_def)
  from fill_window_fills_window [OF this] show ?thesis by (auto simp: sn_new_def)
qed

text \<open>
  When the peer shrinks its window below what is already in flight, \<open>cur_win - bytes_in_flight()\<close>
  wraps around and the sender ignores the window: everything waiting in the stream is sent, and the
  FIN too if the stream has ended.
\<close>

theorem shrunk_window_is_overrun:
  assumes "sn_inv S N s" and "0 < sn_last_ackno s" and "max 1 (unat (sn_last_win s)) < sn_bytes_in_flight s"
  shows "\<exists>s'. fill_window s = Some s' \<and> bs_buff (sn_stream s') = [] \<and>
    (bs_end_input (sn_stream s) \<longrightarrow> sn_next_seqno s' = bs_bytes_w (sn_stream s) + 2)"
proof -
  let ?w = "if sn_last_win s = 0 then 1 else sn_last_win s"
  from fill_window_spec [OF assms(1)] assms(2) obtain s' new where
    s': "fill_window s = Some s'" "sn_inv S N s'" "grows new s s'" "window_filled ?w s'" by blast
  have "unat ?w = max 1 (unat (sn_last_win s))"
    using cur_win_pos [of "sn_last_win s"] by (simp add: max_def Suc_le_eq split: if_splits)
  moreover have "sn_bytes_in_flight s \<le> sn_bytes_in_flight s'"
    using s'(3) sn_bytes_in_flight_exact [OF assms(1)] sn_bytes_in_flight_exact [OF s'(2)] by (auto simp: grows_def)
  ultimately have "sn_bytes_in_flight s' \<noteq> unat ?w" using assms(3) by linarith
  with s' show ?thesis by (auto simp: window_filled_def grows_def)
qed

definition shrunk_example :: tcp_sender where
  "shrunk_example = (sn_new 0 10 1000 None)
     \<lparr>sn_next_seqno := 3, sn_last_ackno := 1, sn_last_win := 1,
      sn_timer := \<lparr>tm_remaining = 1000, tm_expired = False, tm_started = True\<rparr>,
      sn_outstanding_seg := [tcp_segment_default
        \<lparr>header := tcp_header_default\<lparr>seqno := WrappingInt32 1\<rparr>, payload := buffer_of [1, 2]\<rparr>],
      sn_stream := (bs_new 10)\<lparr>bs_buff := [3], bs_bytes_r := 2, bs_bytes_w := 3\<rparr>\<rparr>"

lemma shrunk_example_inv: "sn_inv (\<lambda>i. of_nat (Suc i)) 3 shrunk_example"
  by (simp add: shrunk_example_def sn_new_def sn_inv_def stream_part_def seq_phase_def bs_inv_def bs_new_def
      SIZE_MOD_def sz_add_def is_start_def seg_at_def seq_len_def wrap_def MAX_PAYLOAD_SIZE_def upt_rec
      exI [of _ "Suc 0"])

theorem shrunk_window_is_overrun_witness:
  "\<exists>s'. fill_window shrunk_example = Some s' \<and> bs_buff (sn_stream s') = []"
proof -
  have "sn_inv (\<lambda>i. of_nat (Suc i)) 3 shrunk_example" by (rule shrunk_example_inv)
  moreover have "0 < sn_last_ackno shrunk_example"
    "max 1 (unat (sn_last_win shrunk_example)) < sn_bytes_in_flight shrunk_example"
    by (simp_all add: shrunk_example_def sn_bytes_in_flight_def sz_sub_def SIZE_MOD_def)
  ultimately show ?thesis using shrunk_window_is_overrun by blast
qed

text \<open>
  C23: An acknowledgment of something not yet sent changes nothing, not even the window. One that
  acknowledges new data moves the acknowledged position there, resets the retransmission count and
  the timeout, takes over the window, and removes from the outstanding segments only ones that are
  acknowledged in full; an older one only takes over the window and fills it.
\<close>

theorem ack_received_keeps_unacknowledged:
  assumes inv: "sn_inv S N s" and m_def: "m = unwrap ack_no (sn_isn s) (sn_last_ackno s)"
  shows "(sn_next_seqno s < m \<longrightarrow> sn_ack_received s ack_no w = Some s) \<and>
    (m \<le> sn_next_seqno s \<longrightarrow> (\<exists>s'. sn_ack_received s ack_no w = Some s' \<and> sn_inv S N s' \<and>
       sn_last_win s' = w \<and> sn_last_ackno s' = max m (sn_last_ackno s) \<and>
       (sn_last_ackno s < m \<longrightarrow> sn_retransmission_count s' = 0 \<and> sn_RTO s' = sn_initial_retransmission_timeout s) \<and>
       (\<exists>acked kept new. sn_outstanding_seg s = acked @ kept \<and> sn_outstanding_seg s' = kept @ new \<and>
          (acked = [] \<or> (\<exists>a e. a \<le> sn_last_ackno s \<and> e \<le> m \<and> seg_run S N (sn_isn s) a acked e)))))"
proof -
  have "\<exists>s'. sn_ack_received s ack_no w = Some s' \<and> sn_inv S N s' \<and>
       sn_last_win s' = w \<and> sn_last_ackno s' = max m (sn_last_ackno s) \<and>
       (sn_last_ackno s < m \<longrightarrow> sn_retransmission_count s' = 0 \<and> sn_RTO s' = sn_initial_retransmission_timeout s) \<and>
       (\<exists>acked kept new. sn_outstanding_seg s = acked @ kept \<and> sn_outstanding_seg s' = kept @ new \<and>
          (acked = [] \<or> (\<exists>a e. a \<le> sn_last_ackno s \<and> e \<le> m \<and> seg_run S N (sn_isn s) a acked e)))"
    if le: "m \<le> sn_next_seqno s"
  proof -
    let ?s1 = "ack_accept s ack_no w"
    from fill_window_spec [OF ack_accept_inv [OF inv, of ack_no w]] le m_def obtain s' new where
      s': "fill_window ?s1 = Some s'" "sn_inv S N s'" "grows new ?s1 s'" by blast
    moreover have "sn_ack_received s ack_no w = Some s'"
      using s'(1) le by (simp add: sn_ack_received_eq m_def)
    moreover have "sn_last_win s' = w" "sn_last_ackno s' = max m (sn_last_ackno s)"
      "sn_last_ackno s < m \<longrightarrow> sn_retransmission_count s' = 0 \<and> sn_RTO s' = sn_initial_retransmission_timeout s"
      "sn_outstanding_seg s' = sn_outstanding_seg ?s1 @ new"
      using s'(3) by (simp_all add: grows_def ack_accept_def m_def Let_def)
    ultimately show ?thesis
      using ack_accept_splits [OF inv, of ack_no w] unfolding m_def by metis
  qed
  then show ?thesis by (auto simp: sn_ack_received_eq m_def)
qed

theorem ack_received_keeps_unacknowledged_witness:
  "\<exists>s'. sn_ack_received (sn_new 7 10 1000 None) (WrappingInt32 7) 5 = Some s' \<and> sn_last_win s' = 5"
proof -
  let ?s = "sn_new 7 10 1000 None"
  have inv: "sn_inv (\<lambda>_. 0) 0 ?s" by (rule sn_new_inv) (simp add: SIZE_MOD_def)
  have "unwrap (WrappingInt32 7) (sn_isn ?s) (sn_last_ackno ?s) = 0"
    by (simp add: sn_new_def unwrap_def wi_diff_def sz_add_def)
  then show ?thesis
    using ack_received_keeps_unacknowledged [OF inv refl, of "WrappingInt32 7" 5] by auto
qed

text \<open>
  C24: As long as the sequence numbers have not wrapped around, the removal is complete: of the
  segments that were outstanding, only those remain that end beyond the acknowledged position; any
  others in the queue have just been sent.
\<close>

theorem ack_received_removes_acknowledged:
  assumes inv: "sn_inv S N s" and nowrap: "unat (raw_value (sn_isn s)) + sn_next_seqno s < SEQ_MOD"
    and m: "m = unwrap ack_no (sn_isn s) (sn_last_ackno s)" "sn_last_ackno s < m" "m \<le> sn_next_seqno s"
  shows "\<exists>s' kept new. sn_ack_received s ack_no w = Some s' \<and>
    sn_outstanding_seg s' = kept @ new \<and> sn_segments_out s' = sn_segments_out s @ new \<and>
    (\<forall>seg \<in> set kept. seg \<in> set (sn_outstanding_seg s) \<and>
       (\<exists>a. seg_at S N (sn_isn s) a seg \<and> m < a + seq_len seg))"
proof -
  let ?s1 = "ack_accept s ack_no w" and ?segs = "pop_acked ack_no (sn_outstanding_seg s)"
  have s1: "sn_outstanding_seg ?s1 = ?segs" "sn_segments_out ?s1 = sn_segments_out s"
    and ack: "ack_no = wrap m (sn_isn s)"
    using m by (simp_all add: ack_accept_def Let_def)
  obtain a where "seg_run S N (sn_isn s) a (sn_outstanding_seg s) (sn_next_seqno s)"
    using inv by (auto simp: sn_inv_def)
  from pop_acked_complete [OF this m(3) nowrap]
  have kept: "\<forall>seg \<in> set ?segs. \<exists>b. seg_at S N (sn_isn s) b seg \<and> m < b + seq_len seg"
    unfolding ack [symmetric] .
  from fill_window_spec [OF ack_accept_inv [OF inv, of ack_no w]] m obtain s' new where
    "fill_window ?s1 = Some s'" "grows new ?s1 s'" by auto
  moreover have "set ?segs \<subseteq> set (sn_outstanding_seg s)" by (rule pop_acked_subset)
  ultimately show ?thesis
    using kept s1 m by (intro exI [of _ s'] exI [of _ ?segs] exI [of _ new])
      (auto simp: sn_ack_received_eq grows_def)
qed

theorem ack_received_removes_acknowledged_witness:
  "\<exists>s' kept new. sn_ack_received shrunk_example (WrappingInt32 3) 10 = Some s' \<and>
     sn_outstanding_seg s' = kept @ new \<and> sn_segments_out s' = new"
proof -
  have inv: "sn_inv (\<lambda>i. of_nat (Suc i)) 3 shrunk_example" by (rule shrunk_example_inv)
  have "unat (raw_value (sn_isn shrunk_example)) + sn_next_seqno shrunk_example < SEQ_MOD"
    and "3 = unwrap (WrappingInt32 3) (sn_isn shrunk_example) (sn_last_ackno shrunk_example)"
    and "sn_last_ackno shrunk_example < 3" "3 \<le> sn_next_seqno shrunk_example"
    and "sn_segments_out shrunk_example = []"
    by (simp_all add: shrunk_example_def sn_new_def SEQ_MOD_def unwrap_def wi_diff_def wrap_def sz_add_def SIZE_MOD_def)
  with ack_received_removes_acknowledged [OF inv this(1-4), of 10] show ?thesis by auto
qed

text \<open>
  Across the wrap-around the test of the removal loop fails for segments that are acknowledged:
  with the initial sequence number \<open>2\<^sup>3\<^sup>2 - 1\<close>, the acknowledgment of the SYN leaves nothing in flight and
  yet keeps the SYN outstanding with a running timer, so that it will be sent again.
\<close>

theorem acknowledged_syn_stays_outstanding:
  "\<exists>s s' seg. fill_window (sn_new r DEFAULT_CAPACITY rto (Some (WrappingInt32 4294967295))) = Some s \<and>
     sn_ack_received s (WrappingInt32 0) w = Some s' \<and> sn_bytes_in_flight s' = 0 \<and>
     sn_outstanding_seg s' = [seg] \<and> syn (header seg) \<and> is_start (sn_timer s')"
proof -
  let ?s0 = "sn_new r DEFAULT_CAPACITY rto (Some (WrappingInt32 4294967295))"
  let ?seg = "tcp_segment_default\<lparr>header := tcp_header_default\<lparr>syn := True, seqno := WrappingInt32 4294967295\<rparr>\<rparr>"
  let ?s1 = "\<lambda>s. ack_accept s (WrappingInt32 0) w"
  obtain s where s: "fill_window ?s0 = Some s" "sn_isn s = WrappingInt32 4294967295" "sn_last_ackno s = 0"
    "sn_next_seqno s = 1" "sn_outstanding_seg s = [?seg]" "sn_stream s = bs_new DEFAULT_CAPACITY"
    by (simp add: fill_window_def sn_new_def next_seqno_absolute_def sn_send_segment_def Let_def next_seqno_def
        length_in_sequence_space_def sz_add_def SIZE_MOD_def)
  have m: "unwrap (WrappingInt32 0) (WrappingInt32 4294967295) 0 = 1"
    by (simp add: unwrap_def wi_diff_def sz_add_def SIZE_MOD_def wrap_def)
  have "\<not> seg_acked (WrappingInt32 0) ?seg"
    by (simp add: seg_acked_def length_in_sequence_space_def sz_add_def SIZE_MOD_def)
  with s m have ack: "sn_ack_received s (WrappingInt32 0) w = fill_window (?s1 s)"
    and u: "sn_outstanding_seg (?s1 s) = [?seg]" "is_start (sn_timer (?s1 s))" "sn_last_ackno (?s1 s) = 1"
      "sn_next_seqno (?s1 s) = 1" "sn_stream (?s1 s) = bs_new DEFAULT_CAPACITY"
    by (simp_all add: sn_ack_received_eq ack_accept_def is_start_def timer_start_def)
  have "sn_inv (\<lambda>_. 0) 0 ?s0" by (rule sn_new_inv) (simp add: SIZE_MOD_def DEFAULT_CAPACITY_def)
  then have "sn_inv (\<lambda>_. 0) 0 s" using fill_window_spec s(1) by fastforce
  then have "sn_inv (\<lambda>_. 0) 0 (?s1 s)" using s m by (intro ack_accept_inv) simp_all
  then have "fill_window (?s1 s) = Some (?s1 s)"
    using u by (intro fill_window_idle) (simp_all add: bs_new_def)
  with ack u have "sn_ack_received s (WrappingInt32 0) w = Some (?s1 s)" by simp
  moreover have "sn_bytes_in_flight (?s1 s) = 0" using u by (simp add: sn_bytes_in_flight_def)
  moreover have "syn (header ?seg)" by simp
  ultimately show ?thesis using s(1) u by blast
qed

text \<open>
  C25: While segments are outstanding, ticks that together stay below the time left on the timer send
  nothing. The first tick that reaches it sends the oldest outstanding segment again and restarts the
  timer; the timeout doubles and the retransmission counts only if the peer's window was not zero.
\<close>

theorem retransmission_on_timeout:
  assumes "sn_inv S N s" and "sn_outstanding_seg s \<noteq> []"
    and "sum_list ms < unat (tm_remaining (sn_timer s))" and "unat (tm_remaining (sn_timer s)) \<le> sum_list ms + m"
    and "s1 = fold (\<lambda>m s. sn_tick s m) ms s" and "s2 = sn_tick s1 m"
  shows "sn_segments_out s1 = sn_segments_out s \<and> sn_RTO s1 = sn_RTO s \<and>
    sn_retransmission_count s1 = sn_retransmission_count s \<and>
    sn_segments_out s2 = sn_segments_out s @ [hd (sn_outstanding_seg s)] \<and>
    sn_outstanding_seg s2 = sn_outstanding_seg s \<and>
    sn_RTO s2 = (if sn_last_win s > 0 then sn_RTO s * 2 else sn_RTO s) \<and>
    sn_retransmission_count s2 = sn_retransmission_count s + (if sn_last_win s > 0 then 1 else 0) \<and>
    tm_remaining (sn_timer s2) = sn_RTO s2"
proof -
  have timer: "is_start (sn_timer s)" "\<not> tm_expired (sn_timer s)"
    using assms(1,2) by (auto simp: sn_inv_def)
  from sn_ticks_quiet [OF assms(2) timer assms(3)] assms(5) obtain rem where
    s1: "s1 = s\<lparr>sn_timer := (sn_timer s)\<lparr>tm_remaining := rem\<rparr>\<rparr>"
    and rem: "unat rem = unat (tm_remaining (sn_timer s)) - sum_list ms" by blast
  have "sn_outstanding_seg s1 \<noteq> []" "is_start (sn_timer s1)" "unat (tm_remaining (sn_timer s1)) \<le> m"
    using assms(2,4) timer rem by (simp_all add: s1 is_start_def)
  from sn_tick_expiry [OF this] show ?thesis
    by (simp add: assms(6) timer_start_def) (simp add: s1)
qed

theorem retransmission_on_timeout_witness:
  "sn_segments_out (sn_tick (sn_tick (sn_tick shrunk_example 400) 599) 1) =
     [hd (sn_outstanding_seg shrunk_example)]"
proof -
  have "sn_outstanding_seg shrunk_example \<noteq> []"
    "sum_list [400, 599] < unat (tm_remaining (sn_timer shrunk_example))"
    "unat (tm_remaining (sn_timer shrunk_example)) \<le> sum_list [400, 599] + 1" "sn_segments_out shrunk_example = []"
    by (simp_all add: shrunk_example_def sn_new_def)
  with retransmission_on_timeout [OF shrunk_example_inv this(1-3) refl refl] show ?thesis by simp
qed

text \<open>
  If nothing is acknowledged, \<open>k\<close> expiries in a row send the oldest segment \<open>k\<close> times and multiply
  the timeout by \<open>2\<^sup>k\<close>, as long as this fits the 32 bits of the timeout.
\<close>

theorem retransmission_backoff:
  assumes "sn_inv S N s" and "sn_outstanding_seg s \<noteq> []" and "sn_last_win s > 0"
    and "tm_remaining (sn_timer s) = sn_RTO s" and "unat (sn_RTO s) * 2 ^ k < 2 ^ 32"
  shows "sn_segments_out (((\<lambda>s. sn_tick s (unat (sn_RTO s))) ^^ k) s) =
      sn_segments_out s @ replicate k (hd (sn_outstanding_seg s)) \<and>
    unat (sn_RTO (((\<lambda>s. sn_tick s (unat (sn_RTO s))) ^^ k) s)) = unat (sn_RTO s) * 2 ^ k \<and>
    sn_retransmission_count (((\<lambda>s. sn_tick s (unat (sn_RTO s))) ^^ k) s) = sn_retransmission_count s + of_nat k"
proof -
  have timer: "is_start (sn_timer s)" using assms(1,2) by (simp add: sn_inv_def)
  show ?thesis using timer assms(2-5)
  proof (induction k arbitrary: s)
    case (Suc k)
    let ?s1 = "sn_tick s (unat (sn_RTO s))"
    note e = sn_tick_expiry [OF Suc.prems(2,1), of "unat (sn_RTO s)"]
    have small: "unat (sn_RTO s) * 2 < 2 ^ 32" and fits: "unat (sn_RTO s) * 2 * 2 ^ k < 2 ^ 32"
      using Suc.prems(5) le_less_trans [of "unat (sn_RTO s) * 2" "unat (sn_RTO s) * 2 ^ Suc k"] by auto
    have "unat (sn_RTO s * 2) = unat (sn_RTO s) * 2"
      using small by (simp add: unat_word_ariths)
    with e Suc.prems have s1: "sn_segments_out ?s1 = sn_segments_out s @ [hd (sn_outstanding_seg s)]"
      "sn_outstanding_seg ?s1 = sn_outstanding_seg s" "unat (sn_RTO ?s1) = unat (sn_RTO s) * 2"
      "sn_retransmission_count ?s1 = sn_retransmission_count s + 1" "is_start (sn_timer ?s1)"
      "sn_last_win ?s1 = sn_last_win s" "tm_remaining (sn_timer ?s1) = sn_RTO ?s1"
      by (simp_all add: timer_start_def is_start_def)
    with Suc.IH [of ?s1] Suc.prems fits show ?case
      by (simp add: funpow_swap1 [symmetric] funpow_Suc_right replicate_app_Cons_same del: funpow.simps(2))
  qed simp
qed

theorem retransmission_backoff_witness:
  "unat (sn_RTO (((\<lambda>s. sn_tick s (unat (sn_RTO s))) ^^ 9) shrunk_example)) = 512000"
proof -
  have "sn_outstanding_seg shrunk_example \<noteq> []" "sn_last_win shrunk_example > 0"
    "tm_remaining (sn_timer shrunk_example) = sn_RTO shrunk_example"
    "unat (sn_RTO shrunk_example) * 2 ^ 9 < 2 ^ 32" "unat (sn_RTO shrunk_example) = 1000"
    by (simp_all add: shrunk_example_def sn_new_def)
  with retransmission_backoff [OF shrunk_example_inv this(1-4)] show ?thesis by simp
qed

end
