(* ===== verification/TCP_State.thy ===== *)
theory TCP_State
  imports TCP_Receiver TCP_Sender
begin

text \<open>
  The state summaries of \<open>libsponge/tcp_helpers/tcp_state.hh\<close> and \<open>tcp_state.cc\<close>: the official TCP
  states, the strings that describe a sender and a receiver, and the comparison of two summaries.
\<close>

datatype official_state = LISTEN | SYN_RCVD | SYN_SENT | ESTABLISHED | CLOSE_WAIT | LAST_ACK
  | FIN_WAIT_1 | FIN_WAIT_2 | CLOSING | TIME_WAIT | CLOSED | RESET

definition RECEIVER_ERROR :: string where
  "RECEIVER_ERROR = ''error (connection was reset)''"
definition RECEIVER_LISTEN :: string where
  "RECEIVER_LISTEN = ''waiting for SYN: ackno is empty''"
definition RECEIVER_SYN_RECV :: string where
  "RECEIVER_SYN_RECV = ''SYN received (ackno exists), and input to stream hasn't ended''"
definition RECEIVER_FIN_RECV :: string where
  "RECEIVER_FIN_RECV = ''input to stream has ended''"

definition SENDER_ERROR :: string where
  "SENDER_ERROR = ''error (connection was reset)''"
definition SENDER_CLOSED :: string where
  "SENDER_CLOSED = ''waiting for stream to begin (no SYN sent)''"
definition SENDER_SYN_SENT :: string where
  "SENDER_SYN_SENT = ''stream started but nothing acknowledged''"
definition SENDER_SYN_ACKED :: string where
  "SENDER_SYN_ACKED = ''stream ongoing''"
definition SENDER_FIN_SENT :: string where
  "SENDER_FIN_SENT = ''stream finished (FIN sent) but not fully acknowledged''"
definition SENDER_FIN_ACKED :: string where
  "SENDER_FIN_ACKED = ''stream finished and fully acknowledged''"

lemmas summary_defs = RECEIVER_ERROR_def RECEIVER_LISTEN_def RECEIVER_SYN_RECV_def RECEIVER_FIN_RECV_def
  SENDER_ERROR_def SENDER_CLOSED_def SENDER_SYN_SENT_def SENDER_SYN_ACKED_def SENDER_FIN_SENT_def
  SENDER_FIN_ACKED_def

record tcp_state =
  ts_sender :: string
  ts_receiver :: string
  ts_active :: bool
  ts_linger :: bool

definition tcp_state_eq :: "tcp_state \<Rightarrow> tcp_state \<Rightarrow> bool" where
  "tcp_state_eq s t \<longleftrightarrow> ts_active s = ts_active t \<and> ts_linger s = ts_linger t \<and>
     ts_sender s = ts_sender t \<and> ts_receiver s = ts_receiver t"

definition bool_to_string :: "bool \<Rightarrow> string" where
  "bool_to_string b = (if b then ''1'' else ''0'')"

definition tcp_state_name :: "tcp_state \<Rightarrow> string" where
  "tcp_state_name s = ''sender=`'' @ ts_sender s @ ''`, receiver=`'' @ ts_receiver s @ ''`, active='' @
     bool_to_string (ts_active s) @ '', linger_after_streams_finish='' @ bool_to_string (ts_linger s)"

text \<open>The default member values of the class: active and lingering, with empty strings.\<close>

definition tcp_state_default :: tcp_state where
  "tcp_state_default = \<lparr>ts_sender = '''', ts_receiver = '''', ts_active = True, ts_linger = True\<rparr>"

fun tcp_state_of :: "official_state \<Rightarrow> tcp_state" where
  "tcp_state_of LISTEN = tcp_state_default\<lparr>ts_receiver := RECEIVER_LISTEN, ts_sender := SENDER_CLOSED\<rparr>"
| "tcp_state_of SYN_RCVD = tcp_state_default\<lparr>ts_receiver := RECEIVER_SYN_RECV, ts_sender := SENDER_SYN_SENT\<rparr>"
| "tcp_state_of SYN_SENT = tcp_state_default\<lparr>ts_receiver := RECEIVER_LISTEN, ts_sender := SENDER_SYN_SENT\<rparr>"
| "tcp_state_of ESTABLISHED = tcp_state_default\<lparr>ts_receiver := RECEIVER_SYN_RECV, ts_sender := SENDER_SYN_ACKED\<rparr>"
| "tcp_state_of CLOSE_WAIT = tcp_state_default
     \<lparr>ts_receiver := RECEIVER_FIN_RECV, ts_sender := SENDER_SYN_ACKED, ts_linger := False\<rparr>"
| "tcp_state_of LAST_ACK = tcp_state_default
     \<lparr>ts_receiver := RECEIVER_FIN_RECV, ts_sender := SENDER_FIN_SENT, ts_linger := False\<rparr>"
| "tcp_state_of CLOSING = tcp_state_default\<lparr>ts_receiver := RECEIVER_FIN_RECV, ts_sender := SENDER_FIN_SENT\<rparr>"
| "tcp_state_of FIN_WAIT_1 = tcp_state_default\<lparr>ts_receiver := RECEIVER_SYN_RECV, ts_sender := SENDER_FIN_SENT\<rparr>"
| "tcp_state_of FIN_WAIT_2 = tcp_state_default\<lparr>ts_receiver := RECEIVER_SYN_RECV, ts_sender := SENDER_FIN_ACKED\<rparr>"
| "tcp_state_of TIME_WAIT = tcp_state_default\<lparr>ts_receiver := RECEIVER_FIN_RECV, ts_sender := SENDER_FIN_ACKED\<rparr>"
| "tcp_state_of RESET = tcp_state_default
     \<lparr>ts_receiver := RECEIVER_ERROR, ts_sender := SENDER_ERROR, ts_linger := False, ts_active := False\<rparr>"
| "tcp_state_of CLOSED = tcp_state_default
     \<lparr>ts_receiver := RECEIVER_FIN_RECV, ts_sender := SENDER_FIN_ACKED, ts_linger := False, ts_active := False\<rparr>"

definition receiver_summary :: "tcp_receiver \<Rightarrow> string" where
  "receiver_summary r =
     (if bs_error (rc_stream_out r) then RECEIVER_ERROR
      else if rc_ackno r = None then RECEIVER_LISTEN
      else if input_ended (rc_stream_out r) then RECEIVER_FIN_RECV
      else RECEIVER_SYN_RECV)"

definition sender_summary :: "tcp_sender \<Rightarrow> string" where
  "sender_summary s =
     (if bs_error (sn_stream s) then SENDER_ERROR
      else if next_seqno_absolute s = 0 then SENDER_CLOSED
      else if next_seqno_absolute s = sn_bytes_in_flight s then SENDER_SYN_SENT
      else if \<not> bs_eof (sn_stream s) then SENDER_SYN_ACKED
      else if next_seqno_absolute s < sz_add (bytes_written (sn_stream s)) 2 then SENDER_SYN_ACKED
      else if sn_bytes_in_flight s \<noteq> 0 then SENDER_FIN_SENT
      else SENDER_FIN_ACKED)"

definition tcp_state_new :: "tcp_sender \<Rightarrow> tcp_receiver \<Rightarrow> bool \<Rightarrow> bool \<Rightarrow> tcp_state" where
  "tcp_state_new s r active linger =
     \<lparr>ts_sender = sender_summary s, ts_receiver = receiver_summary r, ts_active = active,
      ts_linger = (if active then linger else False)\<rparr>"

section \<open>Properties of the summaries\<close>

lemma receiver_summary_neq [simp]:
  "RECEIVER_ERROR \<noteq> RECEIVER_LISTEN" "RECEIVER_ERROR \<noteq> RECEIVER_SYN_RECV"
  "RECEIVER_ERROR \<noteq> RECEIVER_FIN_RECV" "RECEIVER_LISTEN \<noteq> RECEIVER_ERROR"
  "RECEIVER_LISTEN \<noteq> RECEIVER_SYN_RECV" "RECEIVER_LISTEN \<noteq> RECEIVER_FIN_RECV"
  "RECEIVER_SYN_RECV \<noteq> RECEIVER_ERROR" "RECEIVER_SYN_RECV \<noteq> RECEIVER_LISTEN"
  "RECEIVER_SYN_RECV \<noteq> RECEIVER_FIN_RECV" "RECEIVER_FIN_RECV \<noteq> RECEIVER_ERROR"
  "RECEIVER_FIN_RECV \<noteq> RECEIVER_LISTEN" "RECEIVER_FIN_RECV \<noteq> RECEIVER_SYN_RECV"
  by (simp_all add: summary_defs)

lemma sender_summary_neq [simp]:
  "SENDER_ERROR \<noteq> SENDER_CLOSED" "SENDER_ERROR \<noteq> SENDER_SYN_SENT"
  "SENDER_ERROR \<noteq> SENDER_SYN_ACKED" "SENDER_ERROR \<noteq> SENDER_FIN_SENT"
  "SENDER_ERROR \<noteq> SENDER_FIN_ACKED" "SENDER_CLOSED \<noteq> SENDER_ERROR"
  "SENDER_CLOSED \<noteq> SENDER_SYN_SENT" "SENDER_CLOSED \<noteq> SENDER_SYN_ACKED"
  "SENDER_CLOSED \<noteq> SENDER_FIN_SENT" "SENDER_CLOSED \<noteq> SENDER_FIN_ACKED"
  "SENDER_SYN_SENT \<noteq> SENDER_ERROR" "SENDER_SYN_SENT \<noteq> SENDER_CLOSED"
  "SENDER_SYN_SENT \<noteq> SENDER_SYN_ACKED" "SENDER_SYN_SENT \<noteq> SENDER_FIN_SENT"
  "SENDER_SYN_SENT \<noteq> SENDER_FIN_ACKED" "SENDER_SYN_ACKED \<noteq> SENDER_ERROR"
  "SENDER_SYN_ACKED \<noteq> SENDER_CLOSED" "SENDER_SYN_ACKED \<noteq> SENDER_SYN_SENT"
  "SENDER_SYN_ACKED \<noteq> SENDER_FIN_SENT" "SENDER_SYN_ACKED \<noteq> SENDER_FIN_ACKED"
  "SENDER_FIN_SENT \<noteq> SENDER_ERROR" "SENDER_FIN_SENT \<noteq> SENDER_CLOSED"
  "SENDER_FIN_SENT \<noteq> SENDER_SYN_SENT" "SENDER_FIN_SENT \<noteq> SENDER_SYN_ACKED"
  "SENDER_FIN_SENT \<noteq> SENDER_FIN_ACKED" "SENDER_FIN_ACKED \<noteq> SENDER_ERROR"
  "SENDER_FIN_ACKED \<noteq> SENDER_CLOSED" "SENDER_FIN_ACKED \<noteq> SENDER_SYN_SENT"
  "SENDER_FIN_ACKED \<noteq> SENDER_SYN_ACKED" "SENDER_FIN_ACKED \<noteq> SENDER_FIN_SENT"
  by (simp_all add: summary_defs)

lemma tcp_state_eq_iff [simp]: "tcp_state_eq s t \<longleftrightarrow> s = t"
  by (cases s; cases t) (auto simp: tcp_state_eq_def)

lemma receiver_summary_SYN_RECV:
  "receiver_summary r = RECEIVER_SYN_RECV \<longleftrightarrow>
     \<not> bs_error (rc_stream_out r) \<and> rc_syn r \<and> \<not> input_ended (rc_stream_out r)"
  by (simp add: receiver_summary_def)

lemma receiver_summary_FIN_RECV:
  "receiver_summary r = RECEIVER_FIN_RECV \<longleftrightarrow>
     \<not> bs_error (rc_stream_out r) \<and> rc_syn r \<and> input_ended (rc_stream_out r)"
  by (simp add: receiver_summary_def)

lemma sender_summary_CLOSED:
  "sender_summary s = SENDER_CLOSED \<longleftrightarrow> \<not> bs_error (sn_stream s) \<and> sn_next_seqno s = 0"
  by (simp add: sender_summary_def next_seqno_absolute_def)

lemma sender_summary_FIN_ACKED:
  assumes "sn_inv S N s"
  shows "sender_summary s = SENDER_FIN_ACKED \<longleftrightarrow> \<not> bs_error (sn_stream s) \<and> bs_eof (sn_stream s) \<and>
    sn_next_seqno s = bs_bytes_w (sn_stream s) + 2 \<and> sn_last_ackno s = sn_next_seqno s"
proof -
  have st: "stream_part S N (sn_stream s)" and le: "sn_last_ackno s \<le> sn_next_seqno s"
    and ph: "seq_phase (sn_next_seqno s) (sn_stream s)"
    using assms by (auto simp: sn_inv_def)
  have w: "sz_add (bytes_written (sn_stream s)) 2 = bs_bytes_w (sn_stream s) + 2"
    "bs_bytes_w (sn_stream s) = bs_bytes_r (sn_stream s) + length (bs_buff (sn_stream s))"
    using st stream_part_written [OF st] by (simp_all add: bytes_written_def sz_add_exact stream_part_def)
  show ?thesis
    using sn_bytes_in_flight_exact [OF assms] w le ph
    by (auto simp: sender_summary_def next_seqno_absolute_def seq_phase_def)
qed

text \<open>
  The twelve official states have twelve different summaries, so a test that compares a
  connection with an official state can hold for one of them only.
\<close>

theorem official_states_distinguished:
  "tcp_state_eq (tcp_state_of p) (tcp_state_of q) \<longleftrightarrow> p = q"
  by (cases p; cases q) (simp_all add: tcp_state_default_def)

text \<open>
  On a well-formed sender the summary \<open>FIN_ACKED\<close> is given exactly when the application has ended
  the stream, every byte of it and the FIN have been sent, and the peer has acknowledged all of it.
\<close>

theorem fin_acked_means_all_acknowledged:
  assumes "sn_inv S N s"
  shows "sender_summary s = SENDER_FIN_ACKED \<longleftrightarrow>
    \<not> bs_error (sn_stream s) \<and> bs_end_input (sn_stream s) \<and> bs_buff (sn_stream s) = [] \<and>
    sn_next_seqno s = N + 2 \<and> sn_last_ackno s = N + 2"
proof -
  have "bs_eof (sn_stream s) \<Longrightarrow> bs_bytes_w (sn_stream s) = N"
    using assms stream_part_written [of S N "sn_stream s"]
    by (auto simp: sn_inv_def stream_part_def bs_accessor_defs)
  then show ?thesis
    unfolding sender_summary_FIN_ACKED [OF assms] by (auto simp: bs_accessor_defs)
qed

theorem fin_acked_means_all_acknowledged_witness:
  "sender_summary (sn_new 0 10 1000 None) \<noteq> SENDER_FIN_ACKED"
proof -
  have "sn_inv (\<lambda>_. 0) 0 (sn_new 0 10 1000 None)" by (rule sn_new_inv) (simp add: SIZE_MOD_def)
  from fin_acked_means_all_acknowledged [OF this] show ?thesis by (simp add: sn_new_def)
qed

end
