(* ===== verification/TCP_Connection.thy ===== *)
theory TCP_Connection
  imports TCP_State
begin

text \<open>
  The connection of \<open>libsponge/tcp_connection.hh\<close> and \<open>tcp_connection.cc\<close>: a receiver and a sender,
  the queue of segments for the network, and the flags that decide when the connection is over.
  A call that reaches code that may throw or not return gives an option. The random initial
  sequence number is an argument of the constructor.
\<close>

section \<open>The class\<close>

record tcp_connection =
  cn_cfg :: tcp_config
  cn_receiver :: tcp_receiver
  cn_sender :: tcp_sender
  cn_segments_out :: "tcp_segment list"
  cn_linger_after_streams_finish :: bool
  cn_isactive :: bool
  cn_time_since_last_segment_received :: size_t

definition cn_new :: "u32 \<Rightarrow> tcp_config \<Rightarrow> tcp_connection" where
  "cn_new random cfg =
     \<lparr>cn_cfg = cfg,
      cn_receiver = rc_new (recv_capacity cfg),
      cn_sender = sn_new random (send_capacity cfg) (rt_timeout cfg) (fixed_isn cfg),
      cn_segments_out = [],
      cn_linger_after_streams_finish = True,
      cn_isactive = True,
      cn_time_since_last_segment_received = 0\<rparr>"

definition remaining_outbound_capacity :: "tcp_connection \<Rightarrow> size_t" where
  "remaining_outbound_capacity c = remaining_capacity (sn_stream (cn_sender c))"

definition cn_bytes_in_flight :: "tcp_connection \<Rightarrow> size_t" where
  "cn_bytes_in_flight c = sn_bytes_in_flight (cn_sender c)"

definition cn_unassembled_bytes :: "tcp_connection \<Rightarrow> size_t" where
  "cn_unassembled_bytes c = rc_unassembled_bytes (cn_receiver c)"

definition time_since_last_segment_received :: "tcp_connection \<Rightarrow> size_t" where
  "time_since_last_segment_received c = cn_time_since_last_segment_received c"

definition active :: "tcp_connection \<Rightarrow> bool" where
  "active c = cn_isactive c"

definition inbound_stream :: "tcp_connection \<Rightarrow> byte_stream" where
  "inbound_stream c = rc_stream_out (cn_receiver c)"

definition cn_state :: "tcp_connection \<Rightarrow> tcp_state" where
  "cn_state c = tcp_state_new (cn_sender c) (cn_receiver c) (active c) (cn_linger_after_streams_finish c)"

text \<open>The acknowledgment fields that both functions which send segments fill in.\<close>

definition fill_ack :: "tcp_receiver \<Rightarrow> tcp_segment \<Rightarrow> tcp_segment" where
  "fill_ack r seg =
     (case rc_ackno r of
        None \<Rightarrow> seg
      | Some a \<Rightarrow> seg\<lparr>header := (header seg)
          \<lparr>ack := True, ackno := a,
           win := (if rc_window_size r \<le> 65535 then of_nat (rc_window_size r) else 65535)\<rparr>\<rparr>)"

text \<open>The loop of \<open>send_segment\<close> moves the sender's queue to the connection's, front first.\<close>

function cn_send_segment :: "tcp_connection \<Rightarrow> tcp_connection" where
  "cn_send_segment c =
     (case sn_segments_out (cn_sender c) of
        [] \<Rightarrow> c
      | seg # segs \<Rightarrow>
          cn_send_segment (c\<lparr>cn_sender := (cn_sender c)\<lparr>sn_segments_out := segs\<rparr>,
            cn_segments_out := cn_segments_out c @ [fill_ack (cn_receiver c) seg]\<rparr>))"
  by pat_completeness auto
termination
  by (relation "measure (\<lambda>c. length (sn_segments_out (cn_sender c)))") auto

declare cn_send_segment.simps [simp del]

definition send_rst_segment :: "tcp_connection \<Rightarrow> tcp_connection option" where
  "send_rst_segment c = do {
     s \<leftarrow> fill_window (cn_sender c);
     Some (case sn_segments_out s of
        [] \<Rightarrow> c\<lparr>cn_sender := send_empty_segment s\<rparr>
      | seg # segs \<Rightarrow>
          let seg = fill_ack (cn_receiver c) seg;
              seg = seg\<lparr>header := (header seg)\<lparr>rst := True\<rparr>\<rparr>
          in c\<lparr>cn_sender := s\<lparr>sn_segments_out := segs\<rparr>, cn_segments_out := cn_segments_out c @ [seg]\<rparr>)
   }"

definition clean_shutdown :: "tcp_connection \<Rightarrow> tcp_connection" where
  "clean_shutdown c =
     (if input_ended (rc_stream_out (cn_receiver c)) \<and> \<not> bs_eof (sn_stream (cn_sender c))
      then c\<lparr>cn_linger_after_streams_finish := False\<rparr>
      else if sender_summary (cn_sender c) = SENDER_FIN_ACKED \<and>
              receiver_summary (cn_receiver c) = RECEIVER_FIN_RECV then
        if \<not> cn_linger_after_streams_finish c \<or>
           cn_time_since_last_segment_received c \<ge> 10 * unat (rt_timeout (cn_cfg c))
        then c\<lparr>cn_isactive := False\<rparr> else c
      else c)"

definition rc_set_error :: "tcp_receiver \<Rightarrow> tcp_receiver" where
  "rc_set_error r = r\<lparr>rc_reassembler := (rc_reassembler r)\<lparr>sr_output := set_error (rc_stream_out r)\<rparr>\<rparr>"

definition unclean_shutdown :: "tcp_connection \<Rightarrow> tcp_connection" where
  "unclean_shutdown c =
     c\<lparr>cn_sender := (cn_sender c)\<lparr>sn_stream := set_error (sn_stream (cn_sender c))\<rparr>,
       cn_receiver := rc_set_error (cn_receiver c), cn_isactive := False\<rparr>"

definition connect :: "tcp_connection \<Rightarrow> tcp_connection option" where
  "connect c = do {
     s \<leftarrow> fill_window (cn_sender c);
     Some (cn_send_segment (c\<lparr>cn_sender := s\<rparr>))
   }"

definition cn_write :: "tcp_connection \<Rightarrow> bytes \<Rightarrow> (size_t \<times> tcp_connection) option" where
  "cn_write c data =
     (if \<not> cn_isactive c \<or> data = [] then Some (0, c)
      else do {
        let (len, st) = bs_write (sn_stream (cn_sender c)) data;
        s \<leftarrow> fill_window ((cn_sender c)\<lparr>sn_stream := st\<rparr>);
        Some (len, cn_send_segment (c\<lparr>cn_sender := s\<rparr>))
      })"

definition end_input_stream :: "tcp_connection \<Rightarrow> tcp_connection option" where
  "end_input_stream c = do {
     s \<leftarrow> fill_window ((cn_sender c)\<lparr>sn_stream := end_input (sn_stream (cn_sender c))\<rparr>);
     Some (cn_send_segment (c\<lparr>cn_sender := s\<rparr>))
   }"

definition cn_tick :: "tcp_connection \<Rightarrow> size_t \<Rightarrow> tcp_connection option" where
  "cn_tick c ms =
     (if \<not> active c then Some c
      else
        let c = c\<lparr>cn_sender := sn_tick (cn_sender c) ms,
                  cn_time_since_last_segment_received := sz_add (cn_time_since_last_segment_received c) ms\<rparr>
        in if consecutive_retransmissions (cn_sender c) > MAX_RETX_ATTEMPTS
           then map_option unclean_shutdown (send_rst_segment c)
           else Some (clean_shutdown (cn_send_segment c)))"

definition cn_segment_received :: "tcp_connection \<Rightarrow> tcp_segment \<Rightarrow> tcp_connection option" where
  "cn_segment_received c seg =
     (if \<not> cn_isactive c then Some c
      else
        let c = c\<lparr>cn_time_since_last_segment_received := 0\<rparr>
        in if rst (header seg) then Some (unclean_shutdown c)
           else do {
             r \<leftarrow> rc_segment_received (cn_receiver c) seg;
             let c = c\<lparr>cn_receiver := r\<rparr>;
             (if receiver_summary r = RECEIVER_SYN_RECV \<and> sender_summary (cn_sender c) = SENDER_CLOSED
              then connect c
              else do {
                s \<leftarrow> (if ack (header seg)
                     then sn_ack_received (cn_sender c) (ackno (header seg)) (win (header seg))
                     else Some (cn_sender c));
                let s = (if length_in_sequence_space seg > 0 \<and> sn_segments_out s = []
                         then send_empty_segment s else s);
                let s = (if rc_ackno r \<noteq> None \<and> length_in_sequence_space seg = 0 \<and>
                            wi_eq (seqno (header seg)) (wi_minus (the (rc_ackno r)) 1)
                         then send_empty_segment s else s);
                Some (clean_shutdown (cn_send_segment (c\<lparr>cn_sender := s\<rparr>)))
              })
           })"

text \<open>The destructor; the message on \<open>cerr\<close> is left out.\<close>

definition cn_destroy :: "tcp_connection \<Rightarrow> tcp_connection option" where
  "cn_destroy c = (if active c then map_option unclean_shutdown (send_rst_segment c) else Some c)"

section \<open>Sending\<close>

lemma cn_send_segment_eq:
  "cn_send_segment c = c\<lparr>cn_sender := (cn_sender c)\<lparr>sn_segments_out := []\<rparr>,
     cn_segments_out := cn_segments_out c @ map (fill_ack (cn_receiver c)) (sn_segments_out (cn_sender c))\<rparr>"
proof (induction c rule: cn_send_segment.induct)
  case (1 c)
  then show ?case
    by (subst cn_send_segment.simps) (simp split: list.split)
qed

lemma cn_send_segment_frame:
  "cn_sender (cn_send_segment c) = (cn_sender c)\<lparr>sn_segments_out := []\<rparr>"
  "cn_receiver (cn_send_segment c) = cn_receiver c"
  by (simp_all add: cn_send_segment_eq)

lemma fill_ack_frame [simp]:
  "payload (fill_ack r seg) = payload seg" "syn (header (fill_ack r seg)) = syn (header seg)"
  "fin (header (fill_ack r seg)) = fin (header seg)" "seqno (header (fill_ack r seg)) = seqno (header seg)"
  "rst (header (fill_ack r seg)) = rst (header seg)"
  by (simp_all add: fill_ack_def split: option.splits)

section \<open>Invariant\<close>

text \<open>
  \<open>S\<close> and \<open>N\<close> are the outbound stream and its length, as for the sender. A segment for the network is
  bare or a segment of the outbound stream whose sequence numbers have been used.
\<close>

definition cn_inv :: "(nat \<Rightarrow> byte) \<Rightarrow> nat \<Rightarrow> tcp_connection \<Rightarrow> bool" where
  "cn_inv S N c \<longleftrightarrow> rc_inv (cn_receiver c) \<and> sn_inv S N (cn_sender c) \<and>
     (\<forall>seg \<in> set (cn_segments_out c). sent_seg S N (sn_isn (cn_sender c)) (sn_next_seqno (cn_sender c)) seg)"

lemma sent_seg_fill_ack [simp]: "sent_seg S N isn n (fill_ack r seg) = sent_seg S N isn n seg"
  by (simp add: sent_seg_def bare_def seg_at_def seq_len_def)

lemma sent_seg_rst [simp]:
  "sent_seg S N isn n (seg\<lparr>header := (header seg)\<lparr>rst := b\<rparr>\<rparr>) = sent_seg S N isn n seg"
  by (simp add: sent_seg_def bare_def seg_at_def seq_len_def)

lemma sn_inv_out: "sn_inv S N s \<Longrightarrow> seg \<in> set (sn_segments_out s) \<Longrightarrow> sent_seg S N (sn_isn s) (sn_next_seqno s) seg"
  by (simp add: sn_inv_def)

lemma sn_inv_drain:
  "sn_inv S N s \<Longrightarrow> set segs \<subseteq> set (sn_segments_out s) \<Longrightarrow> sn_inv S N (s\<lparr>sn_segments_out := segs\<rparr>)"
  by (auto simp: sn_inv_def)

text \<open>
  What a sender step may change so that the segments already queued stay explained; at most \<open>n\<close>
  bytes are written to the stream.
\<close>

definition sn_moves :: "nat \<Rightarrow> tcp_sender \<Rightarrow> tcp_sender \<Rightarrow> bool" where
  "sn_moves n s s' \<longleftrightarrow> sn_isn s' = sn_isn s \<and> sn_next_seqno s \<le> sn_next_seqno s' \<and>
     bs_bytes_w (sn_stream s) \<le> bs_bytes_w (sn_stream s') \<and>
     bs_bytes_w (sn_stream s') \<le> bs_bytes_w (sn_stream s) + n"

lemma cn_inv_sender:
  assumes "cn_inv S N c" and "sn_inv S N s" and "sn_moves n (cn_sender c) s"
  shows "cn_inv S N (c\<lparr>cn_sender := s\<rparr>)"
  using assms by (auto simp: cn_inv_def sn_moves_def intro: sent_seg_mono)

lemma cn_inv_send_segment:
  assumes "cn_inv S N c"
  shows "cn_inv S N (cn_send_segment c)"
  using assms sn_inv_out [of S N "cn_sender c"] sn_inv_drain [of S N "cn_sender c" "[]"]
  by (auto simp: cn_inv_def cn_send_segment_eq)

lemma clean_shutdown_frame [simp]:
  "cn_sender (clean_shutdown c) = cn_sender c" "cn_receiver (clean_shutdown c) = cn_receiver c"
  "cn_segments_out (clean_shutdown c) = cn_segments_out c" "cn_cfg (clean_shutdown c) = cn_cfg c"
  by (simp_all add: clean_shutdown_def)

lemma cn_inv_clean_shutdown [simp]: "cn_inv S N (clean_shutdown c) = cn_inv S N c"
  by (simp add: cn_inv_def)

lemma rc_set_error_inv [simp]: "rc_inv (rc_set_error r) = rc_inv r"
  by (simp add: rc_inv_def rc_set_error_def sr_inv_def sr_core_def sr_limit_def rc_stream_out_def first_unassembled_def
      bytes_written_def input_ended_def counted_def) (simp add: set_error_def)

lemma sn_inv_set_error: "sn_inv S N (s\<lparr>sn_stream := set_error (sn_stream s)\<rparr>) = sn_inv S N s"
  by (simp add: sn_inv_def stream_part_set_error seq_phase_set_error)

lemma cn_inv_unclean_shutdown: "cn_inv S N c \<Longrightarrow> cn_inv S N (unclean_shutdown c)"
  by (simp add: cn_inv_def unclean_shutdown_def sn_inv_set_error)

lemma sn_moves_unclean_shutdown [simp]:
  "sn_moves n s (cn_sender (unclean_shutdown c)) = sn_moves n s (cn_sender c)"
  by (simp add: sn_moves_def unclean_shutdown_def set_error_def)

lemma fill_window_moves:
  assumes "sn_inv S N s"
  obtains s' new where "fill_window s = Some s'" and "sn_inv S N s'" and "sn_moves 0 s s'" and "grows new s s'"
    and "sn_next_seqno s = 0 \<Longrightarrow> new \<noteq> []"
proof -
  from fill_window_spec [OF assms] obtain s' new where f: "fill_window s = Some s'" "sn_inv S N s'" "grows new s s'"
    and n: "sn_next_seqno s = 0 \<longrightarrow> sn_next_seqno s' = 1 \<and> (\<exists>seg. new = [seg] \<and> syn (header seg))" by metis
  have "sn_moves 0 s s'" using f(3) by (simp add: grows_def sn_moves_def)
  moreover have "sn_next_seqno s = 0 \<Longrightarrow> new \<noteq> []" using n by auto
  ultimately show thesis using that [OF f(1,2) _ f(3)] by simp
qed

lemma sn_moves_refl [simp]: "sn_moves 0 s s"
  by (simp add: sn_moves_def)

lemma sn_moves_trans: "sn_moves n s t \<Longrightarrow> sn_moves 0 t u \<Longrightarrow> sn_moves n s u"
  by (auto simp: sn_moves_def)

lemma sn_moves_drain [simp]: "sn_moves n s (t\<lparr>sn_segments_out := segs\<rparr>) = sn_moves n s t"
  by (simp add: sn_moves_def)

definition cn_moves :: "(nat \<Rightarrow> byte) \<Rightarrow> nat \<Rightarrow> nat \<Rightarrow> tcp_connection \<Rightarrow> tcp_connection \<Rightarrow> bool" where
  "cn_moves S N n c c' \<longleftrightarrow> cn_inv S N c' \<and> sn_moves n (cn_sender c) (cn_sender c')"

lemma cn_moves_clean_shutdown [simp]: "cn_moves S N n c (clean_shutdown c') = cn_moves S N n c c'"
  by (simp add: cn_moves_def)

lemma unclean_shutdown_receiver: "cn_receiver (unclean_shutdown c) = rc_set_error (cn_receiver c)"
  by (simp add: unclean_shutdown_def)

text \<open>The common end of the calls that let the sender send.\<close>

lemma fill_and_send_inv:
  assumes "cn_inv S N c" and "sn_inv S N s" and "sn_moves n (cn_sender c) s"
  shows "\<exists>s'. fill_window s = Some s' \<and> cn_moves S N n c (cn_send_segment (c\<lparr>cn_sender := s'\<rparr>))"
proof -
  from fill_window_moves [OF assms(2)] obtain s' where s': "fill_window s = Some s'" "sn_inv S N s'" "sn_moves 0 s s'" .
  then have m: "sn_moves n (cn_sender c) s'" using sn_moves_trans [OF assms(3)] by blast
  then have "cn_inv S N (cn_send_segment (c\<lparr>cn_sender := s'\<rparr>))"
    using cn_inv_sender [OF assms(1) s'(2)] cn_inv_send_segment by blast
  with s'(1) m show ?thesis by (simp add: cn_moves_def cn_send_segment_eq)
qed

lemma connect_inv: "cn_inv S N c \<Longrightarrow> \<exists>c'. connect c = Some c' \<and> cn_moves S N 0 c c' \<and> cn_receiver c' = cn_receiver c"
  using fill_and_send_inv [of S N c "cn_sender c" 0] by (auto simp: connect_def cn_inv_def cn_send_segment_eq)

lemma send_rst_segment_inv:
  assumes inv: "cn_inv S N c"
  shows "\<exists>c'. send_rst_segment c = Some c' \<and> cn_moves S N 0 c c' \<and> cn_receiver c' = cn_receiver c"
proof -
  have "sn_inv S N (cn_sender c)" using inv by (simp add: cn_inv_def)
  from fill_window_moves [OF this] obtain s where
    s: "fill_window (cn_sender c) = Some s" "sn_inv S N s" "sn_moves 0 (cn_sender c) s" .
  have inv1: "cn_inv S N (c\<lparr>cn_sender := s\<rparr>)" using cn_inv_sender [OF inv s(2,3)] .
  show ?thesis
  proof (cases "sn_segments_out s")
    case Nil
    have "sn_moves 0 (cn_sender c) (send_empty_segment s)"
      using s(3) by (simp add: sn_moves_def send_empty_segment_def Let_def)
    with Nil s show ?thesis
      using cn_inv_sender [OF inv send_empty_segment_inv [OF s(2)]] by (simp add: send_rst_segment_def cn_moves_def)
  next
    case (Cons seg segs)
    then have "sent_seg S N (sn_isn s) (sn_next_seqno s) seg" using sn_inv_out [OF s(2)] by simp
    moreover have "sn_inv S N (s\<lparr>sn_segments_out := segs\<rparr>)" using sn_inv_drain [OF s(2)] Cons by auto
    ultimately show ?thesis
      using Cons s(1,3) inv1 by (auto simp: send_rst_segment_def cn_inv_def cn_moves_def Let_def)
  qed
qed

section \<open>Every call returns\<close>

lemma bs_write_grows: "bs_bytes_w (snd (bs_write st d)) \<le> bs_bytes_w st + length d"
proof -
  have "sz_add a (min (length d) n) \<le> a + min (length d) n" for a n by (simp add: sz_add_def)
  moreover have "a + min (length d) n \<le> a + length d" for a n by simp
  ultimately have "sz_add a (min (length d) n) \<le> a + length d" for a n using le_trans by blast
  then show ?thesis by (simp add: bs_write_eq Let_def)
qed

lemma cn_write_inv:
  assumes inv: "cn_inv S N c" and ok: "sn_ok S N (cn_sender c) (SnWrite d)"
  shows "\<exists>n c'. cn_write c d = Some (n, c') \<and> cn_moves S N (length d) c c' \<and> cn_receiver c' = cn_receiver c"
proof (cases "\<not> cn_isactive c \<or> d = []")
  case True
  then show ?thesis using inv by (simp add: cn_write_def cn_moves_def sn_moves_def)
next
  case False
  let ?s = "(cn_sender c)\<lparr>sn_stream := snd (bs_write (sn_stream (cn_sender c)) d)\<rparr>"
  have "sn_inv S N ?s" using sn_step_write [OF _ ok] inv by (simp add: cn_inv_def)
  moreover have "sn_moves (length d) (cn_sender c) ?s"
    using ok by (auto simp: sn_moves_def bs_write_grows bs_write_eq Let_def sz_add_exact)
  ultimately obtain s' where "fill_window ?s = Some s'" "cn_moves S N (length d) c (cn_send_segment (c\<lparr>cn_sender := s'\<rparr>))"
    using fill_and_send_inv [OF inv] by blast
  with False show ?thesis
    by (simp add: cn_write_def cn_send_segment_frame prod.case_eq_if)
qed

text \<open>What a write accepts: everything, if the connection is active and there is room.\<close>

lemma cn_write_accepts:
  assumes inv: "cn_inv S N c" and ok: "sn_ok S N (cn_sender c) (SnWrite d)" and wr: "cn_write c d = Some (n, c')"
  shows "n = length d \<Longrightarrow> bs_bytes_w (sn_stream (cn_sender c')) = bs_bytes_w (sn_stream (cn_sender c)) + length d"
    and "active c \<Longrightarrow> \<not> input_ended (sn_stream (cn_sender c)) \<Longrightarrow> length d \<le> remaining_outbound_capacity c \<Longrightarrow> n = length d"
proof -
  let ?st = "sn_stream (cn_sender c)" and ?w = "snd (bs_write (sn_stream (cn_sender c)) d)"
  have inv': "sn_inv S N ((cn_sender c)\<lparr>sn_stream := ?w\<rparr>)" using sn_step_write [OF _ ok] inv by (simp add: cn_inv_def)
  have wr': "n = fst (bs_write ?st d) \<and> bs_bytes_w (sn_stream (cn_sender c')) = bs_bytes_w ?w" if "cn_isactive c" "d \<noteq> []"
  proof -
    obtain s' where s': "fill_window ((cn_sender c)\<lparr>sn_stream := ?w\<rparr>) = Some s'" "sn_moves 0 ((cn_sender c)\<lparr>sn_stream := ?w\<rparr>) s'"
      using fill_window_moves [OF inv'] by blast
    then have "(n, c') = (fst (bs_write ?st d), cn_send_segment (c\<lparr>cn_sender := s'\<rparr>))"
      using wr that by (simp add: cn_write_def prod.case_eq_if)
    with s'(2) show ?thesis by (simp add: cn_send_segment_frame sn_moves_def)
  qed
  have exact: "bs_bytes_w ?w = bs_bytes_w ?st + length d" if "fst (bs_write ?st d) = length d"
  proof -
    have "sz_add (bs_bytes_w ?st) (length d) = bs_bytes_w ?st + length d" using ok by (intro sz_add_exact) simp
    then show ?thesis using that by (auto simp: bs_write_eq Let_def min_def split: if_splits)
  qed
  show "bs_bytes_w (sn_stream (cn_sender c')) = bs_bytes_w ?st + length d" if "n = length d"
    using wr' exact that wr by (cases "cn_isactive c \<and> d \<noteq> []") (auto simp: cn_write_def)
  show "n = length d" if "active c" "\<not> input_ended ?st" "length d \<le> remaining_outbound_capacity c"
    using that wr' wr
    by (cases "d = []") (auto simp: cn_write_def active_def bs_write_eq remaining_outbound_capacity_def Let_def input_ended_def)
qed

lemma end_input_stream_inv:
  assumes inv: "cn_inv S N c" and ok: "sn_ok S N (cn_sender c) SnEndInput"
  shows "\<exists>c'. end_input_stream c = Some c' \<and> cn_moves S N 0 c c' \<and> cn_receiver c' = cn_receiver c"
proof -
  let ?s = "(cn_sender c)\<lparr>sn_stream := end_input (sn_stream (cn_sender c))\<rparr>"
  have "sn_inv S N ?s" using sn_step_total [OF _ ok] inv by (auto simp: cn_inv_def)
  from fill_and_send_inv [OF inv this, of 0] show ?thesis
    by (auto simp: end_input_stream_def sn_moves_def end_input_def cn_send_segment_eq)
qed

lemma sn_tick_moves: "sn_moves 0 s (sn_tick s ms)"
  by (simp add: sn_moves_def sn_tick_cases)

lemma cn_inv_time [simp]: "cn_inv S N (c\<lparr>cn_time_since_last_segment_received := t\<rparr>) = cn_inv S N c"
  by (simp add: cn_inv_def)

lemma cn_tick_inv:
  assumes inv: "cn_inv S N c"
  shows "\<exists>c'. cn_tick c ms = Some c' \<and> cn_moves S N 0 c c' \<and>
    cn_receiver c' \<in> {cn_receiver c, rc_set_error (cn_receiver c)}"
proof -
  let ?c = "c\<lparr>cn_sender := sn_tick (cn_sender c) ms,
    cn_time_since_last_segment_received := sz_add (cn_time_since_last_segment_received c) ms\<rparr>"
  have inv1: "cn_inv S N ?c"
    using cn_inv_sender [OF inv sn_tick_inv sn_tick_moves] inv by (simp add: cn_inv_def)
  obtain c1 where c1: "send_rst_segment ?c = Some c1" "cn_moves S N 0 ?c c1" "cn_receiver c1 = cn_receiver c"
    using send_rst_segment_inv [OF inv1] by auto
  have "cn_moves S N 0 c (unclean_shutdown c1)"
    using c1(2) sn_moves_trans [OF sn_tick_moves, of "cn_sender c" ms "cn_sender c1"]
    by (simp add: cn_moves_def cn_inv_unclean_shutdown)
  moreover have "cn_moves S N 0 c (cn_send_segment ?c)"
    using cn_inv_send_segment [OF inv1] sn_tick_moves by (simp add: cn_moves_def cn_send_segment_eq)
  moreover have "cn_moves S N 0 c c" using inv by (simp add: cn_moves_def)
  ultimately show ?thesis
    using c1 by (simp add: cn_tick_def Let_def unclean_shutdown_receiver cn_send_segment_frame)
qed

lemma cn_destroy_inv: "cn_inv S N c \<Longrightarrow> \<exists>c'. cn_destroy c = Some c' \<and> cn_inv S N c'"
  using send_rst_segment_inv [of S N c] by (auto simp: cn_destroy_def cn_moves_def intro: cn_inv_unclean_shutdown)

text \<open>The part of \<open>segment_received\<close> after the receiver has had the segment, if it does not connect.\<close>

definition respond :: "tcp_receiver \<Rightarrow> tcp_segment \<Rightarrow> tcp_sender \<Rightarrow> tcp_sender" where
  "respond r seg s =
     (let s = (if length_in_sequence_space seg > 0 \<and> sn_segments_out s = [] then send_empty_segment s else s)
      in if rc_ackno r \<noteq> None \<and> length_in_sequence_space seg = 0 \<and>
            wi_eq (seqno (header seg)) (wi_minus (the (rc_ackno r)) 1)
         then send_empty_segment s else s)"

definition acknowledge :: "tcp_segment \<Rightarrow> tcp_sender \<Rightarrow> tcp_sender option" where
  "acknowledge seg s =
     (if ack (header seg) then sn_ack_received s (ackno (header seg)) (win (header seg)) else Some s)"

lemma cn_segment_received_eq:
  "cn_segment_received c seg =
     (if \<not> cn_isactive c then Some c
      else if rst (header seg) then Some (unclean_shutdown (c\<lparr>cn_time_since_last_segment_received := 0\<rparr>))
      else rc_segment_received (cn_receiver c) seg \<bind> (\<lambda>r.
        let c = c\<lparr>cn_time_since_last_segment_received := 0, cn_receiver := r\<rparr>
        in if receiver_summary r = RECEIVER_SYN_RECV \<and> sender_summary (cn_sender c) = SENDER_CLOSED
           then connect c
           else map_option (\<lambda>s. clean_shutdown (cn_send_segment (c\<lparr>cn_sender := respond r seg s\<rparr>)))
                  (acknowledge seg (cn_sender c))))"
  by (cases "rc_segment_received (cn_receiver c) seg"; cases "acknowledge seg (cn_sender c)")
    (simp_all add: cn_segment_received_def respond_def acknowledge_def [symmetric] Let_def)

lemma send_empty_segment_moves: "sn_moves 0 s (send_empty_segment s)"
  by (simp add: sn_moves_def send_empty_segment_def Let_def)

lemma respond_inv: "sn_inv S N s \<Longrightarrow> sn_inv S N (respond r seg s) \<and> sn_moves 0 s (respond r seg s)"
  using send_empty_segment_inv send_empty_segment_moves sn_moves_trans by (fastforce simp: respond_def Let_def)

lemma acknowledge_inv:
  "sn_inv S N s \<Longrightarrow> \<exists>s'. acknowledge seg s = Some s' \<and> sn_inv S N s' \<and> sn_moves 0 s s'"
  using sn_ack_received_spec [of S N s "ackno (header seg)" "win (header seg)"]
  by (auto simp: acknowledge_def sn_moves_def)

lemma cn_segment_received_inv:
  assumes inv: "cn_inv S N c" and fits: "rc_fits (cn_receiver c) seg"
  shows "\<exists>c'. cn_segment_received c seg = Some c' \<and> cn_moves S N 0 c c' \<and>
    (cn_receiver c' \<in> {cn_receiver c, rc_set_error (cn_receiver c)} \<or>
     rc_segment_received (cn_receiver c) seg = Some (cn_receiver c'))"
proof (cases "cn_isactive c \<and> \<not> rst (header seg)")
  case False
  have "cn_moves S N 0 c (unclean_shutdown (c\<lparr>cn_time_since_last_segment_received := 0\<rparr>))" "cn_moves S N 0 c c"
    using inv cn_inv_unclean_shutdown [of S N "c\<lparr>cn_time_since_last_segment_received := 0\<rparr>"]
    by (simp_all add: cn_moves_def)
  with False show ?thesis by (auto simp: cn_segment_received_eq unclean_shutdown_receiver)
next
  case True
  have parts: "rc_inv (cn_receiver c)" "sn_inv S N (cn_sender c)" using inv by (auto simp: cn_inv_def)
  obtain r where r: "rc_segment_received (cn_receiver c) seg = Some r" "rc_inv r"
    using rc_segment_received_total [OF parts(1) fits] by blast
  obtain s where s: "acknowledge seg (cn_sender c) = Some s" "sn_inv S N s" "sn_moves 0 (cn_sender c) s"
    using acknowledge_inv [OF parts(2)] by blast
  let ?c = "c\<lparr>cn_time_since_last_segment_received := 0, cn_receiver := r\<rparr>"
  have inv1: "cn_inv S N ?c" using inv r(2) by (simp add: cn_inv_def)
  have m: "sn_moves 0 (cn_sender c) (respond r seg s)"
    using respond_inv [OF s(2)] s(3) sn_moves_trans by blast
  then have "cn_inv S N (?c\<lparr>cn_sender := respond r seg s\<rparr>)"
    using respond_inv [OF s(2)] by (intro cn_inv_sender [OF inv1]) auto
  then have "cn_moves S N 0 c (clean_shutdown (cn_send_segment (?c\<lparr>cn_sender := respond r seg s\<rparr>)))"
    using m cn_inv_send_segment by (simp add: cn_moves_def cn_send_segment_frame)
  moreover obtain c1 where "connect ?c = Some c1" "cn_moves S N 0 c c1" "cn_receiver c1 = r"
    using connect_inv [OF inv1] by (auto simp: cn_moves_def)
  ultimately show ?thesis
    using True r(1) s(1) by (simp add: cn_segment_received_eq Let_def cn_send_segment_frame)
qed

section \<open>The machine of a connection\<close>

text \<open>
  The calls of the owner: the application connects, writes, ends its stream and reads; the network
  side delivers segments, passes time and takes a segment from the queue.
\<close>

datatype cn_call = CnConnect | CnWrite bytes | CnEndInput | CnRead size_t | CnReceive tcp_segment
  | CnTick size_t | CnTake

definition cn_read :: "tcp_connection \<Rightarrow> size_t \<Rightarrow> bytes \<times> tcp_connection" where
  "cn_read c n =
     (let (out, st) = bs_read (inbound_stream c) n; r = cn_receiver c
      in (out, c\<lparr>cn_receiver := r\<lparr>rc_reassembler := (rc_reassembler r)\<lparr>sr_output := st\<rparr>\<rparr>\<rparr>))"

fun cn_step :: "tcp_connection \<Rightarrow> cn_call \<Rightarrow> tcp_connection option" where
  "cn_step c CnConnect = connect c"
| "cn_step c (CnWrite d) = map_option snd (cn_write c d)"
| "cn_step c CnEndInput = end_input_stream c"
| "cn_step c (CnRead n) = Some (snd (cn_read c n))"
| "cn_step c (CnReceive seg) = cn_segment_received c seg"
| "cn_step c (CnTick ms) = cn_tick c ms"
| "cn_step c CnTake = Some (c\<lparr>cn_segments_out := tl (cn_segments_out c)\<rparr>)"

fun cn_ok :: "(nat \<Rightarrow> byte) \<Rightarrow> nat \<Rightarrow> tcp_connection \<Rightarrow> cn_call \<Rightarrow> bool" where
  "cn_ok S N c (CnWrite d) = sn_ok S N (cn_sender c) (SnWrite d)"
| "cn_ok S N c CnEndInput = sn_ok S N (cn_sender c) SnEndInput"
| "cn_ok S N c (CnRead n) =
     (sr_limit (rc_reassembler (cn_receiver c)) + buffer_size (inbound_stream c) < SIZE_MOD)"
| "cn_ok S N c (CnReceive seg) = rc_fits (cn_receiver c) seg"
| "cn_ok S N c _ = True"

lemma cn_read_inv:
  assumes inv: "cn_inv S N c" and ok: "cn_ok S N c (CnRead n)"
  shows "cn_inv S N (snd (cn_read c n))"
proof -
  have "sr_inv (rc_reassembler (cn_receiver c))" using inv by (simp add: cn_inv_def rc_inv_def)
  from sr_read_step(1) [OF this, where n = n] ok inv show ?thesis
    by (simp add: cn_inv_def rc_inv_def cn_read_def inbound_stream_def rc_stream_out_def prod.case_eq_if Let_def)
qed

lemma cn_step_total:
  assumes inv: "cn_inv S N c" and ok: "cn_ok S N c k"
  shows "\<exists>c'. cn_step c k = Some c' \<and> cn_inv S N c'"
proof (cases k)
  case CnConnect
  then show ?thesis using connect_inv [OF inv] by (auto simp: cn_moves_def)
next
  case (CnWrite d)
  then show ?thesis using cn_write_inv [OF inv, of d] ok by (auto simp: cn_moves_def)
next
  case CnEndInput
  then show ?thesis using end_input_stream_inv [OF inv] ok by (auto simp: cn_moves_def)
next
  case (CnRead n)
  then show ?thesis using cn_read_inv [OF inv] ok by simp
next
  case (CnReceive seg)
  then show ?thesis using cn_segment_received_inv [OF inv, of seg] ok by (auto simp: cn_moves_def)
next
  case (CnTick ms)
  then show ?thesis using cn_tick_inv [OF inv, of ms] by (auto simp: cn_moves_def)
next
  case CnTake
  then show ?thesis using inv by (auto simp: cn_inv_def dest: set_tl_mem)
qed

interpretation cnm: invariant_machine cn_step "cn_ok S N" "cn_inv S N" for S N
  by unfold_locales (rule cn_step_total)

lemma cn_new_inv:
  "recv_capacity cfg < SIZE_MOD \<Longrightarrow> send_capacity cfg + 2 < SIZE_MOD \<Longrightarrow> cn_inv S N (cn_new rnd cfg)"
  by (simp add: cn_inv_def cn_new_def rc_new_inv sn_new_inv)

section \<open>What is put on the wire\<close>

text \<open>A segment that carries the receiver's current acknowledgment and window.\<close>

definition acks_for :: "tcp_receiver \<Rightarrow> tcp_segment \<Rightarrow> bool" where
  "acks_for r seg \<longleftrightarrow> ack (header seg) \<and> rc_ackno r = Some (ackno (header seg)) \<and>
     unat (win (header seg)) = min (rc_window_size r) 65535"

lemma fill_ack_acks_for: "rc_syn r \<Longrightarrow> acks_for r (fill_ack r seg)"
  by (cases "rc_ackno r") (auto simp: acks_for_def fill_ack_def unat_of_nat min_def)

lemma acks_for_rst [simp]: "acks_for r (seg\<lparr>header := (header seg)\<lparr>rst := b\<rparr>\<rparr>) = acks_for r seg"
  by (simp add: acks_for_def)

lemma clean_shutdown_linger:
  "input_ended (inbound_stream c) \<Longrightarrow> \<not> bs_eof (sn_stream (cn_sender c)) \<Longrightarrow>
     \<not> cn_linger_after_streams_finish (clean_shutdown c)"
  by (simp add: clean_shutdown_def inbound_stream_def)

text \<open>
  A processed segment: the receiver has taken it, and what the sender had to say, with the
  acknowledgment filled in, is appended to the queue.
\<close>

lemma cn_segment_received_sends:
  assumes inv: "cn_inv S N c" and fits: "rc_fits (cn_receiver c) seg"
    and act: "cn_isactive c" "\<not> rst (header seg)"
  obtains c' new where "cn_segment_received c seg = Some c'" and "cn_inv S N c'"
    and "rc_segment_received (cn_receiver c) seg = Some (cn_receiver c')"
    and "cn_segments_out c' = cn_segments_out c @ map (fill_ack (cn_receiver c')) new"
    and "sn_segments_out (cn_sender c') = []"
    and "length_in_sequence_space seg > 0 \<Longrightarrow> new \<noteq> []"
    and "length_in_sequence_space seg = 0 \<Longrightarrow> rc_ackno (cn_receiver c') = Some a \<Longrightarrow>
      seqno (header seg) = wi_minus a 1 \<Longrightarrow> new \<noteq> []"
    and "input_ended (inbound_stream c') \<Longrightarrow> \<not> bs_eof (sn_stream (cn_sender c')) \<Longrightarrow>
      \<not> cn_linger_after_streams_finish c'"
proof -
  have parts: "rc_inv (cn_receiver c)" "sn_inv S N (cn_sender c)" using inv by (auto simp: cn_inv_def)
  obtain r where r: "rc_segment_received (cn_receiver c) seg = Some r"
    using rc_segment_received_total [OF parts(1) fits] by blast
  obtain s where s: "acknowledge seg (cn_sender c) = Some s"
    using acknowledge_inv [OF parts(2)] by blast
  obtain c' where c': "cn_segment_received c seg = Some c'" "cn_inv S N c'"
    using cn_segment_received_inv [OF inv fits] by (auto simp: cn_moves_def)
  show ?thesis
  proof (cases "receiver_summary r = RECEIVER_SYN_RECV \<and> sender_summary (cn_sender c) = SENDER_CLOSED")
    case True
    obtain s1 new where s1: "fill_window (cn_sender c) = Some s1" "grows new (cn_sender c) s1"
      "sn_next_seqno (cn_sender c) = 0 \<Longrightarrow> new \<noteq> []"
      using fill_window_moves [OF parts(2)] by metis
    have eq: "c' = cn_send_segment (c\<lparr>cn_time_since_last_segment_received := 0, cn_receiver := r, cn_sender := s1\<rparr>)"
      using c'(1) r True s1(1) act by (simp add: cn_segment_received_eq connect_def Let_def)
    have "sn_segments_out s1 \<noteq> []" using s1(2,3) True by (auto simp: sender_summary_CLOSED grows_def)
    moreover have "\<not> input_ended (rc_stream_out r)" using True by (simp add: receiver_summary_SYN_RECV)
    ultimately show ?thesis
      using c' r by (intro that [of c' "sn_segments_out s1"]) (auto simp: eq cn_send_segment_eq inbound_stream_def)
  next
    case False
    let ?c1 = "cn_send_segment (c\<lparr>cn_time_since_last_segment_received := 0, cn_receiver := r, cn_sender := respond r seg s\<rparr>)"
    have eq: "c' = clean_shutdown ?c1"
      using c'(1) r False s act by (auto simp: cn_segment_received_eq Let_def)
    have frame: "cn_receiver c' = r" "cn_segments_out c' = cn_segments_out c @ map (fill_ack r) (sn_segments_out (respond r seg s))"
      "sn_segments_out (cn_sender c') = []" by (simp_all add: eq cn_send_segment_eq)
    have "length_in_sequence_space seg > 0 \<Longrightarrow> sn_segments_out (respond r seg s) \<noteq> []"
      "length_in_sequence_space seg = 0 \<Longrightarrow> rc_ackno r = Some a \<Longrightarrow> seqno (header seg) = wi_minus a 1 \<Longrightarrow>
        sn_segments_out (respond r seg s) \<noteq> []"
      by (simp_all add: respond_def send_empty_segment_def Let_def)
    moreover have "input_ended (inbound_stream c') \<Longrightarrow> \<not> bs_eof (sn_stream (cn_sender c')) \<Longrightarrow>
        \<not> cn_linger_after_streams_finish c'"
      using clean_shutdown_linger [of ?c1] by (simp add: eq inbound_stream_def)
    ultimately show ?thesis
      using c' r frame by (intro that [of c' "sn_segments_out (respond r seg s)"]) auto
  qed
qed

section \<open>Properties\<close>

text \<open>
  C14: Whatever the application does and whatever segments and times the network side delivers, every
  call of a connection returns, and every segment that waits for the network is either bare or
  carries the SYN, the FIN or bytes of the outbound stream under their own sequence numbers, which
  the sender has handed out before.
\<close>

theorem connection_run_returns:
  assumes "recv_capacity cfg < SIZE_MOD" and "send_capacity cfg + 2 < SIZE_MOD"
    and "run_admissible cn_step (cn_ok S N) (cn_new rnd cfg) calls"
  shows "\<exists>c. run_steps cn_step (cn_new rnd cfg) calls = Some c \<and>
    (\<forall>seg \<in> set (cn_segments_out c).
       sent_seg S N (sn_isn (cn_sender c)) (sn_next_seqno (cn_sender c)) seg) \<and>
    cn_bytes_in_flight c = sn_next_seqno (cn_sender c) - sn_last_ackno (cn_sender c) \<and>
    rc_window_size (cn_receiver c) = rc_capacity (cn_receiver c) - buffer_size (inbound_stream c)"
proof -
  from cnm.run_total [OF cn_new_inv [OF assms(1,2)] assms(3)] obtain c where
    c: "run_steps cn_step (cn_new rnd cfg) calls = Some c" "cn_inv S N c" by blast
  then show ?thesis
    using sn_bytes_in_flight_exact [of S N "cn_sender c"] rc_window_size_exact(2) [of "cn_receiver c"]
    by (auto simp: cn_inv_def cn_bytes_in_flight_def inbound_stream_def)
qed

theorem connection_run_returns_witness:
  "\<exists>c. run_steps cn_step (cn_new 9 tcp_config_default) [CnConnect, CnTick 1000, CnTake] = Some c \<and>
     rc_window_size (cn_receiver c) = rc_capacity (cn_receiver c) - buffer_size (inbound_stream c)"
proof -
  have "run_admissible cn_step (cn_ok (\<lambda>_. 0) 0) (cn_new 9 tcp_config_default) [CnConnect, CnTick 1000, CnTake]"
    by (simp split: option.splits)
  from connection_run_returns [OF _ _ this] show ?thesis
    by (auto simp: tcp_config_default_def DEFAULT_CAPACITY_def SIZE_MOD_def)
qed

text \<open>
  C17: An active connection that has seen the SYN answers every segment that occupies sequence space,
  and every keep-alive probe (an empty segment just below the acknowledgment number): at least one
  segment is queued, and all that are queued carry the acknowledgment number and window the receiver
  has after the segment, the window cut to 16 bits.
\<close>

theorem every_segment_is_acknowledged:
  assumes "cn_inv S N c" and "rc_fits (cn_receiver c) seg" and "cn_isactive c" and "\<not> rst (header seg)"
    and "rc_syn (cn_receiver c) \<or> syn (header seg)"
  shows "\<exists>c' new. cn_segment_received c seg = Some c' \<and> cn_segments_out c' = cn_segments_out c @ new \<and>
    (\<forall>s \<in> set new. acks_for (cn_receiver c') s) \<and>
    (length_in_sequence_space seg > 0 \<longrightarrow> new \<noteq> []) \<and>
    (length_in_sequence_space seg = 0 \<longrightarrow>
       rc_ackno (cn_receiver c') = Some (wi_plus (seqno (header seg)) 1) \<longrightarrow> new \<noteq> [])"
proof -
  from cn_segment_received_sends [OF assms(1-4), of "wi_plus (seqno (header seg)) 1"] obtain c' new where
    c': "cn_segment_received c seg = Some c'" "rc_segment_received (cn_receiver c) seg = Some (cn_receiver c')"
      "cn_segments_out c' = cn_segments_out c @ map (fill_ack (cn_receiver c')) new"
    and new: "length_in_sequence_space seg > 0 \<Longrightarrow> new \<noteq> []"
      "length_in_sequence_space seg = 0 \<Longrightarrow> rc_ackno (cn_receiver c') = Some (wi_plus (seqno (header seg)) 1) \<Longrightarrow>
        seqno (header seg) = wi_minus (wi_plus (seqno (header seg)) 1) 1 \<Longrightarrow> new \<noteq> []"
    by metis
  have "rc_syn (cn_receiver c')"
    using rc_segment_received_total [of "cn_receiver c" seg] assms c'(2) by (auto simp: cn_inv_def)
  then have "\<forall>s \<in> set (map (fill_ack (cn_receiver c')) new). acks_for (cn_receiver c') s"
    using fill_ack_acks_for by auto
  moreover have "seqno (header seg) = wi_minus (wi_plus (seqno (header seg)) 1) 1"
    by (simp add: wi_minus_def wi_plus_def)
  ultimately show ?thesis
    using c' new by (intro exI [of _ c'] exI [of _ "map (fill_ack (cn_receiver c')) new"]) auto
qed

theorem every_segment_is_acknowledged_witness:
  "\<exists>c' new. cn_segment_received (cn_new 9 tcp_config_default) (syn_segment (WrappingInt32 5)) = Some c' \<and>
     cn_segments_out c' = new \<and> new \<noteq> [] \<and> (\<forall>s \<in> set new. acks_for (cn_receiver c') s)"
proof -
  let ?c = "cn_new 9 tcp_config_default" and ?seg = "syn_segment (WrappingInt32 5)"
  have "cn_inv (\<lambda>_. 0) 0 ?c"
    by (rule cn_new_inv) (simp_all add: tcp_config_default_def DEFAULT_CAPACITY_def SIZE_MOD_def)
  moreover have "rc_fits (cn_receiver ?c) ?seg"
    by (simp add: rc_fits_def syn_segment_def cn_new_def rc_new_def sr_limit_def sr_new_def bs_new_def
        tcp_config_default_def DEFAULT_CAPACITY_def SIZE_MOD_def)
  moreover have "cn_isactive ?c" "cn_segments_out ?c = []" "\<not> rst (header ?seg)" "syn (header ?seg)"
    "length_in_sequence_space ?seg > 0"
    by (simp_all add: cn_new_def syn_segment_def length_in_sequence_space_def sz_add_def SIZE_MOD_def)
  ultimately show ?thesis
    using every_segment_is_acknowledged [of "\<lambda>_. 0" 0 ?c ?seg] by auto
qed



text \<open>
  \<open>connect\<close> and \<open>end_input_stream\<close> do not look whether the connection is active: on one that has been reset
  they still fill the window, and here each of them queues a SYN segment.
\<close>

theorem reset_connection_still_sends:
  "\<exists>c' c1 c2. cn_segment_received (cn_new 9 tcp_config_default)
       (tcp_segment_default\<lparr>header := tcp_header_default\<lparr>rst := True\<rparr>\<rparr>) = Some c' \<and>
     \<not> active c' \<and> cn_segments_out c' = [] \<and>
     connect c' = Some c1 \<and> map (syn \<circ> header) (cn_segments_out c1) = [True] \<and>
     end_input_stream c' = Some c2 \<and> map (syn \<circ> header) (cn_segments_out c2) = [True]"
proof -
  let ?c = "cn_new 9 tcp_config_default"
  let ?c' = "unclean_shutdown (?c\<lparr>cn_time_since_last_segment_received := 0\<rparr>)"
  have reset: "cn_segment_received ?c (tcp_segment_default\<lparr>header := tcp_header_default\<lparr>rst := True\<rparr>\<rparr>) = Some ?c'"
    by (simp add: cn_segment_received_eq cn_new_def)
  have fill: "\<exists>s'. fill_window s = Some s' \<and> map (syn \<circ> header) (sn_segments_out s') = [True]"
    if "sn_next_seqno s = 0" "sn_segments_out s = []" for s
    using that by (auto simp: fill_window_def next_seqno_absolute_def sn_send_segment_def next_seqno_def Let_def
        is_start_def length_in_sequence_space_def sz_add_def SIZE_MOD_def)
  have out: "map (syn \<circ> header) (cn_segments_out (cn_send_segment c)) =
      map (syn \<circ> header) (cn_segments_out c) @ map (syn \<circ> header) (sn_segments_out (cn_sender c))" for c
    by (simp add: cn_send_segment_eq)
  have "sn_next_seqno (cn_sender ?c') = 0" "sn_segments_out (cn_sender ?c') = []" "cn_segments_out ?c' = []" "\<not> active ?c'"
    by (simp_all add: unclean_shutdown_def cn_new_def sn_new_def active_def)
  with reset fill [of "cn_sender ?c'"] fill [of "(cn_sender ?c')\<lparr>sn_stream := end_input (sn_stream (cn_sender ?c'))\<rparr>"] out
  show ?thesis by (auto simp: connect_def end_input_stream_def)
qed

text \<open>
  C34: When the retransmission timer expires once more after \<open>MAX_RETX_ATTEMPTS\<close> retransmissions, the
  connection gives up: exactly one more segment is queued, it carries the RST flag, and the connection is
  in the official state \<open>RESET\<close>.
\<close>

theorem too_many_retransmissions_reset:
  assumes inv: "cn_inv S N c" and act: "cn_isactive c"
    and out: "sn_outstanding_seg (cn_sender c) \<noteq> []" "sn_last_win (cn_sender c) > 0"
    and exp: "unat (tm_remaining (sn_timer (cn_sender c))) \<le> ms"
    and cnt: "consecutive_retransmissions (cn_sender c) = MAX_RETX_ATTEMPTS"
  shows "\<exists>c' seg. cn_tick c ms = Some c' \<and> tcp_state_eq (cn_state c') (tcp_state_of RESET) \<and>
    cn_segments_out c' = cn_segments_out c @ [seg] \<and> rst (header seg)"
proof -
  let ?s = "sn_tick (cn_sender c) ms"
  let ?c = "c\<lparr>cn_sender := ?s,
    cn_time_since_last_segment_received := sz_add (cn_time_since_last_segment_received c) ms\<rparr>"
  have inv0: "sn_inv S N (cn_sender c)" using inv by (simp add: cn_inv_def)
  then have start: "is_start (sn_timer (cn_sender c))" using out(1) by (simp add: sn_inv_def)
  have inv1: "sn_inv S N ?s" using sn_tick_inv [OF inv0] .
  note e = sn_tick_expiry [OF out(1) start exp]
  have "consecutive_retransmissions ?s > MAX_RETX_ATTEMPTS"
    using e(4) out(2) cnt by (simp add: consecutive_retransmissions_def MAX_RETX_ATTEMPTS_def)
  then have tick: "cn_tick c ms = map_option unclean_shutdown (send_rst_segment ?c)"
    using act by (simp add: cn_tick_def active_def Let_def)
  obtain s1 new where s1: "fill_window ?s = Some s1" "grows new ?s s1"
    using fill_window_moves [OF inv1] by metis
  then obtain seg segs where segs: "sn_segments_out s1 = seg # segs"
    using e(1) by (cases "sn_segments_out s1") (auto simp: grows_def)
  let ?seg = "fill_ack (cn_receiver c) seg"
  let ?c' = "?c\<lparr>cn_sender := s1\<lparr>sn_segments_out := segs\<rparr>,
    cn_segments_out := cn_segments_out c @ [?seg\<lparr>header := (header ?seg)\<lparr>rst := True\<rparr>\<rparr>]\<rparr>"
  have "send_rst_segment ?c = Some ?c'" using s1(1) segs by (simp add: send_rst_segment_def Let_def)
  moreover have "cn_state (unclean_shutdown ?c') = tcp_state_of RESET"
    by (simp add: cn_state_def tcp_state_new_def unclean_shutdown_def active_def sender_summary_def
        receiver_summary_def rc_set_error_def rc_stream_out_def set_error_def tcp_state_default_def)
  ultimately show ?thesis using tick by (simp add: unclean_shutdown_def)
qed

definition exhausted_example :: tcp_connection where
  "exhausted_example = (cn_new 0 tcp_config_default)\<lparr>cn_sender := shrunk_example\<lparr>sn_retransmission_count := 8\<rparr>\<rparr>"

lemma exhausted_example_inv: "cn_inv (\<lambda>i. of_nat (Suc i)) 3 exhausted_example"
proof -
  have "sn_inv (\<lambda>i. of_nat (Suc i)) 3 (shrunk_example\<lparr>sn_retransmission_count := 8\<rparr>)"
    using shrunk_example_inv by (simp add: sn_inv_def)
  moreover have "rc_inv (cn_receiver (cn_new 0 tcp_config_default))"
    by (simp add: cn_new_def rc_new_inv tcp_config_default_def DEFAULT_CAPACITY_def SIZE_MOD_def)
  ultimately show ?thesis by (simp add: exhausted_example_def cn_inv_def) (simp add: cn_new_def)
qed

theorem too_many_retransmissions_reset_witness:
  "\<exists>c' seg. cn_tick exhausted_example 1000 = Some c' \<and> cn_segments_out c' = [seg] \<and> rst (header seg)"
proof -
  have "cn_isactive exhausted_example" "sn_outstanding_seg (cn_sender exhausted_example) \<noteq> []"
    "sn_last_win (cn_sender exhausted_example) > 0"
    "unat (tm_remaining (sn_timer (cn_sender exhausted_example))) \<le> 1000"
    "consecutive_retransmissions (cn_sender exhausted_example) = MAX_RETX_ATTEMPTS"
    "cn_segments_out exhausted_example = []"
    by (simp_all add: exhausted_example_def shrunk_example_def cn_new_def consecutive_retransmissions_def MAX_RETX_ATTEMPTS_def)
  with too_many_retransmissions_reset [OF exhausted_example_inv this(1-5)] show ?thesis by auto
qed

text \<open>
  C36: Once our FIN is acknowledged and the peer's stream has ended, a tick ends a connection that need
  not linger, and one that lingers as soon as ten initial timeouts have passed since the last
  segment, not earlier.
\<close>

theorem lingering_ends_connection:
  assumes inv: "cn_inv S N c" and act: "cn_isactive c"
    and fin: "sender_summary (cn_sender c) = SENDER_FIN_ACKED" "receiver_summary (cn_receiver c) = RECEIVER_FIN_RECV"
    and quiet: "sn_outstanding_seg (cn_sender c) = []" "consecutive_retransmissions (cn_sender c) \<le> MAX_RETX_ATTEMPTS"
  shows "\<exists>c'. cn_tick c ms = Some c' \<and>
    (cn_isactive c' \<longleftrightarrow> cn_linger_after_streams_finish c \<and>
       sz_add (cn_time_since_last_segment_received c) ms < 10 * unat (rt_timeout (cn_cfg c)))"
proof -
  let ?s = "sn_tick (cn_sender c) ms"
  have s: "?s = (cn_sender c)\<lparr>sn_timer := timer_stop (sn_timer (cn_sender c))\<rparr>"
    using quiet(1) by (simp add: sn_tick_cases)
  have sum: "sender_summary (?s\<lparr>sn_segments_out := xs\<rparr>) = SENDER_FIN_ACKED" for xs
  proof -
    have "sender_summary (?s\<lparr>sn_segments_out := xs\<rparr>) = sender_summary (cn_sender c)"
      by (simp add: s sender_summary_def next_seqno_absolute_def sn_bytes_in_flight_def)
    with fin(1) show ?thesis by simp
  qed
  have "\<not> consecutive_retransmissions ?s > MAX_RETX_ATTEMPTS"
    using quiet(2) by (simp add: s consecutive_retransmissions_def not_less)
  moreover have "bs_eof (sn_stream ?s)"
    using sender_summary_FIN_ACKED [of S N "cn_sender c"] inv fin(1) by (simp add: s cn_inv_def)
  ultimately show ?thesis
    using act sum fin(2)
    by (auto simp: cn_tick_def active_def Let_def clean_shutdown_def cn_send_segment_eq not_le)
qed

definition time_wait_example :: tcp_connection where
  "time_wait_example = (cn_new 0 tcp_config_default)
     \<lparr>cn_sender := (sn_new 0 DEFAULT_CAPACITY 1000 None)
        \<lparr>sn_next_seqno := 2, sn_last_ackno := 2, sn_stream := end_input (bs_new DEFAULT_CAPACITY)\<rparr>,
      cn_receiver := (rc_new DEFAULT_CAPACITY)
        \<lparr>rc_syn := True, rc_reassembler := (sr_new DEFAULT_CAPACITY)\<lparr>sr_output := end_input (bs_new DEFAULT_CAPACITY)\<rparr>\<rparr>\<rparr>"

lemmas example_defs = cn_new_def rc_new_def sn_new_def sr_new_def bs_new_def end_input_def timer_default_def
  tcp_config_default_def DEFAULT_CAPACITY_def TIMEOUT_DFLT_def SIZE_MOD_def

lemma time_wait_example_inv: "cn_inv (\<lambda>_. 0) 0 time_wait_example"
proof -
  have "rc_inv (cn_receiver time_wait_example)"
    by (simp add: time_wait_example_def rc_inv_def sr_inv_def sr_core_def sr_limit_def bs_inv_def example_defs
        sz_add_def input_ended_def)
  moreover have "sn_inv (\<lambda>_. 0) 0 (cn_sender time_wait_example)"
    by (simp add: time_wait_example_def sn_inv_def stream_part_def seq_phase_def bs_inv_def example_defs
        sz_add_def bs_accessor_defs)
  ultimately show ?thesis by (simp add: cn_inv_def) (simp add: time_wait_example_def example_defs)
qed

theorem lingering_ends_connection_witness:
  "\<exists>c'. cn_tick time_wait_example 9999 = Some c' \<and> cn_isactive c'"
proof -
  let ?c = time_wait_example
  have "sender_summary (cn_sender ?c) = SENDER_FIN_ACKED"
    by (simp add: time_wait_example_def sender_summary_def example_defs next_seqno_absolute_def
        sn_bytes_in_flight_def sz_sub_def sz_add_def bs_accessor_defs)
  moreover have "receiver_summary (cn_receiver ?c) = RECEIVER_FIN_RECV"
    by (simp add: time_wait_example_def receiver_summary_FIN_RECV example_defs rc_stream_out_def input_ended_def)
  moreover have "cn_isactive ?c" "sn_outstanding_seg (cn_sender ?c) = []"
    "consecutive_retransmissions (cn_sender ?c) \<le> MAX_RETX_ATTEMPTS" "cn_linger_after_streams_finish ?c"
    "sz_add (cn_time_since_last_segment_received ?c) 9999 < 10 * unat (rt_timeout (cn_cfg ?c))"
    by (simp_all add: time_wait_example_def example_defs consecutive_retransmissions_def sz_add_def)
  ultimately show ?thesis
    using lingering_ends_connection [OF time_wait_example_inv, of 9999] by auto
qed

text \<open>
  When the peer's stream has ended while our own still has bytes to send or is still open, the
  connection stops wanting to linger: whatever segment was just processed, the flag is off.
\<close>

theorem passive_close_does_not_linger:
  assumes "cn_inv S N c" and "rc_fits (cn_receiver c) seg" and "cn_isactive c" and "\<not> rst (header seg)"
  shows "\<exists>c'. cn_segment_received c seg = Some c' \<and>
    (input_ended (inbound_stream c') \<and> \<not> bs_eof (sn_stream (cn_sender c')) \<longrightarrow>
       \<not> cn_linger_after_streams_finish c')"
  by (rule cn_segment_received_sends [OF assms]) blast

theorem passive_close_does_not_linger_witness:
  "\<exists>c'. cn_segment_received (cn_new 9 tcp_config_default) (syn_segment (WrappingInt32 5)) = Some c' \<and>
     (input_ended (inbound_stream c') \<and> \<not> bs_eof (sn_stream (cn_sender c')) \<longrightarrow>
       \<not> cn_linger_after_streams_finish c')"
proof (rule passive_close_does_not_linger)
  show "cn_inv (\<lambda>_. 0) 0 (cn_new 9 tcp_config_default)"
    by (rule cn_new_inv) (simp_all add: example_defs)
qed (simp_all add: rc_fits_def syn_segment_def example_defs sr_limit_def)

text \<open>
  Destroying an active connection that has nothing to send puts no segment on the wire: the
  branch for an empty queue stores a plain segment in the sender's queue and returns before a RST is
  set, although the connection counts as reset afterwards.
\<close>

theorem destructor_sends_no_rst:
  assumes "cn_inv S N c" and "cn_isactive c" and "0 < sn_last_ackno (cn_sender c)"
    and "bs_buff (sn_stream (cn_sender c)) = []" and "\<not> bs_end_input (sn_stream (cn_sender c))"
    and "sn_segments_out (cn_sender c) = []"
  shows "\<exists>c'. cn_destroy c = Some c' \<and> cn_segments_out c' = cn_segments_out c \<and> \<not> cn_isactive c'"
proof -
  have "fill_window (cn_sender c) = Some (cn_sender c)"
    using assms by (intro fill_window_idle) (auto simp: cn_inv_def)
  then show ?thesis
    using assms(2,6) by (simp add: cn_destroy_def active_def send_rst_segment_def unclean_shutdown_def)
qed

definition idle_example :: tcp_connection where
  "idle_example = (cn_new 0 tcp_config_default)
     \<lparr>cn_sender := (sn_new 0 DEFAULT_CAPACITY 1000 None)\<lparr>sn_next_seqno := 1, sn_last_ackno := 1\<rparr>\<rparr>"

theorem destructor_sends_no_rst_witness:
  "\<exists>c'. cn_destroy idle_example = Some c' \<and> cn_segments_out c' = [] \<and> \<not> cn_isactive c'"
proof -
  have "sn_inv (\<lambda>_. 0) 0 (cn_sender idle_example)"
    by (simp add: idle_example_def sn_inv_def stream_part_def seq_phase_def bs_inv_def example_defs sz_add_def)
  moreover have "rc_inv (cn_receiver idle_example)"
    by (simp add: idle_example_def cn_new_def rc_new_inv tcp_config_default_def DEFAULT_CAPACITY_def SIZE_MOD_def)
  ultimately have "cn_inv (\<lambda>_. 0) 0 idle_example"
    by (simp add: cn_inv_def) (simp add: idle_example_def example_defs)
  then show ?thesis
    using destructor_sends_no_rst [of "\<lambda>_. 0" 0 idle_example] by (simp add: idle_example_def example_defs)
qed

text \<open>
  A connection that listens and never meant to connect sends a SYN when it receives a segment
  without SYN that acknowledges its initial sequence number.
\<close>

theorem stray_ack_opens_listener:
  "\<exists>c' seg. cn_segment_received (cn_new rnd (tcp_config_default\<lparr>fixed_isn := Some isn\<rparr>))
       (tcp_segment_default\<lparr>header := tcp_header_default\<lparr>ack := True, ackno := isn\<rparr>\<rparr>) = Some c' \<and>
     tcp_state_eq (cn_state c') (tcp_state_of SYN_SENT) \<and> cn_segments_out c' = [seg] \<and> syn (header seg)"
  by (simp add: cn_new_def tcp_config_default_def rc_new_def sn_new_def cn_segment_received_eq acknowledge_def
      respond_def rc_segment_received_def sn_ack_received_def fill_window_def unwrap_def wi_diff_def sz_add_def
      Let_def receiver_summary_def sender_summary_def rc_ackno_def rc_stream_out_def sr_new_def bs_new_def
      input_ended_def next_seqno_absolute_def sn_send_segment_def length_in_sequence_space_def SIZE_MOD_def
      cn_send_segment_eq clean_shutdown_def fill_ack_def cn_state_def tcp_state_new_def active_def
      tcp_state_default_def sn_bytes_in_flight_def bs_accessor_defs sz_sub_def)

end
