(* ===== verification/TCP_Network.thy ===== *)
theory TCP_Network
  imports TCP_Connection
begin

text \<open>
  Two connections and the network between them. An endpoint is a connection, the bytes its
  application has read so far and every segment its connection has handed to the network. The
  network may lose, repeat, delay and reorder: a receive step delivers any segment that the other
  endpoint has ever sent. \<open>S\<close> and \<open>N\<close> are the stream that the application of an endpoint writes and its
  length.
\<close>

section \<open>The system\<close>

record endpoint =
  ep_conn :: tcp_connection
  ep_log :: bytes
  ep_sent :: "tcp_segment list"

definition ep_new :: "u32 \<Rightarrow> tcp_config \<Rightarrow> endpoint" where
  "ep_new rnd cfg = \<lparr>ep_conn = cn_new rnd cfg, ep_log = [], ep_sent = []\<rparr>"

inductive ep_step :: "(nat \<Rightarrow> byte) \<Rightarrow> nat \<Rightarrow> tcp_segment set \<Rightarrow> endpoint \<Rightarrow> endpoint \<Rightarrow> bool"
  for S N net where
  ep_connect: "connect (ep_conn e) = Some c \<Longrightarrow> ep_step S N net e (e\<lparr>ep_conn := c\<rparr>)"
| ep_write: "cn_write (ep_conn e) d = Some (n, c) \<Longrightarrow> w = bs_bytes_w (sn_stream (cn_sender (ep_conn e))) \<Longrightarrow>
    d = map S [w..<w + length d] \<Longrightarrow> w + length d \<le> N \<Longrightarrow> ep_step S N net e (e\<lparr>ep_conn := c\<rparr>)"
| ep_end: "end_input_stream (ep_conn e) = Some c \<Longrightarrow> bs_bytes_w (sn_stream (cn_sender (ep_conn e))) = N \<Longrightarrow>
    ep_step S N net e (e\<lparr>ep_conn := c\<rparr>)"
| ep_read: "cn_read (ep_conn e) n = (out, c) \<Longrightarrow>
    ep_step S N net e (e\<lparr>ep_conn := c, ep_log := ep_log e @ out\<rparr>)"
| ep_receive: "seg \<in> net \<Longrightarrow> cn_segment_received (ep_conn e) seg = Some c \<Longrightarrow>
    ep_step S N net e (e\<lparr>ep_conn := c\<rparr>)"
| ep_tick: "cn_tick (ep_conn e) ms = Some c \<Longrightarrow> ep_step S N net e (e\<lparr>ep_conn := c\<rparr>)"
| ep_send: "cn_segments_out (ep_conn e) = seg # segs \<Longrightarrow>
    ep_step S N net e (e\<lparr>ep_conn := (ep_conn e)\<lparr>cn_segments_out := segs\<rparr>, ep_sent := ep_sent e @ [seg]\<rparr>)"

inductive_cases ep_stepE: "ep_step S N net e e'"

inductive net_step :: "(nat \<Rightarrow> byte) \<Rightarrow> nat \<Rightarrow> (nat \<Rightarrow> byte) \<Rightarrow> nat \<Rightarrow>
    endpoint \<times> endpoint \<Rightarrow> endpoint \<times> endpoint \<Rightarrow> bool" for S N T M where
  net_left: "ep_step S N (set (ep_sent b)) a a' \<Longrightarrow> net_step S N T M (a, b) (a', b)"
| net_right: "ep_step T M (set (ep_sent a)) b b' \<Longrightarrow> net_step S N T M (a, b) (a, b')"

section \<open>The receiving side\<close>

text \<open>
  The receiver and the log of its reader hold a prefix of the peer's stream \<open>T\<close>, whose length \<open>M\<close> keeps
  all sequence numbers within one half of the 32 bit space.
\<close>

definition rx_inv :: "(nat \<Rightarrow> byte) \<Rightarrow> nat \<Rightarrow> wrapping_int32 \<Rightarrow> tcp_receiver \<Rightarrow> bytes \<Rightarrow> bool" where
  "rx_inv T M isn r log \<longleftrightarrow> rc_tracks T M isn (rc_capacity r) (r, log) \<and>
     bs_bytes_r (rc_stream_out r) \<le> M \<and> sr_all (\<lambda>i _. i < M) (rc_reassembler r) \<and>
     rc_capacity r + 4294967296 + SEQ_MOD < SIZE_MOD \<and> M + 2 \<le> 2147483648"

lemma rx_inv_assembled:
  assumes "rx_inv T M isn r log"
  shows "first_unassembled (rc_reassembler r) \<le> M"
    and "log @ bs_buff (rc_stream_out r) = map T [0..<first_unassembled (rc_reassembler r)]"
proof -
  let ?ra = "rc_reassembler r"
  have rc: "rc_inv r" "rc_part T M ?ra" "log = map T [0..<bs_bytes_r (sr_output ?ra)]"
    using assms by (auto simp: rx_inv_def rc_stream_out_def)
  have fua: "first_unassembled ?ra = bs_bytes_r (sr_output ?ra) + length (bs_buff (sr_output ?ra))"
    using rc(1) sr_core_written(1) by (simp add: rc_inv_def sr_inv_def)
  have le: "\<forall>k < length (bs_buff (sr_output ?ra)). bs_bytes_r (sr_output ?ra) + k < M"
    using assms by (simp add: rx_inv_def sr_all_def data_all_def)
  show "first_unassembled ?ra \<le> M"
  proof (cases "bs_buff (sr_output ?ra) = []")
    case True
    then show ?thesis using assms fua by (simp add: rx_inv_def rc_stream_out_def)
  next
    case False
    then show ?thesis using le [rule_format, of "length (bs_buff (sr_output ?ra)) - 1"] fua by simp
  qed
  have "bs_buff (sr_output ?ra) = map T [bs_bytes_r (sr_output ?ra)..<bs_bytes_r (sr_output ?ra) + length (bs_buff (sr_output ?ra))]"
    using rc(2) by (simp add: rc_part_def sr_all_def data_all_stream)
  from stream_prefix_extend [OF this] show "log @ bs_buff (rc_stream_out r) = map T [0..<first_unassembled ?ra]"
    using rc(3) fua by (simp add: rc_stream_out_def)
qed

lemma rx_inv_error: "rx_inv T M isn (rc_set_error r) log = rx_inv T M isn r log"
proof -
  have "rc_part T M (rc_reassembler (rc_set_error r)) = rc_part T M (rc_reassembler r)"
    "sr_all P (rc_reassembler (rc_set_error r)) = sr_all P (rc_reassembler r)" for P
    by (simp_all add: rc_part_def sr_all_def rc_set_error_def rc_stream_out_def first_unassembled_def
        bytes_written_def input_ended_def set_error_def)
  moreover have "rc_capacity (rc_set_error r) = rc_capacity r" "rc_syn (rc_set_error r) = rc_syn r"
    "rc_isn (rc_set_error r) = rc_isn r" "bs_bytes_r (rc_stream_out (rc_set_error r)) = bs_bytes_r (rc_stream_out r)"
    by (simp_all add: rc_set_error_def rc_stream_out_def set_error_def)
  ultimately show ?thesis by (simp add: rx_inv_def)
qed

text \<open>A segment of the peer is a segment of its stream in the sense of the receiver.\<close>

lemma sent_seg_of_stream:
  assumes rx: "rx_inv T M isn r log" and seg: "sent_seg T M isn n seg"
  shows "segment_of T M isn r seg" and "rc_fits r seg"
    and "rc_syn r \<or> syn (header seg) \<Longrightarrow> data_all (\<lambda>i _. i < M) (rc_index r seg) (buffer_str (payload seg))"
proof -
  have fua: "first_unassembled (rc_reassembler r) \<le> M" using rx_inv_assembled(1) [OF rx] .
  have near: "near r i" if "i \<le> M" for i
    using that fua rx by (simp add: near_def rx_inv_def Let_def)
  consider (bare) "bare seg" | (syn) "seg_at T M isn 0 seg" | (data) a where "seg_at T M isn a seg" "0 < a"
    using seg by (auto simp: sent_seg_def)
  note cases = this
  show seg_of: "segment_of T M isn r seg"
    using cases
  proof cases
    case data
    then have "carries T M isn (a - 1) seg" "a - 1 \<le> M" "\<not> syn (header seg)"
      by (auto simp: carries_def seg_at_def)
    then show ?thesis using near by (auto simp: segment_of_def)
  qed (auto simp: segment_of_def bare_def seg_at_def)
  have "length (buffer_str (payload seg)) \<le> MAX_PAYLOAD_SIZE"
    using cases by cases (auto simp: bare_def seg_at_def)
  then show "rc_fits r seg"
    using rx by (simp add: rc_fits_def rx_inv_def sr_limit_def rc_stream_out_def MAX_PAYLOAD_SIZE_def rc_inv_def SEQ_MOD_def)
  assume syn: "rc_syn r \<or> syn (header seg)"
  show "data_all (\<lambda>i _. i < M) (rc_index r seg) (buffer_str (payload seg))"
    using cases
  proof cases
    case data
    then have s: "seqno (header seg) = wrap (Suc (a - 1)) isn" "a - 1 \<le> M" "\<not> syn (header seg)"
      "a - 1 + length (buffer_str (payload seg)) \<le> M"
      by (auto simp: seg_at_def)
    moreover have "rc_syn r" "rc_isn r = isn" using syn s(3) rx by (auto simp: rx_inv_def)
    ultimately have "rc_index r seg = a - 1" using rc_index_near [of r seg "a - 1"] near by simp
    then show ?thesis using s(4) by (simp add: data_all_def)
  qed (simp_all add: bare_def seg_at_def)
qed

lemma rx_inv_segment:
  assumes rx: "rx_inv T M isn r log" and seg: "sent_seg T M isn n seg"
    and r': "rc_segment_received r seg = Some r'"
  shows "rx_inv T M isn r' log"
proof -
  note of = sent_seg_of_stream [OF rx seg]
  have tr: "rc_tracks T M isn (rc_capacity r) (r, log)" and M: "M < SIZE_MOD"
    using rx by (auto simp: rx_inv_def SIZE_MOD_def)
  from rc_tracks_segment [OF tr _ M, of seg] of(1,2) r'
  have tr': "rc_tracks T M isn (rc_capacity r) (r', log)" by simp
  have frame: "rc_capacity r' = rc_capacity r" "bs_bytes_r (rc_stream_out r') = bs_bytes_r (rc_stream_out r)"
    using rc_segment_received_total [of r seg] tr of(2) r' by auto
  have "sr_all (\<lambda>i _. i < M) (rc_reassembler r')"
  proof (cases "rc_syn r \<or> syn (header seg)")
    case True
    obtain ra where ra: "push_substring (rc_reassembler r) (buffer_str (payload seg)) (rc_index r seg)
        (fin (header seg)) = Some ra" "rc_reassembler r' = ra"
      using r' by (auto simp: rc_segment_received_push [OF True])
    with sr_push_step [of "rc_reassembler r" "buffer_str (payload seg)" "rc_index r seg" "fin (header seg)"]
      of(2) of(3) [OF True] tr rx show ?thesis by (auto simp: rc_inv_def rc_fits_def rx_inv_def)
  next
    case False
    then show ?thesis using r' rx by (simp add: rc_segment_received_ignored rx_inv_def)
  qed
  with tr' frame rx show ?thesis by (simp add: rx_inv_def)
qed

lemma rx_inv_read:
  assumes rx: "rx_inv T M isn (cn_receiver c) log" and rd: "cn_read c n = (out, c')"
  shows "rx_inv T M isn (cn_receiver c') (log @ out)"
    and "sr_limit (rc_reassembler (cn_receiver c)) + buffer_size (inbound_stream c) < SIZE_MOD"
    and "cn_sender c' = cn_sender c" "cn_segments_out c' = cn_segments_out c"
proof -
  let ?r = "cn_receiver c" and ?ra = "rc_reassembler (cn_receiver c)"
  have tr: "rc_tracks T M isn (rc_capacity ?r) (?r, log)" using rx by (simp add: rx_inv_def)
  have inv: "sr_inv ?ra" and cap: "sr_capacity ?ra = rc_capacity ?r" using tr by (auto simp: rc_inv_def)
  have "first_unassembled ?ra \<le> M" "bs_bytes_r (sr_output ?ra) \<le> M"
    using rx_inv_assembled(1) [OF rx] rx by (auto simp: rx_inv_def rc_stream_out_def)
  moreover have "buffer_size (sr_output ?ra) \<le> first_unassembled ?ra"
    using sr_core_written(1) [of ?ra] inv by (simp add: sr_inv_def buffer_size_def)
  ultimately show fits: "sr_limit ?ra + buffer_size (inbound_stream c) < SIZE_MOD"
    using rx cap by (simp add: rx_inv_def inbound_stream_def rc_stream_out_def sr_limit_def)
  have c': "c' = c\<lparr>cn_receiver := ?r\<lparr>rc_reassembler := ?ra\<lparr>sr_output := snd (bs_read (sr_output ?ra) n)\<rparr>\<rparr>\<rparr>"
    "out = fst (bs_read (sr_output ?ra) n)"
    using rd by (auto simp: cn_read_def inbound_stream_def rc_stream_out_def prod.case_eq_if Let_def)
  then show "cn_sender c' = cn_sender c" "cn_segments_out c' = cn_segments_out c" by simp_all
  have step: "rc_step (?r, log) (RcRead n) = Some (cn_receiver c', log @ out)"
    by (simp add: c' rc_stream_out_def prod.case_eq_if)
  have "rc_ok T M isn (?r, log) (RcRead n)"
    using fits by (simp add: inbound_stream_def)
  from rc_tracks_read [OF tr this] step have tr': "rc_tracks T M isn (rc_capacity ?r) (cn_receiver c', log @ out)"
    by simp
  have fits': "sr_limit ?ra + buffer_size (sr_output ?ra) < SIZE_MOD"
    using fits by (simp add: inbound_stream_def rc_stream_out_def)
  note rs = sr_read_step [OF inv fits', where n = n]
  have all: "sr_all (\<lambda>i _. i < M) ?ra" using rx by (simp add: rx_inv_def)
  have "bs_bytes_r (rc_stream_out (cn_receiver c')) \<le> M"
  proof (cases "fst (bs_read (sr_output ?ra) n) = []")
    case True
    then show ?thesis using rs(3) rx by (simp add: c' rc_stream_out_def rx_inv_def)
  next
    case False
    then show ?thesis
      using rs(3) rs(4) [OF all] by (auto simp: c' rc_stream_out_def data_all_def dest: spec [of _ "length (fst (bs_read (sr_output ?ra) n)) - 1"])
  qed
  moreover have "sr_all (\<lambda>i _. i < M) (rc_reassembler (cn_receiver c'))"
    using rs(2) [OF all] by (simp add: c')
  moreover have "rc_capacity (cn_receiver c') = rc_capacity ?r" by (simp add: c')
  ultimately show "rx_inv T M isn (cn_receiver c') (log @ out)"
    using tr' rx by (simp add: rx_inv_def)
qed

section \<open>Endpoints\<close>

text \<open>
  The invariant of an endpoint: its connection is well formed for its own stream, everything it has
  sent is explained by that stream, and what it received by the stream of the peer. \<open>isn\<close> and \<open>pisn\<close>
  are the two initial sequence numbers.
\<close>

definition ep_inv :: "(nat \<Rightarrow> byte) \<Rightarrow> nat \<Rightarrow> (nat \<Rightarrow> byte) \<Rightarrow> nat \<Rightarrow> wrapping_int32 \<Rightarrow> wrapping_int32 \<Rightarrow> endpoint \<Rightarrow> bool" where
  "ep_inv S N T M isn pisn e \<longleftrightarrow> cn_inv S N (ep_conn e) \<and> N + 2 \<le> 2147483648 \<and>
     sn_isn (cn_sender (ep_conn e)) = isn \<and>
     (\<forall>seg \<in> set (ep_sent e). sent_seg S N isn (N + 2) seg) \<and>
     rx_inv T M pisn (cn_receiver (ep_conn e)) (ep_log e)"

lemma sn_inv_next_bound: "sn_inv S N s \<Longrightarrow> sn_next_seqno s \<le> N + 2"
  by (auto simp: sn_inv_def seq_phase_def stream_part_def)

lemma ep_inv_update:
  assumes "ep_inv S N T M isn pisn e" and "cn_moves S N n (ep_conn e) c"
    and "rx_inv T M pisn (cn_receiver c) log"
  shows "ep_inv S N T M isn pisn (e\<lparr>ep_conn := c, ep_log := log\<rparr>)"
  using assms by (simp add: ep_inv_def cn_moves_def sn_moves_def)

lemma ep_inv_conn:
  assumes "ep_inv S N T M isn pisn e" and "cn_moves S N n (ep_conn e) c"
    and "cn_receiver c \<in> {cn_receiver (ep_conn e), rc_set_error (cn_receiver (ep_conn e))}"
  shows "ep_inv S N T M isn pisn (e\<lparr>ep_conn := c\<rparr>)"
proof -
  have "rx_inv T M pisn (cn_receiver c) (ep_log e)"
    using assms(1,3) rx_inv_error by (auto simp: ep_inv_def)
  from ep_inv_update [OF assms(1,2) this] show ?thesis by simp
qed

lemma ep_inv_step:
  assumes inv: "ep_inv S N T M isn pisn e" and net: "\<forall>seg \<in> net. sent_seg T M pisn n seg"
    and step: "ep_step S N net e e'"
  shows "ep_inv S N T M isn pisn e'"
proof -
  have cn: "cn_inv S N (ep_conn e)" and N: "N + 2 < SIZE_MOD" and rx: "rx_inv T M pisn (cn_receiver (ep_conn e)) (ep_log e)"
    using inv by (auto simp: ep_inv_def SIZE_MOD_def)
  from step show ?thesis
  proof cases
    case (ep_connect c)
    then show ?thesis using connect_inv [OF cn] ep_inv_conn [OF inv, of 0 c] by auto
  next
    case (ep_write d n c w)
    then have "sn_ok S N (cn_sender (ep_conn e)) (SnWrite d)" using N by auto
    from cn_write_inv [OF cn this] show ?thesis
      using ep_write ep_inv_conn [OF inv, of "length d" c] by auto
  next
    case (ep_end c)
    then show ?thesis using end_input_stream_inv [OF cn] ep_inv_conn [OF inv, of 0 c] by auto
  next
    case (ep_read n out c)
    note rd = rx_inv_read [OF rx ep_read(2)]
    have "cn_inv S N c" using cn_read_inv [OF cn, of n] rd(2) ep_read(2) by simp
    then have "cn_moves S N 0 (ep_conn e) c" using rd(3) by (simp add: cn_moves_def)
    then show ?thesis using ep_inv_update [OF inv _ rd(1)] ep_read(1) by simp
  next
    case (ep_receive seg c)
    have seg: "sent_seg T M pisn n seg" using net ep_receive(2) by blast
    from cn_segment_received_inv [OF cn sent_seg_of_stream(2) [OF rx seg]] ep_receive(3)
    have c: "cn_moves S N 0 (ep_conn e) c" "cn_receiver c \<in> {cn_receiver (ep_conn e), rc_set_error (cn_receiver (ep_conn e))} \<or>
        rc_segment_received (cn_receiver (ep_conn e)) seg = Some (cn_receiver c)" by auto
    then have "rx_inv T M pisn (cn_receiver c) (ep_log e)"
      using rx rx_inv_error rx_inv_segment [OF rx seg] by auto
    from ep_inv_update [OF inv c(1) this] show ?thesis using ep_receive(1) by simp
  next
    case (ep_tick ms c)
    then show ?thesis using cn_tick_inv [OF cn, of ms] ep_inv_conn [OF inv, of 0 c] by auto
  next
    case (ep_send seg segs)
    have "sent_seg S N isn (sn_next_seqno (cn_sender (ep_conn e))) seg"
      using cn ep_send inv by (auto simp: cn_inv_def ep_inv_def)
    then have "sent_seg S N isn (N + 2) seg"
      using sent_seg_mono sn_inv_next_bound cn by (auto simp: cn_inv_def)
    with inv ep_send show ?thesis by (auto simp: ep_inv_def cn_inv_def)
  qed
qed

lemma ep_new_inv:
  assumes "recv_capacity cfg + 4294967296 + SEQ_MOD < SIZE_MOD" and "send_capacity cfg + 2 < SIZE_MOD"
    and "N + 2 \<le> 2147483648" and "M + 2 \<le> 2147483648"
  shows "ep_inv S N T M (sn_isn (cn_sender (cn_new rnd cfg))) pisn (ep_new rnd cfg)"
proof -
  have "cn_inv S N (cn_new rnd cfg)" using assms by (intro cn_new_inv) auto
  moreover have "rx_inv T M pisn (rc_new (recv_capacity cfg)) []"
    using assms rc_new_inv [of "recv_capacity cfg"]
    by (simp add: rx_inv_def) (simp add: rc_new_def rc_part_def sr_all_def sr_new_def bs_new_def input_ended_def rc_stream_out_def)
  ultimately show ?thesis using assms(3) by (simp add: ep_inv_def ep_new_def) (simp add: cn_new_def)
qed

section \<open>The invariant of the system\<close>

definition net_inv :: "(nat \<Rightarrow> byte) \<Rightarrow> nat \<Rightarrow> (nat \<Rightarrow> byte) \<Rightarrow> nat \<Rightarrow> wrapping_int32 \<Rightarrow> wrapping_int32 \<Rightarrow>
    endpoint \<times> endpoint \<Rightarrow> bool" where
  "net_inv S N T M isna isnb ab \<longleftrightarrow>
     ep_inv S N T M isna isnb (fst ab) \<and> ep_inv T M S N isnb isna (snd ab)"

lemma net_inv_step:
  assumes "net_inv S N T M isna isnb ab" and "net_step S N T M ab ab'"
  shows "net_inv S N T M isna isnb ab'"
  using assms(2,1)
proof cases
  case (net_left b a a')
  then have "\<forall>seg \<in> set (ep_sent b). sent_seg T M isnb (M + 2) seg"
    using assms(1) by (simp add: net_inv_def ep_inv_def)
  from ep_inv_step [OF _ this] net_left assms(1) show ?thesis by (auto simp: net_inv_def)
next
  case (net_right a b b')
  then have "\<forall>seg \<in> set (ep_sent a). sent_seg S N isna (N + 2) seg"
    using assms(1) by (simp add: net_inv_def ep_inv_def)
  from ep_inv_step [OF _ this] net_right assms(1) show ?thesis by (auto simp: net_inv_def)
qed

lemma net_inv_reachable:
  assumes "(net_step S N T M)\<^sup>*\<^sup>* ab ab'" and "net_inv S N T M isna isnb ab"
  shows "net_inv S N T M isna isnb ab'"
  using assms by (induction rule: rtranclp_induct) (auto intro: net_inv_step)

lemma ep_inv_received:
  assumes "ep_inv S N T M isn pisn e"
  shows "\<exists>k \<le> M. ep_log e @ bs_buff (inbound_stream (ep_conn e)) = map T [0..<k] \<and>
    (input_ended (inbound_stream (ep_conn e)) \<longrightarrow> k = M)"
proof -
  have rx: "rx_inv T M pisn (cn_receiver (ep_conn e)) (ep_log e)" using assms by (simp add: ep_inv_def)
  have "input_ended (inbound_stream (ep_conn e)) \<longrightarrow> first_unassembled (rc_reassembler (cn_receiver (ep_conn e))) = M"
    using rx by (simp add: rx_inv_def rc_part_def inbound_stream_def rc_stream_out_def)
  with rx_inv_assembled [OF rx] show ?thesis by (auto simp: inbound_stream_def)
qed

text \<open>No call of an endpoint is stuck: whatever is received was sent by the peer, so it is processed.\<close>

lemma ep_calls_return:
  assumes inv: "ep_inv S N T M isn pisn e" and net: "\<forall>seg \<in> net. sent_seg T M pisn n seg"
  shows "\<exists>c. connect (ep_conn e) = Some c" and "\<exists>c. cn_tick (ep_conn e) ms = Some c"
    and "seg \<in> net \<Longrightarrow> \<exists>c. cn_segment_received (ep_conn e) seg = Some c"
proof -
  have cn: "cn_inv S N (ep_conn e)" and rx: "rx_inv T M pisn (cn_receiver (ep_conn e)) (ep_log e)"
    using inv by (auto simp: ep_inv_def)
  show "\<exists>c. connect (ep_conn e) = Some c" using connect_inv [OF cn] by blast
  show "\<exists>c. cn_tick (ep_conn e) ms = Some c" using cn_tick_inv [OF cn, of ms] by blast
  show "\<exists>c. cn_segment_received (ep_conn e) seg = Some c" if "seg \<in> net"
    using cn_segment_received_inv [OF cn sent_seg_of_stream(2) [OF rx]] net that by blast
qed

section \<open>One connection at a time\<close>

text \<open>
  For a program that owns a connection: every call of it is a step of an endpoint. \<open>log\<close> is what has
  been read from the connection.
\<close>

abbreviation ep :: "tcp_connection \<Rightarrow> bytes \<Rightarrow> endpoint" where
  "ep c log \<equiv> \<lparr>ep_conn = c, ep_log = log, ep_sent = []\<rparr>"

abbreviation cn_written :: "tcp_connection \<Rightarrow> nat" where
  "cn_written c \<equiv> bs_bytes_w (sn_stream (cn_sender c))"

lemma cn_moves_written: "cn_moves S N 0 c c' \<Longrightarrow> cn_written c' = cn_written c"
  by (simp add: cn_moves_def sn_moves_def)

lemma ep_takes_step:
  assumes "ep_inv S N T M isn pisn (ep c log)" and "ep_step S N net (ep c log) (ep c' log')"
    and "\<forall>seg \<in> net. sent_seg T M pisn n seg"
  shows "ep_inv S N T M isn pisn (ep c' log')"
  using ep_inv_step assms by blast

lemma ep_takes_segment:
  assumes inv: "ep_inv S N T M isn pisn (ep c log)" and seg: "sent_seg T M pisn n seg"
    and c': "cn_segment_received c seg = Some c'"
  shows "ep_inv S N T M isn pisn (ep c' log) \<and> cn_written c' = cn_written c"
proof
  have "ep_step S N {seg} (ep c log) (ep c' log)"
    using ep_receive [of seg "{seg}" "ep c log" c'] c' by simp
  then show "ep_inv S N T M isn pisn (ep c' log)" using ep_takes_step [OF inv] seg by blast
  have "rc_fits (cn_receiver c) seg" using sent_seg_of_stream(2) seg inv by (auto simp: ep_inv_def)
  then show "cn_written c' = cn_written c"
    using cn_segment_received_inv [of S N c seg] inv c' cn_moves_written by (auto simp: ep_inv_def)
qed

lemma ep_takes_tick:
  assumes inv: "ep_inv S N T M isn pisn (ep c log)" and c': "cn_tick c ms = Some c'"
  shows "ep_inv S N T M isn pisn (ep c' log) \<and> cn_written c' = cn_written c"
proof
  have "ep_step S N {} (ep c log) (ep c' log)" using ep_tick [of "ep c log" ms c'] c' by simp
  then show "ep_inv S N T M isn pisn (ep c' log)" using ep_takes_step [OF inv] by blast
  show "cn_written c' = cn_written c"
    using cn_tick_inv [of S N c ms] inv c' cn_moves_written by (auto simp: ep_inv_def)
qed

lemma ep_takes_connect:
  assumes inv: "ep_inv S N T M isn pisn (ep c log)" and c': "TCP_Connection.connect c = Some c'"
  shows "ep_inv S N T M isn pisn (ep c' log) \<and> cn_written c' = cn_written c"
proof
  have "ep_step S N {} (ep c log) (ep c' log)" using ep_connect [of "ep c log" c'] c' by simp
  then show "ep_inv S N T M isn pisn (ep c' log)" using ep_takes_step [OF inv] by blast
  show "cn_written c' = cn_written c"
    using connect_inv [of S N c] inv c' cn_moves_written by (auto simp: ep_inv_def)
qed

lemma ep_takes_end:
  assumes inv: "ep_inv S N T M isn pisn (ep c log)" and c': "end_input_stream c = Some c'" and N: "cn_written c = N"
  shows "ep_inv S N T M isn pisn (ep c' log) \<and> cn_written c' = cn_written c"
proof
  have "ep_step S N {} (ep c log) (ep c' log)" using ep_end [of "ep c log" c'] c' N by simp
  then show "ep_inv S N T M isn pisn (ep c' log)" using ep_takes_step [OF inv] by blast
  show "cn_written c' = cn_written c"
    using end_input_stream_inv [of S N c] inv c' N cn_moves_written by (auto simp: ep_inv_def)
qed

lemma ep_takes_write:
  assumes inv: "ep_inv S N T M isn pisn (ep c log)" and c': "cn_write c d = Some (n, c')"
    and d: "d = map S [cn_written c..<cn_written c + length d]" "cn_written c + length d \<le> N" and n: "n = length d"
  shows "ep_inv S N T M isn pisn (ep c' log) \<and> cn_written c' = cn_written c + length d"
proof
  have "ep_step S N {} (ep c log) (ep c' log)" using ep_write [of "ep c log" d n c' _ S N "{}"] c' d by simp
  then show "ep_inv S N T M isn pisn (ep c' log)" using ep_takes_step [OF inv] by blast
  have "sn_ok S N (cn_sender c) (SnWrite d)" using d inv by (simp add: ep_inv_def SIZE_MOD_def)
  then show "cn_written c' = cn_written c + length d"
    using cn_write_accepts(1) [OF _ _ c'] inv n by (auto simp: ep_inv_def)
qed

end
