(* ===== verification/Net_Parser.thy ===== *)
theory Net_Parser
  imports Net_Buffer
begin

text \<open>
  The integer parser and unparser of \<open>libsponge/util/parser.hh\<close> and \<open>parser.cc\<close>. The templates
  \<open>_parse_int\<close> and \<open>_unparse_int\<close> are polymorphic in the word type. A call that throws, or reads
  outside an array, returns \<^const>\<open>None\<close>. The locale \<open>wire_codec\<close> is the contract of everything that
  is written to and read back from the wire.
\<close>

unbundle bit_operations_syntax

section \<open>ParseResult\<close>

datatype parse_result = NoError | BadChecksum | PacketTooShort | WrongIPVersion | HeaderTooShort
  | TruncatedPacket | Unsupported

text \<open>The enumeration's values, which also order it.\<close>

fun parse_code :: "parse_result \<Rightarrow> nat" where
  "parse_code NoError = 0"
| "parse_code BadChecksum = 1"
| "parse_code PacketTooShort = 2"
| "parse_code WrongIPVersion = 3"
| "parse_code HeaderTooShort = 4"
| "parse_code TruncatedPacket = 5"
| "parse_code Unsupported = 6"

lemma parse_code_inj: "parse_code a = parse_code b \<longleftrightarrow> a = b"
  by (cases a; cases b) simp_all

instantiation parse_result :: linorder
begin

definition less_eq_parse_result :: "parse_result \<Rightarrow> parse_result \<Rightarrow> bool" where
  "less_eq_parse_result a b \<longleftrightarrow> parse_code a \<le> parse_code b"

definition less_parse_result :: "parse_result \<Rightarrow> parse_result \<Rightarrow> bool" where
  "less_parse_result a b \<longleftrightarrow> parse_code a < parse_code b"

instance
  by standard (auto simp: less_eq_parse_result_def less_parse_result_def parse_code_inj)

end

text \<open>The table has six entries and no bounds check.\<close>

definition as_string :: "parse_result \<Rightarrow> string option" where
  "as_string r =
     (let names = [''NoError'', ''BadChecksum'', ''PacketTooShort'', ''WrongIPVersion'', ''HeaderTooShort'',
                   ''TruncatedPacket'']
      in if parse_code r < length names then Some (names ! parse_code r) else None)"

section \<open>NetParser\<close>

record net_parser =
  np_buffer :: buffer
  np_error :: parse_result

definition np_new :: "buffer \<Rightarrow> net_parser" where
  "np_new b = \<lparr>np_buffer = b, np_error = NoError\<rparr>"

definition np_set_error :: "net_parser \<Rightarrow> parse_result \<Rightarrow> net_parser" where
  "np_set_error p r = p\<lparr>np_error := r\<rparr>"

definition np_has_error :: "net_parser \<Rightarrow> bool" where
  "np_has_error p \<longleftrightarrow> np_error p \<noteq> NoError"

definition np_check_size :: "net_parser \<Rightarrow> size_t \<Rightarrow> net_parser" where
  "np_check_size p n = (if n > buf_size (np_buffer p) then np_set_error p PacketTooShort else p)"

fun parse_bytes :: "buffer \<Rightarrow> nat list \<Rightarrow> 'a::len word \<Rightarrow> 'a word option" where
  "parse_bytes b [] ret = Some ret"
| "parse_bytes b (i # is) ret = do {
     c \<leftarrow> buffer_at b i;
     parse_bytes b is (push_bit 8 ret + ucast c)
   }"

definition np_parse_int :: "net_parser \<Rightarrow> ('a::len word \<times> net_parser) option" where
  "np_parse_int p =
     (let len = LENGTH('a) div 8;
          p = np_check_size p len
      in if np_has_error p then Some (0, p)
         else do {
           ret \<leftarrow> parse_bytes (np_buffer p) [0..<len] 0;
           b \<leftarrow> buffer_remove_prefix (np_buffer p) len;
           Some (ret, p\<lparr>np_buffer := b\<rparr>)
         })"

definition np_remove_prefix :: "net_parser \<Rightarrow> size_t \<Rightarrow> net_parser option" where
  "np_remove_prefix p n =
     (let p = np_check_size p n
      in if np_has_error p then Some p
         else map_option (\<lambda>b. p\<lparr>np_buffer := b\<rparr>) (buffer_remove_prefix (np_buffer p) n))"

definition np_u32 :: "net_parser \<Rightarrow> (u32 \<times> net_parser) option" where
  "np_u32 p = np_parse_int p"

definition np_u16 :: "net_parser \<Rightarrow> (u16 \<times> net_parser) option" where
  "np_u16 p = np_parse_int p"

definition np_u8 :: "net_parser \<Rightarrow> (byte \<times> net_parser) option" where
  "np_u8 p = np_parse_int p"

section \<open>NetUnparser\<close>

definition nu_unparse_int :: "bytes \<Rightarrow> 'a::len word \<Rightarrow> bytes" where
  "nu_unparse_int s val =
     (let len = LENGTH('a) div 8
      in fold (\<lambda>i s. s @ [ucast (drop_bit ((len - i - 1) * 8) val AND 0xff)]) [0..<len] s)"

definition nu_u32 :: "bytes \<Rightarrow> u32 \<Rightarrow> bytes" where
  "nu_u32 s val = nu_unparse_int s val"

definition nu_u16 :: "bytes \<Rightarrow> u16 \<Rightarrow> bytes" where
  "nu_u16 s val = nu_unparse_int s val"

definition nu_u8 :: "bytes \<Rightarrow> byte \<Rightarrow> bytes" where
  "nu_u8 s val = nu_unparse_int s val"

text \<open>\<open>string::resize\<close> cuts or pads with zero bytes.\<close>

definition str_resize :: "bytes \<Rightarrow> nat \<Rightarrow> bytes" where
  "str_resize s n = take n s @ replicate (n - length s) 0"

lemma str_resize_pad: "length s \<le> n \<Longrightarrow> str_resize s n = s @ replicate (n - length s) 0"
  by (simp add: str_resize_def)

section \<open>Big-endian values\<close>

lemma take_bit_small: "unat x < 2 ^ n \<Longrightarrow> take_bit n x = (x :: 'a::len word)"
  by (simp only: word_unat_eq_iff unsigned_take_bit_eq take_bit_nat_eq_self)

definition be_val :: "bytes \<Rightarrow> nat" where
  "be_val bs = foldl (\<lambda>a b. a * 256 + unat b) 0 bs"

lemma be_val_snoc: "be_val (bs @ [b]) = be_val bs * 256 + unat b"
  by (simp add: be_val_def)

lemma parse_bytes_append:
  "parse_bytes b (is @ js) ret = parse_bytes b is ret \<bind> parse_bytes b js"
  by (induction "is" arbitrary: ret) (auto split: bind_splits)

lemma parse_bytes_eq:
  "n \<le> length (buffer_str b) \<Longrightarrow>
     parse_bytes b [0..<n] (0 :: 'a::len word) = Some (of_nat (be_val (take n (buffer_str b))))"
proof (induction n)
  case 0
  then show ?case by (simp add: be_val_def)
next
  case (Suc n)
  have "ucast c = (of_nat (unat c) :: 'a word)" for c :: byte by transfer simp
  then have "push_bit 8 (of_nat a) + ucast c = (of_nat (a * 256 + unat c) :: 'a word)" for a and c :: byte
    by (simp add: push_bit_eq_mult mult.commute)
  with Suc show ?case
    by (simp add: parse_bytes_append buffer_at_def take_Suc_conv_app_nth be_val_snoc)
qed

lemma unparse_eq:
  fixes val :: "'a::len word"
  defines "n \<equiv> LENGTH('a) div 8"
  shows "nu_unparse_int s val = s @ map (\<lambda>i. ucast (drop_bit ((n - i - 1) * 8) val AND 0xff)) [0..<n]"
  by (simp add: nu_unparse_int_def n_def Let_def fold_snoc)

lemma unat_byte_of:
  fixes val :: "'a::len word"
  shows "unat (ucast (drop_bit k val AND 0xff) :: byte) = unat val div 2 ^ k mod 256"
proof -
  have "(drop_bit k val AND 0xff) = take_bit 8 (drop_bit k val)"
    by (simp add: take_bit_eq_mask mask_eq_exp_minus_1)
  then have "(ucast (drop_bit k val AND 0xff) :: byte) = ucast (drop_bit k val)"
    by (intro bit_word_eqI) (simp add: bit_simps)
  then show ?thesis
    by (simp add: unsigned_ucast_eq take_bit_eq_mod unat_drop_bit_eq flip: drop_bit_eq_div)
qed

lemma be_val_unparse:
  fixes val :: "'a::len word"
  shows "m \<le> n \<Longrightarrow> be_val (map (\<lambda>i. ucast (drop_bit ((n - i - 1) * 8) val AND 0xff)) [0..<m])
    = unat val div 256 ^ (n - m) mod 256 ^ m"
proof (induction m)
  case 0
  then show ?case by (simp add: be_val_def)
next
  case (Suc m)
  let ?v = "unat val div 256 ^ (n - Suc m)"
  have "2 ^ ((n - m - 1) * 8) = (256 :: nat) ^ (n - Suc m)"
    using power_mult [of "2 :: nat" 8 "n - Suc m"] by (simp add: mult.commute)
  then have b: "unat (ucast (drop_bit ((n - m - 1) * 8) val AND 0xff) :: byte) = ?v mod 256"
    by (simp only: unat_byte_of)
  have "unat val div 256 ^ (n - m) = ?v div 256"
    using Suc.prems by (simp add: Suc_diff_Suc div_mult2_eq [symmetric] flip: power_Suc2)
  with Suc b have "be_val (map (\<lambda>i. ucast (drop_bit ((n - i - 1) * 8) val AND 0xff)) [0..<Suc m])
      = ?v div 256 mod 256 ^ m * 256 + ?v mod 256"
    by (simp add: be_val_snoc)
  also have "\<dots> = ?v mod 256 ^ Suc m"
    by (simp add: mod_mult2_eq)
  finally show ?case .
qed

lemma be_val_unparse_int:
  fixes val :: "'a::len word"
  assumes "LENGTH('a) = 8 * n"
  shows "be_val (nu_unparse_int [] val) = unat val" and "length (nu_unparse_int s val) = length s + n"
proof -
  have "unat val < 256 ^ n" using unsigned_less [of val] assms by (simp add: power_mult)
  then show "be_val (nu_unparse_int [] val) = unat val"
    using be_val_unparse [of n n val] assms by (simp add: unparse_eq)
  show "length (nu_unparse_int s val) = length s + n" using assms by (simp add: unparse_eq)
qed

section \<open>Reading what was written\<close>

text \<open>A parser without error that has the bytes \<open>bs\<close> before it.\<close>

definition np_at :: "net_parser \<Rightarrow> bytes \<Rightarrow> bool" where
  "np_at p bs \<longleftrightarrow> np_error p = NoError \<and> buffer_str (np_buffer p) = bs \<and> buffer_inv (np_buffer p)"

text \<open>
  The contract of a format: what was written is read back, followed by the rest of the input, and
  input that is too short is reported.
\<close>

locale wire_codec =
  fixes put :: "'a \<Rightarrow> bytes"
    and get :: "net_parser \<Rightarrow> ('a \<times> net_parser) option"
    and valid :: "'a \<Rightarrow> bool"
  assumes get_put: "valid x \<Longrightarrow> np_at p (put x @ rest) \<Longrightarrow> \<exists>p'. get p = Some (x, p') \<and> np_at p' rest"
begin

lemma put_inj:
  assumes "valid x" and "valid y" and "put x @ r = put y @ s" and "length (put x @ r) < SIZE_MOD"
  shows "x = y \<and> r = s"
proof -
  have at: "np_at (np_new (buffer_of (put x @ r))) (put x @ r)"
    using assms(4) by (simp add: np_at_def np_new_def)
  obtain p where "get (np_new (buffer_of (put x @ r))) = Some (x, p)" "np_at p r"
    using get_put [OF assms(1) at] by blast
  moreover obtain q where "get (np_new (buffer_of (put x @ r))) = Some (y, q)" "np_at q s"
    using get_put [OF assms(2) at [unfolded assms(3)]] unfolding assms(3) by blast
  ultimately show ?thesis by (simp add: np_at_def)
qed

end

lemma np_check_size_at:
  "np_at p bs \<Longrightarrow> np_check_size p n = (if n > length bs then p\<lparr>np_error := PacketTooShort\<rparr> else p)"
  by (simp add: np_check_size_def np_at_def buf_size_def np_set_error_def)

lemma np_remove_prefix_at:
  assumes "np_at p bs" and "n \<le> length bs"
  shows "\<exists>p'. np_remove_prefix p n = Some p' \<and> np_at p' (drop n bs)"
proof -
  have "\<exists>b. buffer_remove_prefix (np_buffer p) n = Some b \<and> buffer_inv b \<and> buffer_str b = drop n bs"
    using buf.discard_ok [of "np_buffer p" n] assms by (simp add: np_at_def)
  with assms show ?thesis
    by (auto simp: np_remove_prefix_def np_check_size_at [OF assms(1)] np_has_error_def np_at_def)
qed

lemma np_parse_int_at:
  assumes "np_at p bs" and "LENGTH('a) div 8 \<le> length bs"
  shows "\<exists>p'. np_parse_int p = Some (of_nat (be_val (take (LENGTH('a) div 8) bs)) :: 'a::len word, p') \<and>
    np_at p' (drop (LENGTH('a) div 8) bs)"
proof -
  have "\<exists>b. buffer_remove_prefix (np_buffer p) (LENGTH('a) div 8) = Some b \<and> buffer_inv b \<and>
      buffer_str b = drop (LENGTH('a) div 8) bs"
    using buf.discard_ok [of "np_buffer p" "LENGTH('a) div 8"] assms by (simp add: np_at_def)
  moreover have "parse_bytes (np_buffer p) [0..<LENGTH('a) div 8] 0 =
      Some (of_nat (be_val (take (LENGTH('a) div 8) bs)) :: 'a word)"
    using parse_bytes_eq [of "LENGTH('a) div 8" "np_buffer p"] assms by (simp add: np_at_def)
  ultimately show ?thesis using assms
    by (auto simp: np_parse_int_def np_check_size_at [OF assms(1)] np_has_error_def np_at_def)
qed

text \<open>
  A parser that has been asked for the first \<open>n\<close> bytes of \<open>bs\<close>: either they were there, or it has
  the error \<^const>\<open>PacketTooShort\<close>.
\<close>

definition np_left :: "net_parser \<Rightarrow> bytes \<Rightarrow> nat \<Rightarrow> bool" where
  "np_left p bs n \<longleftrightarrow> (if n \<le> length bs then np_at p (drop n bs) else np_error p = PacketTooShort)"

lemma np_left_0: "np_left p bs 0 = np_at p bs"
  by (simp add: np_left_def)

lemma np_parse_int_left:
  assumes "np_left p bs n"
  shows "\<exists>v p'. np_parse_int p = Some (v :: 'a::len word, p') \<and> np_left p' bs (n + LENGTH('a) div 8) \<and>
    (n + LENGTH('a) div 8 \<le> length bs \<longrightarrow> v = of_nat (be_val (take (LENGTH('a) div 8) (drop n bs))))"
proof (cases "n + LENGTH('a) div 8 \<le> length bs")
  case True
  with assms np_parse_int_at [where 'a = 'a, of p "drop n bs"] show ?thesis
    by (fastforce simp: np_left_def add.commute)
next
  case False
  then have "np_error (np_check_size p (LENGTH('a) div 8)) = PacketTooShort"
    using assms by (auto simp: np_left_def np_at_def np_check_size_def buf_size_def np_set_error_def split: if_splits)
  with False show ?thesis by (simp add: np_parse_int_def np_has_error_def np_left_def Let_def)
qed

lemma np_remove_prefix_left:
  assumes "np_left p bs n"
  shows "\<exists>p'. np_remove_prefix p k = Some p' \<and> np_left p' bs (n + k)"
proof (cases "n + k \<le> length bs")
  case True
  with assms np_remove_prefix_at [of p "drop n bs" k] show ?thesis by (auto simp: np_left_def add.commute)
next
  case False
  then have "np_error (np_check_size p k) = PacketTooShort"
    using assms by (auto simp: np_left_def np_at_def np_check_size_def buf_size_def np_set_error_def split: if_splits)
  with False show ?thesis by (simp add: np_remove_prefix_def np_has_error_def np_left_def Let_def)
qed

text \<open>The field of \<open>k\<close> bytes at offset \<open>n\<close>, and the three reads in the form in which a header is read.\<close>

definition field :: "nat \<Rightarrow> nat \<Rightarrow> bytes \<Rightarrow> 'a::len word" where
  "field n k bs = of_nat (be_val (take k (drop n bs)))"

lemma np_u8_left:
  assumes "np_left p bs n" and "m = n + 1"
  shows "\<exists>v p'. np_u8 p = Some (v, p') \<and> np_left p' bs m \<and> (m \<le> length bs \<longrightarrow> v = field n 1 bs)"
  using np_parse_int_left [where 'a = 8, OF assms(1)] assms(2) by (simp add: np_u8_def field_def)

lemma np_u16_left:
  assumes "np_left p bs n" and "m = n + 2"
  shows "\<exists>v p'. np_u16 p = Some (v, p') \<and> np_left p' bs m \<and> (m \<le> length bs \<longrightarrow> v = field n 2 bs)"
  using np_parse_int_left [where 'a = 16, OF assms(1)] assms(2) by (simp add: np_u16_def field_def)

lemma np_u32_left:
  assumes "np_left p bs n" and "m = n + 4"
  shows "\<exists>v p'. np_u32 p = Some (v, p') \<and> np_left p' bs m \<and> (m \<le> length bs \<longrightarrow> v = field n 4 bs)"
  using np_parse_int_left [where 'a = 32, OF assms(1)] assms(2) by (simp add: np_u32_def field_def)

text \<open>What the three formats write is what the three reads expect.\<close>

lemma field_nu [simp]:
  "field 0 (Suc 0) (nu_u8 [] b @ ys) = b" "field 0 2 (nu_u16 [] w @ ys) = w" "field 0 4 (nu_u32 [] d @ ys) = d"
  using be_val_unparse_int(1) [where val = b and n = 1] be_val_unparse_int(1) [where val = w and n = 2]
    be_val_unparse_int(1) [where val = d and n = 4] be_val_unparse_int(2) [where val = b and n = 1 and s = "[]"]
    be_val_unparse_int(2) [where val = w and n = 2 and s = "[]"] be_val_unparse_int(2) [where val = d and n = 4 and s = "[]"]
  by (simp_all add: nu_u8_def nu_u16_def nu_u32_def field_def)

lemma field_Cons: "0 < n \<Longrightarrow> field n k (x # ys) = field (n - 1) k ys"
  by (cases n) (simp_all add: field_def)

lemma field_skip: "length xs \<le> n \<Longrightarrow> field n k (xs @ ys) = field (n - length xs) k ys"
  by (simp add: field_def)

lemma int_get_put:
  fixes val :: "'a::len word"
  assumes "LENGTH('a) = 8 * n" and at: "np_at p (nu_unparse_int [] val @ rest)"
  shows "\<exists>p'. np_parse_int p = Some (val, p') \<and> np_at p' rest"
proof -
  have "length (nu_unparse_int [] val) = n" using be_val_unparse_int(2) [OF assms(1)] by simp
  with np_parse_int_at [where 'a = 'a, OF at] assms(1) show ?thesis
    by (simp add: be_val_unparse_int(1) [OF assms(1)])
qed

interpretation u8: wire_codec "nu_u8 []" np_u8 "\<lambda>_. True"
  by unfold_locales (use int_get_put [where 'a = 8 and n = 1] in \<open>simp add: nu_u8_def np_u8_def\<close>)

interpretation u16: wire_codec "nu_u16 []" np_u16 "\<lambda>_. True"
  by unfold_locales (use int_get_put [where 'a = 16 and n = 2] in \<open>simp add: nu_u16_def np_u16_def\<close>)

interpretation u32: wire_codec "nu_u32 []" np_u32 "\<lambda>_. True"
  by unfold_locales (use int_get_put [where 'a = 32 and n = 4] in \<open>simp add: nu_u32_def np_u32_def\<close>)

text \<open>Writing appends to the string.\<close>

lemma nu_append:
  "NO_MATCH [] s \<Longrightarrow> nu_u8 s b = s @ nu_u8 [] b" "NO_MATCH [] s \<Longrightarrow> nu_u16 s w = s @ nu_u16 [] w"
  "NO_MATCH [] s \<Longrightarrow> nu_u32 s d = s @ nu_u32 [] d"
  by (simp_all add: nu_u8_def nu_u16_def nu_u32_def unparse_eq)

lemma nu_length [simp]:
  "length (nu_u8 s b) = length s + 1" "length (nu_u16 s w) = length s + 2" "length (nu_u32 s d) = length s + 4"
  by (simp_all add: nu_u8_def nu_u16_def nu_u32_def unparse_eq)

text \<open>The name of the last enumerator is read past the end of the table.\<close>

lemma as_string_Unsupported: "as_string r = None \<longleftrightarrow> r = Unsupported"
  by (cases r) (simp_all add: as_string_def)

end
