(* ===== verification/Internet_Checksum.thy ===== *)
theory Internet_Checksum
  imports Net_Parser
begin

text \<open>
  The class \<open>InternetChecksum\<close> of \<open>libsponge/util/util.hh\<close> and \<open>util.cc\<close>. The 32 bit accumulator wraps
  around as in the code; the results about it assume a sum that fits, which holds for every datagram
  of at most 65535 bytes.
\<close>

unbundle bit_operations_syntax

section \<open>The class\<close>

record internet_checksum =
  ic_sum :: u32
  ic_parity :: bool

definition ic_new :: "u32 \<Rightarrow> internet_checksum" where
  "ic_new initial_sum = \<lparr>ic_sum = initial_sum, ic_parity = False\<rparr>"

definition ic_add_byte :: "byte \<Rightarrow> internet_checksum \<Rightarrow> internet_checksum" where
  "ic_add_byte b c =
     (let val = (ucast b :: u16);
          val = (if \<not> ic_parity c then push_bit 8 val else val)
      in c\<lparr>ic_sum := ic_sum c + ucast val, ic_parity := \<not> ic_parity c\<rparr>)"

definition ic_add :: "internet_checksum \<Rightarrow> bytes \<Rightarrow> internet_checksum" where
  "ic_add c data = fold ic_add_byte data c"

lemma half_cases:
  fixes s :: nat
  obtains q r where "s = 65536 * q + r" and "r < 65536" and "s div 65536 = q" and "s mod 65536 = r"
  by (metis mod_less_divisor mult_div_mod_eq zero_less_numeral)

text \<open>One round of the loop in \<open>value\<close> makes the number smaller.\<close>

lemma fold_once:
  fixes ret :: u32
  shows "unat (drop_bit 16 ret + (ret AND 0xffff)) = unat ret div 65536 + unat ret mod 65536"
proof -
  have "ret AND 0xffff = take_bit 16 ret"
    by (simp add: take_bit_eq_mask mask_eq_exp_minus_1)
  then have "unat (ret AND 0xffff) = take_bit 16 (unat ret)"
    by (simp only: unsigned_take_bit_eq)
  then have "unat (ret AND 0xffff) = unat ret mod 65536" by (simp add: take_bit_eq_mod)
  moreover have "unat (drop_bit 16 ret) = unat ret div 65536"
    by (simp only: unat_drop_bit_eq) (simp add: drop_bit_eq_div)
  moreover have "unat ret < 4294967296" using unsigned_less [of ret, where 'a = nat] by simp
  then have "unat ret div 65536 + unat ret mod 65536 < 4294967296"
    by (cases "unat ret" rule: half_cases) simp
  ultimately show ?thesis by (simp add: unat_word_ariths)
qed

function ic_fold :: "u32 \<Rightarrow> u32" where
  "ic_fold ret = (if ret > 0xffff then ic_fold (drop_bit 16 ret + (ret AND 0xffff)) else ret)"
  by pat_completeness auto
termination
proof (relation "measure unat")
  fix ret :: u32
  assume "ret > 0xffff"
  then have "unat ret > 65535" by (simp add: word_less_nat_alt)
  then have "unat ret div 65536 + unat ret mod 65536 < unat ret"
    by (cases "unat ret" rule: half_cases) simp
  then show "(drop_bit 16 ret + (ret AND 0xffff), ret) \<in> measure unat" by (simp only: in_measure fold_once)
qed simp

declare ic_fold.simps [simp del]

definition ic_value :: "internet_checksum \<Rightarrow> u16" where
  "ic_value c = ucast (NOT (ic_fold (ic_sum c)))"

section \<open>Sums of octets\<close>

text \<open>The sum of the big-endian 16 bit words of a string; \<open>low\<close> says that the first byte is a low half.\<close>

fun octet_sum :: "bool \<Rightarrow> bytes \<Rightarrow> nat" where
  "octet_sum low [] = 0"
| "octet_sum low (b # bs) = (if low then unat b else 256 * unat b) + octet_sum (\<not> low) bs"

lemma octet_sum_append:
  "octet_sum p (xs @ ys) = octet_sum p xs + octet_sum (p \<noteq> odd (length xs)) ys"
proof (induction xs arbitrary: p)
  case (Cons x xs)
  show ?case by (cases p) (simp_all add: Cons)
qed simp

lemma unat_byte_le: "unat (b :: byte) \<le> 255"
  using unsigned_less [of b, where 'a = nat] by simp

lemma octet_sum_bound:
  "2 * octet_sum p bs \<le> 65535 * (length bs + 1)"
proof -
  have "2 * octet_sum False bs \<le> 65535 * length bs + 65025 * of_bool (odd (length bs)) \<and>
        2 * octet_sum True bs + 65025 * of_bool (odd (length bs)) \<le> 65535 * length bs"
  proof (induction bs)
    case (Cons b bs)
    then show ?case using unat_byte_le [of b] by (cases "even (length bs)") simp_all
  qed simp
  then show ?thesis by (cases p; cases "odd (length bs)") auto
qed

lemma ic_add_byte_sum:
  "unat (ic_sum (ic_add_byte b c)) =
     (unat (ic_sum c) + (if ic_parity c then unat b else 256 * unat b)) mod 4294967296"
  "ic_parity (ic_add_byte b c) = (\<not> ic_parity c)"
proof -
  have "unat (ucast b :: u16) = unat b"
    using unat_byte_le [of b] by (simp add: unsigned_ucast_eq take_bit_eq_mod)
  moreover have "unat (push_bit 8 (ucast b :: u16)) = 256 * unat b"
    using unat_byte_le [of b] calculation
    by (simp add: unsigned_push_bit_eq take_bit_eq_mod mult.commute flip: push_bit_eq_mult) (simp add: push_bit_eq_mult)
  ultimately show "unat (ic_sum (ic_add_byte b c)) =
     (unat (ic_sum c) + (if ic_parity c then unat b else 256 * unat b)) mod 4294967296"
    by (simp add: ic_add_byte_def Let_def unat_word_ariths unsigned_ucast_eq take_bit_eq_mod mod_simps)
qed (simp add: ic_add_byte_def Let_def)

lemma ic_add_sum:
  "unat (ic_sum (ic_add c bs)) = (unat (ic_sum c) + octet_sum (ic_parity c) bs) mod 4294967296"
  "ic_parity (ic_add c bs) = (ic_parity c \<noteq> odd (length bs))"
proof (induction bs arbitrary: c)
  case Nil
  {
    case 1
    then show ?case using unsigned_less [of "ic_sum c", where 'a = nat] by (simp add: ic_add_def)
  next
    case 2
    then show ?case by (simp add: ic_add_def)
  }
next
  case (Cons b bs)
  {
    case 1
    have "ic_add c (b # bs) = ic_add (ic_add_byte b c) bs" by (simp add: ic_add_def)
    then show ?case
      using Cons(1) [of "ic_add_byte b c"] by (simp add: ic_add_byte_sum mod_simps add.assoc)
  next
    case 2
    have "ic_add c (b # bs) = ic_add (ic_add_byte b c) bs" by (simp add: ic_add_def)
    then show ?case using Cons(2) [of "ic_add_byte b c"] by (auto simp: ic_add_byte_sum)
  }
qed

lemma ic_add_append: "ic_add (ic_add c xs) ys = ic_add c (xs @ ys)"
  by (simp add: ic_add_def)

section \<open>The folded sum\<close>

text \<open>One's complement reduction: the representative in \<open>1..65535\<close> of a nonzero sum.\<close>

definition ones_complement :: "nat \<Rightarrow> nat" where
  "ones_complement s = (if s = 0 then 0 else (s - 1) mod 65535 + 1)"

lemma ones_complement_fold: "ones_complement (s div 65536 + s mod 65536) = ones_complement s"
proof (cases "s = 0")
  case False
  let ?t = "s div 65536 + s mod 65536"
  obtain q r where s: "s = 65536 * q + r" "s div 65536 = q" "s mod 65536 = r" by (rule half_cases)
  then have "s - 1 = (q + r - 1) + q * 65535" "q + r > 0" using False by linarith+
  then have "(s - 1) mod 65535 = (q + r - 1) mod 65535" by (metis mod_mult_self1)
  then show ?thesis using False s \<open>q + r > 0\<close> by (simp only: ones_complement_def) simp
qed simp

lemma ones_complement_small: "s \<le> 65535 \<Longrightarrow> ones_complement s = s"
  by (auto simp: ones_complement_def)

lemma ic_fold_eq: "unat (ic_fold ret) = ones_complement (unat ret)"
proof (induction ret rule: ic_fold.induct)
  case (1 ret)
  show ?case
  proof (cases "ret > 0xffff")
    case True
    have "unat (ic_fold ret) = unat (ic_fold (drop_bit 16 ret + (ret AND 0xffff)))"
      using True by (subst ic_fold.simps) simp
    also have "\<dots> = ones_complement (unat ret)"
      using 1 [OF True] by (simp only: fold_once ones_complement_fold)
    finally show ?thesis .
  next
    case False
    then have "unat ret \<le> 65535" by (simp add: word_less_nat_alt)
    then show ?thesis using False by (subst ic_fold.simps) (simp add: ones_complement_small)
  qed
qed

lemma ones_complement_le: "ones_complement s \<le> 65535"
proof -
  have "(s - 1) mod 65535 < 65535" by (rule mod_less_divisor) simp
  then show ?thesis unfolding ones_complement_def by (split if_split) linarith
qed

lemma ic_value_eq: "unat (ic_value c) = 65535 - ones_complement (unat (ic_sum c))"
proof -
  let ?x = "ic_fold (ic_sum c)"
  have le: "unat ?x \<le> 65535" by (simp add: ic_fold_eq ones_complement_le)
  have "ic_value c = NOT (ucast ?x :: u16)"
    unfolding ic_value_def by (rule bit_word_eqI) (simp add: bit_simps)
  also have "\<dots> = - 1 - ucast ?x" by (simp add: not_eq_complement)
  finally have v: "ic_value c = - 1 - ucast ?x" .
  have "unat (- 1 :: u16) = 65535" by (simp add: unsigned_minus_1_eq_mask mask_eq_exp_minus_1)
  moreover have "unat (ucast ?x :: u16) = unat ?x" using le by (simp add: unsigned_ucast_eq take_bit_eq_mod)
  ultimately have "unat (ic_value c) = 65535 - unat ?x"
    unfolding v using le by (simp add: unat_sub_if_size word_size del: unsigned_minus_1_eq_mask)
  then show ?thesis by (simp add: ic_fold_eq)
qed

lemma ones_complement_mod: "ones_complement s mod 65535 = s mod 65535"
proof (cases s)
  case (Suc n)
  then have "ones_complement s mod 65535 = Suc (n mod 65535) mod 65535" by (simp add: ones_complement_def)
  then show ?thesis using Suc by (simp only: mod_Suc_eq)
qed (simp add: ones_complement_def)

lemma ones_complement_top: "ones_complement s = 65535 \<longleftrightarrow> 0 < s \<and> s mod 65535 = 0"
proof
  assume "ones_complement s = 65535"
  moreover from this have "s \<noteq> 0" by (intro notI) (simp add: ones_complement_def)
  ultimately show "0 < s \<and> s mod 65535 = 0" using ones_complement_mod [of s] by simp
next
  assume s: "0 < s \<and> s mod 65535 = 0"
  then have "0 < ones_complement s" "ones_complement s mod 65535 = 0"
    using ones_complement_mod [of s] by (simp_all add: ones_complement_def)
  then have "65535 dvd ones_complement s" by (simp add: mod_eq_0_iff_dvd)
  with \<open>0 < ones_complement s\<close> ones_complement_le [of s] show "ones_complement s = 65535"
    using dvd_imp_le by (meson le_antisym)
qed

text \<open>A sum passes the check iff it is a nonzero multiple of 65535.\<close>

lemma ic_value_0_iff: "ic_value c = 0 \<longleftrightarrow> 0 < unat (ic_sum c) \<and> unat (ic_sum c) mod 65535 = 0"
proof -
  let ?s = "unat (ic_sum c)"
  have "ic_value c = 0 \<longleftrightarrow> ones_complement ?s = 65535"
    using ones_complement_le [of ?s] by (auto simp: word_unat_eq_iff ic_value_eq)
  also have "\<dots> \<longleftrightarrow> 0 < ?s \<and> ?s mod 65535 = 0"
    by (rule ones_complement_top)
  finally show ?thesis .
qed

text \<open>Adding the computed checksum to the sum makes it pass.\<close>

lemma ones_complement_closes:
  "0 < s + (65535 - ones_complement s) \<and> (s + (65535 - ones_complement s)) mod 65535 = 0"
proof
  show "0 < s + (65535 - ones_complement s)" by (cases "s = 0") (simp_all add: ones_complement_def)
  have "(s + (65535 - ones_complement s)) mod 65535 = (ones_complement s + (65535 - ones_complement s)) mod 65535"
    by (rule mod_add_cong) (simp_all add: ones_complement_mod)
  then show "(s + (65535 - ones_complement s)) mod 65535 = 0"
    using ones_complement_le [of s] by simp
qed

text \<open>A two byte field counts with its value in the checksum.\<close>

lemma octet_sum_u16: "octet_sum False (nu_u16 [] w) = unat w"
proof -
  obtain a b where ab: "nu_u16 [] w = [a, b]" by (simp add: nu_u16_def unparse_eq numeral_2_eq_2)
  have "be_val (nu_u16 [] w) = unat w"
    using be_val_unparse_int(1) [where val = w and n = 2] by (simp add: nu_u16_def)
  then show ?thesis by (simp add: ab be_val_def)
qed

lemma nu_u16_0: "nu_u16 [] 0 = [0, 0]"
  by (simp add: nu_u16_def unparse_eq numeral_2_eq_2)

text \<open>The sum before a checksum field, the field's bytes and the sum after it.\<close>

lemma checksum_closes:
  assumes "unat s0 + octet_sum False (xs @ ys) + 65535 < 4294967296" and "even (length xs)"
    and "length zs = 2" and "octet_sum False zs = unat (ic_value (ic_add (ic_new s0) (xs @ [0, 0] @ ys)))"
  shows "ic_value (ic_add (ic_new s0) (xs @ zs @ ys)) = 0"
proof -
  let ?s = "unat s0 + octet_sum False (xs @ ys)"
  have split: "octet_sum False (xs @ ws @ ys) = octet_sum False (xs @ ys) + octet_sum False ws" if "length ws = 2" for ws
    using that assms(2) by (simp add: octet_sum_append)
  have "unat (ic_sum (ic_add (ic_new s0) (xs @ [0, 0] @ ys))) = ?s"
    using assms(1) split [of "[0, 0]"] by (simp add: ic_add_sum ic_new_def del: append.simps)
  then have c: "octet_sum False zs = 65535 - ones_complement ?s" using assms(4) by (simp add: ic_value_eq)
  then have "unat (ic_sum (ic_add (ic_new s0) (xs @ zs @ ys))) = ?s + (65535 - ones_complement ?s)"
    using assms(1,3) split [of zs] by (simp add: ic_add_sum ic_new_def)
  then show ?thesis using ones_complement_closes [of ?s] by (simp only: ic_value_0_iff)
qed

lemma mod_add_cancel:
  fixes a x y n :: nat
  assumes "(a + x) mod n = (a + y) mod n" and "0 < n"
  shows "x mod n = y mod n"
proof -
  have "a \<le> n * a" using assms(2) by simp
  then have n: "n * a - a + (a + z) = z + n * a" for z by linarith
  have "(n * a - a + (a + x)) mod n = (n * a - a + (a + y)) mod n"
    using assms(1) by (metis mod_add_right_eq)
  then show ?thesis unfolding n by simp
qed

text \<open>Replacing one byte changes the sum by less than 65535, so it is always noticed.\<close>

lemma octet_sum_update:
  assumes "i < length bs" and "bs ! i \<noteq> b"
  shows "octet_sum p (bs[i := b]) mod 65535 \<noteq> octet_sum p bs mod 65535"
proof -
  let ?k = "if p \<noteq> odd i then 1 else 256 :: nat"
  let ?r = "octet_sum p (take i bs) + octet_sum (p \<noteq> odd (Suc i)) (drop (Suc i) bs)"
  have eq: "octet_sum p (take i bs @ c # drop (Suc i) bs) = ?r + ?k * unat c" for c
    using assms(1) by (simp add: octet_sum_append)
  have "unat b \<noteq> unat (bs ! i)" using assms(2) by (simp add: word_unat_eq_iff)
  moreover have "(r + k * x) mod 65535 \<noteq> (r + k * y) mod 65535"
    if "x \<noteq> y" "x \<le> 255" "y \<le> 255" "k = 1 \<or> k = 256" for r k x y :: nat
  proof
    assume "(r + k * x) mod 65535 = (r + k * y) mod 65535"
    then have "int 65535 dvd int (r + k * x) - int (r + k * y)" by (metis mod_eq_dvd_iff of_nat_mod)
    then have "65535 dvd int k * (int x - int y)" by (simp add: algebra_simps)
    moreover have "\<bar>int k * (int x - int y)\<bar> < 65535" using that by auto
    ultimately have "int k * (int x - int y) = 0" using zdvd_not_zless by (metis abs_dvd_iff dvd_abs_iff zero_less_abs_iff)
    with that show False by auto
  qed
  ultimately have "(?r + ?k * unat b) mod 65535 \<noteq> (?r + ?k * unat (bs ! i)) mod 65535"
    using unat_byte_le by simp
  then show ?thesis
    using eq [of b] eq [of "bs ! i"] assms(1) by (simp add: upd_conv_take_nth_drop id_take_nth_drop [symmetric])
qed

end
