(* ===== verification/Text_Format.thy ===== *)
theory Text_Format
  imports Sponge_Prelude
begin

text \<open>
  Numbers as text: what the sources use of \<open>to_string\<close>, \<open>stoi\<close> and the manipulators of a stream
  (\<open>hex\<close>, \<open>boolalpha\<close>, \<open>setw\<close>, \<open>setfill\<close>), the dotted quad of \<open>inet_ntoa\<close>, and \<open>hexdump\<close> of
  \<open>libsponge/util/util.cc\<close>.
\<close>

section \<open>Numbers\<close>

fun digits :: "nat \<Rightarrow> nat \<Rightarrow> nat list" where
  "digits b n = (if n < b \<or> b < 2 then [n] else digits b (n div b) @ [n mod b])"

declare digits.simps [simp del]

definition digit_char :: "nat \<Rightarrow> char" where
  "digit_char d = ''0123456789abcdef'' ! d"

definition show_nat :: "nat \<Rightarrow> nat \<Rightarrow> string" where
  "show_nat b n = map digit_char (digits b n)"

definition show_dec :: "nat \<Rightarrow> string" where
  "show_dec n = show_nat 10 n"

definition show_hex :: "nat \<Rightarrow> string" where
  "show_hex n = show_nat 16 n"

definition show_bool :: "bool \<Rightarrow> string" where
  "show_bool b = (if b then ''true'' else ''false'')"

text \<open>\<open>setw\<close> with \<open>setfill('0')\<close>.\<close>

definition zero_pad :: "nat \<Rightarrow> string \<Rightarrow> string" where
  "zero_pad w s = replicate (w - length s) (CHR ''0'') @ s"

definition is_digit :: "char \<Rightarrow> bool" where
  "is_digit c \<longleftrightarrow> c \<in> set ''0123456789''"

definition digit_val :: "char \<Rightarrow> nat" where
  "digit_val c = (of_char c :: nat) - 48"

definition read_dec :: "string \<Rightarrow> nat" where
  "read_dec s = foldl (\<lambda>a c. a * 10 + digit_val c) 0 s"

text \<open>\<open>stoi\<close>: leading white space, a sign, then as many digits as there are; it throws if there are
  none or if the number does not fit an \<open>int\<close>.\<close>

definition stoi :: "string \<Rightarrow> int option" where
  "stoi s =
     (let s = dropWhile (\<lambda>c. c \<in> {CHR '' '', CHR 0x09, CHR 0x0A, CHR 0x0B, CHR 0x0C, CHR 0x0D}) s;
          neg = (s \<noteq> [] \<and> hd s = CHR ''-'');
          s = (if s \<noteq> [] \<and> (hd s = CHR ''-'' \<or> hd s = CHR ''+'') then tl s else s);
          ds = takeWhile is_digit s;
          v = (if neg then - int (read_dec ds) else int (read_dec ds))
      in if ds = [] \<or> v < - 2147483648 \<or> v > 2147483647 then None else Some v)"

definition inet_ntoa :: "u32 \<Rightarrow> string" where
  "inet_ntoa ip = show_dec (unat (drop_bit 24 ip)) @ ''.'' @ show_dec (unat (take_bit 8 (drop_bit 16 ip))) @ ''.'' @
     show_dec (unat (take_bit 8 (drop_bit 8 ip))) @ ''.'' @ show_dec (unat (take_bit 8 ip))"

section \<open>Reading back\<close>

lemma digits_bound: "2 \<le> b \<Longrightarrow> d \<in> set (digits b n) \<Longrightarrow> d < b"
proof (induction b n rule: digits.induct)
  case (1 b n)
  then show ?case by (subst (asm) digits.simps) (auto split: if_splits)
qed

lemma digits_nonempty [simp]: "digits b n \<noteq> []"
  by (subst digits.simps) simp

lemma digits_value: "2 \<le> b \<Longrightarrow> foldl (\<lambda>a d. a * b + d) 0 (digits b n) = n"
proof (induction b n rule: digits.induct)
  case (1 b n)
  show ?case
  proof (cases "n < b")
    case True
    then show ?thesis by (subst digits.simps) simp
  next
    case False
    with 1 have "foldl (\<lambda>a d. a * b + d) 0 (digits b (n div b)) = n div b" by simp
    then show ?thesis using False 1(2) by (subst digits.simps) simp
  qed
qed

lemma digit_char_dec:
  assumes "d < 10"
  shows "is_digit (digit_char d)" and "digit_val (digit_char d) = d"
proof -
  from assms have "d \<in> {0, 1, 2, 3, 4, 5, 6, 7, 8, 9}" by auto
  then show "is_digit (digit_char d)" "digit_val (digit_char d) = d"
    by (auto simp: digit_char_def is_digit_def digit_val_def)
qed

lemma show_dec_digits: "c \<in> set (show_dec n) \<Longrightarrow> is_digit c"
  using digits_bound [of 10] digit_char_dec(1) by (auto simp: show_dec_def show_nat_def)

lemma show_dec_nonempty [simp]: "show_dec n \<noteq> []"
  by (simp add: show_dec_def show_nat_def)

lemma read_show_dec: "read_dec (show_dec n) = n"
proof -
  have "foldl (\<lambda>a c. a * 10 + digit_val c) a (map digit_char ds) = foldl (\<lambda>a d. a * 10 + d) a ds"
    if "\<forall>d \<in> set ds. d < 10" for ds a
    using that by (induction ds arbitrary: a) (simp_all add: digit_char_dec(2))
  then show ?thesis
    using digits_value [of 10 n] digits_bound [of 10 _ n] by (simp add: read_dec_def show_dec_def show_nat_def)
qed

lemma stoi_show_dec:
  assumes "n \<le> 2147483647"
  shows "stoi (show_dec n) = Some (int n)"
proof -
  obtain c cs where s: "show_dec n = c # cs" by (cases "show_dec n") simp_all
  then have "is_digit c" using show_dec_digits [of c n] by simp
  then have "c \<notin> {CHR '' '', CHR 0x09, CHR 0x0A, CHR 0x0B, CHR 0x0C, CHR 0x0D}" "c \<noteq> CHR ''-''" "c \<noteq> CHR ''+''"
    by (auto simp: is_digit_def)
  moreover have "takeWhile is_digit (show_dec n) = show_dec n"
    using show_dec_digits by (simp add: takeWhile_eq_all_conv)
  ultimately show ?thesis using assms s read_show_dec [of n] by (simp add: stoi_def Let_def)
qed

section \<open>hexdump\<close>

text \<open>
  The text that \<open>hexdump\<close> writes to \<open>cout\<close>. \<open>pchars\<close> is a stream opened with the string of one space;
  its put position is at the beginning, so the first character written replaces the space.
\<close>

record text_stream =
  ts_text :: string
  ts_pos :: nat

definition ts_open :: "string \<Rightarrow> text_stream" where
  "ts_open s = \<lparr>ts_text = s, ts_pos = 0\<rparr>"

definition ts_put :: "text_stream \<Rightarrow> char \<Rightarrow> text_stream" where
  "ts_put t c = \<lparr>ts_text = take (ts_pos t) (ts_text t) @ [c] @ drop (ts_pos t + 1) (ts_text t), ts_pos = ts_pos t + 1\<rparr>"

definition is_print :: "byte \<Rightarrow> bool" where
  "is_print b \<longleftrightarrow> 32 \<le> b \<and> b \<le> 126"

fun hexdump_loop :: "string \<Rightarrow> bytes \<Rightarrow> nat \<Rightarrow> text_stream \<Rightarrow> string \<Rightarrow> nat \<times> text_stream \<times> string" where
  "hexdump_loop ind [] printed pchars out = (printed, pchars, out)"
| "hexdump_loop ind (b # bs) printed pchars out =
     (let line = (printed mod 16 = 0);
          out = (if line then
                   (if printed \<noteq> 0 then out @ ''    '' @ ts_text pchars @ ''\<newline>'' else out) @
                   ind @ zero_pad 8 (show_hex printed) @ '':    ''
                 else if printed mod 2 = 0 then out @ '' '' else out);
          pchars = (if line \<and> printed \<noteq> 0 then ts_open '' '' else pchars);
          out = out @ zero_pad 2 (show_hex (unat b));
          pchars = ts_put pchars (if is_print b then char_of (unat b) else CHR ''.'')
      in hexdump_loop ind bs (printed + 1) pchars out)"

definition hexdump :: "bytes \<Rightarrow> size_t \<Rightarrow> string" where
  "hexdump data indent =
     (let (printed, pchars, out) = hexdump_loop (replicate indent (CHR '' '')) data 0 (ts_open '' '') [];
          print_rem = (16 - printed mod 16) mod 16
      in out @ replicate (2 * print_rem + print_rem div 2 + 4) (CHR '' '') @ ts_text pchars @ ''\<newline>\<newline>'')"

section \<open>Dotted quads\<close>

fun read_dots :: "nat \<Rightarrow> string \<Rightarrow> nat list" where
  "read_dots a [] = [a]"
| "read_dots a (c # cs) = (if c = CHR ''.'' then a # read_dots 0 cs else read_dots (a * 10 + digit_val c) cs)"

definition read_quad :: "string \<Rightarrow> u32" where
  "read_quad s = of_nat (foldl (\<lambda>a d. a * 256 + d) 0 (read_dots 0 s))"

lemma read_dots_dec:
  "read_dots 0 (show_dec n @ CHR ''.'' # cs) = n # read_dots 0 cs" "read_dots 0 (show_dec n) = [n]"
proof -
  have "read_dots a (s @ t) = read_dots (foldl (\<lambda>a c. a * 10 + digit_val c) a s) t" if "\<forall>c \<in> set s. is_digit c" for a s t
    using that by (induction s arbitrary: a) (auto simp: is_digit_def)
  then have "read_dots 0 (show_dec n @ t) = read_dots n t" for t
    using show_dec_digits read_show_dec [of n] unfolding read_dec_def by metis
  from this [of "CHR ''.'' # cs"] this [of "[]"]
  show "read_dots 0 (show_dec n @ CHR ''.'' # cs) = n # read_dots 0 cs" "read_dots 0 (show_dec n) = [n]" by simp_all
qed

lemma read_quad_ntoa: "read_quad (inet_ntoa ip) = ip"
proof -
  let ?n = "unat ip"
  have parts: "unat (drop_bit 24 ip) = ?n div 16777216" "unat (take_bit 8 (drop_bit 16 ip)) = ?n div 65536 mod 256"
      "unat (take_bit 8 (drop_bit 8 ip)) = ?n div 256 mod 256" "unat (take_bit 8 ip) = ?n mod 256"
    by (simp_all only: unsigned_take_bit_eq unat_drop_bit_eq) (simp_all add: take_bit_eq_mod drop_bit_eq_div)
  have "((?n div 16777216 * 256 + ?n div 65536 mod 256) * 256 + ?n div 256 mod 256) * 256 + ?n mod 256 = ?n"
  proof -
    have "?n div 16777216 = ?n div 65536 div 256" "?n div 65536 = ?n div 256 div 256"
      by (simp_all add: div_mult2_eq [symmetric])
    then have "?n div 16777216 * 256 + ?n div 65536 mod 256 = ?n div 65536" "?n div 65536 * 256 + ?n div 256 mod 256 = ?n div 256"
      by simp_all
    then show ?thesis by simp
  qed
  then show ?thesis
    unfolding read_quad_def inet_ntoa_def parts by (simp add: read_dots_dec)
qed

end
