(* ===== verification/TCP_Wire.thy ===== *)
theory TCP_Wire
  imports TCP_Segment Internet_Checksum Text_Format
begin

text \<open>
  Parsing and serialization of TCP headers and segments, \<open>libsponge/tcp_helpers/tcp_header.cc\<close> and
  \<open>tcp_segment.cc\<close>. A \<open>parse\<close> overwrites the fields of an existing object and returns a
  \<^typ>\<open>parse_result\<close>; \<^const>\<open>None\<close> is a thrown exception.
\<close>

unbundle bit_operations_syntax

section \<open>Header and segment\<close>

definition TCP_LENGTH :: size_t where "TCP_LENGTH = 20"

definition tcp_header_parse :: "tcp_header \<Rightarrow> net_parser \<Rightarrow> (parse_result \<times> tcp_header \<times> net_parser) option" where
  "tcp_header_parse h p = do {
     (v, p) \<leftarrow> np_u16 p; let h = h\<lparr>sport := v\<rparr>;
     (v, p) \<leftarrow> np_u16 p; let h = h\<lparr>dport := v\<rparr>;
     (v, p) \<leftarrow> np_u32 p; let h = h\<lparr>seqno := WrappingInt32 v\<rparr>;
     (v, p) \<leftarrow> np_u32 p; let h = h\<lparr>ackno := WrappingInt32 v\<rparr>;
     (v, p) \<leftarrow> np_u8 p; let h = h\<lparr>doff := drop_bit 4 v\<rparr>;
     (fl_b, p) \<leftarrow> np_u8 p;
     let h = h\<lparr>urg := fl_b AND 0x20 \<noteq> 0, ack := fl_b AND 0x10 \<noteq> 0, psh := fl_b AND 0x08 \<noteq> 0,
               rst := fl_b AND 0x04 \<noteq> 0, syn := fl_b AND 0x02 \<noteq> 0, fin := fl_b AND 0x01 \<noteq> 0\<rparr>;
     (v, p) \<leftarrow> np_u16 p; let h = h\<lparr>win := v\<rparr>;
     (v, p) \<leftarrow> np_u16 p; let h = h\<lparr>cksum := v\<rparr>;
     (v, p) \<leftarrow> np_u16 p; let h = h\<lparr>uptr := v\<rparr>;
     if doff h < 5 then Some (HeaderTooShort, h, p)
     else do {
       p \<leftarrow> np_remove_prefix p (sz_sub (unat (doff h) * 4) TCP_LENGTH);
       Some (if np_has_error p then np_error p else NoError, h, p)
     }
   }"

definition tcp_header_serialize :: "tcp_header \<Rightarrow> bytes option" where
  "tcp_header_serialize h =
     (if doff h < 5 then None
      else
        let ret = [];
            ret = nu_u16 ret (sport h);
            ret = nu_u16 ret (dport h);
            ret = nu_u32 ret (raw_value (seqno h));
            ret = nu_u32 ret (raw_value (ackno h));
            ret = nu_u8 ret (push_bit 4 (doff h));
            fl_b = (if urg h then 0x20 else 0) OR (if ack h then 0x10 else 0) OR (if psh h then 0x08 else 0) OR
                   (if rst h then 0x04 else 0) OR (if syn h then 0x02 else 0) OR (if fin h then 0x01 else 0);
            ret = nu_u8 ret fl_b;
            ret = nu_u16 ret (win h);
            ret = nu_u16 ret (cksum h);
            ret = nu_u16 ret (uptr h)
        in Some (str_resize ret (4 * unat (doff h))))"

definition tcp_header_to_string :: "tcp_header \<Rightarrow> string" where
  "tcp_header_to_string h =
     ''TCP source port: '' @ show_hex (unat (sport h)) @ ''\<newline>'' @
     ''TCP dest port: '' @ show_hex (unat (dport h)) @ ''\<newline>'' @
     ''TCP seqno: '' @ show_hex (unat (raw_value (seqno h))) @ ''\<newline>'' @
     ''TCP ackno: '' @ show_hex (unat (raw_value (ackno h))) @ ''\<newline>'' @
     ''TCP doff: '' @ show_hex (unat (doff h)) @ ''\<newline>'' @
     ''Flags: urg: '' @ show_bool (urg h) @ '' ack: '' @ show_bool (ack h) @ '' psh: '' @ show_bool (psh h) @
     '' rst: '' @ show_bool (rst h) @ '' syn: '' @ show_bool (syn h) @ '' fin: '' @ show_bool (fin h) @ ''\<newline>'' @
     ''TCP winsize: '' @ show_hex (unat (win h)) @ ''\<newline>'' @
     ''TCP cksum: '' @ show_hex (unat (cksum h)) @ ''\<newline>'' @
     ''TCP uptr: '' @ show_hex (unat (uptr h)) @ ''\<newline>''"

definition tcp_header_summary :: "tcp_header \<Rightarrow> string" where
  "tcp_header_summary h =
     ''Header(flags='' @ (if syn h then ''S'' else []) @ (if ack h then ''A'' else []) @
     (if rst h then ''R'' else []) @ (if fin h then ''F'' else []) @
     '',seqno='' @ show_dec (unat (raw_value (seqno h))) @ '',ack='' @ show_dec (unat (raw_value (ackno h))) @
     '',win='' @ show_dec (unat (win h)) @ '')''"

definition tcp_segment_parse :: "tcp_segment \<Rightarrow> buffer \<Rightarrow> u32 \<Rightarrow> (parse_result \<times> tcp_segment) option" where
  "tcp_segment_parse seg buffer datagram_layer_checksum =
     (let check = ic_add (ic_new datagram_layer_checksum) (buffer_str buffer)
      in if ic_value check \<noteq> 0 then Some (BadChecksum, seg)
         else do {
           (_, h, p) \<leftarrow> tcp_header_parse (header seg) (np_new buffer);
           Some (np_error p, seg\<lparr>header := h, payload := np_buffer p\<rparr>)
         })"

definition tcp_segment_serialize :: "tcp_segment \<Rightarrow> u32 \<Rightarrow> buffer_list option" where
  "tcp_segment_serialize seg datagram_layer_checksum = do {
     let header_out = (header seg)\<lparr>cksum := 0\<rparr>;
     zero \<leftarrow> tcp_header_serialize header_out;
     let check = ic_add (ic_add (ic_new datagram_layer_checksum) zero) (buffer_str (payload seg));
     let header_out = header_out\<lparr>cksum := ic_value check\<rparr>;
     hdr \<leftarrow> tcp_header_serialize header_out;
     Some (bl_append (bl_append bl_default (bl_of_string hdr)) (bl_of_buffer (payload seg)))
   }"

section \<open>Fields\<close>

text \<open>The header that the first 20 bytes spell.\<close>

definition tcp_fields :: "bytes \<Rightarrow> tcp_header" where
  "tcp_fields bs =
     (let fl = field 13 1 bs :: byte in
      \<lparr>sport = field 0 2 bs, dport = field 2 2 bs, seqno = WrappingInt32 (field 4 4 bs),
       ackno = WrappingInt32 (field 8 4 bs), doff = drop_bit 4 (field 12 1 bs),
       urg = fl AND 0x20 \<noteq> 0, ack = fl AND 0x10 \<noteq> 0, psh = fl AND 0x08 \<noteq> 0,
       rst = fl AND 0x04 \<noteq> 0, syn = fl AND 0x02 \<noteq> 0, fin = fl AND 0x01 \<noteq> 0,
       win = field 14 2 bs, cksum = field 16 2 bs, uptr = field 18 2 bs\<rparr>)"

text \<open>The header parser never throws; what it returns, for input of any length.\<close>

lemma tcp_header_parse_total:
  assumes at: "np_at p bs"
  shows "\<exists>r h' p'. tcp_header_parse h p = Some (r, h', p') \<and> (20 \<le> length bs \<longrightarrow> h' = tcp_fields bs) \<and>
    (if doff h' < 5 then r = HeaderTooShort \<and> np_left p' bs 20
     else r = np_error p' \<and> np_left p' bs (4 * unat (doff h')))"
proof -
  have "np_left p bs 0" using at by (simp add: np_left_0)
  then obtain v1 p1 where 1: "np_u16 p = Some (v1, p1)" "np_left p1 bs 2"
      "2 \<le> length bs \<longrightarrow> v1 = field 0 2 bs"
    using np_u16_left [of p bs 0 2] by auto
  from 1(2) obtain v2 p2 where 2: "np_u16 p1 = Some (v2, p2)" "np_left p2 bs 4"
      "4 \<le> length bs \<longrightarrow> v2 = field 2 2 bs"
    using np_u16_left [of p1 bs 2 4] by auto
  from 2(2) obtain v3 p3 where 3: "np_u32 p2 = Some (v3, p3)" "np_left p3 bs 8"
      "8 \<le> length bs \<longrightarrow> v3 = field 4 4 bs"
    using np_u32_left [of p2 bs 4 8] by auto
  from 3(2) obtain v4 p4 where 4: "np_u32 p3 = Some (v4, p4)" "np_left p4 bs 12"
      "12 \<le> length bs \<longrightarrow> v4 = field 8 4 bs"
    using np_u32_left [of p3 bs 8 12] by auto
  from 4(2) obtain v5 p5 where 5: "np_u8 p4 = Some (v5, p5)" "np_left p5 bs 13"
      "13 \<le> length bs \<longrightarrow> v5 = field 12 1 bs"
    using np_u8_left [of p4 bs 12 13] by auto
  from 5(2) obtain v6 p6 where 6: "np_u8 p5 = Some (v6, p6)" "np_left p6 bs 14"
      "14 \<le> length bs \<longrightarrow> v6 = field 13 1 bs"
    using np_u8_left [of p5 bs 13 14] by auto
  from 6(2) obtain v7 p7 where 7: "np_u16 p6 = Some (v7, p7)" "np_left p7 bs 16"
      "16 \<le> length bs \<longrightarrow> v7 = field 14 2 bs"
    using np_u16_left [of p6 bs 14 16] by auto
  from 7(2) obtain v8 p8 where 8: "np_u16 p7 = Some (v8, p8)" "np_left p8 bs 18"
      "18 \<le> length bs \<longrightarrow> v8 = field 16 2 bs"
    using np_u16_left [of p7 bs 16 18] by auto
  from 8(2) obtain v9 p9 where 9: "np_u16 p8 = Some (v9, p9)" "np_left p9 bs 20"
      "20 \<le> length bs \<longrightarrow> v9 = field 18 2 bs"
    using np_u16_left [of p8 bs 18 20] by auto
  note left = 9(2)
  let ?h = "\<lparr>sport = v1, dport = v2, seqno = WrappingInt32 v3, ackno = WrappingInt32 v4, doff = drop_bit 4 v5,
    urg = v6 AND 0x20 \<noteq> 0, ack = v6 AND 0x10 \<noteq> 0, psh = v6 AND 0x08 \<noteq> 0, rst = v6 AND 0x04 \<noteq> 0,
    syn = v6 AND 0x02 \<noteq> 0, fin = v6 AND 0x01 \<noteq> 0, win = v7, cksum = v8, uptr = v9\<rparr>"
  have fields: "20 \<le> length bs \<longrightarrow> ?h = tcp_fields bs"
    using 1(3) 2(3) 3(3) 4(3) 5(3) 6(3) 7(3) 8(3) 9(3) by (simp add: tcp_fields_def Let_def)
  have parse: "tcp_header_parse h p =
      (if doff ?h < 5 then Some (HeaderTooShort, ?h, p9)
       else np_remove_prefix p9 (sz_sub (unat (doff ?h) * 4) TCP_LENGTH) \<bind>
         (\<lambda>p. Some (if np_has_error p then np_error p else NoError, ?h, p)))"
    using 1(1) 2(1) 3(1) 4(1) 5(1) 6(1) 7(1) 8(1) 9(1) by (cases h) (simp add: tcp_header_parse_def Let_def)
  show ?thesis
  proof (cases "doff ?h < 5")
    case True
    then show ?thesis using parse fields left by simp
  next
    case False
    have d: "5 \<le> unat (doff ?h)" "unat (doff ?h) < 256"
      using False unsigned_less [of "doff ?h", where 'a = nat] by (simp_all add: word_less_nat_alt not_less)
    then have off: "20 + sz_sub (unat (doff ?h) * 4) TCP_LENGTH = 4 * unat (doff ?h)"
      by (simp add: sz_sub_exact TCP_LENGTH_def SIZE_MOD_def)
    from np_remove_prefix_left [OF left, of "sz_sub (unat (doff ?h) * 4) TCP_LENGTH"] obtain p' where
      p': "np_remove_prefix p9 (sz_sub (unat (doff ?h) * 4) TCP_LENGTH) = Some p'" "np_left p' bs (4 * unat (doff ?h))"
      unfolding off by blast
    then show ?thesis using parse fields False by (intro exI [of _ "np_error p'"] exI [of _ ?h] exI [of _ p'])
        (simp add: np_has_error_def)
  qed
qed

section \<open>Round trip\<close>

text \<open>The byte with the flags, and the bytes of a header.\<close>

definition tcp_flags :: "tcp_header \<Rightarrow> byte" where
  "tcp_flags h =
     (if urg h then 0x20 else 0) OR (if ack h then 0x10 else 0) OR (if psh h then 0x08 else 0) OR
     (if rst h then 0x04 else 0) OR (if syn h then 0x02 else 0) OR (if fin h then 0x01 else 0)"

lemma tcp_flags_bits:
  "tcp_flags h AND 0x20 \<noteq> 0 \<longleftrightarrow> urg h" "tcp_flags h AND 0x10 \<noteq> 0 \<longleftrightarrow> ack h" "tcp_flags h AND 0x08 \<noteq> 0 \<longleftrightarrow> psh h"
  "tcp_flags h AND 0x04 \<noteq> 0 \<longleftrightarrow> rst h" "tcp_flags h AND 0x02 \<noteq> 0 \<longleftrightarrow> syn h" "tcp_flags h AND 0x01 \<noteq> 0 \<longleftrightarrow> fin h"
  unfolding tcp_flags_def
  by (cases "urg h"; cases "ack h"; cases "psh h"; cases "rst h"; cases "syn h"; cases "fin h"; simp)+

definition tcp_before :: "tcp_header \<Rightarrow> bytes" where
  "tcp_before h = nu_u16 [] (sport h) @ nu_u16 [] (dport h) @ nu_u32 [] (raw_value (seqno h)) @
     nu_u32 [] (raw_value (ackno h)) @ nu_u8 [] (push_bit 4 (doff h)) @ nu_u8 [] (tcp_flags h) @ nu_u16 [] (win h)"

definition tcp_after :: "tcp_header \<Rightarrow> bytes" where
  "tcp_after h = nu_u16 [] (uptr h) @ replicate (4 * unat (doff h) - 20) 0"

text \<open>The headers that the format can hold: the data offset has four bits.\<close>

definition tcp_header_valid :: "tcp_header \<Rightarrow> bool" where
  "tcp_header_valid h \<longleftrightarrow> 5 \<le> doff h \<and> doff h < 16"

lemma tcp_before_length [simp]: "length (tcp_before h) = 16"
  by (simp add: tcp_before_def)

lemma doff_bounds: "\<not> doff h < 5 \<Longrightarrow> 20 \<le> 4 * unat (doff h)"
  by (simp add: word_less_nat_alt not_less)

lemma tcp_header_serialize_eq:
  "tcp_header_serialize h =
     (if doff h < 5 then None else Some (tcp_before h @ nu_u16 [] (cksum h) @ tcp_after h))"
  using doff_bounds [of h]
  by (simp add: tcp_header_serialize_def Let_def str_resize_pad nu_append tcp_before_def tcp_after_def
      flip: tcp_flags_def)

lemma nibble: "d < 16 \<Longrightarrow> drop_bit 4 (push_bit 4 d) = (d :: byte)"
  by (simp add: word_unat_eq_iff unat_drop_bit_eq unsigned_push_bit_eq word_less_nat_alt take_bit_eq_mod
      flip: push_bit_eq_mult drop_bit_eq_div) (simp add: push_bit_eq_mult drop_bit_eq_div)

lemma tcp_fields_bytes:
  assumes "tcp_header_valid h"
  shows "tcp_fields (tcp_before h @ nu_u16 [] (cksum h) @ tcp_after h @ rest) = h"
  using assms
  by (simp add: tcp_fields_def tcp_before_def tcp_after_def field_skip Let_def tcp_flags_bits nibble
      tcp_header_valid_def)

lemma unat_valid_doff: "tcp_header_valid h \<Longrightarrow> \<not> doff h < 5 \<and> 20 \<le> 4 * unat (doff h) \<and> unat (doff h) < 16"
  by (simp add: tcp_header_valid_def word_less_nat_alt word_le_nat_alt)

lemma tcp_header_get_put:
  assumes valid: "tcp_header_valid g" and at: "np_at p (tcp_before g @ nu_u16 [] (cksum g) @ tcp_after g @ rest)"
  shows "\<exists>p'. tcp_header_parse h p = Some (NoError, g, p') \<and> np_at p' rest"
proof -
  let ?bs = "tcp_before g @ nu_u16 [] (cksum g) @ tcp_after g @ rest"
  note d = unat_valid_doff [OF valid]
  have len: "length (tcp_before g @ nu_u16 [] (cksum g) @ tcp_after g) = 4 * unat (doff g)"
    using d by (auto simp: tcp_after_def)
  have dr: "drop (4 * unat (doff g)) ?bs = rest" using len by (metis append.assoc append_eq_conv_conj)
  have "length ?bs = 4 * unat (doff g) + length rest" using len by simp
  then have le: "20 \<le> length ?bs" "4 * unat (doff g) \<le> length ?bs" using d by linarith+
  from tcp_header_parse_total [OF at, of h] tcp_fields_bytes [OF valid, of rest] le(1) d
  obtain p' where p': "tcp_header_parse h p = Some (np_error p', g, p')" "np_left p' ?bs (4 * unat (doff g))"
    by auto
  then have "np_at p' rest" using dr le(2) by (simp only: np_left_def if_True)
  with p'(1) show ?thesis by (auto simp: np_at_def)
qed

interpretation tcp_hdr: wire_codec "\<lambda>h. the (tcp_header_serialize h)"
  "\<lambda>p. tcp_header_parse tcp_header_default p \<bind> (\<lambda>(r, h, p). if r = NoError then Some (h, p) else None)"
  tcp_header_valid
proof unfold_locales
  fix x p rest
  assume v: "tcp_header_valid x" and at: "np_at p (the (tcp_header_serialize x) @ rest)"
  then have "np_at p (tcp_before x @ nu_u16 [] (cksum x) @ tcp_after x @ rest)"
    using unat_valid_doff [OF v] by (simp add: tcp_header_serialize_eq)
  from tcp_header_get_put [OF v this, of tcp_header_default]
  show "\<exists>p'. tcp_header_parse tcp_header_default p \<bind> (\<lambda>(r, h, p). if r = NoError then Some (h, p) else None)
      = Some (x, p') \<and> np_at p' rest" by auto
qed

text \<open>The bytes of a segment, with its checksum.\<close>

definition tcp_cksum :: "tcp_segment \<Rightarrow> u32 \<Rightarrow> u16" where
  "tcp_cksum seg cs = ic_value (ic_add (ic_new cs)
     (tcp_before (header seg) @ [0, 0] @ tcp_after (header seg) @ buffer_str (payload seg)))"

definition tcp_bytes :: "tcp_segment \<Rightarrow> u32 \<Rightarrow> bytes" where
  "tcp_bytes seg cs = tcp_before (header seg) @ nu_u16 [] (tcp_cksum seg cs) @ tcp_after (header seg) @
     buffer_str (payload seg)"

lemma tcp_before_cksum [simp]: "tcp_before (h\<lparr>cksum := c\<rparr>) = tcp_before h" "tcp_after (h\<lparr>cksum := c\<rparr>) = tcp_after h"
  by (simp_all add: tcp_before_def tcp_after_def tcp_flags_def)

lemma tcp_segment_serialize_eq:
  "tcp_segment_serialize seg cs = (if doff (header seg) < 5 then None else
     Some \<lparr>bl_buffers = [buffer_of (tcp_before (header seg) @ nu_u16 [] (tcp_cksum seg cs) @ tcp_after (header seg)),
                        payload seg]\<rparr>)"
  by (simp add: tcp_segment_serialize_def tcp_header_serialize_eq nu_u16_0 ic_add_append tcp_cksum_def Let_def
      bl_of_string_def bl_of_buffer_def bl_append_def bl_default_def)

text \<open>Sizes for which the 32 bit sum of the checksum cannot wrap around.\<close>

definition cksum_fits :: "tcp_segment \<Rightarrow> u32 \<Rightarrow> bool" where
  "cksum_fits seg cs \<longleftrightarrow> tcp_header_valid (header seg) \<and> length (buffer_str (payload seg)) \<le> 65535 \<and> unat cs \<le> 1048576"

lemma tcp_after_length: "tcp_header_valid h \<Longrightarrow> length (tcp_after h) \<le> 44"
  using unat_valid_doff [of h] by (auto simp: tcp_after_def)

lemma tcp_bytes_length: "cksum_fits seg cs \<Longrightarrow> length (tcp_bytes seg cs) \<le> 65597"
  using tcp_after_length [of "header seg"] by (simp add: cksum_fits_def tcp_bytes_def)

lemma cksum_fits_sum:
  "cksum_fits seg cs \<Longrightarrow> length xs \<le> 65597 \<Longrightarrow> unat cs + octet_sum False xs + 65535 < 4294967296"
  using octet_sum_bound [of False xs] by (simp add: cksum_fits_def)

lemma tcp_bytes_pass:
  assumes fits: "cksum_fits seg cs"
  shows "ic_value (ic_add (ic_new cs) (tcp_bytes seg cs)) = 0"
proof -
  let ?h = "header seg" and ?pl = "buffer_str (payload seg)"
  have "length (tcp_before ?h @ tcp_after ?h @ ?pl) \<le> 65597"
    using tcp_bytes_length [OF fits] by (simp add: tcp_bytes_def)
  from checksum_closes [OF cksum_fits_sum [OF fits this], of "nu_u16 [] (tcp_cksum seg cs)"]
  show ?thesis unfolding tcp_bytes_def by (simp add: octet_sum_u16 tcp_cksum_def del: append.simps)
qed

text \<open>Parsing a segment that passes the checksum is parsing its header; the rest is the payload.\<close>

lemma tcp_segment_parse_eq:
  assumes "buffer_inv b"
  shows "\<exists>r h p. tcp_header_parse (header seg) (np_new b) = Some (r, h, p) \<and>
    tcp_segment_parse seg b cs =
      (if ic_value (ic_add (ic_new cs) (buffer_str b)) \<noteq> 0 then Some (BadChecksum, seg)
       else Some (np_error p, \<lparr>header = h, payload = np_buffer p\<rparr>))"
proof -
  have "np_at (np_new b) (buffer_str b)" using assms by (simp add: np_at_def np_new_def)
  from tcp_header_parse_total [OF this, of "header seg"] obtain r h p where
    "tcp_header_parse (header seg) (np_new b) = Some (r, h, p)" by blast
  then show ?thesis by (cases seg) (auto simp: tcp_segment_parse_def Let_def)
qed

lemma tcp_parse_serialized:
  assumes "cksum_fits seg cs" and "tcp_segment_serialize seg cs = Some l" and "buffer_inv b"
    and "buffer_str b = bl_concatenate l"
  shows "\<exists>seg'. tcp_segment_parse old b cs = Some (NoError, seg') \<and>
    header seg' = (header seg)\<lparr>cksum := tcp_cksum seg cs\<rparr> \<and> buffer_str (payload seg') = buffer_str (payload seg)"
proof -
  let ?h = "(header seg)\<lparr>cksum := tcp_cksum seg cs\<rparr>"
  have valid: "tcp_header_valid ?h" using assms(1) by (simp add: cksum_fits_def tcp_header_valid_def)
  have bs: "buffer_str b = tcp_bytes seg cs"
    using assms(1,2,4) unat_valid_doff [OF valid]
    by (auto simp: tcp_segment_serialize_eq bl_concatenate_def tcp_bytes_def)
  then have "np_at (np_new b) (tcp_before ?h @ nu_u16 [] (cksum ?h) @ tcp_after ?h @ buffer_str (payload seg))"
    using assms(3) by (simp add: np_at_def np_new_def tcp_bytes_def)
  from tcp_header_get_put [OF valid this, of "header old"] obtain p where
    p: "tcp_header_parse (header old) (np_new b) = Some (NoError, ?h, p)" "np_at p (buffer_str (payload seg))" by blast
  then show ?thesis
    using tcp_bytes_pass [OF assms(1)] bs by (simp add: tcp_segment_parse_def Let_def np_at_def)
qed

section \<open>Properties\<close>

text \<open>
  C18: Serializing a segment and parsing the bytes again, with the same checksum of the lower layer,
  succeeds and gives back the payload and every field of the header; only the checksum field is new.
\<close>

theorem tcp_segment_roundtrip:
  assumes "cksum_fits seg cs" and "tcp_segment_serialize seg cs = Some l" and "buffer_inv b"
    and "buffer_str b = bl_concatenate l"
  shows "\<exists>seg'. tcp_segment_parse old b cs = Some (NoError, seg') \<and>
    header seg' = (header seg)\<lparr>cksum := tcp_cksum seg cs\<rparr> \<and> buffer_str (payload seg') = buffer_str (payload seg)"
  using tcp_parse_serialized [OF assms] .

theorem tcp_segment_roundtrip_witness:
  "\<exists>l seg'. tcp_segment_serialize (tcp_segment_default\<lparr>payload := buffer_of [1, 2, 3]\<rparr>) 9 = Some l \<and>
     tcp_segment_parse tcp_segment_default (buffer_of (bl_concatenate l)) 9 = Some (NoError, seg') \<and>
     doff (header seg') = 5 \<and> buffer_str (payload seg') = [1, 2, 3]"
proof -
  let ?seg = "tcp_segment_default\<lparr>payload := buffer_of [1, 2, 3]\<rparr>"
  have fits: "cksum_fits ?seg 9" by (simp add: cksum_fits_def tcp_header_valid_def)
  obtain l where l: "tcp_segment_serialize ?seg 9 = Some l" by (simp add: tcp_segment_serialize_eq)
  then have "bl_concatenate l = tcp_bytes ?seg 9"
    by (auto simp: tcp_segment_serialize_eq bl_concatenate_def tcp_bytes_def)
  then have "buffer_inv (buffer_of (bl_concatenate l))"
    using tcp_bytes_length [OF fits] by (simp add: SIZE_MOD_def)
  from tcp_segment_roundtrip [OF fits l this, of tcp_segment_default] l show ?thesis by auto
qed

text \<open>
  C26: One wrong byte anywhere in a serialized segment is always detected: parsing returns
  \<^const>\<open>BadChecksum\<close> and leaves the segment as it was.
\<close>

theorem corrupted_byte_detected:
  assumes "cksum_fits seg cs" and "tcp_segment_serialize seg cs = Some l"
    and "i < length (bl_concatenate l)" and "x \<noteq> bl_concatenate l ! i"
    and "buffer_str b = (bl_concatenate l)[i := x]"
  shows "tcp_segment_parse old b cs = Some (BadChecksum, old)"
proof -
  have bs: "bl_concatenate l = tcp_bytes seg cs"
    using assms(1,2) unat_valid_doff [of "header seg"]
    by (auto simp: cksum_fits_def tcp_segment_serialize_eq bl_concatenate_def tcp_bytes_def)
  let ?bs = "tcp_bytes seg cs" and ?cs = "(tcp_bytes seg cs)[i := x]"
  have sum: "unat (ic_sum (ic_add (ic_new cs) xs)) = unat cs + octet_sum False xs" if "length xs \<le> 65597" for xs
    using cksum_fits_sum [OF assms(1) that] by (simp add: ic_add_sum ic_new_def)
  note len = tcp_bytes_length [OF assms(1)]
  have "(unat cs + octet_sum False ?bs) mod 65535 = 0"
    using tcp_bytes_pass [OF assms(1)] sum len by (simp add: ic_value_0_iff)
  moreover have "octet_sum False ?cs mod 65535 \<noteq> octet_sum False ?bs mod 65535"
    using assms(3,4) bs by (intro octet_sum_update) auto
  moreover have "octet_sum False ?cs mod 65535 = octet_sum False ?bs mod 65535"
    if "(unat cs + octet_sum False ?cs) mod 65535 = (unat cs + octet_sum False ?bs) mod 65535"
    using mod_add_cancel [OF that] by simp
  ultimately have "(unat cs + octet_sum False ?cs) mod 65535 \<noteq> 0" by argo
  then have "ic_value (ic_add (ic_new cs) ?cs) \<noteq> 0" using sum len by (simp add: ic_value_0_iff)
  then show ?thesis using assms(5) bs by (simp add: tcp_segment_parse_def)
qed

theorem corrupted_byte_detected_witness:
  "\<exists>l. tcp_segment_serialize tcp_segment_default 0 = Some l \<and> 13 < length (bl_concatenate l) \<and>
     tcp_segment_parse tcp_segment_default (buffer_of ((bl_concatenate l)[13 := bl_concatenate l ! 13 + 2])) 0
       = Some (BadChecksum, tcp_segment_default)"
proof -
  have fits: "cksum_fits tcp_segment_default 0" by (simp add: cksum_fits_def tcp_header_valid_def)
  obtain l where l: "tcp_segment_serialize tcp_segment_default 0 = Some l" by (simp add: tcp_segment_serialize_eq)
  then have "13 < length (bl_concatenate l)"
    by (auto simp: tcp_segment_serialize_eq bl_concatenate_def)
  moreover have "bl_concatenate l ! 13 + 2 \<noteq> bl_concatenate l ! 13" by simp
  ultimately show ?thesis
    using corrupted_byte_detected [OF fits l, where i = 13 and x = "bl_concatenate l ! 13 + 2" and old = tcp_segment_default
      and b = "buffer_of ((bl_concatenate l)[13 := bl_concatenate l ! 13 + 2])"] l by simp
qed

text \<open>
  \<open>TCPSegment::parse\<close> looks at the parser's error only, and not at the result of the header's
  \<open>parse\<close>: a segment with a valid checksum whose data offset is below the minimum is accepted, with
  everything after the first 20 bytes as its payload.
\<close>

theorem short_data_offset_accepted:
  assumes "buffer_inv b" and "20 \<le> length (buffer_str b)"
    and "ic_value (ic_add (ic_new cs) (buffer_str b)) = 0" and "doff (tcp_fields (buffer_str b)) < 5"
  shows "(\<exists>p. tcp_header_parse (header seg) (np_new b) = Some (HeaderTooShort, tcp_fields (buffer_str b), p)) \<and>
    (\<exists>seg'. tcp_segment_parse seg b cs = Some (NoError, seg') \<and> header seg' = tcp_fields (buffer_str b) \<and>
       buffer_str (payload seg') = drop 20 (buffer_str b))"
proof -
  have "np_at (np_new b) (buffer_str b)" using assms(1) by (simp add: np_at_def np_new_def)
  from tcp_header_parse_total [OF this, of "header seg"] assms(2,4) obtain p where
    p: "tcp_header_parse (header seg) (np_new b) = Some (HeaderTooShort, tcp_fields (buffer_str b), p)"
      "np_at p (drop 20 (buffer_str b))"
    by (auto simp: np_left_def)
  with assms(3) show ?thesis by (simp add: tcp_segment_parse_def Let_def np_at_def)
qed

theorem short_data_offset_accepted_witness:
  "\<exists>seg'. tcp_segment_parse tcp_segment_default
       (buffer_of [0, 0, 0, 0, 0, 0, 0, 0, 0, 0, 0, 0, 0, 0, 0, 0, 255, 255, 0, 0]) 0 = Some (NoError, seg') \<and>
     doff (header seg') < 5"
proof -
  define b where "b = buffer_of [0, 0, 0, 0, 0, 0, 0, 0, 0, 0, 0, 0, 0, 0, 0, 0, 255, 255, 0, 0]"
  have "ic_value (ic_add (ic_new 0) (buffer_str b)) = 0"
    by (simp add: b_def ic_value_0_iff ic_add_sum ic_new_def)
  moreover have "doff (tcp_fields (buffer_str b)) < 5"
    by (simp add: b_def tcp_fields_def field_def be_val_def Let_def)
  moreover have "buffer_inv b" "20 \<le> length (buffer_str b)" by (simp_all add: b_def SIZE_MOD_def)
  ultimately show ?thesis
    using short_data_offset_accepted [of b 0 tcp_segment_default] unfolding b_def [symmetric] by metis
qed

end
