(* ===== verification/IPv4_Wire.thy ===== *)
theory IPv4_Wire
  imports Internet_Checksum Text_Format
begin

text \<open>
  IPv4 headers and datagrams, \<open>libsponge/tcp_helpers/ipv4_header.hh\<close>, \<open>ipv4_header.cc\<close>,
  \<open>ipv4_datagram.hh\<close> and \<open>ipv4_datagram.cc\<close>. As for TCP, a \<open>parse\<close> overwrites the fields of an object
  and \<^const>\<open>None\<close> is a thrown exception.
\<close>

unbundle bit_operations_syntax

section \<open>Header\<close>

definition IP_LENGTH :: size_t where "IP_LENGTH = 20"
definition DEFAULT_TTL :: byte where "DEFAULT_TTL = 128"
definition PROTO_TCP :: byte where "PROTO_TCP = 6"

record ipv4_header =
  ip_ver :: byte
  ip_hlen :: byte
  ip_tos :: byte
  ip_len :: u16
  ip_id :: u16
  ip_df :: bool
  ip_mf :: bool
  ip_offset :: u16
  ip_ttl :: byte
  ip_proto :: byte
  ip_cksum :: u16
  ip_src :: u32
  ip_dst :: u32

definition ipv4_header_default :: ipv4_header where
  "ipv4_header_default =
     \<lparr>ip_ver = 4, ip_hlen = 20 div 4, ip_tos = 0, ip_len = 0, ip_id = 0, ip_df = True, ip_mf = False,
      ip_offset = 0, ip_ttl = DEFAULT_TTL, ip_proto = PROTO_TCP, ip_cksum = 0, ip_src = 0, ip_dst = 0\<rparr>"

definition ipv4_header_parse :: "ipv4_header \<Rightarrow> net_parser \<Rightarrow> (parse_result \<times> ipv4_header \<times> net_parser) option" where
  "ipv4_header_parse h p =
     (let original_serialized_version = np_buffer p;
          data_size = buf_size (np_buffer p)
      in if data_size < IP_LENGTH then Some (PacketTooShort, h, p)
         else do {
           (first_byte, p) \<leftarrow> np_u8 p;
           let h = h\<lparr>ip_ver := drop_bit 4 first_byte, ip_hlen := first_byte AND 0x0f\<rparr>;
           (v, p) \<leftarrow> np_u8 p; let h = h\<lparr>ip_tos := v\<rparr>;
           (v, p) \<leftarrow> np_u16 p; let h = h\<lparr>ip_len := v\<rparr>;
           (v, p) \<leftarrow> np_u16 p; let h = h\<lparr>ip_id := v\<rparr>;
           (fo_val, p) \<leftarrow> np_u16 p;
           let h = h\<lparr>ip_df := fo_val AND 0x4000 \<noteq> 0, ip_mf := fo_val AND 0x2000 \<noteq> 0, ip_offset := fo_val AND 0x1fff\<rparr>;
           (v, p) \<leftarrow> np_u8 p; let h = h\<lparr>ip_ttl := v\<rparr>;
           (v, p) \<leftarrow> np_u8 p; let h = h\<lparr>ip_proto := v\<rparr>;
           (v, p) \<leftarrow> np_u16 p; let h = h\<lparr>ip_cksum := v\<rparr>;
           (v, p) \<leftarrow> np_u32 p; let h = h\<lparr>ip_src := v\<rparr>;
           (v, p) \<leftarrow> np_u32 p; let h = h\<lparr>ip_dst := v\<rparr>;
           if data_size < 4 * unat (ip_hlen h) then Some (PacketTooShort, h, p)
           else if ip_ver h \<noteq> 4 then Some (WrongIPVersion, h, p)
           else if ip_hlen h < 5 then Some (HeaderTooShort, h, p)
           else if data_size \<noteq> unat (ip_len h) then Some (TruncatedPacket, h, p)
           else do {
             p \<leftarrow> np_remove_prefix p (sz_sub (unat (ip_hlen h) * 4) IP_LENGTH);
             if np_has_error p then Some (np_error p, h, p)
             else
               let check = ic_add (ic_new 0) (take (4 * unat (ip_hlen h)) (buffer_str original_serialized_version))
               in Some (if ic_value check \<noteq> 0 then BadChecksum else NoError, h, p)
           }
         })"



definition ipv4_header_serialize :: "ipv4_header \<Rightarrow> bytes option" where
  "ipv4_header_serialize h =
     (if ip_ver h \<noteq> 4 then None
      else if 4 * unat (ip_hlen h) < IP_LENGTH then None
      else
        let ret = [];
            first_byte = push_bit 4 (ip_ver h) OR (ip_hlen h AND 0xf);
            ret = nu_u8 ret first_byte;
            ret = nu_u8 ret (ip_tos h);
            ret = nu_u16 ret (ip_len h);
            ret = nu_u16 ret (ip_id h);
            fo_val = (if ip_df h then 0x4000 else 0) OR (if ip_mf h then 0x2000 else 0) OR (ip_offset h AND 0x1fff);
            ret = nu_u16 ret fo_val;
            ret = nu_u8 ret (ip_ttl h);
            ret = nu_u8 ret (ip_proto h);
            ret = nu_u16 ret (ip_cksum h);
            ret = nu_u32 ret (ip_src h);
            ret = nu_u32 ret (ip_dst h)
        in Some (str_resize ret (4 * unat (ip_hlen h))))"

definition payload_length :: "ipv4_header \<Rightarrow> u16" where
  "payload_length h = ip_len h - 4 * ucast (ip_hlen h)"

definition pseudo_cksum :: "ipv4_header \<Rightarrow> u32" where
  "pseudo_cksum h =
     (let pcksum = drop_bit 16 (ip_src h) + (ip_src h AND 0xffff);
          pcksum = pcksum + (drop_bit 16 (ip_dst h) + (ip_dst h AND 0xffff));
          pcksum = pcksum + ucast (ip_proto h);
          pcksum = pcksum + ucast (payload_length h)
      in pcksum)"

definition ipv4_header_to_string :: "ipv4_header \<Rightarrow> string" where
  "ipv4_header_to_string h =
     ''IP version: '' @ show_hex (unat (ip_ver h)) @ ''\<newline>'' @
     ''IP hdr len: '' @ show_hex (unat (ip_hlen h)) @ ''\<newline>'' @
     ''IP tos: '' @ show_hex (unat (ip_tos h)) @ ''\<newline>'' @
     ''IP dgram len: '' @ show_hex (unat (ip_len h)) @ ''\<newline>'' @
     ''IP id: '' @ show_hex (unat (ip_id h)) @ ''\<newline>'' @
     ''Flags: df: '' @ show_bool (ip_df h) @ '' mf: '' @ show_bool (ip_mf h) @ ''\<newline>'' @
     ''Offset: '' @ show_hex (unat (ip_offset h)) @ ''\<newline>'' @
     ''TTL: '' @ show_hex (unat (ip_ttl h)) @ ''\<newline>'' @
     ''Protocol: '' @ show_hex (unat (ip_proto h)) @ ''\<newline>'' @
     ''Checksum: '' @ show_hex (unat (ip_cksum h)) @ ''\<newline>'' @
     ''Src addr: '' @ show_hex (unat (ip_src h)) @ ''\<newline>'' @
     ''Dst addr: '' @ show_hex (unat (ip_dst h)) @ ''\<newline>''"

definition ipv4_header_summary :: "ipv4_header \<Rightarrow> string" where
  "ipv4_header_summary h =
     ''IPv'' @ show_hex (unat (ip_ver h)) @ '', '' @
     ''len='' @ show_hex (unat (ip_len h)) @ '', '' @
     ''protocol='' @ show_hex (unat (ip_proto h)) @ '', '' @
     (if ip_ttl h \<ge> 10 then [] else ''ttl='' @ show_dec (unat (ip_ttl h)) @ '', '') @
     ''src='' @ inet_ntoa (ip_src h) @ '', '' @
     ''dst='' @ inet_ntoa (ip_dst h)"

section \<open>Datagram\<close>

record ipv4_datagram =
  ip_header :: ipv4_header
  ip_payload :: buffer_list

definition ipv4_datagram_default :: ipv4_datagram where
  "ipv4_datagram_default = \<lparr>ip_header = ipv4_header_default, ip_payload = bl_default\<rparr>"

definition ipv4_datagram_parse :: "ipv4_datagram \<Rightarrow> buffer \<Rightarrow> (parse_result \<times> ipv4_datagram) option" where
  "ipv4_datagram_parse d buffer = do {
     (_, h, p) \<leftarrow> ipv4_header_parse (ip_header d) (np_new buffer);
     let d = d\<lparr>ip_header := h, ip_payload := bl_of_buffer (np_buffer p)\<rparr>;
     Some (if bl_size (ip_payload d) \<noteq> unat (payload_length (ip_header d)) then PacketTooShort else np_error p, d)
   }"

definition ipv4_datagram_serialize :: "ipv4_datagram \<Rightarrow> buffer_list option" where
  "ipv4_datagram_serialize d =
     (if bl_size (ip_payload d) \<noteq> unat (payload_length (ip_header d)) then None
      else do {
        let header_out = (ip_header d)\<lparr>ip_cksum := 0\<rparr>;
        header_zero_checksum \<leftarrow> ipv4_header_serialize header_out;
        let check = ic_add (ic_new 0) header_zero_checksum;
        let header_out = header_out\<lparr>ip_cksum := ic_value check\<rparr>;
        hdr \<leftarrow> ipv4_header_serialize header_out;
        Some (bl_append (bl_append bl_default (bl_of_string hdr)) (ip_payload d))
      })"

section \<open>Fields\<close>

definition ipv4_fields :: "bytes \<Rightarrow> ipv4_header" where
  "ipv4_fields bs =
     (let fb = field 0 1 bs :: byte; fo = field 6 2 bs :: u16 in
      \<lparr>ip_ver = drop_bit 4 fb, ip_hlen = fb AND 0x0f, ip_tos = field 1 1 bs, ip_len = field 2 2 bs,
       ip_id = field 4 2 bs, ip_df = fo AND 0x4000 \<noteq> 0, ip_mf = fo AND 0x2000 \<noteq> 0, ip_offset = fo AND 0x1fff,
       ip_ttl = field 8 1 bs, ip_proto = field 9 1 bs, ip_cksum = field 10 2 bs, ip_src = field 12 4 bs,
       ip_dst = field 16 4 bs\<rparr>)"

text \<open>The result of parsing a header of at least 20 bytes.\<close>

definition ipv4_verdict :: "bytes \<Rightarrow> parse_result" where
  "ipv4_verdict bs =
     (let h = ipv4_fields bs in
      if length bs < 4 * unat (ip_hlen h) then PacketTooShort
      else if ip_ver h \<noteq> 4 then WrongIPVersion
      else if ip_hlen h < 5 then HeaderTooShort
      else if length bs \<noteq> unat (ip_len h) then TruncatedPacket
      else if ic_value (ic_add (ic_new 0) (take (4 * unat (ip_hlen h)) bs)) \<noteq> 0 then BadChecksum
      else NoError)"

lemma ipv4_header_parse_short:
  "np_at p bs \<Longrightarrow> length bs < 20 \<Longrightarrow> ipv4_header_parse h p = Some (PacketTooShort, h, p)"
  by (simp add: ipv4_header_parse_def np_at_def buf_size_def IP_LENGTH_def)

lemma ipv4_header_parse_long:
  assumes at: "np_at p bs" and len: "20 \<le> length bs"
  shows "\<exists>p'. ipv4_header_parse h p = Some (ipv4_verdict bs, ipv4_fields bs, p') \<and>
    np_at p' (drop (if ipv4_verdict bs \<in> {NoError, BadChecksum} then 4 * unat (ip_hlen (ipv4_fields bs)) else 20) bs)"
proof -
  have "np_left p bs 0" using at by (simp add: np_left_0)
  then obtain p1 where 1: "np_u8 p = Some (field 0 1 bs, p1)" "np_left p1 bs 1"
    using np_u8_left [of p bs 0 1] len by auto
  from 1(2) obtain p2 where 2: "np_u8 p1 = Some (field 1 1 bs, p2)" "np_left p2 bs 2"
    using np_u8_left [of p1 bs 1 2] len by auto
  from 2(2) obtain p3 where 3: "np_u16 p2 = Some (field 2 2 bs, p3)" "np_left p3 bs 4"
    using np_u16_left [of p2 bs 2 4] len by auto
  from 3(2) obtain p4 where 4: "np_u16 p3 = Some (field 4 2 bs, p4)" "np_left p4 bs 6"
    using np_u16_left [of p3 bs 4 6] len by auto
  from 4(2) obtain p5 where 5: "np_u16 p4 = Some (field 6 2 bs, p5)" "np_left p5 bs 8"
    using np_u16_left [of p4 bs 6 8] len by auto
  from 5(2) obtain p6 where 6: "np_u8 p5 = Some (field 8 1 bs, p6)" "np_left p6 bs 9"
    using np_u8_left [of p5 bs 8 9] len by auto
  from 6(2) obtain p7 where 7: "np_u8 p6 = Some (field 9 1 bs, p7)" "np_left p7 bs 10"
    using np_u8_left [of p6 bs 9 10] len by auto
  from 7(2) obtain p8 where 8: "np_u16 p7 = Some (field 10 2 bs, p8)" "np_left p8 bs 12"
    using np_u16_left [of p7 bs 10 12] len by auto
  from 8(2) obtain p9 where 9: "np_u32 p8 = Some (field 12 4 bs, p9)" "np_left p9 bs 16"
    using np_u32_left [of p8 bs 12 16] len by auto
  from 9(2) obtain p10 where 10: "np_u32 p9 = Some (field 16 4 bs, p10)" "np_left p10 bs 20"
    using np_u32_left [of p9 bs 16 20] len by auto
  let ?h = "ipv4_fields bs"
  have size: "buf_size (np_buffer p) = length bs" "buffer_str (np_buffer p) = bs"
    using at by (simp_all add: np_at_def buf_size_def)
  have parse: "ipv4_header_parse h p =
      (if length bs < 4 * unat (ip_hlen ?h) then Some (PacketTooShort, ?h, p10)
       else if ip_ver ?h \<noteq> 4 then Some (WrongIPVersion, ?h, p10)
       else if ip_hlen ?h < 5 then Some (HeaderTooShort, ?h, p10)
       else if length bs \<noteq> unat (ip_len ?h) then Some (TruncatedPacket, ?h, p10)
       else np_remove_prefix p10 (sz_sub (unat (ip_hlen ?h) * 4) IP_LENGTH) \<bind>
         (\<lambda>p. if np_has_error p then Some (np_error p, ?h, p)
              else Some (if ic_value (ic_add (ic_new 0) (take (4 * unat (ip_hlen ?h)) bs)) \<noteq> 0 then BadChecksum
                         else NoError, ?h, p)))"
    using 1(1) 2(1) 3(1) 4(1) 5(1) 6(1) 7(1) 8(1) 9(1) 10(1) len size
    by (cases h) (simp add: ipv4_header_parse_def IP_LENGTH_def ipv4_fields_def Let_def cong: if_cong)
  have left: "np_at p10 (drop 20 bs)" using 10(2) len by (simp add: np_left_def)
  show ?thesis
  proof (cases "length bs < 4 * unat (ip_hlen ?h) \<or> ip_ver ?h \<noteq> 4 \<or> ip_hlen ?h < 5 \<or> length bs \<noteq> unat (ip_len ?h)")
    case True
    then show ?thesis unfolding parse using left by (auto simp: ipv4_verdict_def Let_def)
  next
    case False
    have "unat (ip_hlen ?h) < 256" using unsigned_less [of "ip_hlen ?h", where 'a = nat] by simp
    with False have off: "20 + sz_sub (unat (ip_hlen ?h) * 4) IP_LENGTH = 4 * unat (ip_hlen ?h)"
      by (simp add: sz_sub_exact IP_LENGTH_def SIZE_MOD_def word_less_nat_alt not_less)
    from np_remove_prefix_left [OF 10(2), of "sz_sub (unat (ip_hlen ?h) * 4) IP_LENGTH"] obtain p' where
      p': "np_remove_prefix p10 (sz_sub (unat (ip_hlen ?h) * 4) IP_LENGTH) = Some p'" "np_left p' bs (4 * unat (ip_hlen ?h))"
      unfolding off by blast
    then have "np_at p' (drop (4 * unat (ip_hlen ?h)) bs)" using False by (simp add: np_left_def)
    then show ?thesis
      unfolding parse using False p'(1) by (auto simp: ipv4_verdict_def Let_def np_has_error_def np_at_def)
  qed
qed

section \<open>Round trip\<close>

definition ip_first :: "ipv4_header \<Rightarrow> byte" where
  "ip_first h = push_bit 4 (ip_ver h) OR (ip_hlen h AND 0xf)"

definition ip_fo :: "ipv4_header \<Rightarrow> u16" where
  "ip_fo h = (if ip_df h then 0x4000 else 0) OR (if ip_mf h then 0x2000 else 0) OR (ip_offset h AND 0x1fff)"

text \<open>The bytes of a header before and after its checksum.\<close>

definition ip_before :: "ipv4_header \<Rightarrow> bytes" where
  "ip_before h = nu_u8 [] (ip_first h) @ nu_u8 [] (ip_tos h) @ nu_u16 [] (ip_len h) @ nu_u16 [] (ip_id h) @
     nu_u16 [] (ip_fo h) @ nu_u8 [] (ip_ttl h) @ nu_u8 [] (ip_proto h)"

definition ip_after :: "ipv4_header \<Rightarrow> bytes" where
  "ip_after h = nu_u32 [] (ip_src h) @ nu_u32 [] (ip_dst h) @ replicate (4 * unat (ip_hlen h) - 20) 0"

text \<open>The headers that the format can hold: four bits of length and thirteen of offset.\<close>

definition ipv4_header_valid :: "ipv4_header \<Rightarrow> bool" where
  "ipv4_header_valid h \<longleftrightarrow> ip_ver h = 4 \<and> 5 \<le> ip_hlen h \<and> ip_hlen h < 16 \<and> ip_offset h < 0x2000"

lemma ip_before_length [simp]: "length (ip_before h) = 10"
  by (simp add: ip_before_def)

lemma low_nibble: "x AND 0xf = take_bit 4 (x :: byte)" "x < 16 \<Longrightarrow> take_bit 4 x = x"
  by (simp add: take_bit_eq_mask mask_eq_exp_minus_1)
    (rule take_bit_small, simp add: word_less_nat_alt)

lemma ip_first_fields:
  assumes "ipv4_header_valid h"
  shows "drop_bit 4 (ip_first h) = 4" and "ip_first h AND 0xf = ip_hlen h"
proof -
  have h: "ip_ver h = 4" "take_bit 4 (ip_hlen h) = ip_hlen h" using assms by (simp_all add: ipv4_header_valid_def low_nibble(2))
  then have f: "ip_first h = 64 OR take_bit 4 (ip_hlen h)" unfolding ip_first_def low_nibble(1) by simp
  have "drop_bit 4 (64 :: byte) = 4" "take_bit 4 (64 :: byte) = 0" by simp_all
  moreover have "drop_bit 4 (take_bit 4 (ip_hlen h)) = 0" by (simp only: drop_bit_take_bit) simp
  ultimately show "drop_bit 4 (ip_first h) = 4" "ip_first h AND 0xf = ip_hlen h"
    unfolding f low_nibble(1) drop_bit_or take_bit_or using h(2) by (simp_all only: or.right_neutral or.left_neutral take_bit_of_0)
qed

lemma ip_fo_fields:
  assumes "ipv4_header_valid h"
  shows "ip_fo h AND 0x4000 \<noteq> 0 \<longleftrightarrow> ip_df h" and "ip_fo h AND 0x2000 \<noteq> 0 \<longleftrightarrow> ip_mf h"
    and "ip_fo h AND 0x1fff = ip_offset h"
proof -
  have "ip_offset h AND 0x1fff = take_bit 13 (ip_offset h)" by (simp add: take_bit_eq_mask mask_eq_exp_minus_1)
  also have "\<dots> = ip_offset h"
    using assms by (intro take_bit_small) (simp add: ipv4_header_valid_def word_less_nat_alt)
  finally have o1: "ip_offset h AND 0x1fff = ip_offset h" .
  have o2: "(ip_offset h AND 0x1fff) AND k = ip_offset h AND (0x1fff AND k)" for k by (simp add: and.assoc)
  show "ip_fo h AND 0x4000 \<noteq> 0 \<longleftrightarrow> ip_df h" "ip_fo h AND 0x2000 \<noteq> 0 \<longleftrightarrow> ip_mf h" "ip_fo h AND 0x1fff = ip_offset h"
    unfolding ip_fo_def bit.conj_disj_distrib2 o2 by (cases "ip_df h"; cases "ip_mf h"; simp add: o1)+
qed

lemma ipv4_fields_bytes:
  assumes "ipv4_header_valid h"
  shows "ipv4_fields (ip_before h @ nu_u16 [] (ip_cksum h) @ ip_after h @ rest) = h"
  using assms ip_fo_fields [OF assms] ip_first_fields [OF assms]
  by (simp add: ipv4_fields_def ip_before_def ip_after_def field_skip Let_def ipv4_header_valid_def)

lemma ip_before_cksum [simp]:
  "ip_before (h\<lparr>ip_cksum := c\<rparr>) = ip_before h" "ip_after (h\<lparr>ip_cksum := c\<rparr>) = ip_after h"
  by (simp_all add: ip_before_def ip_after_def ip_first_def ip_fo_def)

lemma ip_hlen_bounds: "ipv4_header_valid h \<Longrightarrow> 20 \<le> 4 * unat (ip_hlen h) \<and> 4 * unat (ip_hlen h) \<le> 60"
  by (simp add: ipv4_header_valid_def word_less_nat_alt word_le_nat_alt)

lemma ipv4_header_serialize_eq:
  assumes "ipv4_header_valid h"
  shows "ipv4_header_serialize h = Some (ip_before h @ nu_u16 [] (ip_cksum h) @ ip_after h)"
    and "length (ip_before h @ nu_u16 [] (ip_cksum h) @ ip_after h) = 4 * unat (ip_hlen h)"
proof -
  show "ipv4_header_serialize h = Some (ip_before h @ nu_u16 [] (ip_cksum h) @ ip_after h)"
    using ip_hlen_bounds [OF assms] assms unfolding ipv4_header_serialize_def ip_first_def [symmetric] ip_fo_def [symmetric]
    by (simp add: Let_def str_resize_pad nu_append ip_before_def ip_after_def IP_LENGTH_def ipv4_header_valid_def)
  show "length (ip_before h @ nu_u16 [] (ip_cksum h) @ ip_after h) = 4 * unat (ip_hlen h)"
    using ip_hlen_bounds [OF assms] by (auto simp: ip_after_def)
qed

lemma payload_length_eq:
  assumes "4 * unat (ip_hlen h) \<le> unat (ip_len h)"
  shows "unat (payload_length h) = unat (ip_len h) - 4 * unat (ip_hlen h)"
proof -
  have "unat (ip_hlen h) < 256" using unsigned_less [of "ip_hlen h", where 'a = nat] by simp
  then have "unat (4 * ucast (ip_hlen h) :: u16) = 4 * unat (ip_hlen h)"
    by (simp add: unat_word_ariths unsigned_ucast_eq take_bit_eq_mod)
  then show ?thesis using assms by (simp add: payload_length_def unat_sub_if_size)
qed

text \<open>The checksum of a serialized header, and its bytes.\<close>

definition ip_cksum_of :: "ipv4_header \<Rightarrow> u16" where
  "ip_cksum_of h = ic_value (ic_add (ic_new 0) (ip_before h @ [0, 0] @ ip_after h))"

lemma ip_header_passes:
  assumes "ipv4_header_valid h"
  shows "ic_value (ic_add (ic_new 0) (ip_before h @ nu_u16 [] (ip_cksum_of h) @ ip_after h)) = 0"
proof (rule checksum_closes)
  have "length (ip_before h @ ip_after h) \<le> 58"
    using ipv4_header_serialize_eq(2) [OF assms] ip_hlen_bounds [OF assms] by simp
  then show "unat (0 :: u32) + octet_sum False (ip_before h @ ip_after h) + 65535 < 4294967296"
    using octet_sum_bound [of False "ip_before h @ ip_after h"] by simp
qed (simp_all add: octet_sum_u16 ip_cksum_of_def)

lemma ipv4_datagram_serialize_eq:
  assumes "ipv4_header_valid (ip_header d)" and "ipv4_datagram_serialize d = Some l"
  shows "bl_size (ip_payload d) = unat (payload_length (ip_header d))"
    and "bl_concatenate l = ip_before (ip_header d) @ nu_u16 [] (ip_cksum_of (ip_header d)) @ ip_after (ip_header d) @
      bl_concatenate (ip_payload d)"
proof -
  have v: "ipv4_header_valid ((ip_header d)\<lparr>ip_cksum := c\<rparr>)" for c using assms(1) by (simp add: ipv4_header_valid_def)
  show "bl_size (ip_payload d) = unat (payload_length (ip_header d))"
    using assms(2) by (simp add: ipv4_datagram_serialize_def split: if_splits)
  then have "l = bl_append (bl_append bl_default (bl_of_string (ip_before (ip_header d) @
      nu_u16 [] (ip_cksum_of (ip_header d)) @ ip_after (ip_header d)))) (ip_payload d)"
    using assms(2) by (simp add: ipv4_datagram_serialize_def ipv4_header_serialize_eq [OF v] nu_u16_0 ip_cksum_of_def Let_def)
  then show "bl_concatenate l = ip_before (ip_header d) @ nu_u16 [] (ip_cksum_of (ip_header d)) @ ip_after (ip_header d) @
      bl_concatenate (ip_payload d)"
    by (simp add: bl_concatenate_def fold_append bl_of_string_def bl_of_buffer_def bl_default_def)
qed

text \<open>The pseudo header adds at most five 16 bit numbers and one byte.\<close>

lemma unat_halves:
  fixes x :: u32
  shows "unat (drop_bit 16 x) \<le> 65535" and "unat (x AND 0xffff) \<le> 65535"
proof -
  have "unat x < 4294967296" using unsigned_less [of x, where 'a = nat] by simp
  then show "unat (drop_bit 16 x) \<le> 65535"
    by (simp only: unat_drop_bit_eq) (simp add: drop_bit_eq_div)
  have "x AND 0xffff = take_bit 16 x" by (simp add: take_bit_eq_mask mask_eq_exp_minus_1)
  then have "unat (x AND 0xffff) = unat x mod 65536" by (simp only: unsigned_take_bit_eq) (simp add: take_bit_eq_mod)
  also have "\<dots> \<le> 65535" using mod_less_divisor [of 65536 "unat x"] by linarith
  finally show "unat (x AND 0xffff) \<le> 65535" .
qed

lemma pseudo_cksum_bound: "unat (pseudo_cksum h) \<le> 327930"
proof -
  have add: "unat (a + b) \<le> m + n" if "unat a \<le> m" "unat b \<le> n" for a b :: u32 and m n
    using that unat_add_lem [of a b] unsigned_less [of "a + b", where 'a = nat]
    by (cases "unat a + unat b < 2 ^ 32") (auto simp: unat_word_ariths intro: le_trans [OF mod_less_eq_dividend])
  have p: "unat (ucast (ip_proto h) :: u32) \<le> 255" "unat (ucast (payload_length h) :: u32) \<le> 65535"
    using unsigned_less [of "ip_proto h", where 'a = nat] unsigned_less [of "payload_length h", where 'a = nat]
    by (simp_all add: unsigned_ucast_eq take_bit_eq_mod)
  show ?thesis
    using add [OF add [OF add [OF add [OF unat_halves [of "ip_src h"]] add [OF unat_halves [of "ip_dst h"]]] p(1)] p(2)]
    by (simp add: pseudo_cksum_def Let_def)
qed

lemma ipv4_parse_serialized:
  assumes "ipv4_header_valid (ip_header d)" and "4 * unat (ip_hlen (ip_header d)) \<le> unat (ip_len (ip_header d))"
    and "bl_inv (ip_payload d)" and "ipv4_datagram_serialize d = Some l"
    and "buffer_inv b" and "buffer_str b = bl_concatenate l"
  defines "h \<equiv> (ip_header d)\<lparr>ip_cksum := ip_cksum_of (ip_header d)\<rparr>"
  shows "\<exists>p. ipv4_header_parse (ip_header old) (np_new b) = Some (NoError, h, p) \<and>
    np_at p (bl_concatenate (ip_payload d)) \<and>
    ipv4_datagram_parse old b = Some (NoError, \<lparr>ip_header = h, ip_payload = bl_of_buffer (np_buffer p)\<rparr>)"
proof -
  let ?h = "(ip_header d)\<lparr>ip_cksum := ip_cksum_of (ip_header d)\<rparr>" and ?pl = "bl_concatenate (ip_payload d)"
  have valid: "ipv4_header_valid ?h" using assms(1) by (simp add: ipv4_header_valid_def)
  note ser = ipv4_datagram_serialize_eq [OF assms(1,4)]
  let ?hd = "ip_before ?h @ nu_u16 [] (ip_cksum ?h) @ ip_after ?h"
  have bs: "buffer_str b = ?hd @ ?pl" using ser(2) assms(6) by simp
  have hlen: "length ?hd = 4 * unat (ip_hlen ?h)" "20 \<le> 4 * unat (ip_hlen ?h)" "\<not> ip_hlen ?h < 5" "ip_ver ?h = 4"
    using ipv4_header_serialize_eq(2) [OF valid] ip_hlen_bounds [OF valid] valid by (auto simp: ipv4_header_valid_def not_less)
  have len: "length (buffer_str b) = unat (ip_len ?h)"
    using bs hlen(1) ser(1) payload_length_eq [OF assms(2)] assms(2) bl.len_contents [OF assms(3)] by simp
  have fields: "ipv4_fields (buffer_str b) = ?h" using ipv4_fields_bytes [OF valid, of ?pl] bs by simp
  have "ic_value (ic_add (ic_new 0) (take (4 * unat (ip_hlen ?h)) (buffer_str b))) = 0"
    using ip_header_passes [OF assms(1)] hlen(1) unfolding bs by (simp del: append_assoc)
  then have verdict: "ipv4_verdict (buffer_str b) = NoError"
    using fields len hlen bs by (simp add: ipv4_verdict_def)
  have at: "np_at (np_new b) (buffer_str b)" using assms(5) by (simp add: np_at_def np_new_def)
  have "20 \<le> length (buffer_str b)" using hlen(1,2) bs by simp
  moreover have "drop (4 * unat (ip_hlen ?h)) (buffer_str b) = ?pl"
    unfolding bs using hlen(1) by (metis append_eq_conv_conj)
  ultimately obtain p where p: "ipv4_header_parse (ip_header old) (np_new b) = Some (NoError, ?h, p)" "np_at p ?pl"
    using ipv4_header_parse_long [OF at, of "ip_header old"] by (auto simp: verdict fields)
  have "length ?pl < SIZE_MOD" using assms(3) by (simp add: bl_inv_def)
  then have "bl_size (bl_of_buffer (np_buffer p)) = unat (payload_length ?h)"
    using p(2) ser(1) bl.len_contents [OF assms(3)]
    by (simp add: np_at_def bl_size_def bl_of_buffer_def buf_size_def sz_add_def payload_length_def)
  with p show ?thesis
    by (cases old) (simp add: ipv4_datagram_parse_def Let_def np_at_def h_def)
qed

section \<open>Properties\<close>

text \<open>
  C27: Serializing a datagram and parsing the bytes again gives back its payload and every field of
  its header but the checksum, and the header itself passes all of its checks.
\<close>

theorem ipv4_datagram_roundtrip:
  assumes "ipv4_header_valid (ip_header d)" and "4 * unat (ip_hlen (ip_header d)) \<le> unat (ip_len (ip_header d))"
    and "bl_inv (ip_payload d)" and "ipv4_datagram_serialize d = Some l"
    and "buffer_inv b" and "buffer_str b = bl_concatenate l"
  shows "\<exists>d' p. ipv4_datagram_parse old b = Some (NoError, d') \<and>
    ipv4_header_parse (ip_header old) (np_new b) = Some (NoError, ip_header d', p) \<and>
    ip_header d' = (ip_header d)\<lparr>ip_cksum := ip_cksum_of (ip_header d)\<rparr> \<and>
    bl_concatenate (ip_payload d') = bl_concatenate (ip_payload d)"
  using ipv4_parse_serialized [OF assms, of old]
  by (auto simp: np_at_def bl_concatenate_def bl_of_buffer_def)

theorem ipv4_datagram_roundtrip_witness:
  "\<exists>l d' p. ipv4_datagram_serialize \<lparr>ip_header = ipv4_header_default\<lparr>ip_len := 23, ip_src := 7\<rparr>,
       ip_payload = bl_of_string [1, 2, 3]\<rparr> = Some l \<and>
     ipv4_datagram_parse ipv4_datagram_default (buffer_of (bl_concatenate l)) = Some (NoError, d') \<and>
     ip_src (ip_header d') = 7 \<and> bl_concatenate (ip_payload d') = [1, 2, 3]"
proof -
  let ?d = "\<lparr>ip_header = ipv4_header_default\<lparr>ip_len := 23, ip_src := 7\<rparr>, ip_payload = bl_of_string [1, 2, 3]\<rparr>"
  have valid: "ipv4_header_valid (ip_header ?d)" by (simp add: ipv4_header_valid_def ipv4_header_default_def)
  have inv: "bl_inv (ip_payload ?d)"
    by (simp add: bl_inv_def bl_concatenate_def bl_of_string_def bl_of_buffer_def bl_default_def SIZE_MOD_def)
  have "bl_size (ip_payload ?d) = unat (payload_length (ip_header ?d))"
    using bl.len_contents [OF inv]
    by (simp add: payload_length_def ipv4_header_default_def bl_concatenate_def bl_of_string_def bl_of_buffer_def bl_default_def)
  then obtain l where l: "ipv4_datagram_serialize ?d = Some l"
    by (simp add: ipv4_datagram_serialize_def ipv4_header_serialize_def ipv4_header_default_def IP_LENGTH_def Let_def)
  have "length (bl_concatenate l) < SIZE_MOD"
    using ipv4_datagram_serialize_eq(2) [OF valid l]
    by (simp add: ip_after_def ipv4_header_default_def bl_concatenate_def bl_of_string_def bl_of_buffer_def bl_default_def SIZE_MOD_def)
  then have "buffer_inv (buffer_of (bl_concatenate l))" by simp
  from ipv4_datagram_roundtrip [OF valid _ inv l this, of ipv4_datagram_default] l show ?thesis
    by (auto simp: ipv4_header_default_def bl_concatenate_def bl_of_string_def bl_of_buffer_def bl_default_def)
qed

text \<open>
  \<open>IPv4Datagram::parse\<close> ignores the result of the header's \<open>parse\<close>: a datagram whose header has a
  wrong checksum or a wrong version is accepted as long as its length field fits.
\<close>

theorem bad_ip_header_accepted:
  assumes "buffer_inv b" and "20 \<le> length (buffer_str b)"
    and "ipv4_verdict (buffer_str b) \<in> {BadChecksum, WrongIPVersion}"
    and "length (buffer_str b) = unat (ip_len (ipv4_fields (buffer_str b)))"
    and "ipv4_verdict (buffer_str b) = WrongIPVersion \<longrightarrow> ip_hlen (ipv4_fields (buffer_str b)) = 5"
  shows "\<exists>d'. ipv4_datagram_parse d b = Some (NoError, d') \<and> ip_header d' = ipv4_fields (buffer_str b) \<and>
    (\<exists>p. ipv4_header_parse (ip_header d) (np_new b) = Some (ipv4_verdict (buffer_str b), ip_header d', p))"
proof -
  let ?bs = "buffer_str b" and ?h = "ipv4_fields (buffer_str b)"
  have at: "np_at (np_new b) ?bs" using assms(1) by (simp add: np_at_def np_new_def)
  have hl: "4 * unat (ip_hlen ?h) \<le> length ?bs"
    using assms(3) by (auto simp: ipv4_verdict_def Let_def split: if_splits)
  have "(if ipv4_verdict ?bs \<in> {NoError, BadChecksum} then 4 * unat (ip_hlen ?h) else 20) = 4 * unat (ip_hlen ?h)"
    using assms(3,5) by auto
  with ipv4_header_parse_long [OF at assms(2), of "ip_header d"] obtain p where
    p: "ipv4_header_parse (ip_header d) (np_new b) = Some (ipv4_verdict ?bs, ?h, p)" "np_at p (drop (4 * unat (ip_hlen ?h)) ?bs)"
    by auto
  have "unat (ip_len ?h) < SIZE_MOD" using unsigned_less [of "ip_len ?h", where 'a = nat] by (simp add: SIZE_MOD_def)
  then have "bl_size (bl_of_buffer (np_buffer p)) = unat (payload_length ?h)"
    using p(2) payload_length_eq [of ?h] hl assms(4)
    by (simp add: np_at_def bl_size_def bl_of_buffer_def buf_size_def sz_add_def)
  with p show ?thesis by (simp add: ipv4_datagram_parse_def Let_def np_at_def)
qed

theorem bad_ip_header_accepted_witness:
  "\<exists>d. ipv4_datagram_parse ipv4_datagram_default
       (buffer_of [69, 0, 0, 20, 0, 0, 0, 0, 0, 0, 0, 0, 0, 0, 0, 0, 0, 0, 0, 0]) = Some (NoError, d)"
proof -
  define b where "b = buffer_of [69, 0, 0, 20, 0, 0, 0, 0, 0, 0, 0, 0, 0, 0, 0, 0, 0, 0, 0, 0]"
  have h: "ip_ver (ipv4_fields (buffer_str b)) = 4" "ip_hlen (ipv4_fields (buffer_str b)) = 5"
      "ip_len (ipv4_fields (buffer_str b)) = 20" "length (buffer_str b) = 20"
    by (simp_all add: b_def ipv4_fields_def field_def be_val_def Let_def)
  have "ic_value (ic_add (ic_new 0) (buffer_str b)) \<noteq> 0" by (simp add: b_def ic_value_0_iff ic_add_sum ic_new_def)
  with h have "ipv4_verdict (buffer_str b) = BadChecksum" by (simp add: ipv4_verdict_def Let_def)
  moreover have "buffer_inv b" by (simp add: b_def SIZE_MOD_def)
  ultimately show ?thesis
    using bad_ip_header_accepted [of b ipv4_datagram_default] h unfolding b_def [symmetric] by auto
qed

end
