(* ===== verification/Net_Address.thy ===== *)
theory Net_Address
  imports Net_Parser Text_Format
begin

text \<open>
  The class \<open>Address\<close> of \<open>libsponge/util/address.hh\<close> and \<open>address.cc\<close>: a socket address as the bytes of
  a \<open>sockaddr_storage\<close>, in the layout of a little-endian Linux machine. \<open>getaddrinfo\<close> and \<open>getnameinfo\<close>
  are functions of the system and therefore a parameter, the record \<open>resolver\<close>; what the code relies
  on for numeric addresses is the predicate \<open>resolver_ok\<close>. \<^const>\<open>None\<close> is a thrown exception.
\<close>

section \<open>The class\<close>

definition STORAGE_SIZE :: nat where "STORAGE_SIZE = 128"
definition AF_INET :: nat where "AF_INET = 2"
definition AI_NUMERICHOST :: nat where "AI_NUMERICHOST = 4"
definition AI_ALL :: nat where "AI_ALL = 16"
definition AI_NUMERICSERV :: nat where "AI_NUMERICSERV = 1024"

record address =
  addr_size :: nat
  addr_storage :: bytes

record addrinfo =
  ai_flags :: nat
  ai_family :: nat

text \<open>
  \<open>getaddrinfo\<close> gives an error code or the first entry of the result list, which is a socket address
  with its length; \<open>getnameinfo\<close>, with numeric flags, gives an error code or host and port.
\<close>

record resolver =
  getaddrinfo :: "string \<Rightarrow> string \<Rightarrow> addrinfo \<Rightarrow> int + (bytes \<times> nat) option"
  getnameinfo :: "bytes \<Rightarrow> nat \<Rightarrow> int + string \<times> string"

definition address_of_raw :: "bytes \<Rightarrow> nat \<Rightarrow> address option" where
  "address_of_raw addr n =
     (if n > STORAGE_SIZE then None
      else Some \<lparr>addr_size = n, addr_storage = take n addr @ replicate (STORAGE_SIZE - n) 0\<rparr>)"

definition address_resolve :: "resolver \<Rightarrow> string \<Rightarrow> string \<Rightarrow> addrinfo \<Rightarrow> address option" where
  "address_resolve R node service hints =
     (case getaddrinfo R node service hints of
        Inl gai_ret \<Rightarrow> None
      | Inr None \<Rightarrow> None
      | Inr (Some (ai_addr, ai_addrlen)) \<Rightarrow> address_of_raw ai_addr ai_addrlen)"

definition make_hints :: "nat \<Rightarrow> nat \<Rightarrow> addrinfo" where
  "make_hints flags family = \<lparr>ai_flags = flags, ai_family = family\<rparr>"

definition address_of_host :: "resolver \<Rightarrow> string \<Rightarrow> string \<Rightarrow> address option" where
  "address_of_host R hostname service = address_resolve R hostname service (make_hints AI_ALL AF_INET)"

definition address_of_ip :: "resolver \<Rightarrow> string \<Rightarrow> u16 \<Rightarrow> address option" where
  "address_of_ip R ip port =
     address_resolve R ip (show_dec (unat port)) (make_hints (AI_NUMERICHOST + AI_NUMERICSERV) AF_INET)"

definition ip_port :: "resolver \<Rightarrow> address \<Rightarrow> (string \<times> u16) option" where
  "ip_port R a =
     (case getnameinfo R (addr_storage a) (addr_size a) of
        Inl gni_ret \<Rightarrow> None
      | Inr (ip, port) \<Rightarrow> map_option (\<lambda>n. (ip, of_int n)) (stoi port))"

definition addr_ip :: "resolver \<Rightarrow> address \<Rightarrow> string option" where
  "addr_ip R a = map_option fst (ip_port R a)"

definition addr_port :: "resolver \<Rightarrow> address \<Rightarrow> u16 option" where
  "addr_port R a = map_option snd (ip_port R a)"

definition address_to_string :: "resolver \<Rightarrow> address \<Rightarrow> string option" where
  "address_to_string R a = map_option (\<lambda>(ip, port). ip @ '':'' @ show_dec (unat port)) (ip_port R a)"

definition ss_family :: "bytes \<Rightarrow> nat" where
  "ss_family s = unat (s ! 0) + 256 * unat (s ! 1)"

definition ipv4_numeric :: "address \<Rightarrow> u32 option" where
  "ipv4_numeric a =
     (if ss_family (addr_storage a) \<noteq> AF_INET \<or> addr_size a \<noteq> 16 then None
      else Some (of_nat (be_val (take 4 (drop 4 (addr_storage a))))))"

text \<open>A \<open>sockaddr_in\<close>: family in host order, port and address in network order, padding.\<close>

definition sockaddr_in :: "u32 \<Rightarrow> u16 \<Rightarrow> bytes" where
  "sockaddr_in ip port = [2, 0] @ nu_u16 [] port @ nu_u32 [] ip @ replicate 8 0"

definition from_ipv4_numeric :: "u32 \<Rightarrow> address option" where
  "from_ipv4_numeric ip_address = address_of_raw (sockaddr_in ip_address 0) 16"

definition address_eq :: "address \<Rightarrow> address \<Rightarrow> bool" where
  "address_eq a b \<longleftrightarrow> addr_size a = addr_size b \<and>
     take (addr_size a) (addr_storage a) = take (addr_size a) (addr_storage b)"

section \<open>Internet addresses\<close>

text \<open>The object that stands for an IPv4 address and a port.\<close>

definition inet_address :: "u32 \<Rightarrow> u16 \<Rightarrow> address" where
  "inet_address ip port = \<lparr>addr_size = 16, addr_storage = sockaddr_in ip port @ replicate 112 0\<rparr>"

text \<open>
  The documented behaviour on numeric addresses: a dotted quad, or the number zero, with a decimal
  port is turned into the socket address, and back.
\<close>

definition resolver_ok :: "resolver \<Rightarrow> bool" where
  "resolver_ok R \<longleftrightarrow>
     (\<forall>ip port. getaddrinfo R (inet_ntoa ip) (show_dec (unat port)) (make_hints (AI_NUMERICHOST + AI_NUMERICSERV) AF_INET)
        = Inr (Some (sockaddr_in ip port, 16))) \<and>
     (\<forall>port. getaddrinfo R ''0'' (show_dec (unat port)) (make_hints (AI_NUMERICHOST + AI_NUMERICSERV) AF_INET)
        = Inr (Some (sockaddr_in 0 port, 16))) \<and>
     (\<forall>ip port. getnameinfo R (sockaddr_in ip port @ replicate 112 0) 16 = Inr (inet_ntoa ip, show_dec (unat port)))"

lemma sockaddr_in_length [simp]: "length (sockaddr_in ip port) = 16"
  by (simp add: sockaddr_in_def)

lemma address_of_sockaddr: "address_of_raw (sockaddr_in ip port) 16 = Some (inet_address ip port)"
  by (simp add: address_of_raw_def STORAGE_SIZE_def inet_address_def)

lemma address_of_ip_inet: "resolver_ok R \<Longrightarrow> address_of_ip R (inet_ntoa ip) port = Some (inet_address ip port)"
  by (simp add: address_of_ip_def address_resolve_def resolver_ok_def address_of_sockaddr)

lemma address_of_zero: "resolver_ok R \<Longrightarrow> address_of_ip R ''0'' port = Some (inet_address 0 port)"
  by (simp add: address_of_ip_def address_resolve_def resolver_ok_def address_of_sockaddr)

lemma ip_port_inet:
  assumes "resolver_ok R"
  shows "ip_port R (inet_address ip port) = Some (inet_ntoa ip, port)"
proof -
  have "unat port \<le> 65535" using unsigned_less [of port, where 'a = nat] by simp
  then have "stoi (show_dec (unat port)) = Some (int (unat port))" by (intro stoi_show_dec) simp
  with assms show ?thesis by (simp add: ip_port_def resolver_ok_def inet_address_def)
qed

lemma addr_port_inet: "resolver_ok R \<Longrightarrow> addr_port R (inet_address ip port) = Some port"
  by (simp add: addr_port_def ip_port_inet)

lemma sockaddr_in_fields:
  "field 4 4 (sockaddr_in ip port @ rest) = ip" "field 2 2 (sockaddr_in ip port @ rest) = port"
  "ss_family (sockaddr_in ip port @ rest) = AF_INET"
  by (simp_all add: sockaddr_in_def ss_family_def AF_INET_def field_Cons field_skip)

lemma ipv4_numeric_inet [simp]: "ipv4_numeric (inet_address ip port) = Some ip"
  using sockaddr_in_fields(1,3) [of ip port "replicate 112 0"]
  by (simp add: ipv4_numeric_def inet_address_def field_def)

lemma address_eq_inet [simp]: "address_eq (inet_address a p) (inet_address b q) \<longleftrightarrow> a = b \<and> p = q"
proof -
  have "sockaddr_in a p = sockaddr_in b q \<longleftrightarrow> a = b \<and> p = q"
    by (metis append_Nil2 sockaddr_in_fields(1,2))
  then show ?thesis by (simp add: address_eq_def inet_address_def)
qed

text \<open>A resolver for numeric addresses only.\<close>

definition numeric_resolver :: resolver where
  "numeric_resolver =
     \<lparr>getaddrinfo = (\<lambda>node service hints. Inr (Some (sockaddr_in (read_quad node) (of_nat (read_dec service)), 16))),
      getnameinfo = (\<lambda>s n. Inr (inet_ntoa (field 4 4 s), show_dec (unat (field 2 2 s :: u16))))\<rparr>"

lemma numeric_resolver_ok: "resolver_ok numeric_resolver"
  by (simp add: resolver_ok_def numeric_resolver_def read_quad_ntoa read_show_dec sockaddr_in_fields)
    (simp add: read_quad_def digit_val_def)

section \<open>Properties\<close>

text \<open>
  C39: An address built from a dotted quad and a port prints as that text, has that number and that
  port, and is equal to the address built from another quad and port only if both are the same.
\<close>

theorem address_roundtrip:
  assumes "resolver_ok R"
  shows "\<exists>a. address_of_ip R (inet_ntoa ip) port = Some a \<and> ipv4_numeric a = Some ip \<and> addr_port R a = Some port \<and>
    addr_ip R a = Some (inet_ntoa ip) \<and> address_to_string R a = Some (inet_ntoa ip @ '':'' @ show_dec (unat port)) \<and>
    (\<forall>ip' port' a'. address_of_ip R (inet_ntoa ip') port' = Some a' \<longrightarrow>
       address_eq a a' = (ip = ip' \<and> port = port')) \<and>
    (from_ipv4_numeric ip = Some a \<longleftrightarrow> port = 0)"
proof -
  have "inet_address ip 0 = inet_address ip port \<longleftrightarrow> port = 0"
    using address_eq_inet [of ip 0 ip port] by (metis address_eq_inet)
  then show ?thesis
    using assms
    by (simp add: address_of_ip_inet addr_port_inet addr_ip_def ip_port_inet address_to_string_def from_ipv4_numeric_def
        address_of_sockaddr)
qed

theorem address_roundtrip_witness:
  "\<exists>a. address_of_ip numeric_resolver (inet_ntoa 2130706433) 1440 = Some a \<and> ipv4_numeric a = Some 2130706433"
  using address_roundtrip [OF numeric_resolver_ok, of 2130706433 1440] by blast

end
