(* ===== verification/Fd_Adapters.thy ===== *)
theory Fd_Adapters
  imports TCP_Wire IPv4_Wire Net_Address
begin

text \<open>
  The adapters between TCP segments and datagrams: \<open>FdAdapterConfig\<close> of \<open>tcp_helpers/tcp_config.hh\<close>,
  \<open>FdAdapterBase\<close> and \<open>TCPOverUDPSocketAdapter\<close> of \<open>fd_adapter.hh\<close> and \<open>fd_adapter.cc\<close>,
  \<open>TCPOverIPv4Adapter\<close> of \<open>tcp_over_ip.hh\<close> and \<open>tcp_over_ip.cc\<close>, \<open>TCPOverIPv4OverTunFdAdapter\<close> of
  \<open>tuntap_adapter.hh\<close> and \<open>LossyFdAdapter\<close> of \<open>lossy_fd_adapter.hh\<close>. A read takes what the socket or
  device returned and gives the segment, if any, with the adapter's new state; a write gives what is
  handed to the socket or device. \<^const>\<open>None\<close> is a thrown exception. The random generator of the
  lossy adapter is the parameter \<open>rand\<close>.
\<close>

section \<open>FdAdapterBase\<close>

record fd_adapter_config =
  fa_source :: address
  fa_destination :: address
  loss_rate_dn :: u16
  loss_rate_up :: u16

definition fd_adapter_config_default :: "resolver \<Rightarrow> fd_adapter_config option" where
  "fd_adapter_config_default R = do {
     src \<leftarrow> address_of_ip R ''0'' 0;
     dst \<leftarrow> address_of_ip R ''0'' 0;
     Some \<lparr>fa_source = src, fa_destination = dst, loss_rate_dn = 0, loss_rate_up = 0\<rparr>
   }"

record fd_adapter =
  fa_cfg :: fd_adapter_config
  fa_listen :: bool

definition fa_set_listening :: "bool \<Rightarrow> fd_adapter \<Rightarrow> fd_adapter" where
  "fa_set_listening l a = a\<lparr>fa_listen := l\<rparr>"

definition fa_listening :: "fd_adapter \<Rightarrow> bool" where
  "fa_listening a = fa_listen a"

definition fa_config :: "fd_adapter \<Rightarrow> fd_adapter_config" where
  "fa_config a = fa_cfg a"

text \<open>\<open>config_mutable()\<close> and \<open>config_mut()\<close> return a reference; its uses are updates.\<close>

definition fa_config_mut :: "(fd_adapter_config \<Rightarrow> fd_adapter_config) \<Rightarrow> fd_adapter \<Rightarrow> fd_adapter" where
  "fa_config_mut f a = a\<lparr>fa_cfg := f (fa_cfg a)\<rparr>"

definition fa_tick :: "size_t \<Rightarrow> fd_adapter \<Rightarrow> fd_adapter" where
  "fa_tick ms a = a"

section \<open>TCP in UDP\<close>

record received_datagram =
  source_address :: address
  datagram_payload :: bytes

definition udp_adapter_read :: "fd_adapter \<Rightarrow> received_datagram \<Rightarrow> (tcp_segment option \<times> fd_adapter) option" where
  "udp_adapter_read a datagram =
     (if \<not> fa_listening a \<and> \<not> address_eq (source_address datagram) (fa_destination (fa_config a)) then Some (None, a)
      else do {
        (res, seg) \<leftarrow> tcp_segment_parse tcp_segment_default (buffer_of (datagram_payload datagram)) 0;
        Some (if res \<noteq> NoError then (None, a)
              else if fa_listening a then
                if syn (header seg) \<and> \<not> rst (header seg)
                then (Some seg, fa_set_listening False
                       (fa_config_mut (\<lambda>c. c\<lparr>fa_destination := source_address datagram\<rparr>) a))
                else (None, a)
              else (Some seg, a))
      })"

text \<open>The destination and payload passed to \<open>sendto\<close>, and the segment with its ports set.\<close>

definition udp_adapter_write ::
  "resolver \<Rightarrow> fd_adapter \<Rightarrow> tcp_segment \<Rightarrow> ((address \<times> buffer_list) \<times> tcp_segment) option" where
  "udp_adapter_write R a seg = do {
     sp \<leftarrow> addr_port R (fa_source (fa_config a));
     dp \<leftarrow> addr_port R (fa_destination (fa_config a));
     let seg = seg\<lparr>header := (header seg)\<lparr>sport := sp, dport := dp\<rparr>\<rparr>;
     l \<leftarrow> tcp_segment_serialize seg 0;
     Some ((fa_destination (fa_config a), l), seg)
   }"

section \<open>TCP in IPv4\<close>

definition unwrap_tcp_in_ip :: "resolver \<Rightarrow> fd_adapter \<Rightarrow> ipv4_datagram \<Rightarrow> (tcp_segment option \<times> fd_adapter) option" where
  "unwrap_tcp_in_ip R a ip_dgram = do {
     let h = ip_header ip_dgram;
     for_us \<leftarrow> (if fa_listening a then Some True
                else map_option (\<lambda>n. ip_dst h = n) (ipv4_numeric (fa_source (fa_config a))));
     if \<not> for_us then Some (None, a) else do {
       from_peer \<leftarrow> (if fa_listening a then Some True
                     else map_option (\<lambda>n. ip_src h = n) (ipv4_numeric (fa_destination (fa_config a))));
       if \<not> from_peer then Some (None, a)
       else if ip_proto h \<noteq> PROTO_TCP then Some (None, a) else do {
         b \<leftarrow> bl_to_buffer (ip_payload ip_dgram);
         (res, tcp_seg) \<leftarrow> tcp_segment_parse tcp_segment_default b (pseudo_cksum h);
         if res \<noteq> NoError then Some (None, a) else do {
           sp \<leftarrow> addr_port R (fa_source (fa_config a));
           if dport (header tcp_seg) \<noteq> sp then Some (None, a) else do {
             (related, a) \<leftarrow>
               (if fa_listening a then
                  if syn (header tcp_seg) \<and> \<not> rst (header tcp_seg) then do {
                    src \<leftarrow> address_of_ip R (inet_ntoa (ip_dst h)) sp;
                    dst \<leftarrow> address_of_ip R (inet_ntoa (ip_src h)) (sport (header tcp_seg));
                    Some (True, fa_set_listening False
                      (fa_config_mut (\<lambda>c. c\<lparr>fa_source := src, fa_destination := dst\<rparr>) a))
                  } else Some (False, a)
                else Some (True, a));
             if \<not> related then Some (None, a) else do {
               dp \<leftarrow> addr_port R (fa_destination (fa_config a));
               Some (if sport (header tcp_seg) \<noteq> dp then None else Some tcp_seg, a)
             }
           }
         }
       }
     }
   }"

definition wrap_tcp_in_ip :: "resolver \<Rightarrow> fd_adapter \<Rightarrow> tcp_segment \<Rightarrow> (ipv4_datagram \<times> tcp_segment) option" where
  "wrap_tcp_in_ip R a seg = do {
     sp \<leftarrow> addr_port R (fa_source (fa_config a));
     dp \<leftarrow> addr_port R (fa_destination (fa_config a));
     let seg = seg\<lparr>header := (header seg)\<lparr>sport := sp, dport := dp\<rparr>\<rparr>;
     src \<leftarrow> ipv4_numeric (fa_source (fa_config a));
     dst \<leftarrow> ipv4_numeric (fa_destination (fa_config a));
     let h = ipv4_header_default\<lparr>ip_src := src, ip_dst := dst\<rparr>;
     let h = h\<lparr>ip_len := of_nat (unat (ip_hlen h) * 4 + unat (doff (header seg)) * 4 + buf_size (payload seg))\<rparr>;
     l \<leftarrow> tcp_segment_serialize seg (pseudo_cksum h);
     Some (\<lparr>ip_header = h, ip_payload = l\<rparr>, seg)
   }"

text \<open>The adapter over a TUN device: the argument of \<open>read\<close> is the string read from the device.\<close>

definition tun_adapter_read :: "resolver \<Rightarrow> fd_adapter \<Rightarrow> bytes \<Rightarrow> (tcp_segment option \<times> fd_adapter) option" where
  "tun_adapter_read R a s = do {
     (res, ip_dgram) \<leftarrow> ipv4_datagram_parse ipv4_datagram_default (buffer_of s);
     if res \<noteq> NoError then Some (None, a) else unwrap_tcp_in_ip R a ip_dgram
   }"

definition tun_adapter_write :: "resolver \<Rightarrow> fd_adapter \<Rightarrow> tcp_segment \<Rightarrow> (buffer_list \<times> tcp_segment) option" where
  "tun_adapter_write R a seg = do {
     (ip_dgram, seg) \<leftarrow> wrap_tcp_in_ip R a seg;
     l \<leftarrow> ipv4_datagram_serialize ip_dgram;
     Some (l, seg)
   }"

section \<open>Loss\<close>

text \<open>
  \<open>LossyFdAdapter\<close> is a template over the adapter; \<open>'a\<close> is its type, \<open>cfg\<close> its \<open>config()\<close>, and \<open>read\<close>
  and \<open>write\<close> are its operations. \<open>'g\<close> is the state of the generator.
\<close>

record ('a, 'g) lossy_adapter =
  lo_adapter :: 'a
  lo_rand :: 'g

definition should_drop ::
  "('g \<Rightarrow> u32 \<times> 'g) \<Rightarrow> ('a \<Rightarrow> fd_adapter_config) \<Rightarrow> bool \<Rightarrow> ('a, 'g) lossy_adapter \<Rightarrow> bool \<times> ('a, 'g) lossy_adapter" where
  "should_drop rand cfg uplink l =
     (let c = cfg (lo_adapter l);
          loss = (if uplink then loss_rate_up c else loss_rate_dn c)
      in if loss \<noteq> 0 then let (r, g) = rand (lo_rand l) in ((ucast r :: u16) < loss, l\<lparr>lo_rand := g\<rparr>)
         else (False, l))"

definition lossy_read ::
  "('g \<Rightarrow> u32 \<times> 'g) \<Rightarrow> ('a \<Rightarrow> fd_adapter_config) \<Rightarrow> ('a \<Rightarrow> 'i \<Rightarrow> (tcp_segment option \<times> 'a) option) \<Rightarrow>
   ('a, 'g) lossy_adapter \<Rightarrow> 'i \<Rightarrow> (tcp_segment option \<times> ('a, 'g) lossy_adapter) option" where
  "lossy_read rand cfg read l i = do {
     (ret, a) \<leftarrow> read (lo_adapter l) i;
     let (drop, l) = should_drop rand cfg False (l\<lparr>lo_adapter := a\<rparr>);
     Some (if drop then None else ret, l)
   }"

definition lossy_write ::
  "('g \<Rightarrow> u32 \<times> 'g) \<Rightarrow> ('a \<Rightarrow> fd_adapter_config) \<Rightarrow> ('a \<Rightarrow> tcp_segment \<Rightarrow> ('o \<times> tcp_segment) option) \<Rightarrow>
   ('a, 'g) lossy_adapter \<Rightarrow> tcp_segment \<Rightarrow> ('o option \<times> tcp_segment \<times> ('a, 'g) lossy_adapter) option" where
  "lossy_write rand cfg write l seg =
     (let (drop, l) = should_drop rand cfg True l
      in if drop then Some (None, seg, l)
         else map_option (\<lambda>(out, seg). (Some out, seg, l)) (write (lo_adapter l) seg))"

definition lossy_set_listening :: "bool \<Rightarrow> (fd_adapter, 'g) lossy_adapter \<Rightarrow> (fd_adapter, 'g) lossy_adapter" where
  "lossy_set_listening b l = l\<lparr>lo_adapter := fa_set_listening b (lo_adapter l)\<rparr>"

definition lossy_config :: "(fd_adapter, 'g) lossy_adapter \<Rightarrow> fd_adapter_config" where
  "lossy_config l = fa_config (lo_adapter l)"

definition lossy_config_mut ::
  "(fd_adapter_config \<Rightarrow> fd_adapter_config) \<Rightarrow> (fd_adapter, 'g) lossy_adapter \<Rightarrow> (fd_adapter, 'g) lossy_adapter" where
  "lossy_config_mut f l = l\<lparr>lo_adapter := fa_config_mut f (lo_adapter l)\<rparr>"

definition lossy_tick :: "size_t \<Rightarrow> (fd_adapter, 'g) lossy_adapter \<Rightarrow> (fd_adapter, 'g) lossy_adapter" where
  "lossy_tick ms l = l\<lparr>lo_adapter := fa_tick ms (lo_adapter l)\<rparr>"

section \<open>What the adapters promise\<close>

text \<open>Ports and checksum belong to the adapter; everything else of a segment is carried.\<close>

definition same_segment :: "tcp_segment \<Rightarrow> tcp_segment \<Rightarrow> bool" where
  "same_segment seg seg' \<longleftrightarrow> tcp_header_eq (header seg) (header seg') \<and> buffer_str (payload seg) = buffer_str (payload seg')"

text \<open>
  The contract of a pair of adapters: what one writes reaches the other as \<open>wire\<close>, and is read there
  as the same segment, without a change of the reader's state.
\<close>

locale segment_carrier =
  fixes rd :: "'a \<Rightarrow> 'i \<Rightarrow> (tcp_segment option \<times> 'a) option"
    and wr :: "'a \<Rightarrow> tcp_segment \<Rightarrow> ('o \<times> tcp_segment) option"
    and wire :: "'a \<Rightarrow> 'o \<Rightarrow> 'i"
    and peers :: "'a \<Rightarrow> 'a \<Rightarrow> bool"
    and fits :: "tcp_segment \<Rightarrow> bool"
  assumes carries: "peers a b \<Longrightarrow> fits seg \<Longrightarrow>
    \<exists>out seg' got. wr a seg = Some (out, seg') \<and> rd b (wire a out) = Some (Some got, b) \<and> same_segment seg got"
begin

text \<open>Segments written one after the other are read in the same order.\<close>

fun transfer_all :: "'a \<Rightarrow> 'a \<Rightarrow> tcp_segment list \<Rightarrow> tcp_segment list option" where
  "transfer_all a b [] = Some []"
| "transfer_all a b (seg # segs) = do {
     (out, _) \<leftarrow> wr a seg;
     (got, b) \<leftarrow> rd b (wire a out);
     rest \<leftarrow> transfer_all a b segs;
     Some (case got of None \<Rightarrow> rest | Some g \<Rightarrow> g # rest)
   }"

lemma transfer_all_carries:
  assumes "peers a b" and "\<forall>seg \<in> set segs. fits seg"
  shows "\<exists>gots. transfer_all a b segs = Some gots \<and> list_all2 same_segment segs gots"
  using assms(2)
proof (induction segs)
  case (Cons seg segs)
  then obtain gots where "transfer_all a b segs = Some gots" "list_all2 same_segment segs gots" by auto
  moreover obtain out seg' got where "wr a seg = Some (out, seg')" "rd b (wire a out) = Some (Some got, b)" "same_segment seg got"
    using carries [OF assms(1), of seg] Cons.prems by auto
  ultimately show ?case by simp
qed simp

text \<open>A lossy adapter with loss rate zero carries segments as the adapter below it does.\<close>

lemma lossless_carries:
  assumes "peers (lo_adapter l) (lo_adapter m)" and "fits seg"
    and "loss_rate_up (cfg (lo_adapter l)) = 0" and "loss_rate_dn (cfg (lo_adapter m)) = 0"
  shows "\<exists>out seg' got. lossy_write rand cfg wr l seg = Some (Some out, seg', l) \<and>
    lossy_read rand cfg rd m (wire (lo_adapter l) out) = Some (Some got, m) \<and> same_segment seg got"
  using carries [OF assms(1,2)] assms(3,4)
  by (force simp: lossy_write_def lossy_read_def should_drop_def Let_def)

end

definition udp_peers :: "resolver \<Rightarrow> fd_adapter \<Rightarrow> fd_adapter \<Rightarrow> bool" where
  "udp_peers R a b \<longleftrightarrow> resolver_ok R \<and> \<not> fa_listen b \<and>
     (\<exists>ipa pa ipb pb. fa_source (fa_cfg a) = inet_address ipa pa \<and> fa_destination (fa_cfg a) = inet_address ipb pb \<and>
        fa_destination (fa_cfg b) = inet_address ipa pa)"

definition tun_peers :: "resolver \<Rightarrow> fd_adapter \<Rightarrow> fd_adapter \<Rightarrow> bool" where
  "tun_peers R a b \<longleftrightarrow> resolver_ok R \<and> \<not> fa_listen b \<and>
     (\<exists>ipa pa ipb pb. fa_source (fa_cfg a) = inet_address ipa pa \<and> fa_destination (fa_cfg a) = inet_address ipb pb \<and>
        fa_source (fa_cfg b) = inet_address ipb pb \<and> fa_destination (fa_cfg b) = inet_address ipa pa)"

text \<open>The segments that fit into one IPv4 datagram.\<close>

definition fits_datagram :: "tcp_segment \<Rightarrow> bool" where
  "fits_datagram seg \<longleftrightarrow> tcp_header_valid (header seg) \<and> buffer_inv (payload seg) \<and>
     20 + 4 * unat (doff (header seg)) + length (buffer_str (payload seg)) \<le> 65535"

lemma fits_cksum:
  "fits_datagram seg \<Longrightarrow> unat cs \<le> 1048576 \<Longrightarrow>
     cksum_fits (seg\<lparr>header := (header seg)\<lparr>sport := sp, dport := dp\<rparr>\<rparr>) cs"
  by (simp add: fits_datagram_def cksum_fits_def tcp_header_valid_def)

lemma serialize_fitting:
  assumes "cksum_fits seg cs"
  shows "\<exists>l. tcp_segment_serialize seg cs = Some l \<and> bl_concatenate l = tcp_bytes seg cs \<and>
    length (bl_concatenate l) = 4 * unat (doff (header seg)) + length (buffer_str (payload seg)) \<and>
    (buffer_inv (payload seg) \<longrightarrow> bl_inv l)"
proof -
  have v: "tcp_header_valid (header seg)" using assms by (simp add: cksum_fits_def)
  note d = unat_valid_doff [OF v]
  have len: "length (tcp_bytes seg cs) = 4 * unat (doff (header seg)) + length (buffer_str (payload seg))"
    using d by (auto simp: tcp_bytes_def tcp_after_def)
  have lt: "length (tcp_bytes seg cs) < SIZE_MOD" using tcp_bytes_length [OF assms] by (simp add: SIZE_MOD_def)
  let ?hd = "tcp_before (header seg) @ nu_u16 [] (tcp_cksum seg cs) @ tcp_after (header seg)"
  let ?l = "\<lparr>bl_buffers = [buffer_of ?hd, payload seg]\<rparr>"
  have "bl_concatenate ?l = tcp_bytes seg cs" by (simp add: bl_concatenate_def tcp_bytes_def)
  moreover have "length ?hd < SIZE_MOD" using lt by (simp add: tcp_bytes_def)
  ultimately show ?thesis using d len lt by (simp add: tcp_segment_serialize_eq bl_inv_def)
qed

lemma tcp_header_eq_ports: "tcp_header_eq h (h\<lparr>sport := a, dport := b, cksum := c\<rparr>)"
  by (simp add: tcp_header_eq_def)

interpretation udp: segment_carrier udp_adapter_read "udp_adapter_write R"
  "\<lambda>a out. \<lparr>source_address = fa_source (fa_cfg a), datagram_payload = bl_concatenate (snd out)\<rparr>" "udp_peers R" fits_datagram
  for R
proof unfold_locales
  fix a b seg
  assume peers: "udp_peers R a b" and fits: "fits_datagram seg"
  from peers obtain ipa pa ipb pb where p: "resolver_ok R" "\<not> fa_listen b" "fa_source (fa_cfg a) = inet_address ipa pa"
    "fa_destination (fa_cfg a) = inet_address ipb pb" "fa_destination (fa_cfg b) = inet_address ipa pa"
    by (auto simp: udp_peers_def)
  let ?seg = "seg\<lparr>header := (header seg)\<lparr>sport := pa, dport := pb\<rparr>\<rparr>"
  have cf: "cksum_fits ?seg 0" using fits_cksum [OF fits, of 0] by simp
  from serialize_fitting [OF cf] obtain l where l: "tcp_segment_serialize ?seg 0 = Some l"
    "bl_concatenate l = tcp_bytes ?seg 0" by blast
  have w: "udp_adapter_write R a seg = Some ((inet_address ipb pb, l), ?seg)"
    using p l by (simp add: udp_adapter_write_def fa_config_def addr_port_inet Let_def)
  have "buffer_inv (buffer_of (bl_concatenate l))" using tcp_bytes_length [OF cf] l(2) by (simp add: SIZE_MOD_def)
  from tcp_parse_serialized [OF cf l(1) this, of tcp_segment_default] obtain got where
    got: "tcp_segment_parse tcp_segment_default (buffer_of (bl_concatenate l)) 0 = Some (NoError, got)"
      "header got = (header ?seg)\<lparr>cksum := tcp_cksum ?seg 0\<rparr>" "buffer_str (payload got) = buffer_str (payload ?seg)" by auto
  have "same_segment seg got" using got(2,3) tcp_header_eq_ports by (simp add: same_segment_def)
  moreover have "udp_adapter_read b \<lparr>source_address = fa_source (fa_cfg a), datagram_payload = bl_concatenate l\<rparr> = Some (Some got, b)"
    using got(1) p by (simp add: udp_adapter_read_def fa_listening_def fa_config_def)
  ultimately show "\<exists>out seg' got. udp_adapter_write R a seg = Some (out, seg') \<and>
      udp_adapter_read b \<lparr>source_address = fa_source (fa_cfg a), datagram_payload = bl_concatenate (snd out)\<rparr> = Some (Some got, b) \<and>
      same_segment seg got"
    using w by auto
qed

text \<open>Reading a datagram that carries a serialized segment, up to the adapter's own filter.\<close>

lemma tun_write_read:
  assumes fits: "fits_datagram seg" and R: "resolver_ok R"
    and a: "fa_source (fa_cfg a) = inet_address ipa pa" "fa_destination (fa_cfg a) = inet_address ipb pb"
  shows "\<exists>out seg' h c got. tun_adapter_write R a seg = Some (out, seg') \<and> ip_src h = ipa \<and> ip_dst h = ipb \<and>
    ip_proto h = PROTO_TCP \<and>
    ipv4_datagram_parse ipv4_datagram_default (buffer_of (bl_concatenate out)) = Some (NoError, \<lparr>ip_header = h, ip_payload = bl_of_buffer c\<rparr>) \<and>
    tcp_segment_parse tcp_segment_default c (pseudo_cksum h) = Some (NoError, got) \<and>
    sport (header got) = pa \<and> dport (header got) = pb \<and> same_segment seg got"
proof -
  let ?seg = "seg\<lparr>header := (header seg)\<lparr>sport := pa, dport := pb\<rparr>\<rparr>"
  define h where "h = ipv4_header_default\<lparr>ip_src := ipa, ip_dst := ipb,
    ip_len := of_nat (20 + unat (doff (header seg)) * 4 + buf_size (payload seg))\<rparr>"
  have cf: "cksum_fits ?seg (pseudo_cksum h)"
    using fits_cksum [OF fits] pseudo_cksum_bound [of h] by simp
  from serialize_fitting [OF cf] fits obtain l where l: "tcp_segment_serialize ?seg (pseudo_cksum h) = Some l"
    "bl_concatenate l = tcp_bytes ?seg (pseudo_cksum h)" "bl_inv l"
    "length (bl_concatenate l) = 4 * unat (doff (header seg)) + length (buffer_str (payload seg))"
    by (auto simp: fits_datagram_def)
  have wrap: "wrap_tcp_in_ip R a seg = Some (\<lparr>ip_header = h, ip_payload = l\<rparr>, ?seg)"
    using R a l(1) by (simp add: wrap_tcp_in_ip_def fa_config_def addr_port_inet Let_def h_def ipv4_header_default_def)
  let ?d = "\<lparr>ip_header = h, ip_payload = l\<rparr>"
  have valid: "ipv4_header_valid (ip_header ?d)" by (simp add: h_def ipv4_header_valid_def ipv4_header_default_def)
  have hl: "unat (ip_hlen h) = 5" by (simp add: h_def ipv4_header_default_def)
  have iplen: "unat (ip_len h) = 20 + length (bl_concatenate l)"
  proof -
    have n: "unat (of_nat n :: u16) = n" if "n \<le> 65535" for n using that by (simp add: unsigned_of_nat take_bit_eq_mod)
    have "ip_len h = of_nat (20 + length (bl_concatenate l))"
      using l(4) by (simp add: h_def buf_size_def mult.commute)
    then show ?thesis using n [of "20 + length (bl_concatenate l)"] fits l(4) by (simp only: fits_datagram_def) simp
  qed
  have lenok: "4 * unat (ip_hlen (ip_header ?d)) \<le> unat (ip_len (ip_header ?d))" using hl iplen by simp
  have "bl_size l = unat (payload_length h)"
    using payload_length_eq [of h] lenok hl iplen bl.len_contents [OF l(3)] by simp
  then obtain out where out: "ipv4_datagram_serialize ?d = Some out"
    using valid by (simp add: ipv4_datagram_serialize_def ipv4_header_serialize_def h_def ipv4_header_default_def IP_LENGTH_def Let_def)
  then have "bl_concatenate out = ip_before h @ nu_u16 [] (ip_cksum_of h) @ ip_after h @ bl_concatenate l"
    using ipv4_datagram_serialize_eq(2) [OF valid] by simp
  then have "length (bl_concatenate out) < SIZE_MOD"
    using l(3) fits l(4) hl by (simp add: ip_after_def SIZE_MOD_def fits_datagram_def)
  then have inv: "buffer_inv (buffer_of (bl_concatenate out))" by simp
  let ?h = "h\<lparr>ip_cksum := ip_cksum_of h\<rparr>"
  from ipv4_parse_serialized [OF valid lenok _ out inv, of ipv4_datagram_default] l(3) obtain p where
    p: "np_at p (bl_concatenate l)" "ipv4_datagram_parse ipv4_datagram_default (buffer_of (bl_concatenate out)) =
      Some (NoError, \<lparr>ip_header = ?h, ip_payload = bl_of_buffer (np_buffer p)\<rparr>)" by auto
  have ps: "pseudo_cksum ?h = pseudo_cksum h" by (simp add: pseudo_cksum_def payload_length_def)
  have "buffer_inv (np_buffer p)" "buffer_str (np_buffer p) = bl_concatenate l" using p(1) by (simp_all add: np_at_def)
  from tcp_parse_serialized [OF cf l(1) this, of tcp_segment_default] obtain got where
    got: "tcp_segment_parse tcp_segment_default (np_buffer p) (pseudo_cksum h) = Some (NoError, got)"
      "header got = (header ?seg)\<lparr>cksum := tcp_cksum ?seg (pseudo_cksum h)\<rparr>" "buffer_str (payload got) = buffer_str (payload ?seg)"
    by auto
  have "same_segment seg got" using got(2,3) tcp_header_eq_ports by (simp add: same_segment_def)
  moreover have "tun_adapter_write R a seg = Some (out, ?seg)" using wrap out by (simp add: tun_adapter_write_def)
  moreover have "ip_src ?h = ipa" "ip_dst ?h = ipb" "ip_proto ?h = PROTO_TCP" by (simp_all add: h_def ipv4_header_default_def)
  ultimately show ?thesis using p(2) got(1,2) ps
    by (intro exI [of _ out] exI [of _ ?seg] exI [of _ ?h] exI [of _ "np_buffer p"] exI [of _ got]) simp
qed

interpretation tun: segment_carrier "tun_adapter_read R" "tun_adapter_write R" "\<lambda>a out. bl_concatenate out" "tun_peers R" fits_datagram
  for R
proof unfold_locales
  fix a b seg
  assume peers: "tun_peers R a b" and fits: "fits_datagram seg"
  from peers obtain ipa pa ipb pb where p: "resolver_ok R" "\<not> fa_listen b" "fa_source (fa_cfg a) = inet_address ipa pa"
    "fa_destination (fa_cfg a) = inet_address ipb pb" "fa_source (fa_cfg b) = inet_address ipb pb"
    "fa_destination (fa_cfg b) = inet_address ipa pa"
    by (auto simp: tun_peers_def)
  from tun_write_read [OF fits p(1,3,4)] obtain out seg' h c got where
    w: "tun_adapter_write R a seg = Some (out, seg')" "ip_src h = ipa" "ip_dst h = ipb" "ip_proto h = PROTO_TCP"
      "ipv4_datagram_parse ipv4_datagram_default (buffer_of (bl_concatenate out)) = Some (NoError, \<lparr>ip_header = h, ip_payload = bl_of_buffer c\<rparr>)"
      "tcp_segment_parse tcp_segment_default c (pseudo_cksum h) = Some (NoError, got)"
      "sport (header got) = pa" "dport (header got) = pb" "same_segment seg got" by blast
  then have "tun_adapter_read R b (bl_concatenate out) = Some (Some got, b)"
    using p by (simp add: tun_adapter_read_def unwrap_tcp_in_ip_def fa_listening_def fa_config_def addr_port_inet
        bl_to_buffer_def bl_of_buffer_def)
  with w show "\<exists>out seg' got. tun_adapter_write R a seg = Some (out, seg') \<and>
      tun_adapter_read R b (bl_concatenate out) = Some (Some got, b) \<and> same_segment seg got" by blast
qed

section \<open>Properties\<close>

text \<open>
  C19: A segment that one adapter wraps into an IPv4 datagram for its peer is read back by the peer's
  adapter, from the bytes on the wire, as the same segment: header fields, flags and payload.
\<close>

theorem tun_adapter_carries_segment:
  assumes "resolver_ok R" and "fits_datagram seg" and "\<not> fa_listen b"
    and "fa_source (fa_cfg a) = inet_address ipa pa" and "fa_destination (fa_cfg a) = inet_address ipb pb"
    and "fa_source (fa_cfg b) = inet_address ipb pb" and "fa_destination (fa_cfg b) = inet_address ipa pa"
  shows "\<exists>out seg' got. tun_adapter_write R a seg = Some (out, seg') \<and>
    tun_adapter_read R b (bl_concatenate out) = Some (Some got, b) \<and>
    tcp_header_eq (header seg) (header got) \<and> buffer_str (payload got) = buffer_str (payload seg)"
proof -
  have "tun_peers R a b" using assms by (auto simp: tun_peers_def)
  from tun.carries [OF this assms(2)] show ?thesis by (auto simp: same_segment_def)
qed

definition adapter_example :: "u32 \<Rightarrow> u16 \<Rightarrow> u32 \<Rightarrow> u16 \<Rightarrow> bool \<Rightarrow> fd_adapter" where
  "adapter_example sip sp dip dp listen =
     \<lparr>fa_cfg = \<lparr>fa_source = inet_address sip sp, fa_destination = inet_address dip dp, loss_rate_dn = 0, loss_rate_up = 0\<rparr>,
      fa_listen = listen\<rparr>"

theorem tun_adapter_carries_segment_witness:
  "\<exists>out seg' got. tun_adapter_write numeric_resolver (adapter_example 1 80 2 90 False)
       (tcp_segment_default\<lparr>payload := buffer_of [5, 6]\<rparr>) = Some (out, seg') \<and>
     tun_adapter_read numeric_resolver (adapter_example 2 90 1 80 False) (bl_concatenate out)
       = Some (Some got, adapter_example 2 90 1 80 False) \<and> buffer_str (payload got) = [5, 6]"
proof -
  have "fits_datagram (tcp_segment_default\<lparr>payload := buffer_of [5, 6]\<rparr>)"
    by (simp add: fits_datagram_def tcp_header_valid_def SIZE_MOD_def)
  from tun_adapter_carries_segment [OF numeric_resolver_ok this, of "adapter_example 2 90 1 80 False"
      "adapter_example 1 80 2 90 False" 1 80 2 90]
  show ?thesis by (auto simp: adapter_example_def)
qed

text \<open>
  C31: A listening adapter that gets a SYN for its port takes the address the SYN was sent to as its
  source and the sender as its destination, and stops listening; from then on it carries the
  segments of this peer. A segment that is not a SYN leaves it listening and is ignored.
\<close>

theorem listening_adapter_locks_on:
  assumes "resolver_ok R" and "fits_datagram seg" and "fa_listen b"
    and "fa_source (fa_cfg a) = inet_address ipa pa" and "fa_destination (fa_cfg a) = inet_address ipb pb"
    and "fa_source (fa_cfg b) = inet_address any pb"
  shows "\<exists>out seg'. tun_adapter_write R a seg = Some (out, seg') \<and>
    (if syn (header seg) \<and> \<not> rst (header seg)
     then \<exists>got b'. tun_adapter_read R b (bl_concatenate out) = Some (Some got, b') \<and> same_segment seg got \<and>
        \<not> fa_listen b' \<and> fa_source (fa_cfg b') = inet_address ipb pb \<and> fa_destination (fa_cfg b') = inet_address ipa pa
     else tun_adapter_read R b (bl_concatenate out) = Some (None, b))"
proof -
  from tun_write_read [OF assms(2,1,4,5)] obtain out seg' h c got where
    w: "tun_adapter_write R a seg = Some (out, seg')" "ip_src h = ipa" "ip_dst h = ipb" "ip_proto h = PROTO_TCP"
      "ipv4_datagram_parse ipv4_datagram_default (buffer_of (bl_concatenate out)) = Some (NoError, \<lparr>ip_header = h, ip_payload = bl_of_buffer c\<rparr>)"
      "tcp_segment_parse tcp_segment_default c (pseudo_cksum h) = Some (NoError, got)"
      "sport (header got) = pa" "dport (header got) = pb" "same_segment seg got" by blast
  then have flags: "syn (header got) = syn (header seg)" "rst (header got) = rst (header seg)"
    by (auto simp: same_segment_def tcp_header_eq_def)
  let ?b = "fa_set_listening False (fa_config_mut (\<lambda>c. c\<lparr>fa_source := inet_address ipb pb, fa_destination := inet_address ipa pa\<rparr>) b)"
  have "tun_adapter_read R b (bl_concatenate out) =
      Some (if syn (header seg) \<and> \<not> rst (header seg) then (Some got, ?b) else (None, b))"
    using assms(1,3,6) w flags
    by (simp add: tun_adapter_read_def unwrap_tcp_in_ip_def fa_listening_def fa_config_def addr_port_inet
        bl_to_buffer_def bl_of_buffer_def address_of_ip_inet) (simp add: fa_set_listening_def fa_config_mut_def addr_port_inet)
  with w(1,9) show ?thesis by (simp add: fa_set_listening_def fa_config_mut_def)
qed

theorem listening_adapter_locks_on_witness:
  "\<exists>out seg' got b'. tun_adapter_write numeric_resolver (adapter_example 1 80 2 90 False)
       (tcp_segment_default\<lparr>header := tcp_header_default\<lparr>syn := True\<rparr>\<rparr>) = Some (out, seg') \<and>
     tun_adapter_read numeric_resolver (adapter_example 0 90 0 0 True) (bl_concatenate out) = Some (Some got, b') \<and>
     fa_destination (fa_cfg b') = inet_address 1 80"
proof -
  let ?seg = "tcp_segment_default\<lparr>header := tcp_header_default\<lparr>syn := True\<rparr>\<rparr>"
  have "fits_datagram ?seg" by (simp add: fits_datagram_def tcp_header_valid_def)
  from listening_adapter_locks_on [OF numeric_resolver_ok this, of "adapter_example 0 90 0 0 True"
      "adapter_example 1 80 2 90 False" 1 80 2 90 0]
  show ?thesis by (auto simp: adapter_example_def)
qed

text \<open>
  C32: An adapter that does not listen hands on only segments between its two configured addresses and
  ports, and its configuration does not change.
\<close>

theorem adapter_filters_strangers:
  assumes "unwrap_tcp_in_ip R a d = Some (Some seg, a')" and "\<not> fa_listening a"
  shows "a' = a \<and> ipv4_numeric (fa_source (fa_config a)) = Some (ip_dst (ip_header d)) \<and>
    ipv4_numeric (fa_destination (fa_config a)) = Some (ip_src (ip_header d)) \<and> ip_proto (ip_header d) = PROTO_TCP \<and>
    addr_port R (fa_source (fa_config a)) = Some (dport (header seg)) \<and>
    addr_port R (fa_destination (fa_config a)) = Some (sport (header seg))"
  using assms by (auto simp: unwrap_tcp_in_ip_def Let_def bind_eq_Some_conv split: if_splits)

theorem adapter_filters_strangers_witness:
  "\<exists>d seg a'. unwrap_tcp_in_ip numeric_resolver (adapter_example 2 90 1 80 False) d = Some (Some seg, a') \<and>
     a' = adapter_example 2 90 1 80 False \<and> sport (header seg) = 80"
proof -
  let ?a = "adapter_example 2 90 1 80 False"
  have "fits_datagram tcp_segment_default" by (simp add: fits_datagram_def tcp_header_valid_def)
  moreover have "tun_peers numeric_resolver (adapter_example 1 80 2 90 False) ?a"
    using numeric_resolver_ok by (auto simp: tun_peers_def adapter_example_def)
  ultimately obtain s got where "tun_adapter_read numeric_resolver ?a s = Some (Some got, ?a)" using tun.carries by blast
  then obtain d where d: "unwrap_tcp_in_ip numeric_resolver ?a d = Some (Some got, ?a)"
    by (auto simp: tun_adapter_read_def bind_eq_Some_conv split: if_splits)
  moreover have "addr_port numeric_resolver (fa_destination (fa_config ?a)) = Some 80"
    using addr_port_inet [OF numeric_resolver_ok] by (simp add: adapter_example_def fa_config_def)
  ultimately show ?thesis
    using adapter_filters_strangers [OF d] by (auto simp: fa_listening_def adapter_example_def)
qed

text \<open>
  The adapter over UDP compares only the address a datagram came from: the ports in the TCP header
  are not looked at.
\<close>

theorem udp_adapter_ignores_ports:
  assumes "fits_datagram seg" and "\<not> fa_listen b" and "fa_destination (fa_cfg b) = inet_address ip port"
  shows "\<exists>l got. tcp_segment_serialize (seg\<lparr>header := (header seg)\<lparr>sport := x, dport := y\<rparr>\<rparr>) 0 = Some l \<and>
    udp_adapter_read b \<lparr>source_address = inet_address ip port, datagram_payload = bl_concatenate l\<rparr> = Some (Some got, b) \<and>
    sport (header got) = x \<and> dport (header got) = y"
proof -
  let ?seg = "seg\<lparr>header := (header seg)\<lparr>sport := x, dport := y\<rparr>\<rparr>"
  have cf: "cksum_fits ?seg 0" using fits_cksum [OF assms(1), of 0] by simp
  from serialize_fitting [OF cf] obtain l where l: "tcp_segment_serialize ?seg 0 = Some l"
    "bl_concatenate l = tcp_bytes ?seg 0" by blast
  have "buffer_inv (buffer_of (bl_concatenate l))" using tcp_bytes_length [OF cf] l(2) by (simp add: SIZE_MOD_def)
  from tcp_parse_serialized [OF cf l(1) this, of tcp_segment_default] l(1) assms(2,3) show ?thesis
    by (auto simp: udp_adapter_read_def fa_listening_def fa_config_def)
qed

end
