(* ===== verification/File_Descriptor.thy ===== *)
theory File_Descriptor
  imports Net_Address
begin

text \<open>
  File descriptors and sockets, \<open>libsponge/util/file_descriptor.hh\<close>, \<open>file_descriptor.cc\<close>,
  \<open>socket.hh\<close>, \<open>socket.cc\<close>, \<open>tun.hh\<close>, \<open>tun.cc\<close> and the function \<open>SystemCall\<close> of \<open>util.cc\<close>. The kernel is a parameter: a
  record \<open>os\<close> of system calls on a state of type \<open>'w\<close>. A \<open>FileDescriptor\<close> holds a shared pointer to an
  \<open>FDWrapper\<close>, and \<open>duplicate\<close> copies the pointer, so a descriptor is a reference into a store of
  wrappers. \<^const>\<open>None\<close> is a thrown exception.
\<close>

unbundle bit_operations_syntax

section \<open>System calls\<close>

text \<open>
  Each call gives its return value (negative for an error), what it stores through pointers, and the
  new state of the system. \<open>fcntl\<close> is there for reading and for setting the flags. A socket address
  stored by the kernel is its bytes and its length; the result of \<open>poll\<close> is the \<open>revents\<close> of each
  index; \<open>os_now\<close> is the clock of \<open>timestamp_ms\<close>.
\<close>

record pollfd =
  poll_fd :: int
  poll_events :: u16
  poll_revents :: u16

record 'w os =
  os_errno :: "'w \<Rightarrow> int"
  os_read :: "int \<Rightarrow> size_t \<Rightarrow> 'w \<Rightarrow> int \<times> bytes \<times> 'w"
  os_writev :: "int \<Rightarrow> iovec list \<Rightarrow> 'w \<Rightarrow> int \<times> 'w"
  os_close :: "int \<Rightarrow> 'w \<Rightarrow> int \<times> 'w"
  os_getfl :: "int \<Rightarrow> 'w \<Rightarrow> int \<times> u32 \<times> 'w"
  os_setfl :: "int \<Rightarrow> u32 \<Rightarrow> 'w \<Rightarrow> int \<times> 'w"
  os_recvfrom :: "int \<Rightarrow> size_t \<Rightarrow> 'w \<Rightarrow> int \<times> bytes \<times> (bytes \<times> nat) \<times> 'w"
  os_sendmsg :: "int \<Rightarrow> address option \<Rightarrow> iovec list \<Rightarrow> 'w \<Rightarrow> int \<times> 'w"
  os_shutdown :: "int \<Rightarrow> nat \<Rightarrow> 'w \<Rightarrow> int \<times> 'w"
  os_socket :: "nat \<Rightarrow> nat \<Rightarrow> 'w \<Rightarrow> int \<times> 'w"
  os_socketpair :: "nat \<Rightarrow> nat \<Rightarrow> 'w \<Rightarrow> int \<times> (int \<times> int) \<times> 'w"
  os_getsockopt :: "int \<Rightarrow> nat \<Rightarrow> nat \<Rightarrow> 'w \<Rightarrow> int \<times> (int \<times> nat) \<times> 'w"
  os_setsockopt :: "int \<Rightarrow> nat \<Rightarrow> nat \<Rightarrow> int \<Rightarrow> 'w \<Rightarrow> int \<times> 'w"
  os_getsockname :: "int \<Rightarrow> 'w \<Rightarrow> int \<times> (bytes \<times> nat) \<times> 'w"
  os_getpeername :: "int \<Rightarrow> 'w \<Rightarrow> int \<times> (bytes \<times> nat) \<times> 'w"
  os_bind :: "int \<Rightarrow> address \<Rightarrow> 'w \<Rightarrow> int \<times> 'w"
  os_connect :: "int \<Rightarrow> address \<Rightarrow> 'w \<Rightarrow> int \<times> 'w"
  os_listen :: "int \<Rightarrow> int \<Rightarrow> 'w \<Rightarrow> int \<times> 'w"
  os_accept :: "int \<Rightarrow> 'w \<Rightarrow> int \<times> 'w"
  os_open :: "string \<Rightarrow> 'w \<Rightarrow> int \<times> 'w"
  os_tunsetiff :: "int \<Rightarrow> string \<Rightarrow> u16 \<Rightarrow> 'w \<Rightarrow> int \<times> 'w"
  os_poll :: "pollfd list \<Rightarrow> int \<Rightarrow> 'w \<Rightarrow> int \<times> (nat \<Rightarrow> u16) \<times> 'w"
  os_now :: "'w \<Rightarrow> nat \<times> 'w"

text \<open>
  The parameter of \<open>SystemCall\<close> is an \<open>int\<close>, to which the \<open>ssize_t\<close> of \<open>read\<close>, \<open>writev\<close> and the like is narrowed.
  The model passes the value on unchanged: Linux transfers at most 0x7ffff000 bytes in one call, and no other
  result is out of the range of an \<open>int\<close>.
\<close>

definition SystemCall :: "'w os \<Rightarrow> 'w \<Rightarrow> int \<Rightarrow> int \<Rightarrow> int option" where
  "SystemCall os w return_value errno_mask =
     (if return_value \<ge> 0 \<or> os_errno os w = errno_mask then Some return_value else None)"

section \<open>FileDescriptor\<close>

record fd_wrapper =
  fd_num :: int
  fd_eof :: bool
  fd_closed :: bool
  fd_read_count :: u32
  fd_write_count :: u32

definition fdw_new :: "int \<Rightarrow> fd_wrapper option" where
  "fdw_new fd = (if fd < 0 then None
     else Some \<lparr>fd_num = fd, fd_eof = False, fd_closed = False, fd_read_count = 0, fd_write_count = 0\<rparr>)"

text \<open>The store of wrappers and the state of the system.\<close>

record 'w fd_state =
  fs_fds :: "nat \<Rightarrow> fd_wrapper"
  fs_next :: nat
  fs_os :: 'w

text \<open>The constructor from a descriptor number allocates a wrapper; \<open>duplicate\<close> shares it.\<close>

definition fd_new :: "int \<Rightarrow> 'w fd_state \<Rightarrow> (nat \<times> 'w fd_state) option" where
  "fd_new fd s = do {
     f \<leftarrow> fdw_new fd;
     Some (fs_next s, s\<lparr>fs_fds := (fs_fds s)(fs_next s := f), fs_next := Suc (fs_next s)\<rparr>)
   }"

definition fd_duplicate :: "nat \<Rightarrow> nat" where
  "fd_duplicate r = r"

definition fd_update :: "nat \<Rightarrow> (fd_wrapper \<Rightarrow> fd_wrapper) \<Rightarrow> 'w fd_state \<Rightarrow> 'w fd_state" where
  "fd_update r f s = s\<lparr>fs_fds := (fs_fds s)(r := f (fs_fds s r))\<rparr>"

definition register_read :: "nat \<Rightarrow> 'w fd_state \<Rightarrow> 'w fd_state" where
  "register_read r s = fd_update r (\<lambda>f. f\<lparr>fd_read_count := fd_read_count f + 1\<rparr>) s"

definition register_write :: "nat \<Rightarrow> 'w fd_state \<Rightarrow> 'w fd_state" where
  "register_write r s = fd_update r (\<lambda>f. f\<lparr>fd_write_count := fd_write_count f + 1\<rparr>) s"

definition fd_close :: "'w os \<Rightarrow> nat \<Rightarrow> 'w fd_state \<Rightarrow> 'w fd_state option" where
  "fd_close os r s = do {
     let (ret, w) = os_close os (fd_num (fs_fds s r)) (fs_os s);
     SystemCall os w ret 0;
     Some (fd_update r (\<lambda>f. f\<lparr>fd_eof := True, fd_closed := True\<rparr>) (s\<lparr>fs_os := w\<rparr>))
   }"

text \<open>The destructor of the wrapper swallows the exception of \<open>close\<close>.\<close>

definition fdw_destroy :: "'w os \<Rightarrow> nat \<Rightarrow> 'w fd_state \<Rightarrow> 'w fd_state" where
  "fdw_destroy os r s =
     (if fd_closed (fs_fds s r) then s
      else case fd_close os r s of
             Some s' \<Rightarrow> s'
           | None \<Rightarrow> s\<lparr>fs_os := snd (os_close os (fd_num (fs_fds s r)) (fs_os s))\<rparr>)"

definition BUFFER_SIZE :: size_t where "BUFFER_SIZE = 1024 * 1024"

definition fd_read :: "'w os \<Rightarrow> nat \<Rightarrow> size_t \<Rightarrow> 'w fd_state \<Rightarrow> (bytes \<times> 'w fd_state) option" where
  "fd_read os r limit s = do {
     let size_to_read = min BUFFER_SIZE limit;
     let (ret, buf, w) = os_read os (fd_num (fs_fds s r)) size_to_read (fs_os s);
     bytes_read \<leftarrow> SystemCall os w ret 0;
     let s = s\<lparr>fs_os := w\<rparr>;
     let s = (if limit > 0 \<and> bytes_read = 0 then fd_update r (\<lambda>f. f\<lparr>fd_eof := True\<rparr>) s else s);
     if bytes_read > int size_to_read then None
     else if bytes_read < 0 then None
     else Some (str_resize buf (nat bytes_read), register_read r s)
   }"

text \<open>
  The loop of \<open>write\<close>. Nothing in it bounds the number of rounds, so it is a partial function; that it
  ends is proved for a kernel that accepts at least one byte of a non-empty buffer. The size of the buffer is
  compared as a \<open>ssize_t\<close>, which for the buffers that exist, of less than 2^63 bytes, is its value.
\<close>

partial_function (option) fd_write_loop ::
  "'w os \<Rightarrow> nat \<Rightarrow> bool \<Rightarrow> buffer_view_list \<Rightarrow> size_t \<Rightarrow> 'w fd_state \<Rightarrow> (size_t \<times> 'w fd_state) option" where
  "fd_write_loop os r write_all buffer tot s =
     (let (ret, w) = os_writev os (fd_num (fs_fds s r)) (as_iovecs buffer) (fs_os s)
      in SystemCall os w ret 0 \<bind> (\<lambda>bytes_written.
           let s = s\<lparr>fs_os := w\<rparr>
           in if bytes_written = 0 \<and> bv_size buffer \<noteq> 0 then None
              else if bytes_written > int (bv_size buffer) \<or> bytes_written < 0 then None
              else bv_remove_prefix buffer (nat bytes_written) \<bind> (\<lambda>buffer.
                let s = register_write r s; tot = sz_add tot (nat bytes_written)
                in if write_all \<and> bv_size buffer \<noteq> 0 then fd_write_loop os r write_all buffer tot s
                   else Some (tot, s))))"

definition fd_write :: "'w os \<Rightarrow> nat \<Rightarrow> buffer_view_list \<Rightarrow> bool \<Rightarrow> 'w fd_state \<Rightarrow> (size_t \<times> 'w fd_state) option" where
  "fd_write os r buffer write_all s = fd_write_loop os r write_all buffer 0 s"

definition O_NONBLOCK :: u32 where "O_NONBLOCK = 2048"

definition fd_set_blocking :: "'w os \<Rightarrow> nat \<Rightarrow> bool \<Rightarrow> 'w fd_state \<Rightarrow> 'w fd_state option" where
  "fd_set_blocking os r blocking_state s = do {
     let (ret, flags, w) = os_getfl os (fd_num (fs_fds s r)) (fs_os s);
     SystemCall os w ret 0;
     let flags = (if blocking_state then flags XOR (flags AND O_NONBLOCK) else flags OR O_NONBLOCK);
     let (ret, w) = os_setfl os (fd_num (fs_fds s r)) flags w;
     SystemCall os w ret 0;
     Some (s\<lparr>fs_os := w\<rparr>)
   }"

section \<open>Sockets\<close>

definition SHUT_RD :: nat where "SHUT_RD = 0"
definition SHUT_WR :: nat where "SHUT_WR = 1"
definition SHUT_RDWR :: nat where "SHUT_RDWR = 2"

definition sock_shutdown :: "'w os \<Rightarrow> nat \<Rightarrow> nat \<Rightarrow> 'w fd_state \<Rightarrow> 'w fd_state option" where
  "sock_shutdown os r how s = do {
     let (ret, w) = os_shutdown os (fd_num (fs_fds s r)) how (fs_os s);
     SystemCall os w ret 0;
     let s = s\<lparr>fs_os := w\<rparr>;
     if how = SHUT_RD then Some (register_read r s)
     else if how = SHUT_WR then Some (register_write r s)
     else if how = SHUT_RDWR then Some (register_write r (register_read r s))
     else None
   }"

definition udp_recv :: "'w os \<Rightarrow> nat \<Rightarrow> size_t \<Rightarrow> 'w fd_state \<Rightarrow> ((address \<times> bytes) \<times> 'w fd_state) option" where
  "udp_recv os r mtu s = do {
     let (ret, buf, (raw, fromlen), w) = os_recvfrom os (fd_num (fs_fds s r)) mtu (fs_os s);
     recv_len \<leftarrow> SystemCall os w ret 0;
     if recv_len > int mtu then None
     else do {
       let s = register_read r (s\<lparr>fs_os := w\<rparr>);
       a \<leftarrow> address_of_raw raw fromlen;
       if recv_len < 0 then None else Some ((a, str_resize buf (nat recv_len)), s)
     }
   }"

definition sendmsg_helper :: "'w os \<Rightarrow> int \<Rightarrow> address option \<Rightarrow> buffer_view_list \<Rightarrow> 'w \<Rightarrow> 'w option" where
  "sendmsg_helper os fd destination payload w = do {
     let (ret, w) = os_sendmsg os fd destination (as_iovecs payload) w;
     bytes_sent \<leftarrow> SystemCall os w ret 0;
     if bytes_sent mod int SIZE_MOD \<noteq> int (bv_size payload) then None else Some w
   }"

definition udp_sendto :: "'w os \<Rightarrow> nat \<Rightarrow> address \<Rightarrow> buffer_view_list \<Rightarrow> 'w fd_state \<Rightarrow> 'w fd_state option" where
  "udp_sendto os r destination payload s = do {
     w \<leftarrow> sendmsg_helper os (fd_num (fs_fds s r)) (Some destination) payload (fs_os s);
     Some (register_write r (s\<lparr>fs_os := w\<rparr>))
   }"

definition udp_send :: "'w os \<Rightarrow> nat \<Rightarrow> buffer_view_list \<Rightarrow> 'w fd_state \<Rightarrow> 'w fd_state option" where
  "udp_send os r payload s = do {
     w \<leftarrow> sendmsg_helper os (fd_num (fs_fds s r)) None payload (fs_os s);
     Some (register_write r (s\<lparr>fs_os := w\<rparr>))
   }"

text \<open>The constants of the socket interface of Linux.\<close>

definition AF_UNIX :: nat where "AF_UNIX = 1"
definition SOCK_STREAM :: nat where "SOCK_STREAM = 1"
definition SOCK_DGRAM :: nat where "SOCK_DGRAM = 2"
definition SOL_SOCKET :: nat where "SOL_SOCKET = 1"
definition SO_REUSEADDR :: nat where "SO_REUSEADDR = 2"
definition SO_TYPE :: nat where "SO_TYPE = 3"
definition SO_DOMAIN :: nat where "SO_DOMAIN = 39"

definition sock_new :: "'w os \<Rightarrow> nat \<Rightarrow> nat \<Rightarrow> 'w fd_state \<Rightarrow> (nat \<times> 'w fd_state) option" where
  "sock_new os domain type s = do {
     let (ret, w) = os_socket os domain type (fs_os s);
     fd \<leftarrow> SystemCall os w ret 0;
     fd_new fd (s\<lparr>fs_os := w\<rparr>)
   }"

text \<open>The two checks of the constructor from a file descriptor; an \<open>int\<close> has 4 bytes.\<close>

definition sock_verify :: "'w os \<Rightarrow> nat \<Rightarrow> nat \<Rightarrow> nat \<Rightarrow> 'w fd_state \<Rightarrow> 'w fd_state option" where
  "sock_verify os r option expected s = do {
     let (ret, (actual_value, len), w) = os_getsockopt os (fd_num (fs_fds s r)) SOL_SOCKET option (fs_os s);
     SystemCall os w ret 0;
     if len \<noteq> 4 \<or> actual_value \<noteq> int expected then None else Some (s\<lparr>fs_os := w\<rparr>)
   }"

definition sock_of_fd :: "'w os \<Rightarrow> nat \<Rightarrow> nat \<Rightarrow> nat \<Rightarrow> 'w fd_state \<Rightarrow> 'w fd_state option" where
  "sock_of_fd os r domain type s = sock_verify os r SO_DOMAIN domain s \<bind> sock_verify os r SO_TYPE type"

definition sock_get_address ::
  "'w os \<Rightarrow> (int \<Rightarrow> 'w \<Rightarrow> int \<times> (bytes \<times> nat) \<times> 'w) \<Rightarrow> nat \<Rightarrow> 'w fd_state \<Rightarrow> (address \<times> 'w fd_state) option" where
  "sock_get_address os function r s = do {
     let (ret, (raw, size), w) = function (fd_num (fs_fds s r)) (fs_os s);
     SystemCall os w ret 0;
     a \<leftarrow> address_of_raw raw size;
     Some (a, s\<lparr>fs_os := w\<rparr>)
   }"

definition local_address :: "'w os \<Rightarrow> nat \<Rightarrow> 'w fd_state \<Rightarrow> (address \<times> 'w fd_state) option" where
  "local_address os = sock_get_address os (os_getsockname os)"

definition peer_address :: "'w os \<Rightarrow> nat \<Rightarrow> 'w fd_state \<Rightarrow> (address \<times> 'w fd_state) option" where
  "peer_address os = sock_get_address os (os_getpeername os)"

text \<open>A call that only reports success or failure.\<close>

definition sys_check :: "'w os \<Rightarrow> (int \<Rightarrow> 'w \<Rightarrow> int \<times> 'w) \<Rightarrow> nat \<Rightarrow> 'w fd_state \<Rightarrow> 'w fd_state option" where
  "sys_check os function r s = do {
     let (ret, w) = function (fd_num (fs_fds s r)) (fs_os s);
     SystemCall os w ret 0;
     Some (s\<lparr>fs_os := w\<rparr>)
   }"

definition sock_bind :: "'w os \<Rightarrow> nat \<Rightarrow> address \<Rightarrow> 'w fd_state \<Rightarrow> 'w fd_state option" where
  "sock_bind os r a = sys_check os (\<lambda>fd. os_bind os fd a) r"

definition sock_connect :: "'w os \<Rightarrow> nat \<Rightarrow> address \<Rightarrow> 'w fd_state \<Rightarrow> 'w fd_state option" where
  "sock_connect os r a = sys_check os (\<lambda>fd. os_connect os fd a) r"

definition tcp_listen :: "'w os \<Rightarrow> nat \<Rightarrow> int \<Rightarrow> 'w fd_state \<Rightarrow> 'w fd_state option" where
  "tcp_listen os r backlog = sys_check os (\<lambda>fd. os_listen os fd backlog) r"

definition sock_setsockopt :: "'w os \<Rightarrow> nat \<Rightarrow> nat \<Rightarrow> nat \<Rightarrow> int \<Rightarrow> 'w fd_state \<Rightarrow> 'w fd_state option" where
  "sock_setsockopt os r level option v = sys_check os (\<lambda>fd. os_setsockopt os fd level option v) r"

definition set_reuseaddr :: "'w os \<Rightarrow> nat \<Rightarrow> 'w fd_state \<Rightarrow> 'w fd_state option" where
  "set_reuseaddr os r = sock_setsockopt os r SOL_SOCKET SO_REUSEADDR 1"

definition tcp_accept :: "'w os \<Rightarrow> nat \<Rightarrow> 'w fd_state \<Rightarrow> (nat \<times> 'w fd_state) option" where
  "tcp_accept os r s = do {
     let s = register_read r s;
     let (ret, w) = os_accept os (fd_num (fs_fds s r)) (fs_os s);
     fd \<leftarrow> SystemCall os w ret 0;
     (r', s) \<leftarrow> fd_new fd (s\<lparr>fs_os := w\<rparr>);
     s \<leftarrow> sock_of_fd os r' AF_INET SOCK_STREAM s;
     Some (r', s)
   }"

text \<open>The TUN device. The name is cut off after 15 characters.\<close>

definition CLONEDEV :: string where "CLONEDEV = ''/dev/net/tun''"
definition IFNAMSIZ :: nat where "IFNAMSIZ = 16"
definition IFF_TUN :: u16 where "IFF_TUN = 1"
definition IFF_TAP :: u16 where "IFF_TAP = 2"
definition IFF_NO_PI :: u16 where "IFF_NO_PI = 4096"

definition tuntap_new :: "'w os \<Rightarrow> string \<Rightarrow> bool \<Rightarrow> 'w fd_state \<Rightarrow> (nat \<times> 'w fd_state) option" where
  "tuntap_new os devname is_tun s = do {
     let (ret, w) = os_open os CLONEDEV (fs_os s);
     fd \<leftarrow> SystemCall os w ret 0;
     (r, s) \<leftarrow> fd_new fd (s\<lparr>fs_os := w\<rparr>);
     let flags = (if is_tun then IFF_TUN else IFF_TAP) OR IFF_NO_PI;
     let name = takeWhile (\<lambda>c. c \<noteq> CHR 0x00) (take (IFNAMSIZ - 1) devname);
     s \<leftarrow> sys_check os (\<lambda>fd. os_tunsetiff os fd name flags) r s;
     Some (r, s)
   }"

definition tun_new :: "'w os \<Rightarrow> string \<Rightarrow> 'w fd_state \<Rightarrow> (nat \<times> 'w fd_state) option" where
  "tun_new os devname = tuntap_new os devname True"

definition tap_new :: "'w os \<Rightarrow> string \<Rightarrow> 'w fd_state \<Rightarrow> (nat \<times> 'w fd_state) option" where
  "tap_new os devname = tuntap_new os devname False"

section \<open>Writing everything\<close>

text \<open>
  The documented behaviour of \<open>writev\<close> on a blocking descriptor: \<open>out\<close> is what has been written to
  it; a call accepts a non-empty prefix of the data, or nothing if there is none.
\<close>

definition writev_ok :: "'w os \<Rightarrow> ('w \<Rightarrow> bytes) \<Rightarrow> int \<Rightarrow> bool" where
  "writev_ok os out fd \<longleftrightarrow> (\<forall>iov w.
     let (ret, w') = os_writev os fd iov w; data = concat (map iov_base iov)
     in 0 \<le> ret \<and> ret \<le> int (length data) \<and> (data \<noteq> [] \<longrightarrow> 0 < ret) \<and> out w' = out w @ take (nat ret) data)"

lemma iovecs_contents: "concat (map iov_base (as_iovecs l)) = bv_contents l"
  by (simp add: as_iovecs_def fold_snoc bv_contents_def comp_def)

lemma register_write_frame [simp]:
  "fs_os (register_write r s) = fs_os s" "fd_num (fs_fds (register_write r s) r') = fd_num (fs_fds s r')"
  "fd_eof (fs_fds (register_write r s) r') = fd_eof (fs_fds s r')"
  by (simp_all add: register_write_def fd_update_def)

text \<open>One round of the loop.\<close>

lemma fd_write_round:
  assumes ok: "writev_ok os out (fd_num (fs_fds s r))" and len: "length (bv_contents l) < SIZE_MOD"
  shows "\<exists>n l' w. n \<le> length (bv_contents l) \<and> (bv_contents l \<noteq> [] \<longrightarrow> 0 < n) \<and>
    out w = out (fs_os s) @ take n (bv_contents l) \<and> bv_contents l' = drop n (bv_contents l) \<and>
    fd_write_loop os r b l tot s =
      (if b \<and> bv_contents l' \<noteq> [] then fd_write_loop os r b l' (sz_add tot n) (register_write r (s\<lparr>fs_os := w\<rparr>))
       else Some (sz_add tot n, register_write r (s\<lparr>fs_os := w\<rparr>)))"
proof -
  obtain ret w where ret: "os_writev os (fd_num (fs_fds s r)) (as_iovecs l) (fs_os s) = (ret, w)" by force
  from ok have "let (ret, w') = os_writev os (fd_num (fs_fds s r)) (as_iovecs l) (fs_os s); data = concat (map iov_base (as_iovecs l))
     in 0 \<le> ret \<and> ret \<le> int (length data) \<and> (data \<noteq> [] \<longrightarrow> 0 < ret) \<and> out w' = out (fs_os s) @ take (nat ret) data"
    unfolding writev_ok_def by blast
  then have r: "0 \<le> ret" "ret \<le> int (length (bv_contents l))" "bv_contents l \<noteq> [] \<longrightarrow> 0 < ret"
      "out w = out (fs_os s) @ take (nat ret) (bv_contents l)"
    unfolding iovecs_contents ret Let_def by simp_all
  then have n: "nat ret \<le> length (bv_contents l)" by simp
  from bv.discard_ok [OF len n] obtain l' where l': "bv_remove_prefix l (nat ret) = Some l'"
    "length (bv_contents l') < SIZE_MOD" "bv_contents l' = drop (nat ret) (bv_contents l)" by blast
  have size: "bv_size l = length (bv_contents l)" "bv_size l' = length (bv_contents l')"
    using bv.len_contents len l'(2) by auto
  have "\<not> (ret = 0 \<and> bv_size l \<noteq> 0)" "\<not> (ret > int (bv_size l) \<or> ret < 0)" using r size by auto
  then have "fd_write_loop os r b l tot s =
      (if b \<and> bv_contents l' \<noteq> [] then fd_write_loop os r b l' (sz_add tot (nat ret)) (register_write r (s\<lparr>fs_os := w\<rparr>))
       else Some (sz_add tot (nat ret), register_write r (s\<lparr>fs_os := w\<rparr>)))"
    using ret r(1) l'(1) size
    by (subst fd_write_loop.simps) (auto simp: SystemCall_def Let_def)
  with r n l'(3) show ?thesis by (intro exI [of _ "nat ret"] exI [of _ l'] exI [of _ w]) auto
qed

lemma fd_write_loop_all:
  assumes "writev_ok os out (fd_num (fs_fds s r))" and "tot + length (bv_contents l) < SIZE_MOD"
  shows "\<exists>s'. fd_write_loop os r True l tot s = Some (tot + length (bv_contents l), s') \<and>
    out (fs_os s') = out (fs_os s) @ bv_contents l \<and>
    (\<forall>r'. fd_num (fs_fds s' r') = fd_num (fs_fds s r') \<and> fd_eof (fs_fds s' r') = fd_eof (fs_fds s r'))"
  using assms
proof (induction "length (bv_contents l)" arbitrary: l tot s rule: less_induct)
  case less
  then have len: "length (bv_contents l) < SIZE_MOD" by simp
  from fd_write_round [OF less.prems(1) len, of True tot] obtain n l' w where
    n: "n \<le> length (bv_contents l)" "bv_contents l \<noteq> [] \<longrightarrow> 0 < n" "out w = out (fs_os s) @ take n (bv_contents l)"
      "bv_contents l' = drop n (bv_contents l)" and
    loop: "fd_write_loop os r True l tot s =
      (if bv_contents l' \<noteq> [] then fd_write_loop os r True l' (sz_add tot n) (register_write r (s\<lparr>fs_os := w\<rparr>))
       else Some (sz_add tot n, register_write r (s\<lparr>fs_os := w\<rparr>)))" unfolding simp_thms by blast
  let ?s = "register_write r (s\<lparr>fs_os := w\<rparr>)"
  have tot: "sz_add tot n = tot + n" using n(1) less.prems(2) by (intro sz_add_exact) simp
  show ?case
  proof (cases "bv_contents l' = []")
    case True
    then show ?thesis using loop tot n by auto
  next
    case False
    then have "length (bv_contents l') < length (bv_contents l)" using n(2,4) by auto
    moreover have "writev_ok os out (fd_num (fs_fds ?s r))" using less.prems(1) by simp
    moreover have "tot + n + length (bv_contents l') < SIZE_MOD" using n(1,4) less.prems(2) by simp
    ultimately obtain s' where "fd_write_loop os r True l' (tot + n) ?s = Some (tot + n + length (bv_contents l'), s')"
        "out (fs_os s') = out (fs_os ?s) @ bv_contents l'"
        "\<forall>r'. fd_num (fs_fds s' r') = fd_num (fs_fds ?s r') \<and> fd_eof (fs_fds s' r') = fd_eof (fs_fds ?s r')"
      using less.hyps by blast
    then show ?thesis using False loop tot n by auto
  qed
qed

section \<open>Frames of the operations\<close>

text \<open>What the operations on a descriptor leave alone.\<close>

definition fds_kept :: "nat \<Rightarrow> 'w fd_state \<Rightarrow> 'w fd_state \<Rightarrow> bool" where
  "fds_kept r io io' \<longleftrightarrow> (\<forall>r'. fd_num (fs_fds io' r') = fd_num (fs_fds io r')) \<and>
     (\<forall>r'. r' \<noteq> r \<longrightarrow> fs_fds io' r' = fs_fds io r') \<and> fd_closed (fs_fds io' r) = fd_closed (fs_fds io r)"

lemma register_kept [simp]:
  "fds_kept r io (register_read r io') = fds_kept r io io'" "fds_kept r io (register_write r io') = fds_kept r io io'"
  "fd_eof (fs_fds (register_read r io) r') = fd_eof (fs_fds io r')"
  "fs_os (register_read r io) = fs_os io"
  by (auto simp: fds_kept_def register_read_def register_write_def fd_update_def)

lemma fds_kept_os [simp]: "fds_kept r io (io\<lparr>fs_os := w\<rparr>)"
  by (simp add: fds_kept_def)

lemma fds_kept_eof [simp]:
  "fds_kept r io (fd_update r (\<lambda>f. f\<lparr>fd_eof := b\<rparr>) io') = fds_kept r io io'" "fs_os (fd_update r f io) = fs_os io"
  by (auto simp: fds_kept_def fd_update_def)

lemma fd_read_frame:
  assumes "fd_read os r limit io = Some (data, io')"
  obtains ret buf where "os_read os (fd_num (fs_fds io r)) (min BUFFER_SIZE limit) (fs_os io) = (ret, buf, fs_os io')"
    and "0 \<le> ret" and "data = str_resize buf (nat ret)" and "fds_kept r io io'"
    and "fd_eof (fs_fds io' r) \<Longrightarrow> fd_eof (fs_fds io r) \<or> 0 < limit \<and> ret = 0" and "nat ret \<le> min BUFFER_SIZE limit"
proof -
  obtain ret buf w where rd: "os_read os (fd_num (fs_fds io r)) (min BUFFER_SIZE limit) (fs_os io) = (ret, buf, w)"
    by (cases "os_read os (fd_num (fs_fds io r)) (min BUFFER_SIZE limit) (fs_os io)")
  from assms rd have r: "0 \<le> ret" "data = str_resize buf (nat ret)" "nat ret \<le> min BUFFER_SIZE limit"
    "io' = register_read r (if 0 < limit \<and> ret = 0 then fd_update r (\<lambda>f. f\<lparr>fd_eof := True\<rparr>) (io\<lparr>fs_os := w\<rparr>) else io\<lparr>fs_os := w\<rparr>)"
    by (auto simp: fd_read_def SystemCall_def Let_def split: if_splits)
  then have f: "fs_os io' = w" "fds_kept r io io'"
    "fd_eof (fs_fds io' r) \<Longrightarrow> fd_eof (fs_fds io r) \<or> 0 < limit \<and> ret = 0"
    by (auto split: if_splits)
  show ?thesis using rd r(1-3) f by (intro that [of ret buf]) auto
qed

lemma fd_write_once:
  assumes wr: "fd_write os r (bv_of_view b) False io = Some (n, io')" and len: "length b < SIZE_MOD"
  obtains iov where "os_writev os (fd_num (fs_fds io r)) iov (fs_os io) = (int n, fs_os io')"
    and "concat (map iov_base iov) = b" and "n \<le> length b" and "fds_kept r io io'" and "fd_eof (fs_fds io' r) = fd_eof (fs_fds io r)"
proof -
  let ?l = "bv_of_view b"
  have c: "bv_contents ?l = b" by (simp add: bv_of_view_def bv_contents_def)
  then have size: "bv_size ?l = length b" using bv.len_contents [of ?l] len by simp
  obtain ret w where w: "os_writev os (fd_num (fs_fds io r)) (as_iovecs ?l) (fs_os io) = (ret, w)" by force
  from wr w have r: "0 \<le> ret" "ret \<le> int (length b)" "n = sz_add 0 (nat ret)" "io' = register_write r (io\<lparr>fs_os := w\<rparr>)"
    unfolding fd_write_def fd_write_loop.simps [of os r False ?l 0 io]
    by (auto simp: SystemCall_def Let_def size bind_eq_Some_conv split: if_splits)
  then have "n = nat ret" using len by (simp add: sz_add_def)
  with r w show ?thesis using that [of "as_iovecs ?l"] c by (simp add: iovecs_contents register_write_frame)
qed

lemma sock_shutdown_frame:
  assumes "sock_shutdown os r how io = Some io'"
  shows "\<exists>ret. os_shutdown os (fd_num (fs_fds io r)) how (fs_os io) = (ret, fs_os io')" and "fds_kept r io io'"
    and "fd_eof (fs_fds io' r) = fd_eof (fs_fds io r)"
  using assms
  by (auto simp: sock_shutdown_def Let_def prod.case_eq_if bind_eq_Some_conv split: if_splits)
    (metis prod.collapse)+

section \<open>Properties\<close>

text \<open>
  C29: Writing a list of buffers with \<open>write_all\<close> ends, and when it does the kernel has got all of the
  bytes in order, however many calls of \<open>writev\<close> it took; the number returned is their length.
  Without \<open>write_all\<close> one call is made, and the number returned tells how much of it was taken.
\<close>

theorem write_all_writes_everything:
  assumes "writev_ok os out (fd_num (fs_fds s r))" and "length (bv_contents l) < SIZE_MOD"
  shows "(\<exists>s'. fd_write os r l True s = Some (length (bv_contents l), s') \<and> out (fs_os s') = out (fs_os s) @ bv_contents l) \<and>
    (\<exists>n s'. fd_write os r l False s = Some (n, s') \<and> n \<le> length (bv_contents l) \<and> (bv_contents l \<noteq> [] \<longrightarrow> 0 < n) \<and>
       out (fs_os s') = out (fs_os s) @ take n (bv_contents l))"
proof
  show "\<exists>s'. fd_write os r l True s = Some (length (bv_contents l), s') \<and> out (fs_os s') = out (fs_os s) @ bv_contents l"
    using fd_write_loop_all [OF assms(1), of 0 l] assms(2) by (auto simp: fd_write_def)
  from fd_write_round [OF assms, of False 0] obtain n w where
    "n \<le> length (bv_contents l)" "bv_contents l \<noteq> [] \<longrightarrow> 0 < n" "out w = out (fs_os s) @ take n (bv_contents l)"
    "fd_write_loop os r False l 0 s = Some (sz_add 0 n, register_write r (s\<lparr>fs_os := w\<rparr>))" by auto
  then show "\<exists>n s'. fd_write os r l False s = Some (n, s') \<and> n \<le> length (bv_contents l) \<and> (bv_contents l \<noteq> [] \<longrightarrow> 0 < n) \<and>
       out (fs_os s') = out (fs_os s) @ take n (bv_contents l)"
    using assms(2) by (auto simp: fd_write_def sz_add_def)
qed

text \<open>A kernel that does nothing, and one whose only descriptor is a file that takes at most two bytes at a time.\<close>

definition null_os :: "'w os" where
  "null_os =
     \<lparr>os_errno = (\<lambda>w. 0), os_read = (\<lambda>fd n w. (0, [], w)), os_writev = (\<lambda>fd iov w. (0, w)),
      os_close = (\<lambda>fd w. (0, w)), os_getfl = (\<lambda>fd w. (0, 0, w)), os_setfl = (\<lambda>fd fl w. (0, w)),
      os_recvfrom = (\<lambda>fd n w. (0, [], ([], 0), w)), os_sendmsg = (\<lambda>fd a iov w. (0, w)), os_shutdown = (\<lambda>fd how w. (0, w)),
      os_socket = (\<lambda>d t w. (0, w)), os_socketpair = (\<lambda>d t w. (0, (3, 4), w)),
      os_getsockopt = (\<lambda>fd l p w. (0, (0, 0), w)), os_setsockopt = (\<lambda>fd l p v w. (0, w)),
      os_getsockname = (\<lambda>fd w. (0, ([], 0), w)), os_getpeername = (\<lambda>fd w. (0, ([], 0), w)),
      os_bind = (\<lambda>fd a w. (0, w)), os_connect = (\<lambda>fd a w. (0, w)), os_listen = (\<lambda>fd n w. (0, w)), os_accept = (\<lambda>fd w. (0, w)),
      os_open = (\<lambda>n w. (0, w)), os_tunsetiff = (\<lambda>fd n fl w. (0, w)),
      os_poll = (\<lambda>ps t w. (0, (\<lambda>_. 0), w)), os_now = (\<lambda>w. (0, w))\<rparr>"

definition slow_os :: "bytes os" where
  "slow_os = null_os
     \<lparr>os_writev := (\<lambda>fd iov w. let data = concat (map iov_base iov)
        in (int (min 2 (length data)), w @ take (min 2 (length data)) data))\<rparr>"

theorem write_all_writes_everything_witness:
  "\<exists>s'. fd_write slow_os 0 (bv_of_view [1, 2, 3, 4, 5]) True
       \<lparr>fs_fds = (\<lambda>_. \<lparr>fd_num = 3, fd_eof = False, fd_closed = False, fd_read_count = 0, fd_write_count = 0\<rparr>), fs_next = 1, fs_os = [9]\<rparr>
     = Some (5, s') \<and> fs_os s' = [9, 1, 2, 3, 4, 5]"
proof -
  let ?l = "bv_of_view [1, 2, 3, 4, 5]" and ?f = "\<lparr>fd_num = 3, fd_eof = False, fd_closed = False, fd_read_count = 0, fd_write_count = 0\<rparr>"
  have ok: "writev_ok slow_os (\<lambda>w. w) (fd_num (fs_fds \<lparr>fs_fds = (\<lambda>_. ?f), fs_next = 1, fs_os = [9]\<rparr> 0))"
    by (simp add: writev_ok_def slow_os_def Let_def)
  have l: "bv_contents ?l = [1, 2, 3, 4, 5]" "length (bv_contents ?l) = 5" by (simp_all add: bv_of_view_def bv_contents_def)
  then have "length (bv_contents ?l) < SIZE_MOD" by (simp add: SIZE_MOD_def)
  from write_all_writes_everything [OF ok this] show ?thesis unfolding l(2) unfolding l(1) by simp
qed

end
