(* ===== verification/Event_Loop.thy ===== *)
theory Event_Loop
  imports File_Descriptor "HOL-Library.Sublist"
begin

text \<open>
  The event loop of \<open>libsponge/util/eventloop.hh\<close> and \<open>eventloop.cc\<close>. The lambdas of a rule capture
  references to objects of their owner; \<open>'s\<close> is the state of these objects, and a lambda is a function
  on it and on the descriptors. The lambdas of the program do not touch the list of rules. \<^const>\<open>None\<close>
  is a thrown exception.
\<close>

section \<open>Rules\<close>

definition POLLIN :: u16 where "POLLIN = 1"
definition POLLOUT :: u16 where "POLLOUT = 4"
definition POLLERR :: u16 where "POLLERR = 8"
definition POLLHUP :: u16 where "POLLHUP = 16"
definition POLLNVAL :: u16 where "POLLNVAL = 32"
definition EINTR :: int where "EINTR = 4"

datatype direction = In | Out

fun direction_events :: "direction \<Rightarrow> u16" where
  "direction_events In = POLLIN"
| "direction_events Out = POLLOUT"

record ('s, 'w) el_rule =
  rule_fd :: nat
  rule_direction :: direction
  rule_callback :: "'s \<times> 'w fd_state \<Rightarrow> ('s \<times> 'w fd_state) option"
  rule_interest :: "'s \<times> 'w fd_state \<Rightarrow> bool"
  rule_cancel :: "'s \<times> 'w fd_state \<Rightarrow> ('s \<times> 'w fd_state) option"

abbreviation rule_wrapper :: "('s, 'w) el_rule \<Rightarrow> 's \<times> 'w fd_state \<Rightarrow> fd_wrapper" where
  "rule_wrapper r x \<equiv> fs_fds (snd x) (rule_fd r)"

definition service_count :: "('s, 'w) el_rule \<Rightarrow> 's \<times> 'w fd_state \<Rightarrow> u32" where
  "service_count r x =
     (if rule_direction r = In then fd_read_count (rule_wrapper r x) else fd_write_count (rule_wrapper r x))"

datatype el_result = Success | Timeout | Exit

definition add_rule ::
  "nat \<Rightarrow> direction \<Rightarrow> ('s \<times> 'w fd_state \<Rightarrow> ('s \<times> 'w fd_state) option) \<Rightarrow> ('s \<times> 'w fd_state \<Rightarrow> bool) \<Rightarrow>
   ('s \<times> 'w fd_state \<Rightarrow> ('s \<times> 'w fd_state) option) \<Rightarrow> ('s, 'w) el_rule list \<Rightarrow> ('s, 'w) el_rule list" where
  "add_rule fd direction callback interest cancel rules =
     rules @ [\<lparr>rule_fd = fd_duplicate fd, rule_direction = direction, rule_callback = callback,
               rule_interest = interest, rule_cancel = cancel\<rparr>]"

section \<open>Waiting for an event\<close>

text \<open>The first loop: rules at the end of their input or with a closed descriptor are cancelled.\<close>

fun el_setup :: "('s, 'w) el_rule list \<Rightarrow> 's \<times> 'w fd_state \<Rightarrow>
    (('s, 'w) el_rule list \<times> pollfd list \<times> bool \<times> 's \<times> 'w fd_state) option" where
  "el_setup [] x = Some ([], [], False, x)"
| "el_setup (r # rs) x =
     (if rule_direction r = In \<and> fd_eof (rule_wrapper r x) then rule_cancel r x \<bind> el_setup rs
      else if fd_closed (rule_wrapper r x) then rule_cancel r x \<bind> el_setup rs
      else
        let wanted = rule_interest r x;
            p = \<lparr>poll_fd = fd_num (rule_wrapper r x), poll_events = (if wanted then direction_events (rule_direction r) else 0),
                 poll_revents = 0\<rparr>
        in map_option (\<lambda>(rs, ps, something_to_poll, x). (r # rs, p # ps, wanted \<or> something_to_poll, x)) (el_setup rs x))"

text \<open>The last loop, over the rules that are left and the results of \<open>poll\<close>.\<close>

definition poll_ready :: "pollfd \<Rightarrow> bool" where
  "poll_ready p \<longleftrightarrow> poll_revents p AND poll_events p \<noteq> 0"

definition poll_defunct :: "pollfd \<Rightarrow> bool" where
  "poll_defunct p \<longleftrightarrow> poll_revents p AND POLLHUP \<noteq> 0 \<and> poll_events p \<noteq> 0 \<and> \<not> poll_ready p"

fun el_dispatch :: "('s, 'w) el_rule list \<Rightarrow> pollfd list \<Rightarrow> 's \<times> 'w fd_state \<Rightarrow>
    (('s, 'w) el_rule list \<times> 's \<times> 'w fd_state) option" where
  "el_dispatch [] ps x = Some ([], x)"
| "el_dispatch (r # rs) [] x = None"
| "el_dispatch (r # rs) (p # ps) x =
     (if poll_revents p AND (POLLERR OR POLLNVAL) \<noteq> 0 then None
      else if poll_defunct p then rule_cancel r x \<bind> el_dispatch rs ps
      else
        (if poll_ready p then
           rule_callback r x \<bind> (\<lambda>x'.
             if service_count r x = service_count r x' \<and> rule_interest r x' then None else Some x')
         else Some x)
        \<bind> (\<lambda>x. map_option (\<lambda>(rs, x). (r # rs, x)) (el_dispatch rs ps x)))"

definition poll_result :: "pollfd list \<Rightarrow> (nat \<Rightarrow> u16) \<Rightarrow> pollfd list" where
  "poll_result ps revents = map (\<lambda>i. (ps ! i)\<lparr>poll_revents := revents i\<rparr>) [0..<length ps]"

text \<open>
  The exception of \<open>SystemCall\<close> is caught: after a signal the loop is left, after any other error the
  results are gone through.
\<close>

definition wait_next_event :: "'w os \<Rightarrow> int \<Rightarrow> ('s, 'w) el_rule list \<Rightarrow> 's \<times> 'w fd_state \<Rightarrow>
    (el_result \<times> ('s, 'w) el_rule list \<times> 's \<times> 'w fd_state) option" where
  "wait_next_event os timeout_ms rules x = do {
     (rules, pollfds, something_to_poll, x) \<leftarrow> el_setup rules x;
     if \<not> something_to_poll then Some (Exit, rules, x)
     else
       let (ret, revents, w) = os_poll os pollfds timeout_ms (fs_os (snd x));
           x = (fst x, (snd x)\<lparr>fs_os := w\<rparr>);
           dispatch = map_option (\<lambda>(rules, x). (Success, rules, x)) (el_dispatch rules (poll_result pollfds revents) x)
       in case SystemCall os w ret 0 of
            Some n \<Rightarrow> if n = 0 then Some (Timeout, rules, x) else dispatch
          | None \<Rightarrow> if os_errno os w = EINTR then Some (Exit, rules, x) else dispatch
   }"

section \<open>One round\<close>

text \<open>What happens to one rule in a round: \<open>x\<close> and \<open>x'\<close> are the states before and after.\<close>

definition el_event :: "('s, 'w) el_rule \<Rightarrow> pollfd \<Rightarrow> 's \<times> 'w fd_state \<Rightarrow> 's \<times> 'w fd_state \<Rightarrow> bool" where
  "el_event r p x x' \<longleftrightarrow> poll_revents p AND (POLLERR OR POLLNVAL) = 0 \<and>
     (if poll_defunct p then rule_cancel r x = Some x'
      else if poll_ready p
        then rule_callback r x = Some x' \<and> (service_count r x' \<noteq> service_count r x \<or> \<not> rule_interest r x')
        else x' = x)"

lemma el_dispatch_step:
  "el_dispatch (r # rs) (p # ps) x = Some (rs', x') \<longleftrightarrow>
     (\<exists>y rs1. el_event r p x y \<and> el_dispatch rs ps y = Some (rs1, x') \<and> rs' = (if poll_defunct p then rs1 else r # rs1))"
proof -
  have cons: "map_option (\<lambda>(rs, x). (r # rs, x)) m = Some (rs', x') \<longleftrightarrow> (\<exists>rs1. m = Some (rs1, x') \<and> rs' = r # rs1)"
    for m :: "(('a, 'b) el_rule list \<times> 'a \<times> 'b fd_state) option"
    by (cases m) auto
  note simps = el_event_def cons
  consider "poll_revents p AND (POLLERR OR POLLNVAL) \<noteq> 0" | "poll_revents p AND (POLLERR OR POLLNVAL) = 0" "poll_defunct p"
    | "poll_revents p AND (POLLERR OR POLLNVAL) = 0" "\<not> poll_defunct p" "poll_ready p"
    | "poll_revents p AND (POLLERR OR POLLNVAL) = 0" "\<not> poll_defunct p" "\<not> poll_ready p" by blast
  then show ?thesis
  proof cases
    case 2
    then show ?thesis by (cases "rule_cancel r x") (simp_all add: simps)
  next
    case 3
    show ?thesis
    proof (cases "rule_callback r x")
      case (Some y)
      with 3 show ?thesis
        by (cases "service_count r x = service_count r y \<and> rule_interest r y") (auto simp: simps simp del: map_option_eq_Some)
    qed (use 3 in \<open>simp add: simps\<close>)
  qed (simp_all add: simps del: map_option_eq_Some)
qed

text \<open>The set-up when no rule is to be cancelled.\<close>

definition pollfd_of :: "('s, 'w) el_rule \<Rightarrow> 's \<times> 'w fd_state \<Rightarrow> pollfd" where
  "pollfd_of r x = \<lparr>poll_fd = fd_num (rule_wrapper r x),
     poll_events = (if rule_interest r x then direction_events (rule_direction r) else 0), poll_revents = 0\<rparr>"

lemma el_setup_open:
  assumes "\<forall>r \<in> set rs. \<not> (rule_direction r = In \<and> fd_eof (rule_wrapper r x)) \<and> \<not> fd_closed (rule_wrapper r x)"
  shows "el_setup rs x = Some (rs, map (\<lambda>r. pollfd_of r x) rs, \<exists>r \<in> set rs. rule_interest r x, x)"
  using assms by (induction rs) (auto simp: pollfd_of_def Let_def)

lemma wait_next_event_cases:
  assumes "wait_next_event os t rs x = Some (res, rs', x')" and "el_setup rs x = Some (rs1, ps, b, x1)"
    and "os_poll os ps t (fs_os (snd x1)) = (ret, rv, w)"
  shows "res = Exit \<and> rs' = rs1 \<and> \<not> b \<and> x' = x1 \<or>
    res = Exit \<and> rs' = rs1 \<and> ret < 0 \<and> os_errno os w = EINTR \<and> x' = (fst x1, (snd x1)\<lparr>fs_os := w\<rparr>) \<or>
    res = Timeout \<and> rs' = rs1 \<and> x' = (fst x1, (snd x1)\<lparr>fs_os := w\<rparr>) \<or>
    res = Success \<and> el_dispatch rs1 (poll_result ps rv) (fst x1, (snd x1)\<lparr>fs_os := w\<rparr>) = Some (rs', x')"
  using assms by (auto simp: wait_next_event_def Let_def SystemCall_def split: if_splits option.splits)

section \<open>What the owner of the rules relies on\<close>

text \<open>
  An owner describes the states between two events by an invariant \<open>I\<close>, and by \<open>D r\<close> the states in which
  rule \<open>r\<close> may be cancelled: the input is at its end, the descriptor is closed, or it only reports a
  hangup. If the lambdas keep both, so does the loop.
\<close>

definition polled :: "(('s, 'w) el_rule \<Rightarrow> int) \<Rightarrow> ('s, 'w) el_rule \<Rightarrow> pollfd \<Rightarrow> bool" where
  "polled num r p \<longleftrightarrow> poll_fd p = num r \<and> poll_events p \<in> {0, direction_events (rule_direction r)}"

locale event_rules =
  fixes os :: "'w os" and R :: "('s, 'w) el_rule set" and num :: "('s, 'w) el_rule \<Rightarrow> int"
    and I :: "'s \<times> 'w fd_state \<Rightarrow> bool" and D :: "('s, 'w) el_rule \<Rightarrow> 's \<times> 'w fd_state \<Rightarrow> bool"
  assumes known_fd: "r \<in> R \<Longrightarrow> I x \<Longrightarrow> fd_num (rule_wrapper r x) = num r"
    and callback_keeps: "r \<in> R \<Longrightarrow> I x \<Longrightarrow> rule_callback r x = Some x' \<Longrightarrow> I x'"
    and callback_stable: "r \<in> R \<Longrightarrow> r' \<in> R \<Longrightarrow> I x \<Longrightarrow> D r' x \<Longrightarrow> rule_callback r x = Some x' \<Longrightarrow> D r' x'"
    and cancel_keeps: "r \<in> R \<Longrightarrow> I x \<Longrightarrow> D r x \<Longrightarrow> rule_cancel r x = Some x' \<Longrightarrow> I x'"
    and cancel_stable: "r \<in> R \<Longrightarrow> r' \<in> R \<Longrightarrow> I x \<Longrightarrow> D r' x \<Longrightarrow> rule_cancel r x = Some x' \<Longrightarrow> D r' x'"
    and ended: "r \<in> R \<Longrightarrow> I x \<Longrightarrow> rule_direction r = In \<and> fd_eof (rule_wrapper r x) \<or> fd_closed (rule_wrapper r x) \<Longrightarrow> D r x"
    and poll_keeps: "I (s, io) \<Longrightarrow> os_poll os ps t (fs_os io) = (ret, rv, w) \<Longrightarrow> I (s, io\<lparr>fs_os := w\<rparr>)"
    and hangup: "I (s, io) \<Longrightarrow> os_poll os ps t (fs_os io) = (ret, rv, w) \<Longrightarrow> i < length ps \<Longrightarrow> r \<in> R \<Longrightarrow>
      polled num r (ps ! i) \<Longrightarrow> poll_defunct ((ps ! i)\<lparr>poll_revents := rv i\<rparr>) \<Longrightarrow> D r (s, io\<lparr>fs_os := w\<rparr>)"
begin

lemma setup_keeps:
  assumes "el_setup rs x = Some (rs', ps, b, x')" and "set rs \<subseteq> R" and "I x"
  shows "I x' \<and> subseq rs' rs \<and> list_all2 (polled num) rs' ps"
  using assms
proof (induction rs arbitrary: x rs' ps b x')
  case (Cons r rs)
  then have r: "r \<in> R" "set rs \<subseteq> R" by auto
  show ?case
  proof (cases "rule_direction r = In \<and> fd_eof (rule_wrapper r x) \<or> fd_closed (rule_wrapper r x)")
    case True
    with Cons.prems(1) obtain y where y: "rule_cancel r x = Some y" "el_setup rs y = Some (rs', ps, b, x')"
      by (auto simp: bind_eq_Some_conv split: if_splits)
    have "I y" using cancel_keeps [OF r(1) Cons.prems(3) ended [OF r(1) Cons.prems(3) True] y(1)] .
    from Cons.IH [OF y(2) r(2) this] show ?thesis by auto
  next
    case False
    let ?p = "\<lparr>poll_fd = num r, poll_events = if rule_interest r x then direction_events (rule_direction r) else 0, poll_revents = 0\<rparr>"
    from False Cons.prems(1) obtain rs1 ps1 b1 where s: "el_setup rs x = Some (rs1, ps1, b1, x')"
      "rs' = r # rs1" "ps = ?p # ps1"
      using known_fd [OF r(1) Cons.prems(3)] by (cases "el_setup rs x") (auto simp: Let_def)
    moreover have "polled num r ?p" by (simp add: polled_def)
    moreover note s
    ultimately show ?thesis using Cons.IH [OF s(1) r(2) Cons.prems(3)] by simp
  qed
qed simp

lemma event_keeps:
  assumes "el_event r p x y" and "r \<in> R" and "I x" and "poll_defunct p \<longrightarrow> D r x"
  shows "I y" and "\<forall>r' \<in> R. D r' x \<longrightarrow> D r' y"
proof -
  consider "y = x" | "rule_callback r x = Some y" | "poll_defunct p" "rule_cancel r x = Some y"
    using assms(1) by (auto simp: el_event_def split: if_splits)
  then have "I y \<and> (\<forall>r' \<in> R. D r' x \<longrightarrow> D r' y)"
  proof cases
    case 1
    then show ?thesis using assms(3) by blast
  next
    case 2
    then show ?thesis using callback_keeps callback_stable assms(2,3) by blast
  next
    case 3
    then show ?thesis using cancel_keeps cancel_stable assms(2-4) by blast
  qed
  then show "I y" and "\<forall>r' \<in> R. D r' x \<longrightarrow> D r' y" by auto
qed

lemma dispatch_keeps:
  assumes "el_dispatch rs ps x = Some (rs', x')" and "set rs \<subseteq> R" and "I x"
    and "list_all2 (\<lambda>r p. poll_defunct p \<longrightarrow> D r x) rs ps"
  shows "I x' \<and> subseq rs' rs"
  using assms
proof (induction rs arbitrary: ps x rs')
  case (Cons r rs)
  then obtain p ps1 where ps: "ps = p # ps1" and r: "r \<in> R" "set rs \<subseteq> R" and D: "poll_defunct p \<longrightarrow> D r x"
    and Ds: "list_all2 (\<lambda>r p. poll_defunct p \<longrightarrow> D r x) rs ps1"
    by (auto simp: list_all2_Cons1)
  from Cons.prems(1) obtain y rs1 where y: "el_event r p x y" "el_dispatch rs ps1 y = Some (rs1, x')"
      "rs' = (if poll_defunct p then rs1 else r # rs1)"
    unfolding ps el_dispatch_step by blast
  note ek = event_keeps [OF y(1) r(1) Cons.prems(3) D]
  with r(2) have "list_all2 (\<lambda>r p. poll_defunct p \<longrightarrow> D r y) rs ps1"
    by (intro list.rel_mono_strong [OF Ds]) blast
  with Cons.IH [OF y(2) r(2) ek(1)] y(3) show ?case by (auto simp: list_emb_Cons)
qed simp

text \<open>After \<open>poll\<close> every rule with a lonely hangup may be cancelled.\<close>

lemma poll_hangups:
  assumes I: "I x" and p: "os_poll os ps t (fs_os (snd x)) = (ret, rv, w)" and rs: "list_all2 (polled num) rs ps" "set rs \<subseteq> R"
  shows "list_all2 (\<lambda>r p. poll_defunct p \<longrightarrow> D r (fst x, (snd x)\<lparr>fs_os := w\<rparr>)) rs (poll_result ps rv)"
  unfolding list_all2_conv_all_nth
proof (intro conjI allI impI)
  have I': "I (fst x, snd x)" using I by simp
  have len: "length rs = length ps" using rs(1) list_all2_lengthD by blast
  then show "length rs = length (poll_result ps rv)" by (simp add: poll_result_def)
  fix i assume i: "i < length rs" "poll_defunct (poll_result ps rv ! i)"
  then have l: "i < length ps" "rs ! i \<in> R" using len rs(2) by auto
  moreover have "polled num (rs ! i) (ps ! i)" using rs(1) i(1) list_all2_nthD by blast
  ultimately show "D (rs ! i) (fst x, (snd x)\<lparr>fs_os := w\<rparr>)" using hangup [OF I' p] i(2) by (simp add: poll_result_def)
qed

lemma wait_keeps:
  assumes wait: "wait_next_event os t rs x = Some (res, rs', x')" and R: "set rs \<subseteq> R" and I: "I x"
  shows "I x' \<and> subseq rs' rs"
proof -
  from wait obtain rs1 ps b x1 where s: "el_setup rs x = Some (rs1, ps, b, x1)"
    by (auto simp: wait_next_event_def bind_eq_Some_conv)
  note sk = setup_keeps [OF s R I]
  then have R1: "set rs1 \<subseteq> R" using R subseq_order.trans by (auto dest: list_emb_set)
  obtain ret rv w where p: "os_poll os ps t (fs_os (snd x1)) = (ret, rv, w)" by (cases "os_poll os ps t (fs_os (snd x1))")
  let ?x = "(fst x1, (snd x1)\<lparr>fs_os := w\<rparr>)"
  have "I (fst x1, snd x1)" using sk by simp
  from poll_keeps [OF this p] have Ix: "I ?x" .
  note dk = dispatch_keeps [OF _ R1 Ix poll_hangups [OF _ p _ R1]]
  from wait_next_event_cases [OF wait s p] show ?thesis using sk Ix dk subseq_order.trans by blast
qed

end

text \<open>
  What holds once a rule has been cancelled: if the lambdas and \<open>poll\<close> keep it, it holds for every rule
  that is no longer in the list.
\<close>

locale event_rules_done = event_rules os R num I D
  for os :: "'w os" and R :: "('s, 'w) el_rule set" and num I D +
  fixes E :: "('s, 'w) el_rule \<Rightarrow> 's \<times> 'w fd_state \<Rightarrow> bool"
  assumes cancel_done: "r \<in> R \<Longrightarrow> I x \<Longrightarrow> D r x \<Longrightarrow> rule_cancel r x = Some x' \<Longrightarrow> E r x'"
    and callback_done: "r \<in> R \<Longrightarrow> r' \<in> R \<Longrightarrow> I x \<Longrightarrow> E r' x \<Longrightarrow> rule_callback r x = Some x' \<Longrightarrow> E r' x'"
    and cancel_done_stable: "r \<in> R \<Longrightarrow> r' \<in> R \<Longrightarrow> I x \<Longrightarrow> E r' x \<Longrightarrow> rule_cancel r x = Some x' \<Longrightarrow> E r' x'"
    and poll_done: "r \<in> R \<Longrightarrow> I (s, io) \<Longrightarrow> E r (s, io) \<Longrightarrow> os_poll os ps t (fs_os io) = (ret, rv, w) \<Longrightarrow>
      E r (s, io\<lparr>fs_os := w\<rparr>)"
begin

lemma setup_done:
  assumes "el_setup rs x = Some (rs', ps, b, x')" and "set rs \<subseteq> R" and "I x" and "\<forall>r \<in> R - set rs - A. E r x"
  shows "\<forall>r \<in> R - set rs' - A. E r x'"
  using assms
proof (induction rs arbitrary: A x rs' ps b x')
  case (Cons r rs)
  then have r: "r \<in> R" "set rs \<subseteq> R" by auto
  show ?case
  proof (cases "rule_direction r = In \<and> fd_eof (rule_wrapper r x) \<or> fd_closed (rule_wrapper r x)")
    case True
    with Cons.prems(1) obtain y where y: "rule_cancel r x = Some y" "el_setup rs y = Some (rs', ps, b, x')"
      by (auto simp: bind_eq_Some_conv split: if_splits)
    note D = ended [OF r(1) Cons.prems(3) True]
    have "\<forall>r' \<in> R - set rs - A. E r' y"
      using cancel_done [OF r(1) Cons.prems(3) D y(1)] cancel_done_stable [OF r(1) _ Cons.prems(3) _ y(1)] Cons.prems(4)
      by auto
    with Cons.IH [OF y(2) r(2) cancel_keeps [OF r(1) Cons.prems(3) D y(1)]] show ?thesis by blast
  next
    case False
    with Cons.prems(1) obtain rs1 ps1 b1 where s: "el_setup rs x = Some (rs1, ps1, b1, x')" "rs' = r # rs1"
      by (cases "el_setup rs x") (auto simp: Let_def)
    have "\<forall>r' \<in> R - set rs - insert r A. E r' x" using Cons.prems(4) by auto
    from Cons.IH [OF s(1) r(2) Cons.prems(3) this] s(2) show ?thesis by auto
  qed
qed simp

lemma dispatch_done:
  assumes "el_dispatch rs ps x = Some (rs', x')" and "set rs \<subseteq> R" and "I x"
    and "list_all2 (\<lambda>r p. poll_defunct p \<longrightarrow> D r x) rs ps" and "\<forall>r \<in> R - set rs - A. E r x"
  shows "\<forall>r \<in> R - set rs' - A. E r x'"
  using assms
proof (induction rs arbitrary: A ps x rs')
  case (Cons r rs)
  then obtain p ps1 where ps: "ps = p # ps1" and r: "r \<in> R" "set rs \<subseteq> R" and D: "poll_defunct p \<longrightarrow> D r x"
    and Ds: "list_all2 (\<lambda>r p. poll_defunct p \<longrightarrow> D r x) rs ps1"
    by (auto simp: list_all2_Cons1)
  from Cons.prems(1) obtain y rs1 where y: "el_event r p x y" "el_dispatch rs ps1 y = Some (rs1, x')"
      "rs' = (if poll_defunct p then rs1 else r # rs1)"
    unfolding ps el_dispatch_step by blast
  note ek = event_keeps [OF y(1) r(1) Cons.prems(3) D]
  with r(2) have Dy: "list_all2 (\<lambda>r p. poll_defunct p \<longrightarrow> D r y) rs ps1"
    by (intro list.rel_mono_strong [OF Ds]) blast
  consider (cancel) "poll_defunct p" "rule_cancel r x = Some y" | (other) "\<not> poll_defunct p" "y = x \<or> rule_callback r x = Some y"
    using y(1) by (auto simp: el_event_def split: if_splits)
  then show ?case
  proof cases
    case cancel
    then have "\<forall>r' \<in> R - set rs - A. E r' y"
      using cancel_done [OF r(1) Cons.prems(3) _ cancel(2)] D cancel_done_stable [OF r(1) _ Cons.prems(3) _ cancel(2)] Cons.prems(5)
      by auto
    from Cons.IH [OF y(2) r(2) ek(1) Dy this] y(3) cancel show ?thesis by simp
  next
    case other
    then have "\<forall>r' \<in> R - set rs - insert r A. E r' y" using callback_done [OF r(1) _ Cons.prems(3), where x' = y] Cons.prems(5)
      by (cases "y = x") auto
    from Cons.IH [OF y(2) r(2) ek(1) Dy this] y(3) other show ?thesis by auto
  qed
qed simp

lemma wait_done:
  assumes wait: "wait_next_event os t rs x = Some (res, rs', x')" and R: "set rs \<subseteq> R" and I: "I x"
    and E: "\<forall>r \<in> R - set rs. E r x"
  shows "\<forall>r \<in> R - set rs'. E r x'"
proof -
  from wait obtain rs1 ps b x1 where s: "el_setup rs x = Some (rs1, ps, b, x1)"
    by (auto simp: wait_next_event_def bind_eq_Some_conv)
  note sk = setup_keeps [OF s R I]
  then have R1: "set rs1 \<subseteq> R" using R by (auto dest: list_emb_set)
  have E1: "\<forall>r \<in> R - set rs1. E r x1" using setup_done [OF s R I, of "{}"] E by simp
  obtain ret rv w where p: "os_poll os ps t (fs_os (snd x1)) = (ret, rv, w)" by (cases "os_poll os ps t (fs_os (snd x1))")
  let ?x = "(fst x1, (snd x1)\<lparr>fs_os := w\<rparr>)"
  have I1: "I (fst x1, snd x1)" using sk by simp
  have Ex: "\<forall>r \<in> R - set rs1. E r ?x" using poll_done [OF _ I1 _ p] E1 by simp
  have dd: "\<forall>r \<in> R - set rs'. E r x'" if "el_dispatch rs1 (poll_result ps rv) ?x = Some (rs', x')"
    using dispatch_done [OF that R1 poll_keeps [OF I1 p] poll_hangups [OF _ p _ R1], of "{}"] sk Ex by simp
  from wait_next_event_cases [OF wait s p] show ?thesis using E1 Ex dd by blast
qed

end

text \<open>The set-up finds nothing to poll: no rule that is left is interested.\<close>

lemma el_setup_idle:
  assumes "el_setup rs x = Some (rs', ps, False, x')"
    and "sorted_wrt (\<lambda>r r'. \<forall>y y'. rule_cancel r' y = Some y' \<longrightarrow> rule_interest r y' = rule_interest r y) rs"
  shows "\<forall>r \<in> set rs'. \<not> rule_interest r x'"
proof -
  have later: "rule_interest r x' = rule_interest r x"
    if "el_setup rs x = Some (rs', ps, b, x')" "\<forall>r' \<in> set rs. \<forall>y y'. rule_cancel r' y = Some y' \<longrightarrow> rule_interest r y' = rule_interest r y"
    for r b rs rs' ps and x x' :: "'a \<times> 'b fd_state"
    using that
  proof (induction rs arbitrary: x rs' ps b)
    case (Cons r' rs)
    have IH: "rule_interest r x' = rule_interest r y" if "el_setup rs y = Some (qs, ps, b, x')" for y qs ps b
      using Cons.IH [OF that] Cons.prems(2) by simp
    consider y where "rule_cancel r' x = Some y" "el_setup rs y = Some (rs', ps, b, x')"
      | qs ps1 b1 where "el_setup rs x = Some (qs, ps1, b1, x')"
      using Cons.prems(1) by (cases "el_setup rs x") (auto simp: bind_eq_Some_conv Let_def split: if_splits)
    then show ?case
    proof cases
      case 1
      have "rule_interest r y = rule_interest r x" using Cons.prems(2) 1(1) unfolding list.set by blast
      then show ?thesis using IH [OF 1(2)] by simp
    qed (use IH in blast)
  qed simp
  from assms show ?thesis
  proof (induction rs arbitrary: x rs' ps)
    case (Cons r rs)
    show ?case
    proof (cases "rule_direction r = In \<and> fd_eof (rule_wrapper r x) \<or> fd_closed (rule_wrapper r x)")
      case True
      with Cons.prems(1) obtain y where "el_setup rs y = Some (rs', ps, False, x')"
        by (auto simp: bind_eq_Some_conv split: if_splits)
      then show ?thesis using Cons.IH Cons.prems(2) by simp
    next
      case False
      with Cons.prems(1) obtain rs1 ps1 where s: "el_setup rs x = Some (rs1, ps1, False, x')" "rs' = r # rs1" "\<not> rule_interest r x"
        by (cases "el_setup rs x") (auto simp: Let_def)
      have "\<not> rule_interest r x'" using later [OF s(1), of r] s(3) Cons.prems(2) by simp
      with Cons.IH [OF s(1)] Cons.prems(2) s(2) show ?thesis by simp
    qed
  qed simp
qed

section \<open>Properties\<close>

text \<open>
  States from \<open>x\<close> on: \<open>ys\<close> has the state after each element of a list, and \<open>P\<close> holds for each element and the
  states before and after it.
\<close>

fun state_path :: "('a \<Rightarrow> 'x \<Rightarrow> 'x \<Rightarrow> bool) \<Rightarrow> 'a list \<Rightarrow> 'x \<Rightarrow> 'x list \<Rightarrow> bool" where
  "state_path P [] x ys \<longleftrightarrow> ys = []"
| "state_path P (a # as) x ys \<longleftrightarrow> (case ys of [] \<Rightarrow> False | y # ys \<Rightarrow> P a x y \<and> state_path P as y ys)"

lemma state_path_map: "state_path P (map f as) x ys = state_path (\<lambda>a. P (f a)) as x ys"
  by (induction as arbitrary: x ys) (auto split: list.split)

lemma state_path_Cons: "(\<exists>ys. state_path P (a # as) x ys \<and> Q ys) \<longleftrightarrow> (\<exists>y ys. P a x y \<and> state_path P as y ys \<and> Q (y # ys))"
proof -
  have p: "state_path P (a # as) x ys \<longleftrightarrow> (\<exists>y zs. ys = y # zs \<and> P a x y \<and> state_path P as y zs)" for ys
    by (cases ys) auto
  show ?thesis unfolding p by blast
qed

text \<open>
  What a round is meant to do. A rule is over if its input is at the end or its descriptor is closed. \<open>poll\<close> is
  asked about each other rule in which the owner is interested: bit 0 of the answer says that the descriptor
  can be read, bit 2 that it can be written, bit 4 is a hangup, bits 3 and 5 are errors.
\<close>

definition rule_over :: "('s, 'w) el_rule \<Rightarrow> 's \<times> 'w fd_state \<Rightarrow> bool" where
  "rule_over r x \<longleftrightarrow> rule_direction r = In \<and> fd_eof (rule_wrapper r x) \<or> fd_closed (rule_wrapper r x)"

definition ready_bit :: "('s, 'w) el_rule \<Rightarrow> nat" where
  "ready_bit r = (case rule_direction r of In \<Rightarrow> 0 | Out \<Rightarrow> 2)"

definition question :: "('s, 'w) el_rule \<Rightarrow> 's \<times> 'w fd_state \<Rightarrow> pollfd" where
  "question r x = \<lparr>poll_fd = fd_num (rule_wrapper r x), poll_events = (if rule_interest r x then 2 ^ ready_bit r else 0),
     poll_revents = 0\<rparr>"

definition only_hangup :: "('s, 'w) el_rule \<Rightarrow> bool \<Rightarrow> u16 \<Rightarrow> bool" where
  "only_hangup r asked answer \<longleftrightarrow> asked \<and> bit answer 4 \<and> \<not> bit answer (ready_bit r)"

definition rule_turn :: "('s, 'w) el_rule \<Rightarrow> bool \<Rightarrow> u16 \<Rightarrow> 's \<times> 'w fd_state \<Rightarrow> 's \<times> 'w fd_state \<Rightarrow> bool" where
  "rule_turn r asked answer x y \<longleftrightarrow> \<not> bit answer 3 \<and> \<not> bit answer 5 \<and>
     (if only_hangup r asked answer then rule_cancel r x = Some y
      else if asked \<and> bit answer (ready_bit r) then rule_callback r x = Some y \<and>
        ((case rule_direction r of
            In \<Rightarrow> fd_read_count (rule_wrapper r y) \<noteq> fd_read_count (rule_wrapper r x)
          | Out \<Rightarrow> fd_write_count (rule_wrapper r y) \<noteq> fd_write_count (rule_wrapper r x)) \<or>
         \<not> rule_interest r y)
      else y = x)"

lemma last_Cons_Cons: "last (x # y # ys) = last (y # ys)"
  by simp

lemma el_setup_iff:
  "el_setup rules x = Some (rs, ps, b, x') \<longleftrightarrow>
     (\<exists>ys. state_path (\<lambda>r y z. if rule_over r y then rule_cancel r y = Some z else z = y) rules x ys \<and> x' = last (x # ys) \<and>
       rs = map fst (filter (\<lambda>(r, y). \<not> rule_over r y) (zip rules (x # ys))) \<and>
       ps = map (\<lambda>(r, y). question r y) (filter (\<lambda>(r, y). \<not> rule_over r y) (zip rules (x # ys))) \<and>
       b = (\<exists>(r, y) \<in> set (filter (\<lambda>(r, y). \<not> rule_over r y) (zip rules (x # ys))). rule_interest r y))"
proof (induction rules arbitrary: x rs ps b)
  case Nil
  then show ?case by auto
next
  case (Cons r rules)
  show ?case
  proof (cases "rule_over r x")
    case True
    then have "el_setup (r # rules) x = rule_cancel r x \<bind> el_setup rules" by (auto simp: rule_over_def)
    then have "el_setup (r # rules) x = Some (rs, ps, b, x') \<longleftrightarrow>
        (\<exists>y. rule_cancel r x = Some y \<and> el_setup rules y = Some (rs, ps, b, x'))"
      by (cases "rule_cancel r x") auto
    then show ?thesis unfolding state_path_Cons Cons.IH last_Cons_Cons zip_Cons_Cons
      using True by (simp del: last.simps split_paired_Ex)
  next
    case False
    have q: "direction_events (rule_direction r) = 2 ^ ready_bit r"
      by (cases "rule_direction r") (simp_all add: ready_bit_def POLLIN_def POLLOUT_def)
    from False have "el_setup (r # rules) x =
        map_option (\<lambda>(rs, ps, b, x'). (r # rs, question r x # ps, rule_interest r x \<or> b, x')) (el_setup rules x)"
      by (auto simp: rule_over_def question_def q Let_def)
    then have "el_setup (r # rules) x = Some (rs, ps, b, x') \<longleftrightarrow>
        (\<exists>rs1 ps1 b1. el_setup rules x = Some (rs1, ps1, b1, x') \<and> rs = r # rs1 \<and> ps = question r x # ps1 \<and>
          b = (rule_interest r x \<or> b1))"
      by (cases "el_setup rules x") auto
    then show ?thesis unfolding state_path_Cons Cons.IH last_Cons_Cons zip_Cons_Cons
      using False by (simp del: last.simps split_paired_Ex) blast
  qed
qed

lemma el_dispatch_iff:
  assumes "length ps = length rs"
  shows "el_dispatch rs ps x = Some (rs', x') \<longleftrightarrow>
    (\<exists>ys. state_path (\<lambda>(r, p). el_event r p) (zip rs ps) x ys \<and> x' = last (x # ys)) \<and>
    rs' = map fst (filter (\<lambda>(r, p). \<not> poll_defunct p) (zip rs ps))"
  using assms
proof (induction rs ps arbitrary: x rs' rule: list_induct2')
  case (4 r rs p ps)
  have IH: "el_dispatch rs ps y = Some (rs1, x') \<longleftrightarrow> (\<exists>ys. state_path (\<lambda>(r, p). el_event r p) (zip rs ps) y ys \<and> x' = last (y # ys)) \<and>
      rs1 = map fst (filter (\<lambda>(r, p). \<not> poll_defunct p) (zip rs ps))" for y rs1
    using 4 by simp
  show ?case unfolding el_dispatch_step IH zip_Cons_Cons state_path_Cons last_Cons_Cons
    by (cases "poll_defunct p") (simp_all del: last.simps split_paired_Ex, blast+)
qed auto

lemma el_setup_length: "el_setup rs x = Some (rs', ps, b, x') \<Longrightarrow> length ps = length rs'"
proof (induction rs arbitrary: x rs' ps b x')
  case (Cons r rs)
  then show ?case by (cases x; cases x') (auto simp: bind_eq_Some_conv Let_def split: if_splits)
qed simp

lemma bit_answers:
  fixes e :: u16
  shows "e AND (POLLERR OR POLLNVAL) = 0 \<longleftrightarrow> \<not> bit e 3 \<and> \<not> bit e 5" and "e AND POLLHUP = 0 \<longleftrightarrow> \<not> bit e 4"
    and "e AND 2 ^ n = 0 \<longleftrightarrow> \<not> bit e n"
proof -
  have p: "e AND 2 ^ n = 0 \<longleftrightarrow> \<not> bit e n" for n by (rule and_exp_eq_0_iff_not_bit)
  then show "e AND 2 ^ n = 0 \<longleftrightarrow> \<not> bit e n" .
  show "e AND POLLHUP = 0 \<longleftrightarrow> \<not> bit e 4" using p [of 4] by (simp add: POLLHUP_def)
  have "e AND (8 OR 32) = (e AND 8) OR (e AND 32)" by (rule bit.conj_disj_distrib)
  then show "e AND (POLLERR OR POLLNVAL) = 0 \<longleftrightarrow> \<not> bit e 3 \<and> \<not> bit e 5"
    using p [of 3] p [of 5] by (simp add: POLLERR_def POLLNVAL_def or_eq_0_iff)
qed

lemma answered_question:
  defines "p r y e \<equiv> (question r y)\<lparr>poll_revents := e\<rparr>"
  shows "poll_defunct (p r y e) = only_hangup r (rule_interest r y) e"
    and "el_event r (p r y e) = rule_turn r (rule_interest r y) e"
proof -
  have n: "(2 :: u16) ^ ready_bit r \<noteq> 0" by (cases "rule_direction r") (simp_all add: ready_bit_def)
  have ready: "poll_ready (p r y e) \<longleftrightarrow> rule_interest r y \<and> bit e (ready_bit r)"
    by (simp add: p_def poll_ready_def question_def bit_answers)
  then show hup: "poll_defunct (p r y e) = only_hangup r (rule_interest r y) e"
    using n by (auto simp: poll_defunct_def only_hangup_def bit_answers p_def question_def)
  show "el_event r (p r y e) = rule_turn r (rule_interest r y) e"
    unfolding fun_eq_iff el_event_def rule_turn_def hup ready
    by (cases "rule_direction r") (auto simp: bit_answers service_count_def p_def question_def)
qed

lemma el_dispatch_kept:
  fixes kept :: "(('s, 'w) el_rule \<times> 's \<times> 'w fd_state) list"
  defines "answers \<equiv> \<lambda>revents. zip kept (map revents [0..<length kept])"
  shows "el_dispatch (map fst kept) (poll_result (map (\<lambda>(r, y). question r y) kept) revents) x = Some (rules', x') \<longleftrightarrow>
    (\<exists>zs. state_path (\<lambda>((r, y), answer). rule_turn r (rule_interest r y) answer) (answers revents) x zs \<and> x' = last (x # zs)) \<and>
    rules' = [r. ((r, y), answer) \<leftarrow> answers revents, \<not> only_hangup r (rule_interest r y) answer]"
proof -
  let ?f = "\<lambda>((r, y), answer). (r, (question r y)\<lparr>poll_revents := answer\<rparr>)"
  let ?ps = "poll_result (map (\<lambda>(r, y). question r y) kept) revents"
  have z: "zip (map fst kept) ?ps = map ?f (answers revents)"
    by (rule nth_equalityI) (auto simp: poll_result_def answers_def split: prod.split)
  have m: "map fst (filter (\<lambda>(r, p). \<not> poll_defunct p) (map ?f as)) =
      [r. ((r, y), answer) \<leftarrow> as, \<not> only_hangup r (rule_interest r y) answer]" for as
    by (induction as) (auto simp: answered_question)
  have e: "(\<lambda>a. (\<lambda>(r, p). el_event r p) (?f a)) = (\<lambda>((r, y), answer). rule_turn r (rule_interest r y) answer)"
    by (auto simp: fun_eq_iff answered_question)
  have "length ?ps = length (map fst kept)" by (simp add: poll_result_def)
  from el_dispatch_iff [OF this] show ?thesis unfolding z state_path_map m e .
qed

lemma wait_success_iff:
  "wait_next_event os t rules x = Some (Success, rules', x') \<longleftrightarrow>
     (\<exists>rs ps x1 ret revents w. el_setup rules x = Some (rs, ps, True, x1) \<and>
       os_poll os ps t (fs_os (snd x1)) = (ret, revents, w) \<and> (0 < ret \<or> ret < 0 \<and> os_errno os w \<noteq> 4) \<and>
       el_dispatch rs (poll_result ps revents) (fst x1, (snd x1)\<lparr>fs_os := w\<rparr>) = Some (rules', x'))"
proof (cases "el_setup rules x")
  case None
  then show ?thesis by (simp add: wait_next_event_def)
next
  case (Some a)
  obtain rs ps b x1 where s: "el_setup rules x = Some (rs, ps, b, x1)" using Some by (cases a) auto
  obtain ret revents w where p: "os_poll os ps t (fs_os (snd x1)) = (ret, revents, w)" by (cases "os_poll os ps t (fs_os (snd x1))")
  let ?d = "el_dispatch rs (poll_result ps revents) (fst x1, (snd x1)\<lparr>fs_os := w\<rparr>)"
  have "wait_next_event os t rules x = Some (Success, rules', x') \<longleftrightarrow>
      b \<and> (0 < ret \<or> ret < 0 \<and> os_errno os w \<noteq> 4) \<and> ?d = Some (rules', x')"
    by (cases ?d) (auto simp: wait_next_event_def s p SystemCall_def EINTR_def)
  then show ?thesis using s p by auto
qed

text \<open>
  C28: \<open>wait_next_event\<close> reports success exactly if the following happened. The rules were gone through in
  order, and those at the end of their input or with a closed descriptor were cancelled and removed; at least
  one of the others was of interest; \<open>poll\<close> was asked about these, reading or writing according to the
  direction where there was interest, and neither timed out nor was interrupted. Then each of these rules got
  what its answer calls for: no answer was an error; a rule of interest with only a hangup was cancelled and
  removed; a ready one had its callback run, which read or wrote the descriptor or ended the interest; any
  other rule was left alone.
\<close>

theorem wait_next_event_success:
  "wait_next_event os t rules x = Some (Success, rules', x') \<longleftrightarrow>
     (\<exists>ys kept polled ret revents w answers zs.
       state_path (\<lambda>r y z. if rule_over r y then rule_cancel r y = Some z else z = y) rules x ys \<and>
       kept = filter (\<lambda>(r, y). \<not> rule_over r y) (zip rules (x # ys)) \<and>
       (\<exists>(r, y) \<in> set kept. rule_interest r y) \<and>
       polled = last (x # ys) \<and>
       os_poll os (map (\<lambda>(r, y). question r y) kept) t (fs_os (snd polled)) = (ret, revents, w) \<and>
       (0 < ret \<or> ret < 0 \<and> os_errno os w \<noteq> 4) \<and>
       answers = zip kept (map revents [0..<length kept]) \<and>
       state_path (\<lambda>((r, y), answer). rule_turn r (rule_interest r y) answer) answers (fst polled, (snd polled)\<lparr>fs_os := w\<rparr>) zs \<and>
       x' = last ((fst polled, (snd polled)\<lparr>fs_os := w\<rparr>) # zs) \<and>
       rules' = [r. ((r, y), answer) \<leftarrow> answers, \<not> only_hangup r (rule_interest r y) answer])"
proof -
  let ?kept = "\<lambda>ys. filter (\<lambda>(r, y). \<not> rule_over r y) (zip rules (x # ys))"
  have "wait_next_event os t rules x = Some (Success, rules', x') \<longleftrightarrow>
     (\<exists>ys ret revents w. state_path (\<lambda>r y z. if rule_over r y then rule_cancel r y = Some z else z = y) rules x ys \<and>
       (\<exists>(r, y) \<in> set (?kept ys). rule_interest r y) \<and>
       os_poll os (map (\<lambda>(r, y). question r y) (?kept ys)) t (fs_os (snd (last (x # ys)))) = (ret, revents, w) \<and>
       (0 < ret \<or> ret < 0 \<and> os_errno os w \<noteq> 4) \<and>
       el_dispatch (map fst (?kept ys)) (poll_result (map (\<lambda>(r, y). question r y) (?kept ys)) revents)
         (fst (last (x # ys)), (snd (last (x # ys)))\<lparr>fs_os := w\<rparr>) = Some (rules', x'))"
    unfolding wait_success_iff el_setup_iff by blast
  then show ?thesis unfolding el_dispatch_kept by blast
qed

text \<open>One rule that counts the reads of a descriptor which is always readable.\<close>

definition counting_rule :: "(nat, unit) el_rule" where
  "counting_rule =
     \<lparr>rule_fd = 0, rule_direction = In, rule_callback = (\<lambda>(n, io). Some (Suc n, register_read 0 io)),
      rule_interest = (\<lambda>_. True), rule_cancel = Some\<rparr>"

definition ready_os :: "unit os" where
  "ready_os = null_os\<lparr>os_poll := (\<lambda>ps t w. (1, (\<lambda>_. POLLIN), w))\<rparr>"

definition one_fd :: "unit fd_state" where
  "one_fd = \<lparr>fs_fds = (\<lambda>_. \<lparr>fd_num = 3, fd_eof = False, fd_closed = False, fd_read_count = 0, fd_write_count = 0\<rparr>),
     fs_next = 1, fs_os = ()\<rparr>"

theorem wait_next_event_success_witness:
  "wait_next_event ready_os 10 [counting_rule] (0, one_fd) = Some (Success, [counting_rule], (1, register_read 0 one_fd))"
proof -
  let ?x = "(0, one_fd) :: nat \<times> unit fd_state" and ?y = "(1, register_read 0 one_fd) :: nat \<times> unit fd_state"
  have o: "one_fd\<lparr>fs_os := ()\<rparr> = one_fd" by (simp add: one_fd_def)
  have turn: "rule_turn counting_rule True 1 ?x ?y" "\<not> only_hangup counting_rule True 1"
    by (simp_all add: rule_turn_def only_hangup_def counting_rule_def ready_bit_def one_fd_def register_read_def fd_update_def bit_1_iff)
  have over: "\<not> rule_over counting_rule ?x" "rule_interest counting_rule ?x"
    by (simp_all add: rule_over_def counting_rule_def one_fd_def)
  have poll: "os_poll ready_os ps 10 u = (1, \<lambda>_. 1, ())" for ps u by (simp add: ready_os_def POLLIN_def)
  show ?thesis unfolding wait_next_event_success
    by (rule exI [of _ "[?x]"], simp add: turn over poll, rule exI [of _ "[?y]"], simp add: turn [simplified] over o)
qed

text \<open>
  The comment on \<open>wait_next_event\<close> says that an error of \<open>poll\<close> is thrown. It is not: the
  exception is caught, and unless a signal was the reason the results are gone through. When \<open>poll\<close>
  left them unchanged, no lambda runs and the call reports success.
\<close>

theorem poll_error_reported_as_success:
  assumes "el_setup rules x = Some (rs, ps, True, x1)"
    and "os_poll os ps t (fs_os (snd x1)) = (-1, (\<lambda>_. 0), w)" and "os_errno os w \<notin> {0, EINTR}"
  shows "wait_next_event os t rules x = Some (Success, rs, (fst x1, (snd x1)\<lparr>fs_os := w\<rparr>))"
proof -
  have "el_dispatch rs qs y = Some (rs, y)" if "length qs = length rs" "\<forall>q \<in> set qs. poll_revents q = 0"
    for rs :: "('a, 'b) el_rule list" and qs y
    using that
  proof (induction qs rs rule: list_induct2)
    case (Cons q qs r rs)
    then show ?case by (simp add: poll_defunct_def poll_ready_def)
  qed simp
  then have "el_dispatch rs (poll_result ps (\<lambda>_. 0)) y = Some (rs, y)" for y
    using el_setup_length [OF assms(1)] by (simp add: poll_result_def)
  then show ?thesis using assms(3) by (simp add: wait_next_event_def assms(1,2) SystemCall_def)
qed

theorem poll_error_reported_as_success_witness:
  "wait_next_event (null_os\<lparr>os_errno := (\<lambda>_. 12), os_poll := (\<lambda>ps t w. (- 1, (\<lambda>_. 0), w))\<rparr>) 10 [counting_rule] (0, one_fd)
     = Some (Success, [counting_rule], (0, one_fd))"
proof -
  let ?p = "\<lparr>poll_fd = 3, poll_events = POLLIN, poll_revents = 0\<rparr>"
  have s: "el_setup [counting_rule] (0, one_fd) = Some ([counting_rule], [?p], True, (0, one_fd))"
    by (simp add: counting_rule_def one_fd_def)
  have o: "one_fd\<lparr>fs_os := ()\<rparr> = one_fd" by (simp add: one_fd_def)
  show ?thesis
    using poll_error_reported_as_success [OF s, where t = 10 and w = "()"
        and os = "null_os\<lparr>os_errno := (\<lambda>_. 12), os_poll := (\<lambda>ps t w. (- 1, (\<lambda>_. 0), w))\<rparr>"]
    by (simp add: EINTR_def o)
qed

end
