(* ===== verification/Sponge_Socket.thy ===== *)
theory Sponge_Socket
  imports TCP_Network Fd_Adapters Event_Loop
begin

text \<open>
  The socket of \<open>libsponge/tcp_helpers/tcp_sponge_socket.hh\<close> and \<open>tcp_sponge_socket.cc\<close>: a connection,
  an adapter to the network, and a pair of local sockets between the thread of the connection and the
  thread of the owner, tied together by four rules of an event loop. The class is a template over the
  adapter, so the operations of the adapter are a record. The owner's thread is part of the outside:
  it acts through the local sockets, which belong to the system, and through the flag \<open>_abort\<close>, which
  is therefore read from the state of the system. Messages on \<open>cerr\<close> are left out; \<^const>\<open>None\<close> is a
  thrown exception, a use of an empty \<open>_tcp\<close>, or a loop that does not end.
\<close>

section \<open>Adapters on descriptors\<close>

record ('a, 'w) adapter_ops =
  ad_read :: "nat \<Rightarrow> 'a \<Rightarrow> 'w fd_state \<Rightarrow> (tcp_segment option \<times> 'a \<times> 'w fd_state) option"
  ad_write :: "nat \<Rightarrow> 'a \<Rightarrow> tcp_segment \<Rightarrow> 'w fd_state \<Rightarrow> ('a \<times> 'w fd_state) option"
  ad_config_mut :: "(fd_adapter_config \<Rightarrow> fd_adapter_config) \<Rightarrow> 'a \<Rightarrow> 'a"
  ad_set_listening :: "bool \<Rightarrow> 'a \<Rightarrow> 'a"
  ad_tick :: "size_t \<Rightarrow> 'a \<Rightarrow> 'a"

definition udp_ops :: "'w os \<Rightarrow> resolver \<Rightarrow> (fd_adapter, 'w) adapter_ops" where
  "udp_ops os R =
     \<lparr>ad_read = (\<lambda>fd a io. do {
        ((src, data), io) \<leftarrow> udp_recv os fd 65536 io;
        (seg, a) \<leftarrow> udp_adapter_read a \<lparr>source_address = src, datagram_payload = data\<rparr>;
        Some (seg, a, io)
      }),
      ad_write = (\<lambda>fd a seg io. do {
        ((dst, l), seg) \<leftarrow> udp_adapter_write R a seg;
        io \<leftarrow> udp_sendto os fd dst (bv_of_list l) io;
        Some (a, io)
      }),
      ad_config_mut = fa_config_mut, ad_set_listening = fa_set_listening, ad_tick = fa_tick\<rparr>"

definition tun_ops :: "'w os \<Rightarrow> resolver \<Rightarrow> (fd_adapter, 'w) adapter_ops" where
  "tun_ops os R =
     \<lparr>ad_read = (\<lambda>fd a io. do {
        (data, io) \<leftarrow> fd_read os fd (SIZE_MOD - 1) io;
        (seg, a) \<leftarrow> tun_adapter_read R a data;
        Some (seg, a, io)
      }),
      ad_write = (\<lambda>fd a seg io. do {
        (l, seg) \<leftarrow> tun_adapter_write R a seg;
        (n, io) \<leftarrow> fd_write os fd (bv_of_list l) True io;
        Some (a, io)
      }),
      ad_config_mut = fa_config_mut, ad_set_listening = fa_set_listening, ad_tick = fa_tick\<rparr>"

text \<open>\<open>LossyFdAdapter\<close> reads first and then drops, and drops instead of writing.\<close>

definition lossy_ops ::
  "('g \<Rightarrow> u32 \<times> 'g) \<Rightarrow> (fd_adapter, 'w) adapter_ops \<Rightarrow> ((fd_adapter, 'g) lossy_adapter, 'w) adapter_ops" where
  "lossy_ops rand ops =
     \<lparr>ad_read = (\<lambda>fd l io. do {
        (ret, a, io) \<leftarrow> ad_read ops fd (lo_adapter l) io;
        (ret, l) \<leftarrow> lossy_read rand fa_config (\<lambda>_ _. Some (ret, a)) l ();
        Some (ret, l, io)
      }),
      ad_write = (\<lambda>fd l seg io. do {
        (out, seg, l) \<leftarrow> lossy_write rand fa_config (\<lambda>a seg. map_option (\<lambda>r. (r, seg)) (ad_write ops fd a seg io)) l seg;
        Some (case out of None \<Rightarrow> (l, io) | Some (a, io) \<Rightarrow> (l\<lparr>lo_adapter := a\<rparr>, io))
      }),
      ad_config_mut = lossy_config_mut, ad_set_listening = lossy_set_listening, ad_tick = lossy_tick\<rparr>"

section \<open>The socket\<close>

record 'a sponge =
  sp_fd :: nat
  sp_thread_data :: nat
  sp_adapter :: 'a
  sp_adapter_fd :: nat
  sp_tcp :: "tcp_connection option"
  sp_tcp_thread :: bool
  sp_inbound_shutdown :: bool
  sp_outbound_shutdown :: bool
  sp_fully_acked :: bool

definition TCP_TICK_MS :: size_t where "TCP_TICK_MS = 10"

definition socket_pair_helper :: "'w os \<Rightarrow> nat \<Rightarrow> 'w fd_state \<Rightarrow> ((nat \<times> nat) \<times> 'w fd_state) option" where
  "socket_pair_helper os type io = do {
     let (ret, (fd0, fd1), w) = os_socketpair os AF_UNIX type (fs_os io);
     SystemCall os w ret 0;
     (r0, io) \<leftarrow> fd_new fd0 (io\<lparr>fs_os := w\<rparr>);
     (r1, io) \<leftarrow> fd_new fd1 io;
     Some ((r0, r1), io)
   }"

definition sp_of_pair :: "'w os \<Rightarrow> nat \<times> nat \<Rightarrow> 'a \<Rightarrow> nat \<Rightarrow> 'w fd_state \<Rightarrow> ('a sponge \<times> 'w fd_state) option" where
  "sp_of_pair os data_socket_pair adapter adapter_fd io = do {
     io \<leftarrow> sock_of_fd os (fst data_socket_pair) AF_UNIX SOCK_STREAM io;
     io \<leftarrow> sock_of_fd os (snd data_socket_pair) AF_UNIX SOCK_STREAM io;
     io \<leftarrow> fd_set_blocking os (snd data_socket_pair) False io;
     Some (\<lparr>sp_fd = fst data_socket_pair, sp_thread_data = snd data_socket_pair, sp_adapter = adapter,
            sp_adapter_fd = adapter_fd, sp_tcp = None, sp_tcp_thread = False, sp_inbound_shutdown = False,
            sp_outbound_shutdown = False, sp_fully_acked = False\<rparr>, io)
   }"

definition sp_new :: "'w os \<Rightarrow> 'a \<Rightarrow> nat \<Rightarrow> 'w fd_state \<Rightarrow> ('a sponge \<times> 'w fd_state) option" where
  "sp_new os adapter adapter_fd io = do {
     (pair, io) \<leftarrow> socket_pair_helper os SOCK_STREAM io;
     sp_of_pair os pair adapter adapter_fd io
   }"

section \<open>The four rules\<close>

abbreviation sp_io_fd :: "'a sponge \<times> 'w fd_state \<Rightarrow> fd_wrapper" where
  "sp_io_fd x \<equiv> fs_fds (snd x) (sp_thread_data (fst x))"

text \<open>Rule 1: a datagram has come in.\<close>

definition sp_segment_in :: "('a, 'w) adapter_ops \<Rightarrow> 'a sponge \<times> 'w fd_state \<Rightarrow> ('a sponge \<times> 'w fd_state) option" where
  "sp_segment_in ops x = do {
     let (s, io) = x;
     c \<leftarrow> sp_tcp s;
     (seg, a, io) \<leftarrow> ad_read ops (sp_adapter_fd s) (sp_adapter s) io;
     c \<leftarrow> (case seg of None \<Rightarrow> Some c | Some seg \<Rightarrow> cn_segment_received c seg);
     let s = s\<lparr>sp_adapter := a, sp_tcp := Some c\<rparr>;
     Some (if fd_eof (sp_io_fd (s, io)) \<and> cn_bytes_in_flight c = 0 \<and> \<not> sp_fully_acked s
           then s\<lparr>sp_fully_acked := True\<rparr> else s, io)
   }"

definition sp_segment_in_interest :: "'a sponge \<times> 'w fd_state \<Rightarrow> bool" where
  "sp_segment_in_interest x = (case sp_tcp (fst x) of None \<Rightarrow> False | Some c \<Rightarrow> active c)"

text \<open>Rule 2: the owner has written. The lambda for cancelling is also the end of the callback.\<close>

definition sp_data_in_cancel :: "'a sponge \<times> 'w fd_state \<Rightarrow> ('a sponge \<times> 'w fd_state) option" where
  "sp_data_in_cancel x = do {
     let (s, io) = x;
     c \<leftarrow> sp_tcp s;
     c \<leftarrow> end_input_stream c;
     Some (s\<lparr>sp_tcp := Some c, sp_outbound_shutdown := True\<rparr>, io)
   }"

definition sp_data_in :: "'w os \<Rightarrow> 'a sponge \<times> 'w fd_state \<Rightarrow> ('a sponge \<times> 'w fd_state) option" where
  "sp_data_in os x = do {
     let (s, io) = x;
     c \<leftarrow> sp_tcp s;
     (data, io) \<leftarrow> fd_read os (sp_thread_data s) (remaining_outbound_capacity c) io;
     (amount_written, c) \<leftarrow> cn_write c data;
     if amount_written \<noteq> length data then None
     else
       let s = s\<lparr>sp_tcp := Some c\<rparr>
       in if fd_eof (sp_io_fd (s, io)) then sp_data_in_cancel (s, io) else Some (s, io)
   }"

definition sp_data_in_interest :: "'a sponge \<times> 'w fd_state \<Rightarrow> bool" where
  "sp_data_in_interest x = (case sp_tcp (fst x) of None \<Rightarrow> False
     | Some c \<Rightarrow> active c \<and> \<not> sp_outbound_shutdown (fst x) \<and> remaining_outbound_capacity c > 0)"

text \<open>Rule 3: bytes for the owner.\<close>

definition inbound_pop :: "tcp_connection \<Rightarrow> size_t \<Rightarrow> tcp_connection" where
  "inbound_pop c n =
     (let r = cn_receiver c
      in c\<lparr>cn_receiver := r\<lparr>rc_reassembler := (rc_reassembler r)\<lparr>sr_output := pop_output (inbound_stream c) n\<rparr>\<rparr>\<rparr>)"

definition sp_data_out :: "'w os \<Rightarrow> 'a sponge \<times> 'w fd_state \<Rightarrow> ('a sponge \<times> 'w fd_state) option" where
  "sp_data_out os x = do {
     let (s, io) = x;
     c \<leftarrow> sp_tcp s;
     let amount_to_write = min 65536 (buffer_size (inbound_stream c));
     let buffer = peek_output (inbound_stream c) amount_to_write;
     (bytes_written, io) \<leftarrow> fd_write os (sp_thread_data s) (bv_of_view buffer) False io;
     let c = inbound_pop c bytes_written;
     let s = s\<lparr>sp_tcp := Some c\<rparr>;
     if bs_eof (inbound_stream c) \<or> bs_error (inbound_stream c) then do {
       io \<leftarrow> sock_shutdown os (sp_thread_data s) SHUT_WR io;
       Some (s\<lparr>sp_inbound_shutdown := True\<rparr>, io)
     } else Some (s, io)
   }"

definition sp_data_out_interest :: "'a sponge \<times> 'w fd_state \<Rightarrow> bool" where
  "sp_data_out_interest x = (case sp_tcp (fst x) of None \<Rightarrow> False
     | Some c \<Rightarrow> \<not> buffer_empty (inbound_stream c) \<or>
         (bs_eof (inbound_stream c) \<or> bs_error (inbound_stream c)) \<and> \<not> sp_inbound_shutdown (fst x))"

text \<open>Rule 4: segments for the network. The loop pops what it has written.\<close>

fun sp_flush :: "('a, 'w) adapter_ops \<Rightarrow> nat \<Rightarrow> tcp_segment list \<Rightarrow> 'a \<times> 'w fd_state \<Rightarrow> ('a \<times> 'w fd_state) option" where
  "sp_flush ops fd [] (a, io) = Some (a, io)"
| "sp_flush ops fd (seg # segs) (a, io) = ad_write ops fd a seg io \<bind> sp_flush ops fd segs"

definition sp_segments_out :: "('a, 'w) adapter_ops \<Rightarrow> 'a sponge \<times> 'w fd_state \<Rightarrow> ('a sponge \<times> 'w fd_state) option" where
  "sp_segments_out ops x = do {
     let (s, io) = x;
     c \<leftarrow> sp_tcp s;
     (a, io) \<leftarrow> sp_flush ops (sp_adapter_fd s) (cn_segments_out c) (sp_adapter s, io);
     Some (s\<lparr>sp_adapter := a, sp_tcp := Some (c\<lparr>cn_segments_out := []\<rparr>)\<rparr>, io)
   }"

definition sp_segments_out_interest :: "'a sponge \<times> 'w fd_state \<Rightarrow> bool" where
  "sp_segments_out_interest x = (case sp_tcp (fst x) of None \<Rightarrow> False | Some c \<Rightarrow> cn_segments_out c \<noteq> [])"

type_synonym ('a, 'w) sponge_rules = "('a sponge, 'w) el_rule list"

definition sp_rules :: "'w os \<Rightarrow> ('a, 'w) adapter_ops \<Rightarrow> nat \<Rightarrow> nat \<Rightarrow> ('a, 'w) sponge_rules" where
  "sp_rules os ops adapter_fd thread_data =
     add_rule adapter_fd Out (sp_segments_out ops) sp_segments_out_interest Some
     (add_rule thread_data Out (sp_data_out os) sp_data_out_interest Some
     (add_rule thread_data In (sp_data_in os) sp_data_in_interest sp_data_in_cancel
     (add_rule adapter_fd In (sp_segment_in ops) sp_segment_in_interest Some [])))"

definition initialize_TCP :: "'w os \<Rightarrow> ('a, 'w) adapter_ops \<Rightarrow> u32 \<Rightarrow> tcp_config \<Rightarrow> 'a sponge \<Rightarrow>
    ('a, 'w) sponge_rules \<times> 'a sponge" where
  "initialize_TCP os ops random config s =
     (sp_rules os ops (sp_adapter_fd s) (sp_thread_data s), s\<lparr>sp_tcp := Some (cn_new random config)\<rparr>)"

section \<open>The loop\<close>

text \<open>The body of the loop; the flag tells whether the loop goes on.\<close>

definition tcp_loop_body :: "'w os \<Rightarrow> ('a, 'w) adapter_ops \<Rightarrow> ('w \<Rightarrow> bool) \<Rightarrow>
    ('a, 'w) sponge_rules \<times> nat \<times> 'a sponge \<times> 'w fd_state \<Rightarrow>
    (bool \<times> ('a, 'w) sponge_rules \<times> nat \<times> 'a sponge \<times> 'w fd_state) option" where
  "tcp_loop_body os ops abort st = do {
     let (rules, base_time, x) = st;
     (ret, rules, (s, io)) \<leftarrow> wait_next_event os (int TCP_TICK_MS) rules x;
     if ret = Exit \<or> abort (fs_os io) then Some (False, rules, base_time, s, io)
     else do {
       c \<leftarrow> sp_tcp s;
       if active c then do {
         let (next_time, w) = os_now os (fs_os io);
         c \<leftarrow> cn_tick c (sz_sub next_time base_time);
         Some (True, rules, next_time,
           s\<lparr>sp_tcp := Some c, sp_adapter := ad_tick ops (sz_sub next_time base_time) (sp_adapter s)\<rparr>, io\<lparr>fs_os := w\<rparr>)
       } else Some (True, rules, base_time, s, io)
     }
   }"

partial_function (option) tcp_loop_from :: "'w os \<Rightarrow> ('a, 'w) adapter_ops \<Rightarrow> ('w \<Rightarrow> bool) \<Rightarrow> ('a sponge \<Rightarrow> bool) \<Rightarrow>
    ('a, 'w) sponge_rules \<times> nat \<times> 'a sponge \<times> 'w fd_state \<Rightarrow>
    (('a, 'w) sponge_rules \<times> nat \<times> 'a sponge \<times> 'w fd_state) option" where
  "tcp_loop_from os ops abort condition st =
     (if condition (fst (snd (snd st)))
      then tcp_loop_body os ops abort st \<bind> (\<lambda>(go_on, st).
        if go_on then tcp_loop_from os ops abort condition st else Some st)
      else Some st)"

definition tcp_loop :: "'w os \<Rightarrow> ('a, 'w) adapter_ops \<Rightarrow> ('w \<Rightarrow> bool) \<Rightarrow> ('a sponge \<Rightarrow> bool) \<Rightarrow>
    ('a, 'w) sponge_rules \<Rightarrow> 'a sponge \<times> 'w fd_state \<Rightarrow> (('a, 'w) sponge_rules \<times> 'a sponge \<times> 'w fd_state) option" where
  "tcp_loop os ops abort condition rules x = do {
     let (base_time, w) = os_now os (fs_os (snd x));
     (rules, _, x) \<leftarrow> tcp_loop_from os ops abort condition (rules, base_time, fst x, (snd x)\<lparr>fs_os := w\<rparr>);
     Some (rules, x)
   }"

section \<open>The calls of the owner\<close>

definition sp_in_states :: "official_state list \<Rightarrow> 'a sponge \<Rightarrow> bool" where
  "sp_in_states states s = (case sp_tcp s of None \<Rightarrow> False
     | Some c \<Rightarrow> list_ex (\<lambda>st. tcp_state_eq (cn_state c) (tcp_state_of st)) states)"

definition sp_connect :: "'w os \<Rightarrow> ('a, 'w) adapter_ops \<Rightarrow> ('w \<Rightarrow> bool) \<Rightarrow> u32 \<Rightarrow> tcp_config \<Rightarrow> fd_adapter_config \<Rightarrow>
    'a sponge \<times> 'w fd_state \<Rightarrow> (('a, 'w) sponge_rules \<times> 'a sponge \<times> 'w fd_state) option" where
  "sp_connect os ops abort random c_tcp c_ad x = do {
     let (s, io) = x;
     if sp_tcp s \<noteq> None then None
     else do {
       let (rules, s) = initialize_TCP os ops random c_tcp s;
       let s = s\<lparr>sp_adapter := ad_config_mut ops (\<lambda>_. c_ad) (sp_adapter s)\<rparr>;
       c \<leftarrow> sp_tcp s;
       c \<leftarrow> TCP_Connection.connect c;
       let s = s\<lparr>sp_tcp := Some c\<rparr>;
       if \<not> sp_in_states [SYN_SENT] s then None
       else do {
         (rules, s, io) \<leftarrow> tcp_loop os ops abort (sp_in_states [SYN_SENT]) rules (s, io);
         Some (rules, s\<lparr>sp_tcp_thread := True\<rparr>, io)
       }
     }
   }"

definition listen_and_accept :: "'w os \<Rightarrow> ('a, 'w) adapter_ops \<Rightarrow> ('w \<Rightarrow> bool) \<Rightarrow> u32 \<Rightarrow> tcp_config \<Rightarrow> fd_adapter_config \<Rightarrow>
    'a sponge \<times> 'w fd_state \<Rightarrow> (('a, 'w) sponge_rules \<times> 'a sponge \<times> 'w fd_state) option" where
  "listen_and_accept os ops abort random c_tcp c_ad x = do {
     let (s, io) = x;
     if sp_tcp s \<noteq> None then None
     else do {
       let (rules, s) = initialize_TCP os ops random c_tcp s;
       let s = s\<lparr>sp_adapter := ad_set_listening ops True (ad_config_mut ops (\<lambda>_. c_ad) (sp_adapter s))\<rparr>;
       (rules, s, io) \<leftarrow> tcp_loop os ops abort (sp_in_states [LISTEN, SYN_RCVD, SYN_SENT]) rules (s, io);
       Some (rules, s\<lparr>sp_tcp_thread := True\<rparr>, io)
     }
   }"

text \<open>The body of the thread. \<open>_tcp.reset()\<close> runs the destructor of the connection.\<close>

definition tcp_main :: "'w os \<Rightarrow> ('a, 'w) adapter_ops \<Rightarrow> ('w \<Rightarrow> bool) \<Rightarrow> ('a, 'w) sponge_rules \<Rightarrow>
    'a sponge \<times> 'w fd_state \<Rightarrow> ('a sponge \<times> 'w fd_state) option" where
  "tcp_main os ops abort rules x =
     (if sp_tcp (fst x) = None then None
      else do {
        (rules, s, io) \<leftarrow> tcp_loop os ops abort (\<lambda>_. True) rules x;
        io \<leftarrow> sock_shutdown os (sp_fd s) SHUT_RDWR io;
        c \<leftarrow> sp_tcp s;
        c \<leftarrow> cn_destroy c;
        Some (s\<lparr>sp_tcp := None\<rparr>, io)
      })"

text \<open>\<open>join\<close> is what is left of the thread: it gives the state when the thread has ended.\<close>

definition wait_until_closed :: "'w os \<Rightarrow> ('a sponge \<times> 'w fd_state \<Rightarrow> ('a sponge \<times> 'w fd_state) option) \<Rightarrow>
    'a sponge \<times> 'w fd_state \<Rightarrow> ('a sponge \<times> 'w fd_state) option" where
  "wait_until_closed os join x = do {
     io \<leftarrow> sock_shutdown os (sp_fd (fst x)) SHUT_RDWR (snd x);
     if sp_tcp_thread (fst x) then do {
       (s, io) \<leftarrow> join (fst x, io);
       Some (s\<lparr>sp_tcp_thread := False\<rparr>, io)
     } else Some (fst x, io)
   }"

text \<open>The destructor sets the flag \<open>_abort\<close>, which the loop reads from the state of the system.\<close>

definition sp_destroy :: "('w \<Rightarrow> 'w) \<Rightarrow> ('a sponge \<times> 'w fd_state \<Rightarrow> ('a sponge \<times> 'w fd_state) option) \<Rightarrow>
    'a sponge \<times> 'w fd_state \<Rightarrow> ('a sponge \<times> 'w fd_state) option" where
  "sp_destroy store_abort join x =
     (if sp_tcp_thread (fst x) then do {
        (s, io) \<leftarrow> join (fst x, (snd x)\<lparr>fs_os := store_abort (fs_os (snd x))\<rparr>);
        Some (s\<lparr>sp_tcp_thread := False\<rparr>, io)
      } else Some x)"

section \<open>CS144TCPSocket\<close>

definition cs144_new :: "'w os \<Rightarrow> fd_adapter \<Rightarrow> 'w fd_state \<Rightarrow> (fd_adapter sponge \<times> 'w fd_state) option" where
  "cs144_new os adapter io = do {
     (fd, io) \<leftarrow> tun_new os ''tun144'' io;
     sp_new os adapter fd io
   }"

definition cs144_connect :: "'w os \<Rightarrow> resolver \<Rightarrow> ('w \<Rightarrow> bool) \<Rightarrow> u32 \<Rightarrow> u32 \<Rightarrow> address \<Rightarrow>
    fd_adapter sponge \<times> 'w fd_state \<Rightarrow> ((fd_adapter, 'w) sponge_rules \<times> fd_adapter sponge \<times> 'w fd_state) option" where
  "cs144_connect os R abort random_port random_isn address x = do {
     let tcp_config = tcp_config_default\<lparr>rt_timeout := 100\<rparr>;
     multiplexer_config \<leftarrow> fd_adapter_config_default R;
     src \<leftarrow> address_of_host R ''169.254.144.9'' (show_dec (unat (ucast random_port :: u16)));
     sp_connect os (tun_ops os R) abort random_isn tcp_config
       (multiplexer_config\<lparr>fa_source := src, fa_destination := address\<rparr>) x
   }"

section \<open>The connection inside the socket\<close>

text \<open>
  The socket drives its connection by the steps of an endpoint of \<open>TCP_Network\<close>. \<open>S\<close> and \<open>N\<close> are the
  stream of the owner and its length, \<open>T\<close> and \<open>M\<close> those of the peer; \<open>log\<close> is what the owner has got.
\<close>

lemma ep_takes_read:
  assumes inv: "ep_inv S N T M isn pisn (ep c log)"
  shows "ep_inv S N T M isn pisn (ep (inbound_pop c n) (log @ peek_output (inbound_stream c) n)) \<and>
    cn_written (inbound_pop c n) = cn_written c"
proof
  have "cn_read c n = (peek_output (inbound_stream c) n, inbound_pop c n)"
    by (simp add: cn_read_def inbound_pop_def bs_read_def Let_def)
  then have "ep_step S N {} (ep c log) (ep (inbound_pop c n) (log @ peek_output (inbound_stream c) n))"
    using ep_read [of "ep c log" n _ "inbound_pop c n"] by simp
  then show "ep_inv S N T M isn pisn (ep (inbound_pop c n) (log @ peek_output (inbound_stream c) n))"
    using ep_takes_step [OF inv] by blast
  show "cn_written (inbound_pop c n) = cn_written c" by (simp add: inbound_pop_def Let_def)
qed

lemma ep_takes_flush:
  "ep_inv S N T M isn pisn (ep c log) \<Longrightarrow> ep_inv S N T M isn pisn (ep (c\<lparr>cn_segments_out := []\<rparr>) log)"
  by (simp add: ep_inv_def cn_inv_def)

section \<open>What the socket relies on\<close>

text \<open>
  \<open>pin\<close> counts the bytes of the owner's stream that the thread has taken from its end \<open>td\<close> of the pair of
  local sockets, \<open>pout\<close> is what it has put there. The system keeps the order of bytes, reports the end
  of the input and a lonely hangup only when all \<open>N\<close> bytes have been taken, and its other calls do
  not touch the pair. The adapter, on descriptor \<open>afd\<close>, gives segments from \<open>net\<close>.
\<close>

definition io_same :: "nat \<Rightarrow> ('w \<Rightarrow> nat) \<Rightarrow> ('w \<Rightarrow> bytes) \<Rightarrow> 'w fd_state \<Rightarrow> 'w fd_state \<Rightarrow> bool" where
  "io_same td pin pout io io' \<longleftrightarrow> fs_fds io' td = fs_fds io td \<and> (\<forall>r. fd_num (fs_fds io' r) = fd_num (fs_fds io r)) \<and>
     pin (fs_os io') = pin (fs_os io) \<and> pout (fs_os io') = pout (fs_os io)"

locale sponge_env =
  fixes os :: "'w os" and ops :: "('a, 'w) adapter_ops" and td afd :: nat and tdn afn :: int
    and S :: "nat \<Rightarrow> byte" and N :: nat and net :: "tcp_segment set" and pin :: "'w \<Rightarrow> nat" and pout :: "'w \<Rightarrow> bytes"
  assumes distinct_fds: "afd \<noteq> td"
    and pair_read: "os_read os tdn n w = (ret, buf, w') \<Longrightarrow> 0 \<le> ret \<Longrightarrow>
      take (nat ret) buf = map S [pin w..<pin w + nat ret] \<and> pin w + nat ret \<le> N \<and>
      pin w' = pin w + nat ret \<and> pout w' = pout w \<and> (ret = 0 \<longrightarrow> 0 < n \<longrightarrow> pin w = N)"
    and pair_write: "os_writev os tdn iov w = (ret, w') \<Longrightarrow> 0 \<le> ret \<Longrightarrow>
      pin w' = pin w \<and> pout w' = pout w @ take (nat ret) (concat (map iov_base iov))"
    and pair_shutdown: "os_shutdown os tdn how w = (ret, w') \<Longrightarrow> pin w' = pin w \<and> pout w' = pout w"
    and pair_poll: "os_poll os ps t w = (ret, rv, w') \<Longrightarrow> pin w' = pin w \<and> pout w' = pout w"
    and pair_hangup: "os_poll os ps t w = (ret, rv, w') \<Longrightarrow> i < length ps \<Longrightarrow> poll_fd (ps ! i) = tdn \<Longrightarrow>
      poll_events (ps ! i) = POLLIN \<Longrightarrow> poll_defunct ((ps ! i)\<lparr>poll_revents := rv i\<rparr>) \<Longrightarrow> pin w = N"
    and pair_now: "os_now os w = (now, w') \<Longrightarrow> pin w' = pin w \<and> pout w' = pout w"
    and adapter_in: "fd_num (fs_fds io afd) = afn \<Longrightarrow> ad_read ops afd a io = Some (seg, a', io') \<Longrightarrow>
      io_same td pin pout io io' \<and> (\<forall>g. seg = Some g \<longrightarrow> g \<in> net)"
    and adapter_out: "fd_num (fs_fds io afd) = afn \<Longrightarrow> ad_write ops afd a g io = Some (a', io') \<Longrightarrow> io_same td pin pout io io'"

definition sp_inv :: "nat \<Rightarrow> nat \<Rightarrow> int \<Rightarrow> int \<Rightarrow> (nat \<Rightarrow> byte) \<Rightarrow> nat \<Rightarrow> (nat \<Rightarrow> byte) \<Rightarrow> nat \<Rightarrow> wrapping_int32 \<Rightarrow> wrapping_int32 \<Rightarrow>
    ('w \<Rightarrow> nat) \<Rightarrow> ('w \<Rightarrow> bytes) \<Rightarrow> 'a sponge \<times> 'w fd_state \<Rightarrow> bool" where
  "sp_inv td afd tdn afn S N T M isn pisn pin pout x \<longleftrightarrow>
     sp_thread_data (fst x) = td \<and> sp_adapter_fd (fst x) = afd \<and>
     fd_num (fs_fds (snd x) td) = tdn \<and> fd_num (fs_fds (snd x) afd) = afn \<and>
     \<not> fd_closed (fs_fds (snd x) td) \<and> (fd_eof (fs_fds (snd x) td) \<longrightarrow> pin (fs_os (snd x)) = N) \<and>
     (\<exists>c. sp_tcp (fst x) = Some c \<and> ep_inv S N T M isn pisn (ep c (pout (fs_os (snd x)))) \<and>
        cn_written c = pin (fs_os (snd x)))"

section \<open>The invariant of the socket\<close>

locale sponge_run = sponge_env os ops td afd tdn afn S N net pin pout
  for os :: "'w os" and ops :: "('a, 'w) adapter_ops" and td afd tdn afn S N net pin pout +
  fixes T :: "nat \<Rightarrow> byte" and M :: nat and isn pisn :: wrapping_int32 and n :: nat
  assumes peer: "g \<in> net \<Longrightarrow> sent_seg T M pisn n g"
begin

abbreviation good :: "'a sponge \<times> 'w fd_state \<Rightarrow> bool" where
  "good \<equiv> sp_inv td afd tdn afn S N T M isn pisn pin pout"

lemma good_tcp:
  assumes "good (s, io)"
  obtains c where "sp_tcp s = Some c" and "ep_inv S N T M isn pisn (ep c (pout (fs_os io)))" and "cn_written c = pin (fs_os io)"
    and "sp_thread_data s = td" and "sp_adapter_fd s = afd" and "fd_num (fs_fds io td) = tdn" and "fd_num (fs_fds io afd) = afn"
  using assms by (auto simp: sp_inv_def)

lemma good_update:
  assumes "good (s, io)" and "ep_inv S N T M isn pisn (ep c (pout (fs_os io')))" and "cn_written c = pin (fs_os io')"
    and "fds_kept td io io' \<or> io_same td pin pout io io'" and "fd_eof (fs_fds io' td) \<longrightarrow> pin (fs_os io') = N"
    and "sp_thread_data s' = td" and "sp_adapter_fd s' = afd" and "sp_tcp s' = Some c"
  shows "good (s', io')"
proof -
  have "fd_num (fs_fds io' td) = fd_num (fs_fds io td)" "fd_num (fs_fds io' afd) = fd_num (fs_fds io afd)"
    "fd_closed (fs_fds io' td) = fd_closed (fs_fds io td)"
    using assms(4) by (auto simp: fds_kept_def io_same_def)
  then show ?thesis using assms(1-3,5-8) by (simp add: sp_inv_def)
qed

lemma good_os:
  assumes "good (s, io)" and "pin w = pin (fs_os io)" and "pout w = pout (fs_os io)"
  shows "good (s, io\<lparr>fs_os := w\<rparr>)"
  using assms by (simp add: sp_inv_def)

lemma segment_in_keeps:
  assumes "good (s, io)" and "sp_segment_in ops (s, io) = Some (s', io')"
  shows "good (s', io') \<and> pin (fs_os io') = pin (fs_os io)"
proof -
  from good_tcp [OF assms(1)] obtain c where c: "sp_tcp s = Some c" "ep_inv S N T M isn pisn (ep c (pout (fs_os io)))"
    "cn_written c = pin (fs_os io)" "sp_thread_data s = td" "sp_adapter_fd s = afd" "fd_num (fs_fds io afd) = afn" by metis
  with assms(2) obtain seg a c' where r: "ad_read ops afd (sp_adapter s) io = Some (seg, a, io')"
    "(case seg of None \<Rightarrow> Some c | Some seg \<Rightarrow> cn_segment_received c seg) = Some c'"
    and s': "s' \<in> {s\<lparr>sp_adapter := a, sp_tcp := Some c'\<rparr>, s\<lparr>sp_adapter := a, sp_tcp := Some c', sp_fully_acked := True\<rparr>}"
    by (auto simp: sp_segment_in_def bind_eq_Some_conv Let_def)
  have same: "io_same td pin pout io io'" and net: "\<And>g. seg = Some g \<Longrightarrow> sent_seg T M pisn n g"
    using adapter_in [OF c(6) r(1)] peer by auto
  then have o: "pin (fs_os io') = pin (fs_os io)" "pout (fs_os io') = pout (fs_os io)" "fs_fds io' td = fs_fds io td"
    by (simp_all add: io_same_def)
  have "ep_inv S N T M isn pisn (ep c' (pout (fs_os io))) \<and> cn_written c' = cn_written c"
    using r(2) c(2) net ep_takes_segment [OF c(2)] by (cases seg) auto
  with c s' o same assms(1) show ?thesis
    by (intro conjI good_update [OF assms(1), of c']) (auto simp: sp_inv_def)
qed

lemma data_in_cancel_keeps:
  assumes "good (s, io)" and "pin (fs_os io) = N" and "sp_data_in_cancel (s, io) = Some (s', io')"
  shows "good (s', io') \<and> io' = io"
proof -
  from good_tcp [OF assms(1)] obtain c where c: "sp_tcp s = Some c" "ep_inv S N T M isn pisn (ep c (pout (fs_os io)))"
    "cn_written c = pin (fs_os io)" "sp_thread_data s = td" "sp_adapter_fd s = afd" by metis
  with assms(3) obtain c' where c': "end_input_stream c = Some c'"
    and s': "s' = s\<lparr>sp_tcp := Some c', sp_outbound_shutdown := True\<rparr>" "io' = io"
    by (auto simp: sp_data_in_cancel_def bind_eq_Some_conv)
  have "ep_inv S N T M isn pisn (ep c' (pout (fs_os io))) \<and> cn_written c' = cn_written c"
    using ep_takes_end [OF c(2) c'] c(3) assms(2) by simp
  with c s' assms(2) show ?thesis
    by (intro conjI good_update [OF assms(1), of c']) (auto simp: fds_kept_def)
qed

lemma data_in_keeps:
  assumes "good (s, io)" and "sp_data_in os (s, io) = Some (s', io')"
  shows "good (s', io') \<and> pin (fs_os io) \<le> pin (fs_os io') \<and> pin (fs_os io') \<le> N"
proof -
  from good_tcp [OF assms(1)] obtain c where c: "sp_tcp s = Some c" "ep_inv S N T M isn pisn (ep c (pout (fs_os io)))"
    "cn_written c = pin (fs_os io)" "sp_thread_data s = td" "sp_adapter_fd s = afd" "fd_num (fs_fds io td) = tdn" by metis
  with assms(2) obtain data io1 c1 where r: "fd_read os td (remaining_outbound_capacity c) io = Some (data, io1)"
    and w: "cn_write c data = Some (length data, c1)"
    and s': "if fd_eof (fs_fds io1 td) then sp_data_in_cancel (s\<lparr>sp_tcp := Some c1\<rparr>, io1) = Some (s', io')
      else s' = s\<lparr>sp_tcp := Some c1\<rparr> \<and> io' = io1"
    by (auto simp: sp_data_in_def bind_eq_Some_conv Let_def split: if_splits)
  obtain ret buf where rd: "os_read os tdn (min BUFFER_SIZE (remaining_outbound_capacity c)) (fs_os io) = (ret, buf, fs_os io1)"
    "0 \<le> ret" "data = str_resize buf (nat ret)" "fds_kept td io io1"
    "fd_eof (fs_fds io1 td) \<Longrightarrow> fd_eof (fs_fds io td) \<or> 0 < remaining_outbound_capacity c \<and> ret = 0"
    using fd_read_frame [OF r] c(6) by metis
  note pr = pair_read [OF rd(1,2)]
  have len: "length (take (nat ret) buf) = nat ret" using pr by (metis diff_add_inverse length_map length_upt)
  then have data: "data = take (nat ret) buf" "length data = nat ret" using rd(3) by (auto simp: str_resize_def)
  have "data = map S [cn_written c..<cn_written c + length data]" "cn_written c + length data \<le> N"
    using pr c(3) data by auto
  from ep_takes_write [OF c(2) w this] have c1: "ep_inv S N T M isn pisn (ep c1 (pout (fs_os io1)))"
    "cn_written c1 = pin (fs_os io1)" using pr c(3) data(2) by auto
  have eof: "fd_eof (fs_fds io1 td) \<longrightarrow> pin (fs_os io1) = N"
    using rd(5) pr assms(1) by (auto simp: sp_inv_def BUFFER_SIZE_def)
  have g1: "good (s\<lparr>sp_tcp := Some c1\<rparr>, io1)"
    using c c1 rd(4) eof by (intro good_update [OF assms(1), of c1]) auto
  show ?thesis using s' g1 pr data_in_cancel_keeps [OF g1] eof by (auto split: if_splits)
qed

lemma data_out_keeps:
  assumes "good (s, io)" and "sp_data_out os (s, io) = Some (s', io')"
  shows "good (s', io') \<and> pin (fs_os io') = pin (fs_os io)"
proof -
  from good_tcp [OF assms(1)] obtain c where c: "sp_tcp s = Some c" "ep_inv S N T M isn pisn (ep c (pout (fs_os io)))"
    "cn_written c = pin (fs_os io)" "sp_thread_data s = td" "sp_adapter_fd s = afd" "fd_num (fs_fds io td) = tdn" by metis
  let ?b = "peek_output (inbound_stream c) (min 65536 (buffer_size (inbound_stream c)))"
  from assms(2) c obtain k io1 where w: "fd_write os td (bv_of_view ?b) False io = Some (k, io1)"
    and s': "sp_tcp s' = Some (inbound_pop c k)" "sp_thread_data s' = td" "sp_adapter_fd s' = afd"
      "io' = io1 \<or> sock_shutdown os td SHUT_WR io1 = Some io'"
    by (auto simp: sp_data_out_def bind_eq_Some_conv Let_def split: if_splits)
  have "length ?b < SIZE_MOD" by (simp add: peek_output_def buffer_size_def SIZE_MOD_def min_def)
  from fd_write_once [OF w this] c(6) obtain iov where iov: "os_writev os tdn iov (fs_os io) = (int k, fs_os io1)"
    "concat (map iov_base iov) = ?b" "k \<le> length ?b" "fds_kept td io io1" "fd_eof (fs_fds io1 td) = fd_eof (fs_fds io td)"
    by metis
  have "take k ?b = peek_output (inbound_stream c) k"
    using iov(3) by (simp add: peek_output_def buffer_size_def Let_def min.absorb1)
  then have p1: "pin (fs_os io1) = pin (fs_os io)" "pout (fs_os io1) = pout (fs_os io) @ peek_output (inbound_stream c) k"
    using pair_write [OF iov(1)] iov(2) by auto
  have p: "pin (fs_os io') = pin (fs_os io)" "pout (fs_os io') = pout (fs_os io1)" "fds_kept td io io'"
      "fd_eof (fs_fds io' td) = fd_eof (fs_fds io td)"
    using s'(4) p1(1) iov(4,5) sock_shutdown_frame [of os td SHUT_WR io1 io'] pair_shutdown c(6)
    by (auto simp: fds_kept_def)
  from ep_takes_read [OF c(2), of k] have "ep_inv S N T M isn pisn (ep (inbound_pop c k) (pout (fs_os io')))"
    "cn_written (inbound_pop c k) = pin (fs_os io')" using p p1 c(3) by simp_all
  with p s' assms(1) show ?thesis
    by (intro conjI good_update [OF assms(1), of "inbound_pop c k"]) (auto simp: sp_inv_def)
qed

lemma flush_same: "fd_num (fs_fds io afd) = afn \<Longrightarrow> sp_flush ops afd segs (a, io) = Some (a', io') \<Longrightarrow> io_same td pin pout io io'"
proof (induction segs arbitrary: a io)
  case Nil
  then show ?case by (simp add: io_same_def)
next
  case (Cons g segs)
  then obtain a1 io1 where w: "ad_write ops afd a g io = Some (a1, io1)" "sp_flush ops afd segs (a1, io1) = Some (a', io')"
    by (auto simp: bind_eq_Some_conv)
  have s: "io_same td pin pout io io1" using adapter_out [OF Cons.prems(1) w(1)] .
  with Cons.prems(1) have "fd_num (fs_fds io1 afd) = afn" by (simp add: io_same_def)
  from Cons.IH [OF this w(2)] s show ?case by (simp add: io_same_def)
qed

lemma segments_out_keeps:
  assumes "good (s, io)" and "sp_segments_out ops (s, io) = Some (s', io')"
  shows "good (s', io') \<and> pin (fs_os io') = pin (fs_os io)"
proof -
  from good_tcp [OF assms(1)] obtain c where c: "sp_tcp s = Some c" "ep_inv S N T M isn pisn (ep c (pout (fs_os io)))"
    "cn_written c = pin (fs_os io)" "sp_thread_data s = td" "sp_adapter_fd s = afd" "fd_num (fs_fds io afd) = afn" by metis
  with assms(2) obtain a where f: "sp_flush ops afd (cn_segments_out c) (sp_adapter s, io) = Some (a, io')"
    and s': "s' = s\<lparr>sp_adapter := a, sp_tcp := Some (c\<lparr>cn_segments_out := []\<rparr>)\<rparr>"
    by (auto simp: sp_segments_out_def bind_eq_Some_conv)
  note same = flush_same [OF c(6) f]
  then have o: "pin (fs_os io') = pin (fs_os io)" "pout (fs_os io') = pout (fs_os io)" "fs_fds io' td = fs_fds io td"
    by (simp_all add: io_same_def)
  with c s' same assms(1) ep_takes_flush [OF c(2)] show ?thesis
    by (intro conjI good_update [OF assms(1), of "c\<lparr>cn_segments_out := []\<rparr>"]) (auto simp: sp_inv_def)
qed

definition fd_number :: "('a sponge, 'w) el_rule \<Rightarrow> int" where
  "fd_number r = (if rule_fd r = td then tdn else afn)"

definition drained :: "('a sponge, 'w) el_rule \<Rightarrow> 'a sponge \<times> 'w fd_state \<Rightarrow> bool" where
  "drained r x \<longleftrightarrow> (rule_fd r = td \<and> rule_direction r = In \<longrightarrow> pin (fs_os (snd x)) = N)"

lemma rule_cases:
  assumes "r \<in> set (sp_rules os ops afd td)"
  obtains (segment_in) "rule_fd r = afd" "rule_direction r = In" "rule_callback r = sp_segment_in ops" "rule_cancel r = Some"
  | (data_in) "rule_fd r = td" "rule_direction r = In" "rule_callback r = sp_data_in os" "rule_cancel r = sp_data_in_cancel"
  | (data_out) "rule_fd r = td" "rule_direction r = Out" "rule_callback r = sp_data_out os" "rule_cancel r = Some"
  | (segments_out) "rule_fd r = afd" "rule_direction r = Out" "rule_callback r = sp_segments_out ops" "rule_cancel r = Some"
  using assms by (auto simp: sp_rules_def add_rule_def fd_duplicate_def)

lemma callback_good:
  assumes r: "r \<in> set (sp_rules os ops afd td)" and x: "good x" and cb: "rule_callback r x = Some x'"
  shows "good x'" and "drained r' x \<Longrightarrow> drained r' x'"
proof -
  obtain s io s' io' where p: "x = (s, io)" "x' = (s', io')" by (cases x; cases x')
  from r have "good (s', io') \<and> (pin (fs_os io) = N \<longrightarrow> pin (fs_os io') = N)"
  proof (cases rule: rule_cases)
    case segment_in
    then show ?thesis using segment_in_keeps x cb p by simp
  next
    case data_in
    then have "sp_data_in os (s, io) = Some (s', io')" using cb p by simp
    from data_in_keeps [OF _ this] x p show ?thesis by auto
  next
    case data_out
    then show ?thesis using data_out_keeps x cb p by simp
  next
    case segments_out
    then show ?thesis using segments_out_keeps x cb p by simp
  qed
  then show "good x'" and "drained r' x \<Longrightarrow> drained r' x'" using p by (auto simp: drained_def)
qed

lemma cancel_good:
  assumes r: "r \<in> set (sp_rules os ops afd td)" and x: "good x" and ca: "rule_cancel r x = Some x'"
  shows "drained r x \<Longrightarrow> good x'" and "drained r' x \<Longrightarrow> drained r' x'"
proof -
  obtain s io s' io' where p: "x = (s, io)" "x' = (s', io')" by (cases x; cases x')
  from r have *: "io' = io \<and> (drained r x \<longrightarrow> good x')"
  proof (cases rule: rule_cases)
    case data_in
    then have ca': "sp_data_in_cancel (s, io) = Some (s', io')" using ca p by simp
    then have "io' = io" by (auto simp: sp_data_in_cancel_def bind_eq_Some_conv)
    moreover have "good x'" if "pin (fs_os io) = N" using data_in_cancel_keeps [OF _ that ca'] x p by auto
    ultimately show ?thesis using data_in p by (simp add: drained_def)
  qed (use ca p x in auto)
  then show "drained r x \<Longrightarrow> good x'" and "drained r' x \<Longrightarrow> drained r' x'" using p by (auto simp: drained_def)
qed

end

sublocale sponge_run \<subseteq> rules: event_rules os "set (sp_rules os ops afd td)" fd_number good drained
proof unfold_locales
  fix r x
  assume r: "r \<in> set (sp_rules os ops afd td)" and x: "good x"
  have f: "fd_num (fs_fds (snd x) td) = tdn" "fd_num (fs_fds (snd x) afd) = afn" using x by (simp_all add: sp_inv_def)
  from r show "fd_num (rule_wrapper r x) = fd_number r"
    by (cases rule: rule_cases) (use f distinct_fds in \<open>simp_all add: fd_number_def\<close>)
  assume "rule_direction r = In \<and> fd_eof (rule_wrapper r x) \<or> fd_closed (rule_wrapper r x)"
  then show "drained r x" using x by (auto simp: drained_def sp_inv_def)
next
  fix s io ps t ret rv w
  assume x: "good (s, io)" and p: "os_poll os ps t (fs_os io) = (ret, rv, w)"
  then show "good (s, io\<lparr>fs_os := w\<rparr>)" using pair_poll [OF p] by (intro good_os) auto
  fix i r
  assume i: "i < length ps" and r: "polled fd_number r (ps ! i)" "poll_defunct ((ps ! i)\<lparr>poll_revents := rv i\<rparr>)"
  then have "poll_events (ps ! i) = direction_events (rule_direction r)" by (auto simp: polled_def poll_defunct_def)
  then show "drained r (s, io\<lparr>fs_os := w\<rparr>)"
    using pair_hangup [OF p i _ _ r(2)] r(1) pair_poll [OF p] by (auto simp: drained_def polled_def fd_number_def)
qed (use callback_good cancel_good in blast)+

section \<open>Runs of the socket\<close>

text \<open>
  The states of the loop: those after \<open>_initialize_TCP\<close>, and those that follow by the calls of
  \<open>connect\<close> and \<open>listen_and_accept\<close> before the loop, by reading the clock, and by a round of the loop.
\<close>

inductive sp_reach :: "'w os \<Rightarrow> ('a, 'w) adapter_ops \<Rightarrow> ('w \<Rightarrow> bool) \<Rightarrow> u32 \<Rightarrow> tcp_config \<Rightarrow> 'a sponge \<Rightarrow> 'w fd_state \<Rightarrow>
    ('a, 'w) sponge_rules \<times> nat \<times> 'a sponge \<times> 'w fd_state \<Rightarrow> bool"
  for os ops abort random config s0 io0 where
  sp_start: "initialize_TCP os ops random config s0 = (rules, s) \<Longrightarrow>
    sp_reach os ops abort random config s0 io0 (rules, base, s, io0)"
| sp_connecting: "sp_reach os ops abort random config s0 io0 (rules, base, s, io) \<Longrightarrow> sp_tcp s = Some c \<Longrightarrow>
    TCP_Connection.connect c = Some c' \<Longrightarrow> sp_reach os ops abort random config s0 io0 (rules, base, s\<lparr>sp_tcp := Some c'\<rparr>, io)"
| sp_setting: "sp_reach os ops abort random config s0 io0 (rules, base, s, io) \<Longrightarrow>
    sp_reach os ops abort random config s0 io0 (rules, base, s\<lparr>sp_adapter := a, sp_tcp_thread := b\<rparr>, io)"
| sp_clock: "sp_reach os ops abort random config s0 io0 (rules, base, s, io) \<Longrightarrow> os_now os (fs_os io) = (now, w) \<Longrightarrow>
    sp_reach os ops abort random config s0 io0 (rules, now, s, io\<lparr>fs_os := w\<rparr>)"
| sp_round: "sp_reach os ops abort random config s0 io0 st \<Longrightarrow> tcp_loop_body os ops abort st = Some (go_on, st') \<Longrightarrow>
    sp_reach os ops abort random config s0 io0 st'"

lemma tcp_loop_from_reach:
  assumes "tcp_loop_from os ops abort condition st = Some st'"
    and "sp_reach os ops abort random config s0 io0 st"
  shows "sp_reach os ops abort random config s0 io0 st'"
proof -
  let ?R = "sp_reach os ops abort random config s0 io0"
  have "os = os \<longrightarrow> ops = ops \<longrightarrow> abort = abort \<longrightarrow> ?R st \<longrightarrow> ?R st'"
    by (rule tcp_loop_from.raw_induct [where P = "\<lambda>os' ops' abort' _ st st'.
        os' = os \<longrightarrow> ops' = ops \<longrightarrow> abort' = abort \<longrightarrow> ?R st \<longrightarrow> ?R st'", OF _ assms(1)])
      (auto simp: bind_eq_Some_conv split: if_splits intro: sp_round, blast intro: sp_round)
  with assms(2) show ?thesis by blast
qed

lemma tcp_loop_reach:
  assumes "tcp_loop os ops abort condition rules (s, io) = Some (rules', x')"
    and "sp_reach os ops abort random config s0 io0 (rules, base, s, io)"
  shows "\<exists>base'. sp_reach os ops abort random config s0 io0 (rules', base', x')"
proof -
  obtain now w where t: "os_now os (fs_os io) = (now, w)" by (cases "os_now os (fs_os io)")
  with assms(1) obtain b where "tcp_loop_from os ops abort condition (rules, now, s, io\<lparr>fs_os := w\<rparr>) = Some (rules', b, x')"
    by (auto simp: tcp_loop_def bind_eq_Some_conv)
  from tcp_loop_from_reach [OF this sp_clock [OF assms(2) t]] show ?thesis by blast
qed

lemma sp_connect_reach:
  assumes "sp_connect os ops abort random c_tcp c_ad (s0, io0) = Some (rules, x)"
  shows "\<exists>base. sp_reach os ops abort random c_tcp s0 io0 (rules, base, x)"
proof -
  let ?R = "sp_reach os ops abort random c_tcp s0 io0"
  obtain rules1 s1 where i: "initialize_TCP os ops random c_tcp s0 = (rules1, s1)" by (cases "initialize_TCP os ops random c_tcp s0")
  let ?s2 = "s1\<lparr>sp_adapter := ad_config_mut ops (\<lambda>_. c_ad) (sp_adapter s1)\<rparr>"
  from assms i obtain c c' s3 io3 where c: "sp_tcp ?s2 = Some c" "TCP_Connection.connect c = Some c'"
    and l: "tcp_loop os ops abort (sp_in_states [SYN_SENT]) rules1 (?s2\<lparr>sp_tcp := Some c'\<rparr>, io0) = Some (rules, s3, io3)"
    and x: "x = (s3\<lparr>sp_tcp_thread := True\<rparr>, io3)"
    by (auto simp: sp_connect_def Let_def bind_eq_Some_conv split: if_splits)
  have "?R (rules1, 0, ?s2, io0)"
    using sp_setting [OF sp_start [OF i], where a = "sp_adapter ?s2" and b = "sp_tcp_thread s1"] by simp
  from tcp_loop_reach [OF l sp_connecting [OF this c]] obtain b where "?R (rules, b, s3, io3)" by blast
  from sp_setting [OF this, where a = "sp_adapter s3" and b = True] show ?thesis using x by auto
qed

lemma listen_and_accept_reach:
  assumes "listen_and_accept os ops abort random c_tcp c_ad (s0, io0) = Some (rules, x)"
  shows "\<exists>base. sp_reach os ops abort random c_tcp s0 io0 (rules, base, x)"
proof -
  let ?R = "sp_reach os ops abort random c_tcp s0 io0"
  obtain rules1 s1 where i: "initialize_TCP os ops random c_tcp s0 = (rules1, s1)" by (cases "initialize_TCP os ops random c_tcp s0")
  let ?s2 = "s1\<lparr>sp_adapter := ad_set_listening ops True (ad_config_mut ops (\<lambda>_. c_ad) (sp_adapter s1))\<rparr>"
  from assms i obtain s3 io3 where
    l: "tcp_loop os ops abort (sp_in_states [LISTEN, SYN_RCVD, SYN_SENT]) rules1 (?s2, io0) = Some (rules, s3, io3)"
    and x: "x = (s3\<lparr>sp_tcp_thread := True\<rparr>, io3)"
    by (auto simp: listen_and_accept_def Let_def bind_eq_Some_conv split: if_splits)
  have "?R (rules1, 0, ?s2, io0)"
    using sp_setting [OF sp_start [OF i], where a = "sp_adapter ?s2" and b = "sp_tcp_thread s1"] by simp
  from tcp_loop_reach [OF l this] obtain b where "?R (rules, b, s3, io3)" by blast
  from sp_setting [OF this, where a = "sp_adapter s3" and b = True] show ?thesis using x by auto
qed

context sponge_run
begin

lemma body_keeps:
  assumes body: "tcp_loop_body os ops abort (rules, base, x) = Some (go_on, rules', base', x')"
    and R: "set rules \<subseteq> set (sp_rules os ops afd td)" and x: "good x"
  shows "set rules' \<subseteq> set (sp_rules os ops afd td) \<and> good x'"
proof -
  from body obtain res rules1 s io where w: "wait_next_event os (int TCP_TICK_MS) rules x = Some (res, rules1, (s, io))"
    by (auto simp: tcp_loop_body_def bind_eq_Some_conv)
  from rules.wait_keeps [OF w R x] have k: "good (s, io)" "set rules1 \<subseteq> set (sp_rules os ops afd td)"
    using R by (auto dest: list_emb_set)
  from good_tcp [OF k(1)] obtain c where c: "sp_tcp s = Some c" "ep_inv S N T M isn pisn (ep c (pout (fs_os io)))"
    "cn_written c = pin (fs_os io)" "sp_thread_data s = td" "sp_adapter_fd s = afd" by metis
  obtain now w' where t: "os_now os (fs_os io) = (now, w')" by (cases "os_now os (fs_os io)")
  note p = pair_now [OF t]
  from body w c(1) t have "rules' = rules1 \<and> (x' = (s, io) \<or>
      (\<exists>c' a. cn_tick c (sz_sub now base) = Some c' \<and> x' = (s\<lparr>sp_tcp := Some c', sp_adapter := a\<rparr>, io\<lparr>fs_os := w'\<rparr>)))"
    by (auto simp: tcp_loop_body_def bind_eq_Some_conv split: if_splits)
  moreover have "good (s\<lparr>sp_tcp := Some c', sp_adapter := a\<rparr>, io\<lparr>fs_os := w'\<rparr>)"
    if "cn_tick c (sz_sub now base) = Some c'" for c' a
    using ep_takes_tick [OF c(2) that] c p good_os [OF k(1), of w']
    by (intro good_update [OF k(1), of c']) (auto simp: sp_inv_def)
  ultimately show ?thesis using k by auto
qed

lemma reach_good:
  assumes "sp_reach os ops abort random config s0 io0 st"
    and "\<And>rules s. initialize_TCP os ops random config s0 = (rules, s) \<Longrightarrow> set rules \<subseteq> set (sp_rules os ops afd td) \<and> good (s, io0)"
  shows "set (fst st) \<subseteq> set (sp_rules os ops afd td) \<and> good (snd (snd st))"
  using assms(1)
proof induction
  case (sp_start rules s base)
  then show ?case using assms(2) by simp
next
  case (sp_connecting rules base s io c c')
  then obtain d where "good (s, io)" "sp_tcp s = Some d" "ep_inv S N T M isn pisn (ep d (pout (fs_os io)))"
    "cn_written d = pin (fs_os io)" by (auto elim: good_tcp)
  then have "good (s\<lparr>sp_tcp := Some c'\<rparr>, io)"
    using ep_takes_connect [of S N T M isn pisn c "pout (fs_os io)" c'] sp_connecting.hyps by (simp add: sp_inv_def)
  then show ?case using sp_connecting by simp
next
  case (sp_setting rules base s io a b)
  then show ?case by (simp add: sp_inv_def)
next
  case (sp_clock rules base s io now w)
  then show ?case using good_os pair_now by simp
next
  case (sp_round st go_on st')
  then show ?case using body_keeps by (cases st; cases st') auto
qed

end

section \<open>A socket on a TUN device\<close>

text \<open>
  For the adapter over a TUN device the contract holds as soon as the system keeps the device and the
  pair of local sockets apart; \<open>net\<close> is what can be parsed from the data that the device gives.
\<close>

lemma fd_write_same:
  assumes "fd_write os r l b io = Some (k, io')" and "r \<noteq> td"
    and other: "\<And>iov w ret w'. os_writev os (fd_num (fs_fds io r)) iov w = (ret, w') \<Longrightarrow> pin w' = pin w \<and> pout w' = pout w"
  shows "io_same td pin pout io io'"
proof -
  let ?P = "\<lambda>io1 io2. fd_num (fs_fds io1 r) = fd_num (fs_fds io r) \<longrightarrow> io_same td pin pout io1 io2"
  have "os = os \<longrightarrow> r = r \<longrightarrow> ?P io (snd (k, io'))"
  proof (rule fd_write_loop.raw_induct [where P = "\<lambda>os' r' _ _ _ io1 y. os' = os \<longrightarrow> r' = r \<longrightarrow> ?P io1 (snd y)",
        OF _ assms(1) [unfolded fd_write_def]], intro impI, goal_cases)
    case (1 f os' r' b l tot io1 y)
    let ?w = "os_writev os (fd_num (fs_fds io r)) (as_iovecs l) (fs_os io1)"
    let ?io = "register_write r (io1\<lparr>fs_os := snd ?w\<rparr>)"
    have same: "io_same td pin pout io1 ?io"
      using other [of "as_iovecs l" "fs_os io1" "fst ?w" "snd ?w"] assms(2)
      by (auto simp: io_same_def) (auto simp: register_write_def fd_update_def)
    from 1 have "snd y = ?io \<or> (\<exists>l tot. f os r b l tot ?io = Some y)"
      by (auto simp: Let_def prod.case_eq_if bind_eq_Some_conv split: if_splits)
    then show ?case
    proof
      assume "\<exists>l tot. f os r b l tot ?io = Some y"
      then obtain l tot where "f os r b l tot ?io = Some y" by blast
      from 1(1) [OF this] 1(5) have "io_same td pin pout ?io (snd y)" by simp
      with same show ?thesis by (simp add: io_same_def)
    qed (use same in simp)
  qed
  then show ?thesis by simp
qed

lemma tun_adapter_same:
  assumes "afd \<noteq> td"
    and rd: "\<And>m w ret buf w'. os_read os (fd_num (fs_fds io afd)) m w = (ret, buf, w') \<Longrightarrow> pin w' = pin w \<and> pout w' = pout w"
    and wr: "\<And>iov w ret w'. os_writev os (fd_num (fs_fds io afd)) iov w = (ret, w') \<Longrightarrow> pin w' = pin w \<and> pout w' = pout w"
  shows "ad_read (tun_ops os R) afd a io = Some (seg, a', io') \<Longrightarrow> io_same td pin pout io io' \<and>
      (\<exists>m w ret buf w'. os_read os (fd_num (fs_fds io afd)) m w = (ret, buf, w') \<and> tun_adapter_read R a (str_resize buf (nat ret)) = Some (seg, a'))"
    and "ad_write (tun_ops os R) afd a g io = Some (a', io') \<Longrightarrow> io_same td pin pout io io'"
proof -
  show "io_same td pin pout io io' \<and>
      (\<exists>m w ret buf w'. os_read os (fd_num (fs_fds io afd)) m w = (ret, buf, w') \<and> tun_adapter_read R a (str_resize buf (nat ret)) = Some (seg, a'))"
    if "ad_read (tun_ops os R) afd a io = Some (seg, a', io')"
  proof -
    from that obtain data where d: "fd_read os afd (SIZE_MOD - 1) io = Some (data, io')" "tun_adapter_read R a data = Some (seg, a')"
      by (auto simp: tun_ops_def bind_eq_Some_conv)
    from fd_read_frame [OF d(1)] obtain ret buf where
      "os_read os (fd_num (fs_fds io afd)) (min BUFFER_SIZE (SIZE_MOD - 1)) (fs_os io) = (ret, buf, fs_os io')"
      "data = str_resize buf (nat ret)" "fds_kept afd io io'" by metis
    then show ?thesis using rd d(2) assms(1) by (fastforce simp: io_same_def fds_kept_def)
  qed
  show "io_same td pin pout io io'" if "ad_write (tun_ops os R) afd a g io = Some (a', io')"
    using that fd_write_same [OF _ assms(1) wr] by (auto simp: tun_ops_def bind_eq_Some_conv)
qed

text \<open>
  A small system: descriptor 3 is the thread's end of the pair, over which the owner sends the bytes
  0 to 4, and descriptor 5 is a TUN device that gives nothing and takes everything.
\<close>

definition demo_os :: "(nat \<times> bytes) os" where
  "demo_os = null_os
     \<lparr>os_read := (\<lambda>fd n (i, out). if fd = 3 then let k = min n (5 - i) in (int k, map of_nat [i..<i + k], (i + k, out))
        else (0, [], (i, out))),
      os_writev := (\<lambda>fd iov (i, out). let data = concat (map iov_base iov)
        in (int (length data), (i, if fd = 3 then out @ data else out)))\<rparr>"

definition demo_io :: "(nat \<times> bytes) fd_state" where
  "demo_io = \<lparr>fs_fds = (\<lambda>r. \<lparr>fd_num = if r = 1 then 3 else 5, fd_eof = False, fd_closed = False, fd_read_count = 0, fd_write_count = 0\<rparr>),
     fs_next = 3, fs_os = (0, [])\<rparr>"

lemma tun_adapter_read_empty: "tun_adapter_read R a [] = Some (None, a)"
  by (simp add: tun_adapter_read_def ipv4_datagram_parse_def ipv4_header_parse_def np_new_def buffer_of_def buf_size_def
      buffer_str_def IP_LENGTH_def ipv4_datagram_default_def ipv4_header_default_def payload_length_def bl_of_buffer_def
      bl_size_def Let_def)

interpretation demo: sponge_env demo_os "tun_ops demo_os numeric_resolver" 1 2 3 5 of_nat 5 "{}" "\<lambda>w. min 5 (fst w)" snd
proof unfold_locales
  fix a :: fd_adapter and io :: "(nat \<times> bytes) fd_state" and seg a' io' g
  assume n: "fd_num (fs_fds io 2) = 5"
  have rd: "os_read demo_os 5 m w = (ret, buf, w') \<Longrightarrow> w' = w \<and> ret = 0 \<and> buf = []"
    and wr: "os_writev demo_os 5 iov w = (ret, w') \<Longrightarrow> w' = w" for m w ret buf w' iov
    by (auto simp: demo_os_def Let_def split: prod.splits)
  note same = tun_adapter_same [of 2 1 demo_os io "\<lambda>w. min 5 (fst w)" snd numeric_resolver a, unfolded n]
  show "io_same 1 (\<lambda>w. min 5 (fst w)) snd io io'" if "ad_write (tun_ops demo_os numeric_resolver) 2 a g io = Some (a', io')"
    using that by (intro same(2)) (auto dest: rd wr)
  show "io_same 1 (\<lambda>w. min 5 (fst w)) snd io io' \<and> (\<forall>g. seg = Some g \<longrightarrow> g \<in> {})"
    if "ad_read (tun_ops demo_os numeric_resolver) 2 a io = Some (seg, a', io')"
  proof -
    have "io_same 1 (\<lambda>w. min 5 (fst w)) snd io io' \<and> (\<exists>m w ret buf w'. os_read demo_os 5 m w = (ret, buf, w') \<and>
        tun_adapter_read numeric_resolver a (str_resize buf (nat ret)) = Some (seg, a'))"
      using that by (intro same(1)) (auto dest: rd wr)
    then show ?thesis by (auto dest!: rd simp: str_resize_def tun_adapter_read_empty)
  qed
next
  fix m w ret buf w'
  assume "os_read demo_os 3 m w = (ret, buf, w')"
  then have "ret = int (min m (5 - fst w))" "buf = map of_nat [fst w..<fst w + min m (5 - fst w)]"
    "w' = (fst w + min m (5 - fst w), snd w)"
    by (auto simp: demo_os_def Let_def split: prod.splits)
  then show "take (nat ret) buf = map of_nat [min 5 (fst w)..<min 5 (fst w) + nat ret] \<and> min 5 (fst w) + nat ret \<le> 5 \<and>
      min 5 (fst w') = min 5 (fst w) + nat ret \<and> snd w' = snd w \<and> (ret = 0 \<longrightarrow> 0 < m \<longrightarrow> min 5 (fst w) = 5)"
    by (cases "5 \<le> fst w") auto
qed (auto simp: demo_os_def null_os_def Let_def poll_defunct_def split: prod.splits if_splits)

interpretation demo_run: sponge_run demo_os "tun_ops demo_os numeric_resolver" 1 2 3 5 of_nat 5 "{}" "\<lambda>w. min 5 (fst w)" snd
    of_nat 3 "WrappingInt32 0" "WrappingInt32 0" 0
  by unfold_locales simp

section \<open>Properties\<close>

definition sp_fresh :: "nat \<Rightarrow> nat \<Rightarrow> int \<Rightarrow> int \<Rightarrow> ('w \<Rightarrow> nat) \<Rightarrow> ('w \<Rightarrow> bytes) \<Rightarrow> 'a sponge \<Rightarrow> 'w fd_state \<Rightarrow> bool" where
  "sp_fresh td afd tdn afn pin pout s io \<longleftrightarrow> sp_thread_data s = td \<and> sp_adapter_fd s = afd \<and>
     fd_num (fs_fds io td) = tdn \<and> fd_num (fs_fds io afd) = afn \<and> \<not> fd_closed (fs_fds io td) \<and>
     \<not> fd_eof (fs_fds io td) \<and> pin (fs_os io) = 0 \<and> pout (fs_os io) = []"

text \<open>
  C2: Let the segments that the adapter gives be segments of the peer's stream \<open>T\<close> of length \<open>M\<close>. In every
  state that the socket reaches, through \<open>connect\<close> or \<open>listen_and_accept\<close> and any number of rounds of
  the event loop, whatever \<open>poll\<close> reports and whatever partial reads and writes the system makes, the
  bytes handed to the owner followed by those waiting in the connection are a prefix of \<open>T\<close>, and all of
  \<open>T\<close> when the inbound stream has ended; every byte taken from the owner has been written to the
  connection; and every segment queued for the network is a segment of the owner's stream \<open>S\<close>.
\<close>

theorem socket_delivers_peer_stream:
  assumes env: "sponge_env os ops td afd tdn afn S N net pin pout" and peer: "\<forall>g \<in> net. sent_seg T M pisn n g"
    and caps: "recv_capacity config + 4294967296 + SEQ_MOD < SIZE_MOD" "send_capacity config + 2 < SIZE_MOD"
      "N + 2 \<le> 2147483648" "M + 2 \<le> 2147483648"
    and fresh: "sp_fresh td afd tdn afn pin pout s0 io0"
    and run: "sp_reach os ops abort random config s0 io0 (rules, base, s, io)"
  shows "\<exists>c k. sp_tcp s = Some c \<and> k \<le> M \<and> pout (fs_os io) @ bs_buff (inbound_stream c) = map T [0..<k] \<and>
    (input_ended (inbound_stream c) \<longrightarrow> k = M) \<and> bs_bytes_w (sn_stream (cn_sender c)) = pin (fs_os io) \<and>
    (\<forall>g \<in> set (cn_segments_out c). sent_seg S N (sn_isn (cn_sender c)) (N + 2) g)"
proof -
  let ?isn = "sn_isn (cn_sender (cn_new random config))"
  let ?good = "sp_inv td afd tdn afn S N T M ?isn pisn pin pout"
  have env': "sponge_run os ops td afd tdn afn S N net pin pout T M pisn n"
    using env peer by (simp add: sponge_run_def sponge_run_axioms_def)
  have "ep_inv S N T M ?isn pisn (ep (cn_new random config) [])"
    using ep_new_inv [OF caps, of S T random pisn] by (simp add: ep_new_def)
  moreover have "cn_written (cn_new random config) = 0" by (simp add: cn_new_def sn_new_def bs_new_def)
  ultimately have "set rules0 \<subseteq> set (sp_rules os ops afd td) \<and> ?good (s1, io0)"
    if "initialize_TCP os ops random config s0 = (rules0, s1)" for rules0 s1
    using that fresh by (auto simp: initialize_TCP_def sp_inv_def sp_fresh_def)
  from sponge_run.reach_good [OF env' run this] have "?good (s, io)" by simp
  then obtain c where c: "sp_tcp s = Some c" "ep_inv S N T M ?isn pisn (ep c (pout (fs_os io)))" "cn_written c = pin (fs_os io)"
    by (auto simp: sp_inv_def)
  have "sent_seg S N (sn_isn (cn_sender c)) (N + 2) g" if "g \<in> set (cn_segments_out c)" for g
    using that c(2) sent_seg_mono sn_inv_next_bound by (auto simp: ep_inv_def cn_inv_def)
  with c ep_inv_received [OF c(2)] show ?thesis by auto
qed

definition demo_socket :: "fd_adapter sponge" where
  "demo_socket = \<lparr>sp_fd = 0, sp_thread_data = 1, sp_adapter = adapter_example 1 1 2 2 True, sp_adapter_fd = 2, sp_tcp = None,
     sp_tcp_thread = False, sp_inbound_shutdown = False, sp_outbound_shutdown = False, sp_fully_acked = False\<rparr>"

text \<open>A round of the loop in which nothing happens for 10 milliseconds.\<close>

lemma demo_round:
  assumes "sp_tcp s = Some c" and "active c" and "cn_tick c 0 = Some c'"
  shows "\<exists>s'. tcp_loop_body demo_os ops (\<lambda>_. False) (sp_rules demo_os ops 2 1, 0, s, demo_io)
     = Some (True, sp_rules demo_os ops 2 1, 0, s', demo_io) \<and> sp_tcp s' = Some c'"
proof -
  let ?w = "wait_next_event demo_os (int TCP_TICK_MS) (sp_rules demo_os ops 2 1) (s, demo_io)"
  have io: "demo_io\<lparr>fs_os := fs_os demo_io\<rparr> = demo_io" by simp
  have "\<exists>ps. el_setup (sp_rules demo_os ops 2 1) (s, demo_io) = Some (sp_rules demo_os ops 2 1, ps, True, (s, demo_io))"
    using assms(1,2)
    by (subst el_setup_open) (auto simp: sp_rules_def add_rule_def fd_duplicate_def demo_io_def sp_segment_in_interest_def)
  then have "?w = Some (Timeout, sp_rules demo_os ops 2 1, (s, demo_io))"
    by (auto simp: wait_next_event_def SystemCall_def demo_os_def null_os_def io)
  moreover have "os_now demo_os w = (0, w)" for w by (simp add: demo_os_def null_os_def)
  moreover have "sz_sub 0 0 = 0" by (simp add: sz_sub_def)
  ultimately show ?thesis using assms by (simp add: tcp_loop_body_def io)
qed

theorem socket_delivers_peer_stream_witness:
  "\<exists>c s k. sp_reach demo_os (tun_ops demo_os numeric_resolver) (\<lambda>_. False) 7 tcp_config_default demo_socket demo_io
       (sp_rules demo_os (tun_ops demo_os numeric_resolver) 2 1, 0, s, demo_io) \<and>
     cn_tick (cn_new 7 tcp_config_default) 0 = Some c \<and> sp_tcp s = Some c \<and>
     k \<le> 3 \<and> snd (fs_os demo_io) @ bs_buff (inbound_stream c) = map of_nat [0..<k]"
proof -
  let ?cfg = tcp_config_default and ?ops = "tun_ops demo_os numeric_resolver"
  let ?rules = "sp_rules demo_os ?ops 2 1" and ?s = "demo_socket\<lparr>sp_tcp := Some (cn_new 7 tcp_config_default)\<rparr>"
  have caps: "recv_capacity ?cfg + 4294967296 + SEQ_MOD < SIZE_MOD" "send_capacity ?cfg + 2 < SIZE_MOD"
    by (simp_all add: tcp_config_default_def DEFAULT_CAPACITY_def SEQ_MOD_def SIZE_MOD_def)
  then have "cn_inv of_nat 5 (cn_new 7 ?cfg)" by (intro cn_new_inv) auto
  from cn_tick_inv [OF this] obtain c where c: "cn_tick (cn_new 7 ?cfg) 0 = Some c" by blast
  obtain s where s: "tcp_loop_body demo_os ?ops (\<lambda>_. False) (?rules, 0, ?s, demo_io) = Some (True, ?rules, 0, s, demo_io)"
    "sp_tcp s = Some c"
    using demo_round [OF _ _ c, of ?s ?ops] by (auto simp: active_def cn_new_def)
  have "initialize_TCP demo_os ?ops 7 ?cfg demo_socket = (?rules, ?s)"
    by (simp add: initialize_TCP_def demo_socket_def)
  from sp_round [OF sp_start [OF this] s(1)]
  have run: "sp_reach demo_os ?ops (\<lambda>_. False) 7 ?cfg demo_socket demo_io (?rules, 0, s, demo_io)" .
  have fresh: "sp_fresh 1 2 3 5 (\<lambda>w. min 5 (fst w)) snd demo_socket demo_io"
    by (simp add: sp_fresh_def demo_socket_def demo_io_def)
  have "\<forall>g \<in> {}. sent_seg of_nat 3 (WrappingInt32 0) 0 g" by simp
  from socket_delivers_peer_stream [OF demo.sponge_env_axioms this caps _ _ fresh run]
  have "\<exists>k. k \<le> 3 \<and> snd (fs_os demo_io) @ bs_buff (inbound_stream c) = map of_nat [0..<k]" using s(2) by auto
  with run c s(2) show ?thesis by blast
qed

text \<open>
  C30: As long as the connection is active and its outbound stream open, the owner's data are never
  refused: whenever the read from the local socket returns, the callback of rule 2 returns, so the
  exception for a connection that accepts less than it advertised is not thrown.
\<close>

theorem owner_data_accepted:
  assumes env: "sponge_env os ops td afd tdn afn S N net pin pout" and peer: "\<forall>g \<in> net. sent_seg T M pisn n g"
    and inv: "sp_inv td afd tdn afn S N T M isn pisn pin pout (s, io)"
    and c: "sp_tcp s = Some c" "active c" "\<not> input_ended (sn_stream (cn_sender c))"
    and rd: "fd_read os td (remaining_outbound_capacity c) io = Some (data, io1)"
  shows "\<exists>x. sp_data_in os (s, io) = Some x"
proof -
  have f: "fd_num (fs_fds io td) = tdn" "sp_thread_data s = td" "cn_inv S N c" "cn_written c = pin (fs_os io)" "N + 2 \<le> 2147483648"
    using inv c(1) by (auto simp: sp_inv_def ep_inv_def)
  from fd_read_frame [OF rd] f(1) obtain ret buf where
    r: "os_read os tdn (min BUFFER_SIZE (remaining_outbound_capacity c)) (fs_os io) = (ret, buf, fs_os io1)" "0 \<le> ret"
      "data = str_resize buf (nat ret)" "fd_eof (fs_fds io1 td) \<Longrightarrow> fd_eof (fs_fds io td) \<or> 0 < remaining_outbound_capacity c \<and> ret = 0"
    by metis
  note pr = sponge_env.pair_read [OF env r(1,2)]
  have "length (take (nat ret) buf) = nat ret" using pr by (metis diff_add_inverse length_map length_upt)
  then have data: "data = take (nat ret) buf" "length data = nat ret" using r(3) by (auto simp: str_resize_def)
  have ok: "sn_ok S N (cn_sender c) (SnWrite data)"
    using pr data f(4,5) by (simp add: SIZE_MOD_def)
  from cn_write_inv [OF f(3) ok] obtain k c1 where w: "cn_write c data = Some (k, c1)" "cn_inv S N c1" by (auto simp: cn_moves_def)
  have "ret \<le> int (min BUFFER_SIZE (remaining_outbound_capacity c))"
    using rd r(1) f(1) by (auto simp: fd_read_def Let_def bind_eq_Some_conv SystemCall_def split: if_splits)
  then have "length data \<le> remaining_outbound_capacity c" using data(2) by simp
  then have k: "k = length data" using cn_write_accepts(2) [OF f(3) ok w(1) c(2,3)] by simp
  have "cn_written c1 = N" if "fd_eof (fs_fds io1 td)"
    using cn_write_accepts(1) [OF f(3) ok w(1) k] r(4) [OF that] pr data(2) f(4) inv
    by (auto simp: sp_inv_def BUFFER_SIZE_def)
  then have "fd_eof (fs_fds io1 td) \<Longrightarrow> \<exists>c2. end_input_stream c1 = Some c2"
    using end_input_stream_inv [OF w(2)] by auto
  then show ?thesis using c(1) f(2) rd w(1) k by (auto simp: sp_data_in_def sp_data_in_cancel_def Let_def)
qed

theorem owner_data_accepted_witness:
  "\<exists>x. sp_data_in demo_os (demo_socket\<lparr>sp_tcp := Some (cn_new 7 tcp_config_default)\<rparr>, demo_io) = Some x"
proof -
  let ?c = "cn_new 7 tcp_config_default" and ?pin = "\<lambda>w. min 5 (fst w)"
  have "recv_capacity tcp_config_default + 4294967296 + SEQ_MOD < SIZE_MOD" "send_capacity tcp_config_default + 2 < SIZE_MOD"
    by (simp_all add: tcp_config_default_def DEFAULT_CAPACITY_def SEQ_MOD_def SIZE_MOD_def)
  from ep_new_inv [OF this, of 5 3 of_nat of_nat 7 "WrappingInt32 0"]
  have "sp_inv 1 2 3 5 of_nat 5 of_nat 3 (sn_isn (cn_sender ?c)) (WrappingInt32 0) ?pin snd (demo_socket\<lparr>sp_tcp := Some ?c\<rparr>, demo_io)"
    by (simp add: sp_inv_def demo_socket_def demo_io_def ep_new_def) (simp add: cn_new_def sn_new_def bs_new_def)
  moreover have "active ?c" "\<not> input_ended (sn_stream (cn_sender ?c))"
    by (simp_all add: active_def cn_new_def sn_new_def bs_new_def input_ended_def)
  moreover have "\<exists>data io1. fd_read demo_os 1 (remaining_outbound_capacity ?c) demo_io = Some (data, io1)"
    by (simp add: fd_read_def demo_os_def demo_io_def SystemCall_def Let_def)
  moreover have "\<forall>g \<in> {}. sent_seg of_nat 3 (WrappingInt32 0) 0 g" by simp
  ultimately show ?thesis using owner_data_accepted [OF demo.sponge_env_axioms] by fastforce
qed

text \<open>
  C40: The guard of rule 2 is evaluated before \<open>poll\<close>, not before its callback. If a segment with RST and
  data of the owner are ready in the same round, rule 1 resets the connection first; rule 2 then
  reads the data and \<open>write\<close> of the inactive connection accepts nothing, so an exception is thrown,
  although the reset of a connection is an ordinary event.
\<close>

theorem reset_with_pending_data_throws:
  assumes c: "sp_tcp s = Some c" "active c" and s: "sp_thread_data s = td" "sp_adapter_fd s = afd"
    and interest: "sp_data_in_interest (s, io)"
    and fds: "\<forall>r \<in> {td, afd}. \<not> fd_eof (fs_fds io r) \<and> \<not> fd_closed (fs_fds io r)"
    and poll: "os_poll os (map (\<lambda>r. pollfd_of r (s, io)) (sp_rules os ops afd td)) t (fs_os io) = (2, rv, w)"
      "rv 0 = POLLIN" "rv 1 = POLLIN"
    and seg: "ad_read ops afd (sp_adapter s) (io\<lparr>fs_os := w\<rparr>) = Some (Some seg, a, io1)" "rst (header seg)"
    and data: "fd_read os td (remaining_outbound_capacity c) io1 = Some (data, io2)" "data \<noteq> []"
  shows "wait_next_event os t (sp_rules os ops afd td) (s, io) = None"
proof -
  let ?io = "io\<lparr>fs_os := w\<rparr>"
  let ?r1 = "\<lparr>rule_fd = afd, rule_direction = In, rule_callback = sp_segment_in ops, rule_interest = sp_segment_in_interest, rule_cancel = Some\<rparr>"
  let ?r2 = "\<lparr>rule_fd = td, rule_direction = In, rule_callback = sp_data_in os, rule_interest = sp_data_in_interest, rule_cancel = sp_data_in_cancel\<rparr>"
  obtain rs where rs: "sp_rules os ops afd td = ?r1 # ?r2 # rs" "\<forall>r \<in> set rs. rule_fd r \<in> {td, afd}"
    by (simp add: sp_rules_def add_rule_def fd_duplicate_def)
  have i1: "sp_segment_in_interest (s, io)" using c by (simp add: sp_segment_in_interest_def)
  let ?ps = "map (\<lambda>r. pollfd_of r (s, io)) (sp_rules os ops afd td)"
  have opened: "el_setup (sp_rules os ops afd td) (s, io) = Some (sp_rules os ops afd td, ?ps, True, (s, io))"
    using fds rs i1 by (subst el_setup_open) (auto simp: Let_def)
  obtain qs where qs: "poll_result ?ps rv = (pollfd_of ?r1 (s, io))\<lparr>poll_revents := POLLIN\<rparr> # (pollfd_of ?r2 (s, io))\<lparr>poll_revents := POLLIN\<rparr> # qs"
    using poll(2,3) by (simp add: poll_result_def rs(1) upt_conv_Cons del: upt_Suc)
  have ready: "poll_revents p AND (POLLERR OR POLLNVAL) = 0 \<and> \<not> poll_defunct p \<and> poll_ready p"
    if "p = (pollfd_of r (s, io))\<lparr>poll_revents := POLLIN\<rparr>" "rule_direction r = In" "rule_interest r (s, io)" for p r
    using that by (simp add: pollfd_of_def poll_defunct_def poll_ready_def POLLIN_def POLLERR_def POLLNVAL_def POLLHUP_def)
  obtain s1 where cb1: "sp_segment_in ops (s, ?io) = Some (s1, io1)" "sp_tcp s1 = Some (unclean_shutdown (c\<lparr>cn_time_since_last_segment_received := 0\<rparr>))"
      "sp_thread_data s1 = td"
    using c s seg by (auto simp: sp_segment_in_def cn_segment_received_def active_def Let_def)
  let ?c1 = "unclean_shutdown (c\<lparr>cn_time_since_last_segment_received := 0\<rparr>)"
  have in1: "\<not> active ?c1" and cap: "remaining_outbound_capacity ?c1 = remaining_outbound_capacity c"
    by (simp_all add: active_def unclean_shutdown_def remaining_outbound_capacity_def remaining_capacity_def set_error_def)
  have cb2: "sp_data_in os (s1, io1) = None"
    using cb1 in1 cap data by (simp add: sp_data_in_def cn_write_def active_def)
  have "\<not> rule_interest ?r1 (s1, io1)" using cb1 in1 by (simp add: sp_segment_in_interest_def)
  then have "el_dispatch (sp_rules os ops afd td) (poll_result ?ps rv) (s, ?io) = None"
    unfolding qs unfolding rs(1) using ready [of _ ?r1] ready [of _ ?r2] i1 interest cb1(1) cb2 by simp
  then show ?thesis using poll(1) by (simp add: wait_next_event_def opened SystemCall_def)
qed

definition race_os :: "(nat \<times> bytes) os" where
  "race_os = demo_os\<lparr>os_poll := (\<lambda>ps t w. (2, (\<lambda>i. if i < 2 then POLLIN else 0), w))\<rparr>"

definition race_ops :: "(unit, nat \<times> bytes) adapter_ops" where
  "race_ops = \<lparr>ad_read = (\<lambda>fd a io. Some (Some (tcp_segment_default\<lparr>header := tcp_header_default\<lparr>rst := True\<rparr>\<rparr>), a, io)),
     ad_write = (\<lambda>fd a seg io. Some (a, io)), ad_config_mut = (\<lambda>f a. a), ad_set_listening = (\<lambda>l a. a), ad_tick = (\<lambda>ms a. a)\<rparr>"

theorem reset_with_pending_data_throws_witness:
  "wait_next_event race_os 10 (sp_rules race_os race_ops 2 1)
     (\<lparr>sp_fd = 0, sp_thread_data = 1, sp_adapter = (), sp_adapter_fd = 2, sp_tcp = Some (cn_new 7 tcp_config_default),
       sp_tcp_thread = False, sp_inbound_shutdown = False, sp_outbound_shutdown = False, sp_fully_acked = False\<rparr>, demo_io) = None"
proof -
  let ?c = "cn_new 7 tcp_config_default"
  let ?s = "\<lparr>sp_fd = 0, sp_thread_data = 1, sp_adapter = (), sp_adapter_fd = 2, sp_tcp = Some ?c,
       sp_tcp_thread = False, sp_inbound_shutdown = False, sp_outbound_shutdown = False, sp_fully_acked = False\<rparr>"
  have cap: "remaining_outbound_capacity ?c = 64000" and act: "active ?c"
    by (simp_all add: remaining_outbound_capacity_def cn_new_def sn_new_def bs_new_def remaining_capacity_def
        tcp_config_default_def DEFAULT_CAPACITY_def sz_sub_def SIZE_MOD_def active_def)
  let ?io2 = "register_read 1 (demo_io\<lparr>fs_os := (5, [])\<rparr>)"
  have rd: "fd_read race_os 1 (remaining_outbound_capacity ?c) demo_io = Some ([0, 1, 2, 3, 4], ?io2)"
    by (simp add: cap fd_read_def race_os_def demo_os_def demo_io_def SystemCall_def BUFFER_SIZE_def str_resize_def upt_rec Let_def)
  have io: "demo_io\<lparr>fs_os := fs_os demo_io\<rparr> = demo_io" by simp
  show ?thesis
    by (rule reset_with_pending_data_throws [where c = ?c and seg = "tcp_segment_default\<lparr>header := tcp_header_default\<lparr>rst := True\<rparr>\<rparr>"
          and w = "fs_os demo_io" and rv = "\<lambda>i. if i < 2 then POLLIN else 0" and a = "()", OF _ _ _ _ _ _ _ _ _ _ _ rd])
      (simp_all add: act cap io race_ops_def sp_data_in_interest_def demo_io_def race_os_def)
qed

end
