(* ===== verification/Stream_Copy.thy ===== *)
theory Stream_Copy
  imports Event_Loop Byte_Stream
begin

text \<open>
  The copy loop of \<open>apps/bidirectional_stream_copy.cc\<close>: two byte streams between the standard
  descriptors and a socket, filled and drained by four rules of an event loop. \<^const>\<open>None\<close> is a thrown
  exception, or a loop that does not end.
\<close>

section \<open>The streams and the rules\<close>

record copy =
  cp_outbound :: byte_stream
  cp_inbound :: byte_stream
  cp_outbound_shutdown :: bool
  cp_inbound_shutdown :: bool

definition max_copy_length :: size_t where "max_copy_length = 65536"
definition copy_buffer_size :: size_t where "copy_buffer_size = 1048576"

definition STDIN_FILENO :: int where "STDIN_FILENO = 0"
definition STDOUT_FILENO :: int where "STDOUT_FILENO = 1"

definition copy_new :: copy where
  "copy_new = \<lparr>cp_outbound = bs_new copy_buffer_size, cp_inbound = bs_new copy_buffer_size,
     cp_outbound_shutdown = False, cp_inbound_shutdown = False\<rparr>"

text \<open>Rules 1 and 3 read a descriptor into a stream, rules 2 and 4 write a stream to a descriptor.\<close>

definition copy_in :: "'w os \<Rightarrow> nat \<Rightarrow> byte_stream \<times> 'w fd_state \<Rightarrow> (byte_stream \<times> 'w fd_state) option" where
  "copy_in os fd x = do {
     let (s, io) = x;
     (data, io) \<leftarrow> fd_read os fd (remaining_capacity s) io;
     let s = snd (bs_write s data);
     Some (if fd_eof (fs_fds io fd) then end_input s else s, io)
   }"

definition copy_out :: "'w os \<Rightarrow> nat \<Rightarrow> ('w fd_state \<Rightarrow> 'w fd_state option) \<Rightarrow> byte_stream \<times> bool \<times> 'w fd_state \<Rightarrow>
    (byte_stream \<times> bool \<times> 'w fd_state) option" where
  "copy_out os fd finish x = do {
     let (s, shutdown, io) = x;
     let bytes_to_write = min max_copy_length (buffer_size s);
     (bytes_written, io) \<leftarrow> fd_write os fd (bv_of_view (peek_output s bytes_to_write)) False io;
     let s = pop_output s bytes_written;
     if bs_eof s then do {
       io \<leftarrow> finish io;
       Some (s, True, io)
     } else Some (s, shutdown, io)
   }"

definition cp_input_in :: "'w os \<Rightarrow> nat \<Rightarrow> copy \<times> 'w fd_state \<Rightarrow> (copy \<times> 'w fd_state) option" where
  "cp_input_in os input x = do {
     (s, io) \<leftarrow> copy_in os input (cp_outbound (fst x), snd x);
     Some ((fst x)\<lparr>cp_outbound := s\<rparr>, io)
   }"

definition cp_input_in_interest :: "copy \<times> 'w fd_state \<Rightarrow> bool" where
  "cp_input_in_interest x \<longleftrightarrow> \<not> bs_error (cp_outbound (fst x)) \<and> remaining_capacity (cp_outbound (fst x)) > 0 \<and>
     \<not> bs_error (cp_inbound (fst x))"

definition cp_outbound_end :: "copy \<times> 'w fd_state \<Rightarrow> (copy \<times> 'w fd_state) option" where
  "cp_outbound_end x = Some ((fst x)\<lparr>cp_outbound := end_input (cp_outbound (fst x))\<rparr>, snd x)"

definition cp_socket_out :: "'w os \<Rightarrow> nat \<Rightarrow> copy \<times> 'w fd_state \<Rightarrow> (copy \<times> 'w fd_state) option" where
  "cp_socket_out os socket x = do {
     (s, shutdown, io) \<leftarrow> copy_out os socket (sock_shutdown os socket SHUT_WR)
       (cp_outbound (fst x), cp_outbound_shutdown (fst x), snd x);
     Some ((fst x)\<lparr>cp_outbound := s, cp_outbound_shutdown := shutdown\<rparr>, io)
   }"

definition cp_socket_out_interest :: "copy \<times> 'w fd_state \<Rightarrow> bool" where
  "cp_socket_out_interest x \<longleftrightarrow> \<not> buffer_empty (cp_outbound (fst x)) \<or>
     bs_eof (cp_outbound (fst x)) \<and> \<not> cp_outbound_shutdown (fst x)"

definition cp_socket_in :: "'w os \<Rightarrow> nat \<Rightarrow> copy \<times> 'w fd_state \<Rightarrow> (copy \<times> 'w fd_state) option" where
  "cp_socket_in os socket x = do {
     (s, io) \<leftarrow> copy_in os socket (cp_inbound (fst x), snd x);
     Some ((fst x)\<lparr>cp_inbound := s\<rparr>, io)
   }"

definition cp_socket_in_interest :: "copy \<times> 'w fd_state \<Rightarrow> bool" where
  "cp_socket_in_interest x \<longleftrightarrow> \<not> bs_error (cp_inbound (fst x)) \<and> remaining_capacity (cp_inbound (fst x)) > 0 \<and>
     \<not> bs_error (cp_outbound (fst x))"

definition cp_inbound_end :: "copy \<times> 'w fd_state \<Rightarrow> (copy \<times> 'w fd_state) option" where
  "cp_inbound_end x = Some ((fst x)\<lparr>cp_inbound := end_input (cp_inbound (fst x))\<rparr>, snd x)"

definition cp_output_out :: "'w os \<Rightarrow> nat \<Rightarrow> copy \<times> 'w fd_state \<Rightarrow> (copy \<times> 'w fd_state) option" where
  "cp_output_out os output x = do {
     (s, shutdown, io) \<leftarrow> copy_out os output (fd_close os output)
       (cp_inbound (fst x), cp_inbound_shutdown (fst x), snd x);
     Some ((fst x)\<lparr>cp_inbound := s, cp_inbound_shutdown := shutdown\<rparr>, io)
   }"

definition cp_output_out_interest :: "copy \<times> 'w fd_state \<Rightarrow> bool" where
  "cp_output_out_interest x \<longleftrightarrow> \<not> buffer_empty (cp_inbound (fst x)) \<or>
     bs_eof (cp_inbound (fst x)) \<and> \<not> cp_inbound_shutdown (fst x)"

type_synonym 'w copy_rules = "(copy, 'w) el_rule list"

definition cp_rules :: "'w os \<Rightarrow> nat \<Rightarrow> nat \<Rightarrow> nat \<Rightarrow> 'w copy_rules" where
  "cp_rules os socket input output =
     add_rule output Out (cp_output_out os output) cp_output_out_interest cp_inbound_end
     (add_rule socket In (cp_socket_in os socket) cp_socket_in_interest cp_inbound_end
     (add_rule socket Out (cp_socket_out os socket) cp_socket_out_interest cp_outbound_end
     (add_rule input In (cp_input_in os input) cp_input_in_interest cp_outbound_end [])))"

section \<open>The function\<close>

definition copy_start :: "'w os \<Rightarrow> nat \<Rightarrow> 'w fd_state \<Rightarrow> (nat \<times> nat \<times> 'w copy_rules \<times> copy \<times> 'w fd_state) option" where
  "copy_start os socket io = do {
     (input, io) \<leftarrow> fd_new STDIN_FILENO io;
     (output, io) \<leftarrow> fd_new STDOUT_FILENO io;
     io \<leftarrow> fd_set_blocking os socket False io;
     io \<leftarrow> fd_set_blocking os input False io;
     io \<leftarrow> fd_set_blocking os output False io;
     Some (input, output, cp_rules os socket input output, copy_new, io)
   }"

partial_function (option) copy_loop :: "'w os \<Rightarrow> 'w copy_rules \<times> copy \<times> 'w fd_state \<Rightarrow>
    ('w copy_rules \<times> copy \<times> 'w fd_state) option" where
  "copy_loop os st =
     wait_next_event os (- 1) (fst st) (snd st) \<bind> (\<lambda>(result, st).
       if result = Exit then Some st else copy_loop os st)"

text \<open>
  On return the two descriptors are released, in the reverse order of their declaration, and then
  the event loop with the rules that it still has; a wrapper is destroyed with its last reference.
\<close>

definition copy_cleanup :: "'w os \<Rightarrow> nat \<Rightarrow> nat \<Rightarrow> 'w copy_rules \<Rightarrow> 'w fd_state \<Rightarrow> 'w fd_state" where
  "copy_cleanup os input output rules io =
     (let held = map rule_fd rules
      in fold (fdw_destroy os) (filter (\<lambda>r. r \<notin> set held) [output, input] @ filter (\<lambda>r. r \<in> {input, output}) held) io)"

definition bidirectional_stream_copy :: "'w os \<Rightarrow> nat \<Rightarrow> 'w fd_state \<Rightarrow> 'w fd_state option" where
  "bidirectional_stream_copy os socket io = do {
     (input, output, rules, x) \<leftarrow> copy_start os socket io;
     (rules, x) \<leftarrow> copy_loop os (rules, x);
     Some (copy_cleanup os input output rules (snd x))
   }"

section \<open>One direction\<close>

text \<open>
  \<open>rd w n\<close> and \<open>wr w n\<close> are the bytes that have been read from and written to descriptor number \<open>n\<close>;
  \<open>hin w n\<close> says that the input of \<open>n\<close> is at its end, \<open>hout w n\<close> that nobody takes its output any more.
  A descriptor that reported the end of its input has no more input (a pipe or a socket, not a
  terminal); a lonely hangup is reported only at the end.
\<close>

locale copy_env =
  fixes os :: "'w os" and rd wr :: "'w \<Rightarrow> int \<Rightarrow> bytes" and hin hout :: "'w \<Rightarrow> int \<Rightarrow> bool"
  assumes read_ok: "os_read os n k w = (ret, buf, w') \<Longrightarrow> 0 \<le> ret \<Longrightarrow>
      nat ret \<le> length buf \<and> rd w' = (rd w)(n := rd w n @ take (nat ret) buf) \<and> wr w' = wr w \<and>
      hin w \<le> hin w' \<and> hout w \<le> hout w' \<and> (hin w n \<longrightarrow> ret = 0) \<and> (ret = 0 \<longrightarrow> 0 < k \<longrightarrow> hin w' n)"
    and writev_ok: "os_writev os n iov w = (ret, w') \<Longrightarrow> 0 \<le> ret \<Longrightarrow>
      rd w' = rd w \<and> wr w' = (wr w)(n := wr w n @ take (nat ret) (concat (map iov_base iov))) \<and> hin w \<le> hin w' \<and> hout w \<le> hout w'"
    and shutdown_ok: "os_shutdown os n how w = (ret, w') \<Longrightarrow> rd w' = rd w \<and> wr w' = wr w \<and> hin w \<le> hin w' \<and> hout w \<le> hout w'"
    and close_ok: "os_close os n w = (ret, w') \<Longrightarrow> rd w' = rd w \<and> wr w' = wr w \<and> hin w \<le> hin w' \<and> hout w \<le> hout w'"
    and getfl_ok: "os_getfl os n w = (ret, flags, w') \<Longrightarrow> rd w' = rd w \<and> wr w' = wr w \<and> hin w \<le> hin w' \<and> hout w \<le> hout w'"
    and setfl_ok: "os_setfl os n flags w = (ret, w') \<Longrightarrow> rd w' = rd w \<and> wr w' = wr w \<and> hin w \<le> hin w' \<and> hout w \<le> hout w'"
    and poll_ok: "os_poll os ps t w = (ret, rv, w') \<Longrightarrow> rd w' = rd w \<and> wr w' = wr w \<and> hin w \<le> hin w' \<and> hout w \<le> hout w'"
    and poll_hangup: "os_poll os ps t w = (ret, rv, w') \<Longrightarrow> i < length ps \<Longrightarrow> poll_defunct ((ps ! i)\<lparr>poll_revents := rv i\<rparr>) \<Longrightarrow>
      (poll_events (ps ! i) = POLLIN \<longrightarrow> hin w' (poll_fd (ps ! i))) \<and> (poll_events (ps ! i) = POLLOUT \<longrightarrow> hout w' (poll_fd (ps ! i)))"
begin

text \<open>A direction copies from number \<open>a\<close> to number \<open>b\<close>.\<close>

definition dir_ok :: "int \<Rightarrow> int \<Rightarrow> byte_stream \<Rightarrow> bool \<Rightarrow> 'w \<Rightarrow> bool" where
  "dir_ok a b s shutdown w \<longleftrightarrow> bs_inv s \<and> bs_capacity s = copy_buffer_size \<and> \<not> bs_error s \<and>
     (\<exists>rest. rd w a = wr w b @ bs_buff s @ rest \<and> (rest \<noteq> [] \<longrightarrow> hout w b \<and> bs_end_input s)) \<and>
     (bs_end_input s \<longrightarrow> hin w a \<or> hout w b) \<and> (shutdown \<longrightarrow> bs_eof s)"

text \<open>What a system call leaves of a direction that it does not work on.\<close>

definition os_kept :: "'w \<Rightarrow> 'w \<Rightarrow> bool" where
  "os_kept w w' \<longleftrightarrow> hin w \<le> hin w' \<and> hout w \<le> hout w'"

lemma dir_ok_kept:
  assumes "dir_ok a b s shutdown w" and "os_kept w w'" and "rd w' a = rd w a" and "wr w' b = wr w b"
  shows "dir_ok a b s shutdown w'"
  using assms unfolding dir_ok_def os_kept_def le_fun_def le_bool_def by metis

lemma dir_ok_end:
  assumes "dir_ok a b s shutdown w" and "hin w a \<or> hout w b"
  shows "dir_ok a b (end_input s) shutdown w"
  using assms by (auto simp: dir_ok_def end_input_def bs_inv_def bs_eof_def input_ended_def buffer_empty_def)

lemma copy_in_keeps:
  assumes ok: "dir_ok a b s shutdown (fs_os io)" and fd: "fd_num (fs_fds io fd) = a" "fd_eof (fs_fds io fd) \<longrightarrow> hin (fs_os io) a"
    and ci: "copy_in os fd (s, io) = Some (s', io')"
  shows "dir_ok a b s' shutdown (fs_os io')" and "fds_kept fd io io'" and "os_kept (fs_os io) (fs_os io')"
    and "fd_eof (fs_fds io' fd) \<longrightarrow> hin (fs_os io') a \<and> bs_end_input s'" and "bs_end_input s \<longrightarrow> bs_end_input s'"
    and "wr (fs_os io') = wr (fs_os io)" and "n \<noteq> a \<Longrightarrow> rd (fs_os io') n = rd (fs_os io) n"
proof -
  from ci obtain data where r: "fd_read os fd (remaining_capacity s) io = Some (data, io')"
    and s': "s' = (if fd_eof (fs_fds io' fd) then end_input (snd (bs_write s data)) else snd (bs_write s data))"
    by (auto simp: copy_in_def bind_eq_Some_conv Let_def)
  obtain ret buf where rr: "os_read os a (min BUFFER_SIZE (remaining_capacity s)) (fs_os io) = (ret, buf, fs_os io')" "0 \<le> ret"
      "data = str_resize buf (nat ret)" "fds_kept fd io io'"
      "fd_eof (fs_fds io' fd) \<Longrightarrow> fd_eof (fs_fds io fd) \<or> 0 < remaining_capacity s \<and> ret = 0"
      "nat ret \<le> min BUFFER_SIZE (remaining_capacity s)"
    using fd_read_frame [OF r] fd(1) by metis
  note k = read_ok [OF rr(1,2)]
  have d: "data = take (nat ret) buf" "length data = nat ret" using rr(3) k by (auto simp: str_resize_def)
  show "fds_kept fd io io'" "os_kept (fs_os io) (fs_os io')" "wr (fs_os io') = wr (fs_os io)" using rr(4) k by (auto simp: os_kept_def)
  show "n \<noteq> a \<Longrightarrow> rd (fs_os io') n = rd (fs_os io) n" using k by simp
  show "bs_end_input s \<longrightarrow> bs_end_input s'" by (simp add: s' bs_write_eq end_input_def)
  have mono: "hin (fs_os io) m \<Longrightarrow> hin (fs_os io') m" "hout (fs_os io) m \<Longrightarrow> hout (fs_os io') m" for m
    using k by (auto simp: le_fun_def)
  have eof: "fd_eof (fs_fds io' fd) \<Longrightarrow> hin (fs_os io') a"
    using rr(5) fd(2) mono k by (auto simp: BUFFER_SIZE_def)
  then show "fd_eof (fs_fds io' fd) \<longrightarrow> hin (fs_os io') a \<and> bs_end_input s'" by (simp add: s' end_input_def)
  have rest: "\<exists>rest. rd (fs_os io') a = wr (fs_os io') b @ bs_buff (snd (bs_write s data)) @ rest \<and>
      (rest \<noteq> [] \<longrightarrow> hout (fs_os io') b \<and> bs_end_input (snd (bs_write s data)))"
  proof -
    obtain rest where o: "rd (fs_os io) a = wr (fs_os io) b @ bs_buff s @ rest" "rest \<noteq> [] \<longrightarrow> hout (fs_os io) b \<and> bs_end_input s"
      using ok by (auto simp: dir_ok_def)
    show ?thesis
    proof (cases "bs_end_input s")
      case True
      have "data = [] \<or> hout (fs_os io) b" using ok True k d by (auto simp: dir_ok_def)
      then show ?thesis using True o mono k d
        by (intro exI [of _ "rest @ data"]) (auto simp: bs_write_eq)
    next
      case False
      have "length data \<le> remaining_capacity s" using rr(6) d by simp
      then show ?thesis
        using False o mono k d by (cases "rest = []") (auto simp: bs_write_eq Let_def intro!: exI [of _ "[]"])
    qed
  qed
  show "dir_ok a b s' shutdown (fs_os io')"
  proof -
    let ?s = "snd (bs_write s data)"
    have f: "bs_capacity ?s = bs_capacity s" "bs_error ?s = bs_error s" "bs_end_input ?s = bs_end_input s"
        "bs_end_input s \<Longrightarrow> bs_buff ?s = bs_buff s"
      by (simp_all add: bs_write_eq Let_def)
    then have "shutdown \<longrightarrow> bs_eof ?s" "bs_end_input ?s \<longrightarrow> hin (fs_os io') a \<or> hout (fs_os io') b"
      using ok mono by (auto simp: dir_ok_def bs_eof_def input_ended_def buffer_empty_def)
    then have "dir_ok a b ?s shutdown (fs_os io')"
      using ok rest f(1-3) bs_inv_write [of s data] unfolding dir_ok_def by simp
    then show ?thesis using s' eof dir_ok_end by auto
  qed
qed

lemma copy_out_keeps:
  assumes ok: "dir_ok a b s shutdown (fs_os io)" and fd: "fd_num (fs_fds io fd) = b"
    and fin: "\<And>io io'. fd_num (fs_fds io fd) = b \<Longrightarrow> finish io = Some io' \<Longrightarrow> os_kept (fs_os io) (fs_os io') \<and>
      rd (fs_os io') = rd (fs_os io) \<and> wr (fs_os io') = wr (fs_os io)"
    and co: "copy_out os fd finish (s, shutdown, io) = Some (s', shutdown', io')"
  obtains io1 where "dir_ok a b s' shutdown' (fs_os io')" and "fds_kept fd io io1" and "fd_eof (fs_fds io1 fd) = fd_eof (fs_fds io fd)"
    and "io' = io1 \<and> shutdown' = shutdown \<or> finish io1 = Some io' \<and> shutdown'"
    and "os_kept (fs_os io) (fs_os io')" and "bs_end_input s' = bs_end_input s" and "shutdown \<longrightarrow> shutdown'"
    and "rd (fs_os io') = rd (fs_os io)" and "\<forall>n. n \<noteq> b \<longrightarrow> wr (fs_os io') n = wr (fs_os io) n"
proof -
  let ?b = "peek_output s (min max_copy_length (buffer_size s))"
  from co obtain k io1 where w: "fd_write os fd (bv_of_view ?b) False io = Some (k, io1)"
    and s': "s' = pop_output s k" "if bs_eof s' then finish io1 = Some io' \<and> shutdown' else io' = io1 \<and> shutdown' = shutdown"
    by (auto simp: copy_out_def bind_eq_Some_conv Let_def split: if_splits)
  have "length ?b < SIZE_MOD" by (simp add: peek_output_eq max_copy_length_def SIZE_MOD_def min_def)
  from fd_write_once [OF w this] fd obtain iov where iov: "os_writev os b iov (fs_os io) = (int k, fs_os io1)"
    "concat (map iov_base iov) = ?b" "k \<le> length ?b" "fds_kept fd io io1" "fd_eof (fs_fds io1 fd) = fd_eof (fs_fds io fd)"
    by metis
  note wo = writev_ok [OF iov(1)]
  have k: "k \<le> length (bs_buff s)" "take k ?b = take k (bs_buff s)"
    using iov(3) by (auto simp: peek_output_eq buffer_size_def min.absorb1)
  have num: "fd_num (fs_fds io1 fd) = b" using iov(4) fd by (simp add: fds_kept_def)
  have w1: "rd (fs_os io1) = rd (fs_os io)" "wr (fs_os io1) = (wr (fs_os io))(b := wr (fs_os io) b @ take k (bs_buff s))"
    "os_kept (fs_os io) (fs_os io1)"
    using wo iov(2) k(2) by (simp_all add: os_kept_def)
  have w': "os_kept (fs_os io1) (fs_os io')" "rd (fs_os io') = rd (fs_os io1)" "wr (fs_os io') = wr (fs_os io1)"
    using fin [OF num] s'(2) by (auto simp: os_kept_def split: if_splits)
  then have w2: "os_kept (fs_os io) (fs_os io')" "rd (fs_os io') = rd (fs_os io)"
      "wr (fs_os io') = (wr (fs_os io))(b := wr (fs_os io) b @ take k (bs_buff s))"
    using w1 by (auto simp: os_kept_def)
  have sf: "bs_buff s' = drop k (bs_buff s)" "bs_end_input s' = bs_end_input s" "bs_capacity s' = bs_capacity s"
      "bs_error s' = bs_error s" "bs_inv s \<Longrightarrow> bs_inv s'"
    using s'(1) bs_inv_pop [of s k] by (simp_all add: pop_output_eq)
  have sh: "shutdown' \<longrightarrow> bs_eof s'" "shutdown \<longrightarrow> shutdown'"
    using s'(2) ok sf(1,2) by (auto simp: dir_ok_def bs_eof_def input_ended_def buffer_empty_def split: if_splits)
  obtain rest where "rd (fs_os io) a = wr (fs_os io) b @ bs_buff s @ rest" "rest \<noteq> [] \<longrightarrow> hout (fs_os io) b \<and> bs_end_input s"
    using ok by (auto simp: dir_ok_def)
  then have "rd (fs_os io') a = wr (fs_os io') b @ bs_buff s' @ rest" "rest \<noteq> [] \<longrightarrow> hout (fs_os io') b \<and> bs_end_input s'"
    using w2 sf by (auto simp: os_kept_def le_fun_def)
  moreover have "bs_end_input s' \<longrightarrow> hin (fs_os io') a \<or> hout (fs_os io') b"
    using ok sf(2) w2(1) by (auto simp: dir_ok_def os_kept_def le_fun_def)
  ultimately have "dir_ok a b s' shutdown' (fs_os io')" using ok sf sh unfolding dir_ok_def by auto
  with that [of io1] iov(4,5) w2 sf(2) sh(2) s'(2) show thesis by (auto split: if_splits)
qed

end

section \<open>Both directions\<close>

locale copy_run = copy_env os rd wr hin hout
  for os :: "'w os" and rd wr hin hout +
  fixes so inp outp :: nat and son :: int
  assumes distinct_refs: "so \<noteq> inp" "so \<noteq> outp" "inp \<noteq> outp"
    and distinct_nums: "son \<noteq> STDIN_FILENO" "son \<noteq> STDOUT_FILENO"
begin

definition cp_inv :: "copy \<times> 'w fd_state \<Rightarrow> bool" where
  "cp_inv x \<longleftrightarrow> (case x of (c, io) \<Rightarrow>
     fd_num (fs_fds io so) = son \<and> fd_num (fs_fds io inp) = STDIN_FILENO \<and> fd_num (fs_fds io outp) = STDOUT_FILENO \<and>
     \<not> fd_closed (fs_fds io so) \<and> \<not> fd_closed (fs_fds io inp) \<and> (fd_closed (fs_fds io outp) \<longrightarrow> cp_inbound_shutdown c) \<and>
     (fd_eof (fs_fds io inp) \<longrightarrow> hin (fs_os io) STDIN_FILENO \<and> bs_end_input (cp_outbound c)) \<and>
     (fd_eof (fs_fds io so) \<longrightarrow> hin (fs_os io) son \<and> bs_end_input (cp_inbound c)) \<and>
     dir_ok STDIN_FILENO son (cp_outbound c) (cp_outbound_shutdown c) (fs_os io) \<and>
     dir_ok son STDOUT_FILENO (cp_inbound c) (cp_inbound_shutdown c) (fs_os io))"

text \<open>Facts about the streams and the system that, once true, stay true.\<close>

definition marks :: "copy \<times> 'w fd_state \<Rightarrow> copy \<times> 'w fd_state \<Rightarrow> bool" where
  "marks x x' \<longleftrightarrow> os_kept (fs_os (snd x)) (fs_os (snd x')) \<and>
     (bs_end_input (cp_outbound (fst x)) \<longrightarrow> bs_end_input (cp_outbound (fst x'))) \<and>
     (bs_end_input (cp_inbound (fst x)) \<longrightarrow> bs_end_input (cp_inbound (fst x'))) \<and>
     (cp_inbound_shutdown (fst x) \<longrightarrow> cp_inbound_shutdown (fst x')) \<and>
     (fd_closed (fs_fds (snd x) outp) \<longrightarrow> fd_closed (fs_fds (snd x') outp))"

lemma os_kept_D: "os_kept w w' \<Longrightarrow> hin w n \<Longrightarrow> hin w' n" "os_kept w w' \<Longrightarrow> hout w n \<Longrightarrow> hout w' n"
  by (auto simp: os_kept_def le_fun_def)

lemma cp_inv_dirs:
  assumes "cp_inv (c, io)"
  shows "dir_ok STDIN_FILENO son (cp_outbound c) (cp_outbound_shutdown c) (fs_os io)"
    and "dir_ok son STDOUT_FILENO (cp_inbound c) (cp_inbound_shutdown c) (fs_os io)"
  using assms by (simp_all add: cp_inv_def)

lemma input_in_keeps:
  assumes inv: "cp_inv (c, io)" and cb: "cp_input_in os inp (c, io) = Some (c', io')"
  shows "cp_inv (c', io') \<and> marks (c, io) (c', io')"
proof -
  from cb obtain s where ci: "copy_in os inp (cp_outbound c, io) = Some (s, io')" and c': "c' = c\<lparr>cp_outbound := s\<rparr>"
    by (auto simp: cp_input_in_def bind_eq_Some_conv)
  have "fd_eof (fs_fds io inp) \<longrightarrow> hin (fs_os io) STDIN_FILENO" "fd_num (fs_fds io inp) = STDIN_FILENO"
      "dir_ok STDIN_FILENO son (cp_outbound c) (cp_outbound_shutdown c) (fs_os io)" using inv by (auto simp: cp_inv_def)
  note k = copy_in_keeps [OF this(3,2,1) ci]
  have "dir_ok son STDOUT_FILENO (cp_inbound c) (cp_inbound_shutdown c) (fs_os io')"
    using k(6) k(7) [OF distinct_nums(1)] by (intro dir_ok_kept [OF cp_inv_dirs(2) [OF inv] k(3)]) simp_all
  moreover have "fs_fds io' so = fs_fds io so" "fs_fds io' outp = fs_fds io outp" "fd_num (fs_fds io' inp) = fd_num (fs_fds io inp)"
      "fd_closed (fs_fds io' inp) = fd_closed (fs_fds io inp)"
    using k(2) distinct_refs by (simp_all add: fds_kept_def)
  ultimately show ?thesis
    using inv k(1,3-5) os_kept_D(1) [OF k(3), of son] by (simp add: cp_inv_def marks_def c')
qed

lemma socket_in_keeps:
  assumes inv: "cp_inv (c, io)" and cb: "cp_socket_in os so (c, io) = Some (c', io')"
  shows "cp_inv (c', io') \<and> marks (c, io) (c', io')"
proof -
  from cb obtain s where ci: "copy_in os so (cp_inbound c, io) = Some (s, io')" and c': "c' = c\<lparr>cp_inbound := s\<rparr>"
    by (auto simp: cp_socket_in_def bind_eq_Some_conv)
  have "fd_eof (fs_fds io so) \<longrightarrow> hin (fs_os io) son" "fd_num (fs_fds io so) = son"
      "dir_ok son STDOUT_FILENO (cp_inbound c) (cp_inbound_shutdown c) (fs_os io)" using inv by (auto simp: cp_inv_def)
  note k = copy_in_keeps [OF this(3,2,1) ci]
  have "dir_ok STDIN_FILENO son (cp_outbound c) (cp_outbound_shutdown c) (fs_os io')"
    using k(6) k(7) [OF not_sym [OF distinct_nums(1)]] by (intro dir_ok_kept [OF cp_inv_dirs(1) [OF inv] k(3)]) simp_all
  moreover have "fs_fds io' inp = fs_fds io inp" "fs_fds io' outp = fs_fds io outp" "fd_num (fs_fds io' so) = fd_num (fs_fds io so)"
      "fd_closed (fs_fds io' so) = fd_closed (fs_fds io so)"
    using k(2) distinct_refs by (simp_all add: fds_kept_def)
  ultimately show ?thesis
    using inv k(1,3-5) os_kept_D(1) [OF k(3), of STDIN_FILENO] by (simp add: cp_inv_def marks_def c')
qed

lemma shutdown_keeps:
  assumes "sock_shutdown os r how io = Some io'"
  shows "os_kept (fs_os io) (fs_os io') \<and> rd (fs_os io') = rd (fs_os io) \<and> wr (fs_os io') = wr (fs_os io)"
proof -
  obtain ret where "os_shutdown os (fd_num (fs_fds io r)) how (fs_os io) = (ret, fs_os io')"
    using sock_shutdown_frame(1) [OF assms] by blast
  from shutdown_ok [OF this] show ?thesis by (simp add: os_kept_def)
qed

lemma close_keeps:
  assumes "fd_close os r io = Some io'"
  shows "os_kept (fs_os io) (fs_os io') \<and> rd (fs_os io') = rd (fs_os io) \<and> wr (fs_os io') = wr (fs_os io)"
    and "fd_closed (fs_fds io' r)" and "fd_num (fs_fds io' r') = fd_num (fs_fds io r')" and "r' \<noteq> r \<Longrightarrow> fs_fds io' r' = fs_fds io r'"
proof -
  obtain ret w where c: "os_close os (fd_num (fs_fds io r)) (fs_os io) = (ret, w)" by force
  with assms have io': "io' = fd_update r (\<lambda>f. f\<lparr>fd_eof := True, fd_closed := True\<rparr>) (io\<lparr>fs_os := w\<rparr>)"
    by (auto simp: fd_close_def bind_eq_Some_conv)
  then show "os_kept (fs_os io) (fs_os io') \<and> rd (fs_os io') = rd (fs_os io) \<and> wr (fs_os io') = wr (fs_os io)"
    using close_ok [OF c] by (simp add: os_kept_def)
  show "fd_closed (fs_fds io' r)" "fd_num (fs_fds io' r') = fd_num (fs_fds io r')" "r' \<noteq> r \<Longrightarrow> fs_fds io' r' = fs_fds io r'"
    by (simp_all add: io' fd_update_def)
qed

lemma socket_out_keeps:
  assumes inv: "cp_inv (c, io)" and cb: "cp_socket_out os so (c, io) = Some (c', io')"
  shows "cp_inv (c', io') \<and> marks (c, io) (c', io')"
proof -
  from cb obtain s sh where co: "copy_out os so (sock_shutdown os so SHUT_WR) (cp_outbound c, cp_outbound_shutdown c, io) = Some (s, sh, io')"
      and c': "c' = c\<lparr>cp_outbound := s, cp_outbound_shutdown := sh\<rparr>"
    by (auto simp: cp_socket_out_def bind_eq_Some_conv)
  have num: "fd_num (fs_fds io so) = son" "dir_ok STDIN_FILENO son (cp_outbound c) (cp_outbound_shutdown c) (fs_os io)"
    using inv by (auto simp: cp_inv_def)
  obtain io1 where
    k: "dir_ok STDIN_FILENO son s sh (fs_os io')" "fds_kept so io io1" "fd_eof (fs_fds io1 so) = fd_eof (fs_fds io so)"
      "io' = io1 \<and> sh = cp_outbound_shutdown c \<or> sock_shutdown os so SHUT_WR io1 = Some io' \<and> sh" "os_kept (fs_os io) (fs_os io')"
      "bs_end_input s = bs_end_input (cp_outbound c)" "cp_outbound_shutdown c \<longrightarrow> sh" "rd (fs_os io') = rd (fs_os io)"
      "\<forall>n. n \<noteq> son \<longrightarrow> wr (fs_os io') n = wr (fs_os io) n"
    by (rule copy_out_keeps [OF num(2,1) shutdown_keeps [where r = so and how = SHUT_WR] co]) (assumption, rule that)
  have f: "fds_kept so io io' \<and> fd_eof (fs_fds io' so) = fd_eof (fs_fds io so)"
    using k(2-4) sock_shutdown_frame(2,3) [of os so SHUT_WR io1 io'] by (auto simp: fds_kept_def)
  have "dir_ok son STDOUT_FILENO (cp_inbound c) (cp_inbound_shutdown c) (fs_os io')"
    using k(8) k(9) distinct_nums by (intro dir_ok_kept [OF cp_inv_dirs(2) [OF inv] k(5)]) simp_all
  moreover have "fs_fds io' inp = fs_fds io inp" "fs_fds io' outp = fs_fds io outp" "fd_num (fs_fds io' so) = fd_num (fs_fds io so)"
      "fd_closed (fs_fds io' so) = fd_closed (fs_fds io so)"
    using f distinct_refs by (simp_all add: fds_kept_def)
  ultimately show ?thesis
    using inv k(1,5,6) f [THEN conjunct2] os_kept_D(1) [OF k(5), of son] os_kept_D(1) [OF k(5), of STDIN_FILENO] by (simp add: cp_inv_def marks_def c')
qed

lemma output_out_keeps:
  assumes inv: "cp_inv (c, io)" and cb: "cp_output_out os outp (c, io) = Some (c', io')"
  shows "cp_inv (c', io') \<and> marks (c, io) (c', io')"
proof -
  from cb obtain s sh where co: "copy_out os outp (fd_close os outp) (cp_inbound c, cp_inbound_shutdown c, io) = Some (s, sh, io')"
      and c': "c' = c\<lparr>cp_inbound := s, cp_inbound_shutdown := sh\<rparr>"
    by (auto simp: cp_output_out_def bind_eq_Some_conv)
  have num: "fd_num (fs_fds io outp) = STDOUT_FILENO" "dir_ok son STDOUT_FILENO (cp_inbound c) (cp_inbound_shutdown c) (fs_os io)"
    using inv by (auto simp: cp_inv_def)
  obtain io1 where
    k: "dir_ok son STDOUT_FILENO s sh (fs_os io')" "fds_kept outp io io1" "fd_eof (fs_fds io1 outp) = fd_eof (fs_fds io outp)"
      "io' = io1 \<and> sh = cp_inbound_shutdown c \<or> fd_close os outp io1 = Some io' \<and> sh" "os_kept (fs_os io) (fs_os io')"
      "bs_end_input s = bs_end_input (cp_inbound c)" "cp_inbound_shutdown c \<longrightarrow> sh" "rd (fs_os io') = rd (fs_os io)"
      "\<forall>n. n \<noteq> STDOUT_FILENO \<longrightarrow> wr (fs_os io') n = wr (fs_os io) n"
    by (rule copy_out_keeps [OF num(2,1) close_keeps(1) [where r = outp] co]) (assumption, rule that)
  have f: "fd_num (fs_fds io' r) = fd_num (fs_fds io r)" "r \<noteq> outp \<Longrightarrow> fs_fds io' r = fs_fds io r"
      "fd_closed (fs_fds io' outp) \<longrightarrow> fd_closed (fs_fds io outp) \<or> sh" "fd_closed (fs_fds io outp) \<longrightarrow> fd_closed (fs_fds io' outp)" for r
    using k(2,4) close_keeps(2-4) [of outp io1 io'] by (auto simp: fds_kept_def)
  have "dir_ok STDIN_FILENO son (cp_outbound c) (cp_outbound_shutdown c) (fs_os io')"
    using k(8) k(9) distinct_nums by (intro dir_ok_kept [OF cp_inv_dirs(1) [OF inv] k(5)]) simp_all
  moreover have "fs_fds io' so = fs_fds io so" "fs_fds io' inp = fs_fds io inp" using f(2) distinct_refs by simp_all
  ultimately show ?thesis
    using inv k(1,5-7) f(1) [of outp] f(3,4) os_kept_D(1) [OF k(5), of son] os_kept_D(1) [OF k(5), of STDIN_FILENO]
    by (simp add: cp_inv_def marks_def c') blast
qed

definition fd_number :: "(copy, 'w) el_rule \<Rightarrow> int" where
  "fd_number r = (if rule_fd r = so then son else if rule_fd r = inp then STDIN_FILENO else STDOUT_FILENO)"

text \<open>When a rule may be cancelled, and what holds afterwards.\<close>

definition ended_for :: "(copy, 'w) el_rule \<Rightarrow> copy \<times> 'w fd_state \<Rightarrow> bool" where
  "ended_for r x \<longleftrightarrow> (if rule_direction r = In then hin (fs_os (snd x)) (fd_number r)
     else hout (fs_os (snd x)) (fd_number r) \<or> rule_fd r = outp \<and> cp_inbound_shutdown (fst x))"

definition cancelled :: "(copy, 'w) el_rule \<Rightarrow> copy \<times> 'w fd_state \<Rightarrow> bool" where
  "cancelled r x \<longleftrightarrow> ended_for r x \<and> (rule_direction r = In \<longrightarrow>
     bs_end_input (if rule_fd r = so then cp_inbound (fst x) else cp_outbound (fst x)))"

lemma rule_cases:
  assumes "r \<in> set (cp_rules os so inp outp)"
  obtains (input_in) "rule_fd r = inp" "rule_direction r = In" "rule_callback r = cp_input_in os inp" "rule_cancel r = cp_outbound_end"
      "rule_interest r = cp_input_in_interest"
  | (socket_out) "rule_fd r = so" "rule_direction r = Out" "rule_callback r = cp_socket_out os so" "rule_cancel r = cp_outbound_end"
      "rule_interest r = cp_socket_out_interest"
  | (socket_in) "rule_fd r = so" "rule_direction r = In" "rule_callback r = cp_socket_in os so" "rule_cancel r = cp_inbound_end"
      "rule_interest r = cp_socket_in_interest"
  | (output_out) "rule_fd r = outp" "rule_direction r = Out" "rule_callback r = cp_output_out os outp" "rule_cancel r = cp_inbound_end"
      "rule_interest r = cp_output_out_interest"
  using assms by (auto simp: cp_rules_def add_rule_def fd_duplicate_def)

lemma callback_good:
  assumes r: "r \<in> set (cp_rules os so inp outp)" and x: "cp_inv x" and cb: "rule_callback r x = Some x'"
  shows "cp_inv x' \<and> marks x x'"
proof -
  obtain c io c' io' where p: "x = (c, io)" "x' = (c', io')" by (cases x; cases x')
  from r show ?thesis
  proof (cases rule: rule_cases)
    case input_in
    then show ?thesis using input_in_keeps x cb p by simp
  next
    case socket_out
    then show ?thesis using socket_out_keeps x cb p by simp
  next
    case socket_in
    then show ?thesis using socket_in_keeps x cb p by simp
  next
    case output_out
    then show ?thesis using output_out_keeps x cb p by simp
  qed
qed

lemma cancel_good:
  assumes r: "r \<in> set (cp_rules os so inp outp)" and x: "cp_inv x" and ca: "rule_cancel r x = Some x'"
  shows "marks x x'" and "ended_for r x \<Longrightarrow> cp_inv x'" and "ended_for r x \<Longrightarrow> cancelled r x'"
proof -
  obtain c io where p: "x = (c, io)" by (cases x)
  note d = cp_inv_dirs [OF x [unfolded p]]
  have end_in: "bs_end_input (end_input s)" for s by (simp add: end_input_def)
  have k: "os_kept (fs_os io) (fs_os io)" by (simp add: os_kept_def)
  show "marks x x'"
    using r by (cases rule: rule_cases) (use ca p k in \<open>auto simp: marks_def cp_outbound_end_def cp_inbound_end_def end_in\<close>)
  assume D: "ended_for r x"
  have "dir_ok STDIN_FILENO son (end_input (cp_outbound c)) (cp_outbound_shutdown c) (fs_os io)"
    if "hin (fs_os io) STDIN_FILENO \<or> hout (fs_os io) son" using dir_ok_end [OF d(1) that] .
  moreover have "dir_ok son STDOUT_FILENO (end_input (cp_inbound c)) (cp_inbound_shutdown c) (fs_os io)"
    if "hin (fs_os io) son \<or> hout (fs_os io) STDOUT_FILENO \<or> cp_inbound_shutdown c"
  proof (cases "cp_inbound_shutdown c")
    case True
    then have "end_input (cp_inbound c) = cp_inbound c"
      using d(2) by (simp add: dir_ok_def bs_eof_def input_ended_def end_input_def)
    then show ?thesis using d(2) by simp
  qed (use that dir_ok_end [OF d(2)] in blast)
  moreover note dirs = calculation
  from r show "cp_inv x'"
  proof (cases rule: rule_cases)
    case input_in
    then show ?thesis using dirs(1) D ca x p distinct_refs by (auto simp: cp_inv_def ended_for_def fd_number_def cp_outbound_end_def end_in)
  next
    case socket_out
    then show ?thesis using dirs(1) D ca x p distinct_refs by (auto simp: cp_inv_def ended_for_def fd_number_def cp_outbound_end_def end_in)
  next
    case socket_in
    then show ?thesis using dirs(2) D ca x p distinct_refs by (auto simp: cp_inv_def ended_for_def fd_number_def cp_inbound_end_def end_in)
  next
    case output_out
    then show ?thesis using dirs(2) D ca x p distinct_refs by (auto simp: cp_inv_def ended_for_def fd_number_def cp_inbound_end_def end_in)
  qed
  show "cancelled r x'"
    using r by (cases rule: rule_cases)
      (use D ca p distinct_refs in \<open>auto simp: cancelled_def ended_for_def cp_outbound_end_def cp_inbound_end_def end_in\<close>)
qed

lemma marks_ended: "marks x x' \<Longrightarrow> ended_for r x \<Longrightarrow> ended_for r x'"
  by (auto simp: marks_def ended_for_def dest: os_kept_D split: if_splits)

lemma marks_cancelled: "marks x x' \<Longrightarrow> cancelled r x \<Longrightarrow> cancelled r x'"
  using marks_ended by (auto simp: cancelled_def marks_def split: if_splits)

lemma poll_keeps_inv:
  assumes inv: "cp_inv (c, io)" and p: "os_poll os ps t (fs_os io) = (ret, rv, w)"
  shows "cp_inv (c, io\<lparr>fs_os := w\<rparr>)" and "marks (c, io) (c, io\<lparr>fs_os := w\<rparr>)"
proof -
  note k = poll_ok [OF p]
  then have o: "os_kept (fs_os io) w" by (simp add: os_kept_def)
  then show "marks (c, io) (c, io\<lparr>fs_os := w\<rparr>)" by (simp add: marks_def)
  have "dir_ok STDIN_FILENO son (cp_outbound c) (cp_outbound_shutdown c) w" "dir_ok son STDOUT_FILENO (cp_inbound c) (cp_inbound_shutdown c) w"
    using dir_ok_kept [OF cp_inv_dirs(1) [OF inv] o] dir_ok_kept [OF cp_inv_dirs(2) [OF inv] o] k by simp_all
  then show "cp_inv (c, io\<lparr>fs_os := w\<rparr>)" using inv os_kept_D(1) [OF o, of son] os_kept_D(1) [OF o, of STDIN_FILENO] by (simp add: cp_inv_def)
qed

end

sublocale copy_run \<subseteq> rules: event_rules_done os "set (cp_rules os so inp outp)" fd_number cp_inv ended_for cancelled
proof unfold_locales
  fix r x
  assume r: "r \<in> set (cp_rules os so inp outp)" and x: "cp_inv x"
  obtain c io where p: "x = (c, io)" by (cases x)
  from r show num: "fd_num (rule_wrapper r x) = fd_number r"
    by (cases rule: rule_cases) (use x p distinct_refs in \<open>simp_all add: fd_number_def cp_inv_def\<close>)
  assume e: "rule_direction r = In \<and> fd_eof (rule_wrapper r x) \<or> fd_closed (rule_wrapper r x)"
  from r show "ended_for r x"
    by (cases rule: rule_cases) (use e x p distinct_refs in \<open>auto simp: ended_for_def fd_number_def cp_inv_def\<close>)
next
  fix s io ps t ret rv w
  assume x: "cp_inv (s, io)" and p: "os_poll os ps t (fs_os io) = (ret, rv, w)"
  show "cp_inv (s, io\<lparr>fs_os := w\<rparr>)" using poll_keeps_inv(1) [OF x p] .
  fix r
  show "cancelled r (s, io\<lparr>fs_os := w\<rparr>)" if "cancelled r (s, io)" using marks_cancelled [OF poll_keeps_inv(2) [OF x p] that] .
  fix i
  assume i: "i < length ps" and r: "polled fd_number r (ps ! i)" "poll_defunct ((ps ! i)\<lparr>poll_revents := rv i\<rparr>)"
  then have "poll_events (ps ! i) = direction_events (rule_direction r)" by (auto simp: polled_def poll_defunct_def)
  then show "ended_for r (s, io\<lparr>fs_os := w\<rparr>)"
    using poll_hangup [OF p i r(2)] r(1) by (cases "rule_direction r") (auto simp: ended_for_def polled_def)
next
  fix r r' x x'
  assume r: "r \<in> set (cp_rules os so inp outp)" and x: "cp_inv x"
  show "cp_inv x'" if "rule_callback r x = Some x'" using callback_good [OF r x that] by simp
  show "ended_for r' x'" if "ended_for r' x" "rule_callback r x = Some x'"
    using marks_ended [OF _ that(1)] callback_good [OF r x that(2)] by blast
  show "cancelled r' x'" if "cancelled r' x" "rule_callback r x = Some x'"
    using marks_cancelled [OF _ that(1)] callback_good [OF r x that(2)] by blast
  show "ended_for r' x'" if "ended_for r' x" "rule_cancel r x = Some x'"
    using marks_ended [OF cancel_good(1) [OF r x that(2)] that(1)] .
  show "cancelled r' x'" if "cancelled r' x" "rule_cancel r x = Some x'"
    using marks_cancelled [OF cancel_good(1) [OF r x that(2)] that(1)] .
  show "cp_inv x'" "cancelled r x'" if "ended_for r x" "rule_cancel r x = Some x'"
    using cancel_good(2,3) [OF r x that(2,1)] .
qed

section \<open>Runs\<close>

text \<open>The states at the start of a round of the loop.\<close>

inductive cp_reach :: "'w os \<Rightarrow> nat \<Rightarrow> 'w fd_state \<Rightarrow> 'w copy_rules \<times> copy \<times> 'w fd_state \<Rightarrow> bool"
  for os so io0 where
  cp_begin: "copy_start os so io0 = Some (input, output, rules, x) \<Longrightarrow> cp_reach os so io0 (rules, x)"
| cp_round: "cp_reach os so io0 (rules, x) \<Longrightarrow> wait_next_event os (- 1) rules x = Some (result, rules', x') \<Longrightarrow>
    result \<noteq> Exit \<Longrightarrow> cp_reach os so io0 (rules', x')"

text \<open>The loop returns what a round that says so leaves.\<close>

lemma copy_loop_exit:
  assumes "copy_loop os st = Some st'" and "cp_reach os so io0 st"
  shows "\<exists>rules x. cp_reach os so io0 (rules, x) \<and> wait_next_event os (- 1) rules x = Some (Exit, st')"
proof -
  let ?Q = "\<lambda>st y. cp_reach os so io0 st \<longrightarrow>
    (\<exists>rules x. cp_reach os so io0 (rules, x) \<and> wait_next_event os (- 1) rules x = Some (Exit, y))"
  have "os = os \<longrightarrow> ?Q st st'"
    by (rule copy_loop.raw_induct [where P = "\<lambda>os' st y. os' = os \<longrightarrow> ?Q st y", OF _ assms(1)])
      (auto simp: bind_eq_Some_conv split: if_splits intro: cp_round, (blast intro: cp_round)+)
  with assms(2) show ?thesis by simp
qed

text \<open>What holds in the state of the caller: the socket is open and nothing has been copied yet.\<close>

definition cp_fresh :: "('w \<Rightarrow> int \<Rightarrow> bytes) \<Rightarrow> ('w \<Rightarrow> int \<Rightarrow> bytes) \<Rightarrow> nat \<Rightarrow> int \<Rightarrow> 'w fd_state \<Rightarrow> bool" where
  "cp_fresh rd wr so son io \<longleftrightarrow> so < fs_next io \<and> fd_num (fs_fds io so) = son \<and> son \<noteq> STDIN_FILENO \<and> son \<noteq> STDOUT_FILENO \<and>
     \<not> fd_closed (fs_fds io so) \<and> \<not> fd_eof (fs_fds io so) \<and>
     rd (fs_os io) STDIN_FILENO = [] \<and> wr (fs_os io) STDOUT_FILENO = [] \<and> rd (fs_os io) son = [] \<and> wr (fs_os io) son = []"

context copy_env
begin

lemma set_blocking_kept:
  assumes "fd_set_blocking os r b io = Some io'"
  shows "fs_fds io' = fs_fds io \<and> rd (fs_os io') = rd (fs_os io) \<and> wr (fs_os io') = wr (fs_os io)"
proof -
  obtain ret flags w where g: "os_getfl os (fd_num (fs_fds io r)) (fs_os io) = (ret, flags, w)"
    by (cases "os_getfl os (fd_num (fs_fds io r)) (fs_os io)")
  let ?f = "if b then flags XOR (flags AND O_NONBLOCK) else flags OR O_NONBLOCK"
  obtain ret' w' where s: "os_setfl os (fd_num (fs_fds io r)) ?f w = (ret', w')" by force
  with assms g have "io' = io\<lparr>fs_os := w'\<rparr>" by (simp add: fd_set_blocking_def Let_def bind_eq_Some_conv)
  then show ?thesis using getfl_ok [OF g] setfl_ok [OF s] by simp
qed

lemma copy_start_inv:
  assumes st: "copy_start os so io0 = Some (inp, outp, rules, x)" and fresh: "cp_fresh rd wr so son io0"
  shows "copy_run os rd wr hin hout so inp outp son" and "copy_run.cp_inv rd wr hin hout so inp outp son x"
    and "rules = cp_rules os so inp outp"
proof -
  from st obtain io1 io2 io where io: "fd_set_blocking os so False (io0\<lparr>fs_fds := (fs_fds io0)
          (fs_next io0 := \<lparr>fd_num = STDIN_FILENO, fd_eof = False, fd_closed = False, fd_read_count = 0, fd_write_count = 0\<rparr>,
           Suc (fs_next io0) := \<lparr>fd_num = STDOUT_FILENO, fd_eof = False, fd_closed = False, fd_read_count = 0, fd_write_count = 0\<rparr>),
          fs_next := Suc (Suc (fs_next io0))\<rparr>) = Some io1" "fd_set_blocking os inp False io1 = Some io2"
      "fd_set_blocking os outp False io2 = Some io"
    and x: "x = (copy_new, io)" "inp = fs_next io0" "outp = Suc (fs_next io0)" and r: "rules = cp_rules os so inp outp"
    by (auto simp: copy_start_def fd_new_def fdw_new_def STDIN_FILENO_def STDOUT_FILENO_def bind_eq_Some_conv)
  show "rules = cp_rules os so inp outp" by (rule r)
  note k = set_blocking_kept [OF io(1)] set_blocking_kept [OF io(2)] set_blocking_kept [OF io(3)]
  have run: "copy_run os rd wr hin hout so inp outp son"
    using fresh x by unfold_locales (auto simp: cp_fresh_def)
  then show "copy_run os rd wr hin hout so inp outp son" .
  have "dir_ok a b (bs_new copy_buffer_size) False w" if "rd w a = []" "wr w b = []" for a b w
    using that by (simp add: dir_ok_def copy_buffer_size_def SIZE_MOD_def) (simp add: bs_new_def)
  then show "copy_run.cp_inv rd wr hin hout so inp outp son x"
    using fresh x k less_imp_neq [of so "fs_next io0"]
    unfolding copy_run.cp_inv_def [OF run] by (simp add: copy_new_def cp_fresh_def)
qed

end

context copy_run
begin

lemma round_keeps:
  assumes "wait_next_event os t rules x = Some (result, rules', x')" and "subseq rules (cp_rules os so inp outp)" and "cp_inv x"
    and "\<forall>r \<in> set (cp_rules os so inp outp) - set rules. cancelled r x"
  shows "cp_inv x'" and "subseq rules' (cp_rules os so inp outp)"
    and "\<forall>r \<in> set (cp_rules os so inp outp) - set rules'. cancelled r x'"
proof -
  have R: "set rules \<subseteq> set (cp_rules os so inp outp)" using assms(2) by (auto dest: list_emb_set)
  show "cp_inv x'" "subseq rules' (cp_rules os so inp outp)"
    using rules.wait_keeps [OF assms(1) R assms(3)] assms(2) subseq_order.trans by blast+
  show "\<forall>r \<in> set (cp_rules os so inp outp) - set rules'. cancelled r x'"
    using rules.wait_done [OF assms(1) R assms(3,4)] .
qed

end

text \<open>The invariant holds in every run, and rules that are gone were cancelled.\<close>

lemma cp_reach_inv:
  assumes "cp_reach os so io0 (rules, x)" and "copy_env os rd wr hin hout" and "cp_fresh rd wr so son io0"
  obtains inp outp where "copy_run os rd wr hin hout so inp outp son" and "copy_run.cp_inv rd wr hin hout so inp outp son x"
    and "subseq rules (cp_rules os so inp outp)"
    and "\<forall>r \<in> set (cp_rules os so inp outp) - set rules. copy_run.cancelled hin hout so inp outp son r x"
proof -
  have "\<exists>inp outp. copy_run os rd wr hin hout so inp outp son \<and> copy_run.cp_inv rd wr hin hout so inp outp son x \<and>
      subseq rules (cp_rules os so inp outp) \<and>
      (\<forall>r \<in> set (cp_rules os so inp outp) - set rules. copy_run.cancelled hin hout so inp outp son r x)"
    using assms(1)
  proof (induction "(rules, x)" arbitrary: rules x rule: cp_reach.induct)
    case (cp_begin inp outp rules x)
    from copy_env.copy_start_inv [OF assms(2) cp_begin assms(3)] show ?case
      by (intro exI [of _ inp] exI [of _ outp]) auto
  next
    case (cp_round rules x result rules' x')
    then obtain inp outp where run: "copy_run os rd wr hin hout so inp outp son"
      and inv: "copy_run.cp_inv rd wr hin hout so inp outp son x" and sub: "subseq rules (cp_rules os so inp outp)"
      and gone: "\<forall>r \<in> set (cp_rules os so inp outp) - set rules. copy_run.cancelled hin hout so inp outp son r x"
      by blast
    from copy_run.round_keeps [OF run cp_round(3) sub inv gone] run show ?case
      by (intro exI [of _ inp] exI [of _ outp]) blast
  qed
  then show thesis using that by blast
qed

lemma sorted_wrt_subseq: "subseq xs ys \<Longrightarrow> sorted_wrt P ys \<Longrightarrow> sorted_wrt P xs"
  by (induction rule: list_emb.induct) (auto dest: list_emb_set)

context copy_run
begin

text \<open>A round that exits without a signal: a rule that is left is not interested.\<close>

lemma exit_idle:
  assumes wait: "wait_next_event os t rules x = Some (Exit, rules', x')" and sub: "subseq rules (cp_rules os so inp outp)"
    and errno: "os_errno os (fs_os (snd x')) \<noteq> EINTR"
  shows "\<forall>r \<in> set rules'. \<not> rule_interest r x'"
proof -
  from wait obtain rs1 ps b x1 where s: "el_setup rules x = Some (rs1, ps, b, x1)"
    by (auto simp: wait_next_event_def bind_eq_Some_conv)
  obtain ret rv w where p: "os_poll os ps t (fs_os (snd x1)) = (ret, rv, w)" by (cases "os_poll os ps t (fs_os (snd x1))")
  from wait_next_event_cases [OF wait s p] errno have e: "rules' = rs1" "\<not> b" "x' = x1" by auto
  let ?before = "\<lambda>r r'. \<forall>y y'. rule_cancel r' y = Some y' \<longrightarrow> rule_interest r y' = rule_interest r y"
  have "sorted_wrt ?before (cp_rules os so inp outp)"
    by (simp add: cp_rules_def add_rule_def cp_outbound_end_def cp_inbound_end_def end_input_def remaining_capacity_def
        cp_input_in_interest_def cp_socket_out_interest_def cp_socket_in_interest_def)
  from sorted_wrt_subseq [OF sub this] have "sorted_wrt ?before rules" .
  moreover have "el_setup rules x = Some (rules', ps, False, x')" using s e by simp
  ultimately show ?thesis using el_setup_idle by blast
qed

lemma dir_complete:
  assumes "dir_ok a b s sh w" and "\<not> hout w b" and "buffer_empty s" and "bs_eof s \<longrightarrow> sh" and "bs_end_input s"
  shows "wr w b = rd w a \<and> hin w a \<and> sh"
proof -
  obtain rest where "rd w a = wr w b @ rest" "rest = []" using assms(1-3) by (auto simp: dir_ok_def buffer_empty_def)
  moreover have "hin w a" "sh" using assms by (auto simp: dir_ok_def bs_eof_def input_ended_def)
  ultimately show ?thesis by simp
qed

lemma exit_complete:
  assumes inv: "cp_inv (c, io)" and idle: "\<forall>r \<in> set rules. \<not> rule_interest r (c, io)"
    and gone: "\<forall>r \<in> set (cp_rules os so inp outp) - set rules. cancelled r (c, io)"
  shows "hout (fs_os io) son \<or> wr (fs_os io) son = rd (fs_os io) STDIN_FILENO \<and> hin (fs_os io) STDIN_FILENO \<and> cp_outbound_shutdown c"
    and "hout (fs_os io) STDOUT_FILENO \<or> wr (fs_os io) STDOUT_FILENO = rd (fs_os io) son \<and> hin (fs_os io) son \<and> cp_inbound_shutdown c"
proof -
  note d = cp_inv_dirs [OF inv]
  have rule: "\<not> rule_interest r (c, io) \<or> cancelled r (c, io)" if "r \<in> set (cp_rules os so inp outp)" for r
    using idle gone that by blast
  have room: "0 < remaining_capacity s" if "dir_ok a b s sh w" "buffer_empty s" for a b s sh w
    using that by (simp add: dir_ok_def remaining_capacity_exact buffer_empty_def copy_buffer_size_def)
  have errors: "\<not> bs_error (cp_outbound c)" "\<not> bs_error (cp_inbound c)" using d by (simp_all add: dir_ok_def)
  have r1: "remaining_capacity (cp_outbound c) = 0 \<or> bs_end_input (cp_outbound c)"
    using rule [of "cp_rules os so inp outp ! 0"] errors distinct_refs
    by (auto simp: cp_rules_def add_rule_def fd_duplicate_def cancelled_def cp_input_in_interest_def)
  have r2: "buffer_empty (cp_outbound c) \<and> (bs_eof (cp_outbound c) \<longrightarrow> cp_outbound_shutdown c) \<or> hout (fs_os io) son"
    using rule [of "cp_rules os so inp outp ! 1"] distinct_refs
    by (auto simp: cp_rules_def add_rule_def fd_duplicate_def cancelled_def ended_for_def fd_number_def cp_socket_out_interest_def)
  have r3: "remaining_capacity (cp_inbound c) = 0 \<or> bs_end_input (cp_inbound c)"
    using rule [of "cp_rules os so inp outp ! 2"] errors distinct_refs
    by (auto simp: cp_rules_def add_rule_def fd_duplicate_def cancelled_def cp_socket_in_interest_def)
  have r4: "buffer_empty (cp_inbound c) \<and> (bs_eof (cp_inbound c) \<longrightarrow> cp_inbound_shutdown c) \<or>
      hout (fs_os io) STDOUT_FILENO \<or> cp_inbound_shutdown c"
    using rule [of "cp_rules os so inp outp ! 3"] distinct_refs
    by (auto simp: cp_rules_def add_rule_def fd_duplicate_def cancelled_def ended_for_def fd_number_def cp_output_out_interest_def)
  show "hout (fs_os io) son \<or> wr (fs_os io) son = rd (fs_os io) STDIN_FILENO \<and> hin (fs_os io) STDIN_FILENO \<and> cp_outbound_shutdown c"
    using r1 r2 dir_complete [OF d(1)] room [OF d(1)] by auto
  have "cp_inbound_shutdown c \<longrightarrow> buffer_empty (cp_inbound c) \<and> bs_end_input (cp_inbound c)"
    using d(2) by (simp add: dir_ok_def bs_eof_def input_ended_def)
  then show "hout (fs_os io) STDOUT_FILENO \<or> wr (fs_os io) STDOUT_FILENO = rd (fs_os io) son \<and> hin (fs_os io) son \<and> cp_inbound_shutdown c"
    using r3 r4 dir_complete [OF d(2)] room [OF d(2)] by auto
qed

end

section \<open>A system\<close>

text \<open>
  A system in which every descriptor has some bytes to read and takes all bytes written to it, and
  \<open>poll\<close> finds everything ready that it is asked for.
\<close>

record pipes =
  pi_left :: "int \<Rightarrow> bytes"
  pi_read :: "int \<Rightarrow> bytes"
  pi_written :: "int \<Rightarrow> bytes"

definition pipe_os :: "pipes os" where
  "pipe_os = null_os
     \<lparr>os_read := (\<lambda>n k w. let d = take k (pi_left w n) in (int (length d), d,
        w\<lparr>pi_left := (pi_left w)(n := drop k (pi_left w n)), pi_read := (pi_read w)(n := pi_read w n @ d)\<rparr>)),
      os_writev := (\<lambda>n iov w. let d = concat (map iov_base iov) in (int (length d),
        w\<lparr>pi_written := (pi_written w)(n := pi_written w n @ d)\<rparr>)),
      os_poll := (\<lambda>ps t w. (int (length ps), \<lambda>i. if i < length ps then poll_events (ps ! i) else 0, w))\<rparr>"

interpretation pipes: copy_env pipe_os pi_read pi_written "\<lambda>w n. pi_left w n = []" "\<lambda>w n. False"
  by unfold_locales (auto simp: pipe_os_def null_os_def Let_def le_fun_def poll_defunct_def poll_ready_def)

text \<open>
  A run: \<open>l\<close>, \<open>r\<close> and \<open>w\<close> are what is left of standard input, what was read from it and what was written to
  the socket, which gives no bytes. The descriptors are the socket, standard input and standard output.
\<close>

definition pipe_io :: "fd_wrapper \<Rightarrow> fd_wrapper \<Rightarrow> fd_wrapper \<Rightarrow> bytes \<Rightarrow> bytes \<Rightarrow> bytes \<Rightarrow> pipes fd_state" where
  "pipe_io fs fi fo l r w = \<lparr>fs_fds = (\<lambda>x. if x = 0 then fs else if x = 1 then fi else if x = 2 then fo else
     \<lparr>fd_num = 3, fd_eof = False, fd_closed = False, fd_read_count = 0, fd_write_count = 0\<rparr>), fs_next = 3,
     fs_os = \<lparr>pi_left = (\<lambda>n. if n = 0 then l else []), pi_read = (\<lambda>n. if n = 0 then r else []),
              pi_written = (\<lambda>n. if n = 3 then w else [])\<rparr>\<rparr>"

abbreviation wrapper :: "int \<Rightarrow> bool \<Rightarrow> bool \<Rightarrow> u32 \<Rightarrow> u32 \<Rightarrow> fd_wrapper" where
  "wrapper n e c i j \<equiv> \<lparr>fd_num = n, fd_eof = e, fd_closed = c, fd_read_count = i, fd_write_count = j\<rparr>"

abbreviation stream :: "bytes \<Rightarrow> nat \<Rightarrow> nat \<Rightarrow> bool \<Rightarrow> byte_stream" where
  "stream d i j e \<equiv> \<lparr>bs_buff = d, bs_capacity = 1048576, bs_bytes_r = i, bs_bytes_w = j, bs_end_input = e, bs_error = False\<rparr>"

definition demo_pipes :: "pipes fd_state" where
  "demo_pipes = (pipe_io (wrapper 3 False False 0 0) (wrapper 3 False False 0 0) (wrapper 3 False False 0 0) [1, 2] [] [])\<lparr>fs_next := 1\<rparr>"

lemma demo_pipes_fresh: "cp_fresh pi_read pi_written 0 3 demo_pipes"
  by (simp add: cp_fresh_def demo_pipes_def pipe_io_def STDIN_FILENO_def STDOUT_FILENO_def)

lemma demo_start: "copy_start pipe_os 0 demo_pipes = Some (1, 2, cp_rules pipe_os 0 1 2, copy_new,
    pipe_io (wrapper 3 False False 0 0) (wrapper 0 False False 0 0) (wrapper 1 False False 0 0) [1, 2] [] [])"
  by (simp add: copy_start_def fd_new_def fdw_new_def fd_set_blocking_def pipe_os_def null_os_def demo_pipes_def pipe_io_def
      STDIN_FILENO_def STDOUT_FILENO_def SystemCall_def Let_def fun_eq_iff numeral_2_eq_2 numeral_3_eq_3)

text \<open>The system calls and the callbacks in this system.\<close>

lemma pipe_wait:
  "wait_next_event pipe_os t rules x = do {
     (rules, ps, b, x) \<leftarrow> el_setup rules x;
     if \<not> b then Some (Exit, rules, x)
     else if ps = [] then Some (Timeout, rules, x)
     else map_option (\<lambda>(rules, x). (Success, rules, x)) (el_dispatch rules (map (\<lambda>p. p\<lparr>poll_revents := poll_events p\<rparr>) ps) x)
   }"
proof -
  have "poll_result ps (\<lambda>i. if i < length ps then poll_events (ps ! i) else 0) = map (\<lambda>p. p\<lparr>poll_revents := poll_events p\<rparr>) ps" for ps
    by (rule nth_equalityI) (simp_all add: poll_result_def)
  then show ?thesis
    by (cases "el_setup rules x") (simp_all add: wait_next_event_def pipe_os_def null_os_def SystemCall_def split_beta)
qed

lemmas pipe_simps = pipe_os_def null_os_def pipe_io_def SystemCall_def Let_def register_read_def register_write_def fd_update_def fun_eq_iff
  remaining_capacity_def sz_sub_def sz_add_def SIZE_MOD_def

lemma pipe_fds: "fs_fds (pipe_io fs fi fo l r w) 0 = fs" "fs_fds (pipe_io fs fi fo l r w) (Suc 0) = fi" "fs_fds (pipe_io fs fi fo l r w) 2 = fo"
  by (simp_all add: pipe_io_def)

lemma pipe_read:
  "fd_num fi = 0 \<Longrightarrow> fd_read pipe_os (Suc 0) k (pipe_io fs fi fo l r w) =
     Some (take (min BUFFER_SIZE k) l, pipe_io fs (fi\<lparr>fd_eof := (fd_eof fi \<or> 0 < k \<and> l = []), fd_read_count := fd_read_count fi + 1\<rparr>) fo
       (drop (min BUFFER_SIZE k) l) (r @ take (min BUFFER_SIZE k) l) w)"
  "fd_num fs = 3 \<Longrightarrow> fd_read pipe_os 0 k (pipe_io fs fi fo l r w) =
     Some ([], pipe_io (fs\<lparr>fd_eof := (fd_eof fs \<or> 0 < k), fd_read_count := fd_read_count fs + 1\<rparr>) fi fo l r w)"
  by (cases fi; cases l; auto simp: fd_read_def pipe_simps str_resize_def min_def BUFFER_SIZE_def)
    (auto simp: fd_read_def pipe_simps str_resize_def)

lemma pipe_writev:
  assumes "length d < SIZE_MOD"
  shows "fd_write pipe_os k (bv_of_view d) False io = Some (length d, register_write k (io\<lparr>fs_os :=
     (fs_os io)\<lparr>pi_written := (pi_written (fs_os io))(fd_num (fs_fds io k) := pi_written (fs_os io) (fd_num (fs_fds io k)) @ d)\<rparr>\<rparr>))"
proof -
  have size: "bv_size (bv_of_view d) = length d" using bv_size_exact [of "bv_of_view d"] assms
    by (simp add: bv_of_view_def bv_contents_def)
  have c: "concat (map iov_base (as_iovecs (bv_of_view d))) = d" by (simp add: iovecs_contents bv_of_view_def bv_contents_def)
  obtain l where "bv_remove_prefix (bv_of_view d) (length d) = Some l"
    using bv.discard_ok [of "bv_of_view d" "length d"] assms by (auto simp: bv_of_view_def bv_contents_def)
  then show ?thesis
    unfolding fd_write_def by (subst fd_write_loop.simps) (auto simp: pipe_os_def c size Let_def SystemCall_def sz_add_def assms)
qed

lemma pipe_write:
  "length d < SIZE_MOD \<Longrightarrow> fd_num fs = 3 \<Longrightarrow> fd_write pipe_os 0 (bv_of_view d) False (pipe_io fs fi fo l r w) =
     Some (length d, pipe_io (fs\<lparr>fd_write_count := fd_write_count fs + 1\<rparr>) fi fo l r (w @ d))"
  "fd_num fo = 1 \<Longrightarrow> fd_write pipe_os 2 (bv_of_view []) False (pipe_io fs fi fo l r w) =
     Some (0, pipe_io fs fi (fo\<lparr>fd_write_count := fd_write_count fo + 1\<rparr>) l r w)"
  by (simp_all add: pipe_writev) (simp_all add: pipe_io_def register_write_def fd_update_def fun_eq_iff)

lemma pipe_finish:
  "sock_shutdown pipe_os 0 SHUT_WR (pipe_io fs fi fo l r w) = Some (pipe_io (fs\<lparr>fd_write_count := fd_write_count fs + 1\<rparr>) fi fo l r w)"
  "fd_close pipe_os 2 (pipe_io fs fi fo l r w) = Some (pipe_io fs fi (fo\<lparr>fd_eof := True, fd_closed := True\<rparr>) l r w)"
  by (simp_all add: sock_shutdown_def fd_close_def SHUT_RD_def SHUT_WR_def pipe_simps)

lemmas copy_simps = pipe_wait pipe_fds pipe_read pipe_write pipe_finish cp_rules_def add_rule_def fd_duplicate_def Let_def
  copy_new_def bs_new_def copy_buffer_size_def max_copy_length_def BUFFER_SIZE_def
  cp_input_in_def cp_socket_out_def cp_socket_in_def cp_output_out_def copy_in_def copy_out_def cp_outbound_end_def cp_inbound_end_def
  cp_input_in_interest_def cp_socket_out_interest_def cp_socket_in_interest_def cp_output_out_interest_def
  remaining_capacity_def sz_sub_def sz_add_def SIZE_MOD_def bs_accessor_defs bs_write_eq peek_output_eq pop_output_eq end_input_def
  poll_ready_def poll_defunct_def POLLIN_def POLLOUT_def POLLERR_def POLLNVAL_def POLLHUP_def service_count_def

text \<open>The states of the run.\<close>

definition demo_state1 :: "copy \<times> pipes fd_state" where
  "demo_state1 = (\<lparr>cp_outbound = stream [1, 2] 0 2 False, cp_inbound = stream [] 0 0 True,
      cp_outbound_shutdown = False, cp_inbound_shutdown = False\<rparr>,
    pipe_io (wrapper 3 True False 1 0) (wrapper 0 False False 1 0) (wrapper 1 False False 0 0) [] [1, 2] [])"

definition demo_state2 :: "copy \<times> pipes fd_state" where
  "demo_state2 = (\<lparr>cp_outbound = stream [] 2 2 True, cp_inbound = stream [] 0 0 True,
      cp_outbound_shutdown = True, cp_inbound_shutdown = True\<rparr>,
    pipe_io (wrapper 3 True False 1 2) (wrapper 0 True False 2 0) (wrapper 1 True True 0 1) [] [1, 2] [1, 2])"

lemma demo_round1:
  "wait_next_event pipe_os (- 1) (cp_rules pipe_os 0 1 2) (copy_new,
     pipe_io (wrapper 3 False False 0 0) (wrapper 0 False False 0 0) (wrapper 1 False False 0 0) [1, 2] [] []) =
   Some (Success, cp_rules pipe_os 0 1 2, demo_state1)"
  by (simp add: copy_simps demo_state1_def)

lemma demo_round2:
  "wait_next_event pipe_os (- 1) (cp_rules pipe_os 0 1 2) demo_state1 =
   Some (Success, map ((!) (cp_rules pipe_os 0 1 2)) [0, 1, 3], demo_state2)"
  by (simp add: copy_simps demo_state1_def demo_state2_def)

lemma demo_round3:
  "wait_next_event pipe_os (- 1) (map ((!) (cp_rules pipe_os 0 1 2)) [0, 1, 3]) demo_state2 =
   Some (Exit, [cp_rules pipe_os 0 1 2 ! 1], demo_state2)"
  by (simp add: copy_simps demo_state2_def)

lemmas demo_reach1 = cp_round [OF cp_begin [OF demo_start] demo_round1 el_result.distinct(3)]
lemmas demo_reach2 = cp_round [OF demo_reach1 demo_round2 el_result.distinct(3)]

section \<open>Properties\<close>

text \<open>
  C5: At every round of the copy loop, what has been written to the socket is a prefix of what was read
  from standard input, and what has been written to standard output is a prefix of what was read
  from the socket. As long as the output is not hung up, the rest is in the byte stream: nothing is
  lost, repeated or reordered.
\<close>

theorem stream_copy_keeps_order:
  assumes "copy_env os rd wr hin hout" and "cp_fresh rd wr so son io0" and "cp_reach os so io0 (rules, c, io)"
  shows "prefix (wr (fs_os io) son) (rd (fs_os io) STDIN_FILENO) \<and>
    prefix (wr (fs_os io) STDOUT_FILENO) (rd (fs_os io) son) \<and>
    (hout (fs_os io) son \<or> rd (fs_os io) STDIN_FILENO = wr (fs_os io) son @ bs_buff (cp_outbound c)) \<and>
    (hout (fs_os io) STDOUT_FILENO \<or> rd (fs_os io) son = wr (fs_os io) STDOUT_FILENO @ bs_buff (cp_inbound c))"
proof -
  obtain inp outp where "copy_run os rd wr hin hout so inp outp son" "copy_run.cp_inv rd wr hin hout so inp outp son (c, io)"
    by (rule cp_reach_inv [OF assms(3,1,2)]) (rule that)
  note d = copy_run.cp_inv_dirs [OF this]
  then show ?thesis unfolding copy_env.dir_ok_def [OF assms(1)] prefix_def by auto
qed

theorem stream_copy_keeps_order_witness:
  "pi_read (fs_os (snd demo_state1)) 0 = [1, 2] \<and>
   [1, 2] = pi_written (fs_os (snd demo_state1)) 3 @ bs_buff (cp_outbound (fst demo_state1))"
proof -
  have "cp_reach pipe_os 0 demo_pipes (cp_rules pipe_os 0 1 2, fst demo_state1, snd demo_state1)" using demo_reach1 by simp
  from stream_copy_keeps_order [OF pipes.copy_env_axioms demo_pipes_fresh this] show ?thesis
    by (simp add: STDIN_FILENO_def demo_state1_def pipe_io_def)
qed

text \<open>
  C4: When the loop is left, and not by a signal, each direction is finished: its input is at its end,
  all of it has been written to the other side, and the other side was told so (the socket is shut
  down for writing, standard output is closed) -- unless that side has hung up before.
\<close>

theorem stream_copy_exit_complete:
  assumes "copy_env os rd wr hin hout" and "cp_fresh rd wr so son io0" and "cp_reach os so io0 (rules, x)"
    and "wait_next_event os (- 1) rules x = Some (Exit, rules', c, io)" and "os_errno os (fs_os io) \<noteq> EINTR"
  shows "(hout (fs_os io) son \<or>
      wr (fs_os io) son = rd (fs_os io) STDIN_FILENO \<and> hin (fs_os io) STDIN_FILENO \<and> cp_outbound_shutdown c) \<and>
    (hout (fs_os io) STDOUT_FILENO \<or>
      wr (fs_os io) STDOUT_FILENO = rd (fs_os io) son \<and> hin (fs_os io) son \<and> cp_inbound_shutdown c)"
proof -
  obtain inp outp where run: "copy_run os rd wr hin hout so inp outp son"
    and inv: "copy_run.cp_inv rd wr hin hout so inp outp son x" and sub: "subseq rules (cp_rules os so inp outp)"
    and gone: "\<forall>r \<in> set (cp_rules os so inp outp) - set rules. copy_run.cancelled hin hout so inp outp son r x"
    by (rule cp_reach_inv [OF assms(3,1,2)]) (rule that)
  note k = copy_run.round_keeps [OF run assms(4) sub inv gone]
  have "\<forall>r \<in> set rules'. \<not> rule_interest r (c, io)"
    using copy_run.exit_idle [OF run assms(4) sub] assms(5) by simp
  from copy_run.exit_complete [OF run k(1) this k(3)] show ?thesis by blast
qed

theorem stream_copy_exit_complete_witness:
  "pi_written (fs_os (snd demo_state2)) 3 = pi_read (fs_os (snd demo_state2)) 0 \<and> cp_outbound_shutdown (fst demo_state2)"
proof -
  have r: "wait_next_event pipe_os (- 1) (map ((!) (cp_rules pipe_os 0 1 2)) [0, 1, 3]) demo_state2 =
      Some (Exit, [cp_rules pipe_os 0 1 2 ! 1], fst demo_state2, snd demo_state2)"
    and e: "os_errno pipe_os (fs_os (snd demo_state2)) \<noteq> EINTR"
    using demo_round3 by (simp_all add: pipe_os_def null_os_def EINTR_def)
  have "cp_reach pipe_os 0 demo_pipes (map ((!) (cp_rules pipe_os 0 1 2)) [0, 1, 3], demo_state2)" using demo_reach2 by simp
  from stream_copy_exit_complete [OF pipes.copy_env_axioms demo_pipes_fresh this r e] show ?thesis
    by (simp add: STDIN_FILENO_def)
qed

end
