(* ===== verification/TCP_Progress.thy ===== *)
theory TCP_Progress
  imports TCP_Network
begin

text \<open>
  What a call of a connection brings forward, for proofs that data arrives: the acknowledgment that a
  segment carries and the right edge of the window, the part of the stream that waits in a queue, the
  part that a receiver knows, and the effect of a received segment and of a tick on the sender, the
  queue and the activity of a connection.
\<close>

section \<open>Segments as the sender makes them\<close>

text \<open>A segment of the sender has neither RST nor an acknowledgment; the connection fills in the latter.\<close>

definition plain :: "tcp_segment \<Rightarrow> bool" where
  "plain seg \<longleftrightarrow> \<not> rst (header seg) \<and> \<not> ack (header seg)"

definition sn_plain :: "tcp_sender \<Rightarrow> bool" where
  "sn_plain s \<longleftrightarrow> (\<forall>seg \<in> set (sn_segments_out s) \<union> set (sn_outstanding_seg s). plain seg)"

lemma sn_plain_frame [simp]:
  "sn_plain (s\<lparr>sn_stream := st\<rparr>) = sn_plain s" "sn_plain (s\<lparr>sn_last_win := w\<rparr>) = sn_plain s"
  "sn_plain (s\<lparr>sn_timer := t\<rparr>) = sn_plain s"
  by (simp_all add: sn_plain_def)

lemma plain_header [simp]:
  "plain (seg\<lparr>header := (header seg)\<lparr>seqno := n\<rparr>\<rparr>) = plain seg" "plain (seg\<lparr>header := (header seg)\<lparr>fin := b\<rparr>\<rparr>) = plain seg"
  "plain (seg\<lparr>header := (header seg)\<lparr>syn := b\<rparr>\<rparr>) = plain seg" "plain (seg\<lparr>payload := p\<rparr>) = plain seg" "plain tcp_segment_default"
  by (simp_all add: plain_def)

lemma sn_send_segment_plain:
  "plain seg \<Longrightarrow> sn_plain s \<Longrightarrow> plain (fst (sn_send_segment s seg)) \<and> sn_plain (snd (sn_send_segment s seg))"
  by (auto simp: sn_send_segment_def sn_plain_def Let_def)

lemma if_cascade:
  "(if a then x else if b then (if c then y else z) else if d then (if e then u else x) else v) = r \<Longrightarrow>
     r = x \<or> r = y \<or> r = z \<or> r = u \<or> r = v"
  by (auto split: if_splits)

lemma fill_loop_plain:
  assumes "fill_loop w seg s = Some s'"
  shows "plain seg \<longrightarrow> sn_plain s \<longrightarrow> sn_plain s'"
proof (rule fill_loop.raw_induct [OF _ assms, where P = "\<lambda>w seg s s'. plain seg \<longrightarrow> sn_plain s \<longrightarrow> sn_plain s'"], intro impI)
  fix f :: "u16 \<Rightarrow> tcp_segment \<Rightarrow> tcp_sender \<Rightarrow> tcp_sender option" and w :: u16 and seg s s'
  assume IH: "\<And>w seg s s'. f w seg s = Some s' \<Longrightarrow> plain seg \<longrightarrow> sn_plain s \<longrightarrow> sn_plain s'"
  assume p: "plain seg" "sn_plain s"
  let ?rem = "sz_sub (unat w) (sn_bytes_in_flight s)"
  let ?rd = "bs_read (sn_stream s) (min MAX_PAYLOAD_SIZE ?rem)"
  let ?s1 = "s\<lparr>sn_stream := snd ?rd\<rparr>" and ?seg = "seg\<lparr>payload := buffer_of (fst ?rd)\<rparr>"
  define seg1 where "seg1 = (if bs_eof (sn_stream ?s1) \<and> length_in_sequence_space ?seg < ?rem
    then ?seg\<lparr>header := (header ?seg)\<lparr>fin := True\<rparr>\<rparr> else ?seg)"
  have seg1: "plain seg1" using p by (simp add: seg1_def plain_def)
  assume body: "(let remaining_win = ?rem in if remaining_win = 0 then Some s
      else if \<not> bs_eof (sn_stream s) \<and> next_seqno_absolute s > sn_bytes_in_flight s then
        let payload_size = min MAX_PAYLOAD_SIZE remaining_win; rd = bs_read (sn_stream s) payload_size;
            s = s\<lparr>sn_stream := snd rd\<rparr>; seg = seg\<lparr>payload := buffer_of (fst rd)\<rparr>;
            seg = (if bs_eof (sn_stream s) \<and> length_in_sequence_space seg < remaining_win
                   then seg\<lparr>header := (header seg)\<lparr>fin := True\<rparr>\<rparr> else seg)
        in if length_in_sequence_space seg = 0 then Some s
           else let sent = sn_send_segment s seg in f w (fst sent) (snd sent)
      else if bs_eof (sn_stream s) then
        if next_seqno_absolute s < sz_add (bytes_written (sn_stream s)) 2
        then Some (snd (sn_send_segment s (seg\<lparr>header := (header seg)\<lparr>fin := True\<rparr>\<rparr>))) else Some s
      else f w seg s) = Some s'"
  then consider "s' = s" | "s' = ?s1" | "f w (fst (sn_send_segment ?s1 seg1)) (snd (sn_send_segment ?s1 seg1)) = Some s'"
    | "s' = snd (sn_send_segment s (seg\<lparr>header := (header seg)\<lparr>fin := True\<rparr>\<rparr>))" | "f w seg s = Some s'"
    by (simp only: Let_def flip: seg1_def) (drule if_cascade, auto)
  then show "sn_plain s'"
  proof cases
    case 3
    then show ?thesis using IH sn_send_segment_plain [OF seg1, of ?s1] p(2) by simp
  next
    case 4
    then show ?thesis using p sn_send_segment_plain by simp
  qed (use IH p in auto)
qed

lemma fill_window_plain: "fill_window s = Some s' \<Longrightarrow> sn_plain s \<Longrightarrow> sn_plain s'"
  using fill_loop_plain [of _ tcp_segment_default s s']
    sn_send_segment_plain [of "tcp_segment_default\<lparr>header := tcp_header_default\<lparr>syn := True\<rparr>\<rparr>" s]
  by (auto simp: fill_window_def Let_def plain_def split: if_splits)

lemma sn_ack_received_plain:
  assumes "sn_ack_received s a w = Some s'" and "sn_plain s"
  shows "sn_plain s'"
proof -
  have "sn_plain (ack_accept s a w)"
    using assms(2) pop_acked_subset [of a "sn_outstanding_seg s"] by (auto simp: ack_accept_def sn_plain_def Let_def)
  then show ?thesis using assms fill_window_plain by (auto simp: sn_ack_received_eq split: if_splits)
qed

lemma send_empty_segment_plain: "sn_plain s \<Longrightarrow> sn_plain (send_empty_segment s)"
  by (auto simp: send_empty_segment_def sn_plain_def plain_def Let_def)

lemma sn_tick_plain: "sn_plain s \<Longrightarrow> sn_plain (sn_tick s ms)"
  by (cases "sn_outstanding_seg s") (auto simp: sn_tick_cases sn_plain_def)

section \<open>What the sender puts in the queue\<close>

lemma seg_run_sum: "seg_run S N isn a segs b \<Longrightarrow> b = a + sum_list (map seq_len segs)"
proof (induction segs arbitrary: a)
  case (Cons seg segs)
  then have "b = a + seq_len seg + sum_list (map seq_len segs)" by simp
  then show ?case by simp
qed simp

lemma grows_run:
  assumes "sn_inv S N s" and "sn_inv S N s'" and "grows new s s'"
  shows "seg_run S N (sn_isn s) (sn_next_seqno s) new (sn_next_seqno s')"
proof -
  obtain a where "seg_run S N (sn_isn s) a (sn_outstanding_seg s @ new) (sn_next_seqno s')"
    using assms(2,3) by (auto simp: sn_inv_def grows_def)
  then obtain m where m: "seg_run S N (sn_isn s) m new (sn_next_seqno s')" by (auto simp: seg_run_append)
  moreover have "m = sn_next_seqno s" using seg_run_sum [OF m] assms(3) unfolding grows_def by linarith
  ultimately show ?thesis by simp
qed

section \<open>Acknowledgments\<close>

abbreviation usable :: "u16 \<Rightarrow> u16" where
  "usable w \<equiv> if w = 0 then 1 else w"

lemma unat_usable: "unat (usable w) = max 1 (unat w)"
  by (cases "w = 0") (simp_all add: max_def unat_gt_0 Suc_le_eq)

lemma unwrap_small:
  assumes "a < 2147483648" and "b < 2147483648"
  shows "unwrap (wrap a isn) isn b = a"
  using assms by (intro seq.decode_encode) (auto simp: SIZE_MOD_def SEQ_MOD_def)

lemma seg_at_unique:
  assumes "seg_at S N isn a seg" and "seg_at S N isn b seg" and "N + 2 < SEQ_MOD"
  shows "a = b"
proof -
  have "a \<le> N + 1" "b \<le> N + 1" using assms(1,2) by (auto simp: seg_at_def split: if_splits)
  moreover have "wrap a isn = wrap b isn" using assms(1,2) by (simp add: seg_at_def)
  ultimately show ?thesis using assms(3) by (simp add: wrap_eq_iff)
qed

abbreviation sn_quiet :: "tcp_sender \<Rightarrow> bool" where
  "sn_quiet s \<equiv> sn_last_ackno s = sn_next_seqno s \<longrightarrow> sn_outstanding_seg s = []"

text \<open>An acknowledgment of everything leaves nothing outstanding, if the sequence numbers do not wrap.\<close>

lemma ack_accept_empties:
  assumes inv: "sn_inv S N s" and ack: "sn_last_ackno s < sn_next_seqno s" "unwrap (wrap (sn_next_seqno s) (sn_isn s)) (sn_isn s) (sn_last_ackno s) = sn_next_seqno s"
    and nowrap: "unat (raw_value (sn_isn s)) + N + 2 < SEQ_MOD"
  shows "sn_outstanding_seg (ack_accept s (wrap (sn_next_seqno s) (sn_isn s)) w) = []"
proof -
  let ?a = "sn_next_seqno s" and ?s = "ack_accept s (wrap (sn_next_seqno s) (sn_isn s)) w"
  obtain b where "seg_run S N (sn_isn s) b (sn_outstanding_seg s) ?a" using inv by (auto simp: sn_inv_def)
  from pop_acked_complete [OF this, of ?a] nowrap sn_inv_next_bound [OF inv]
  have pop: "\<forall>x \<in> set (pop_acked (wrap ?a (sn_isn s)) (sn_outstanding_seg s)). \<exists>c. seg_at S N (sn_isn s) c x \<and> ?a < c + seq_len x" by simp
  have out: "sn_outstanding_seg ?s = pop_acked (wrap ?a (sn_isn s)) (sn_outstanding_seg s)" "sn_next_seqno ?s = ?a" "sn_isn ?s = sn_isn s"
    using ack by (simp_all add: ack_accept_def Let_def)
  have "sn_inv S N ?s" using ack_accept_inv [OF inv] ack(2) by simp
  then obtain d where d: "seg_run S N (sn_isn s) d (sn_outstanding_seg ?s) ?a" using out(2,3) by (auto simp: sn_inv_def)
  have "x \<notin> set (sn_outstanding_seg ?s)" for x
  proof
    assume x: "x \<in> set (sn_outstanding_seg ?s)"
    then obtain c where c: "seg_at S N (sn_isn s) c x" "?a < c + seq_len x" using pop out(1) by auto
    from seg_run_mem [OF d x] obtain m where "seg_at S N (sn_isn s) m x" "m + seq_len x \<le> ?a" by blast
    with seg_at_unique [OF c(1) this(1)] c(2) nowrap show False by simp
  qed
  then show ?thesis by (cases "sn_outstanding_seg ?s") auto
qed

text \<open>An acknowledgment of something that was sent.\<close>

lemma ack_effect:
  assumes inv: "sn_inv S N s" and N: "N + 2 < 2147483648" and next0: "0 < sn_next_seqno s"
    and seg: "ack (header seg)" "ackno (header seg) = wrap a (sn_isn s)" "a \<le> sn_next_seqno s"
  obtains s' new where "acknowledge seg s = Some s'" and "sn_inv S N s'" and "sn_segments_out s' = sn_segments_out s @ new"
    and "seg_run S N (sn_isn s) (sn_next_seqno s) new (sn_next_seqno s')" and "sn_isn s' = sn_isn s"
    and "sn_last_ackno s' = max (sn_last_ackno s) a" and "sn_last_win s' = win (header seg)"
    and "sn_retransmission_count s' = (if sn_last_ackno s < a then 0 else sn_retransmission_count s)"
    and "bs_bytes_w (sn_stream s') = bs_bytes_w (sn_stream s)" and "bs_end_input (sn_stream s') = bs_end_input (sn_stream s)"
    and "bs_capacity (sn_stream s') = bs_capacity (sn_stream s)" and "bs_error (sn_stream s') = bs_error (sn_stream s)"
    and "0 < sn_last_ackno s' \<longrightarrow> window_filled (usable (win (header seg))) s' \<and>
      (sn_next_seqno s \<le> sn_last_ackno s' + unat (usable (win (header seg))) \<longrightarrow>
       sn_next_seqno s' \<le> sn_last_ackno s' + unat (usable (win (header seg))))"
    and "sn_last_ackno s' = 0 \<longrightarrow> sn_next_seqno s' = sn_next_seqno s"
    and "unat (raw_value (sn_isn s)) + N + 2 < SEQ_MOD \<longrightarrow> sn_quiet s \<longrightarrow> sn_quiet s'"
proof -
  let ?w = "win (header seg)"
  have last: "sn_last_ackno s \<le> sn_next_seqno s" "sn_next_seqno s \<le> N + 2"
    using inv sn_inv_next_bound by (auto simp: sn_inv_def)
  then have un: "unwrap (ackno (header seg)) (sn_isn s) (sn_last_ackno s) = a"
    using seg N by (simp add: unwrap_small)
  let ?s1 = "ack_accept s (ackno (header seg)) ?w"
  have i1: "sn_inv S N ?s1" using ack_accept_inv [OF inv] un seg(3) by simp
  have s1: "sn_inv S N ?s1" "sn_segments_out ?s1 = sn_segments_out s" "sn_next_seqno ?s1 = sn_next_seqno s" "sn_isn ?s1 = sn_isn s"
      "sn_last_ackno ?s1 = max (sn_last_ackno s) a" "sn_last_win ?s1 = ?w" "sn_stream ?s1 = sn_stream s"
      "sn_retransmission_count ?s1 = (if sn_last_ackno s < a then 0 else sn_retransmission_count s)"
    by (rule i1) (use un in \<open>auto simp: ack_accept_def Let_def\<close>)
  from fill_window_spec [OF s1(1)] obtain s' new where f: "fill_window ?s1 = Some s'" "sn_inv S N s'" "grows new ?s1 s'"
      "0 < sn_last_ackno ?s1 \<longrightarrow> window_filled (usable ?w) s' \<and>
        (sn_bytes_in_flight ?s1 \<le> unat (usable ?w) \<longrightarrow> sn_bytes_in_flight s' \<le> unat (usable ?w))"
    unfolding s1(6) by metis
  have run: "seg_run S N (sn_isn s) (sn_next_seqno s) new (sn_next_seqno s')"
    using grows_run [OF s1(1) f(2,3)] s1(3,4) by simp
  have a: "acknowledge seg s = Some s'" using seg un f(1) by (simp add: acknowledge_def sn_ack_received_eq)
  have g: "sn_segments_out s' = sn_segments_out s @ new" "sn_outstanding_seg s' = sn_outstanding_seg ?s1 @ new" "sn_isn s' = sn_isn s"
      "sn_last_ackno s' = max (sn_last_ackno s) a" "sn_last_win s' = ?w" "sn_next_seqno s \<le> sn_next_seqno s'"
      "sn_retransmission_count s' = (if sn_last_ackno s < a then 0 else sn_retransmission_count s)"
      "bs_bytes_w (sn_stream s') = bs_bytes_w (sn_stream s)" "bs_end_input (sn_stream s') = bs_end_input (sn_stream s)"
      "bs_capacity (sn_stream s') = bs_capacity (sn_stream s)" "bs_error (sn_stream s') = bs_error (sn_stream s)"
    using f(3) s1 by (simp_all add: grows_def)
  have bif: "sn_bytes_in_flight ?s1 = sn_next_seqno s - sn_last_ackno s'" "sn_bytes_in_flight s' = sn_next_seqno s' - sn_last_ackno s'"
    using sn_bytes_in_flight_exact [OF s1(1)] sn_bytes_in_flight_exact [OF f(2)] s1(3,5) g(4) by simp_all
  have win: "0 < sn_last_ackno s' \<longrightarrow> window_filled (usable ?w) s' \<and>
      (sn_next_seqno s \<le> sn_last_ackno s' + unat (usable ?w) \<longrightarrow> sn_next_seqno s' \<le> sn_last_ackno s' + unat (usable ?w))"
    using f(4) bif s1(5) g(4) by (simp add: le_diff_conv add.commute)
  have zero: "sn_next_seqno s' = sn_next_seqno s" if "sn_last_ackno s' = 0"
  proof -
    have "sn_next_seqno ?s1 = sn_bytes_in_flight ?s1" "0 < sn_next_seqno ?s1" using that bif(1) s1(3) next0 by simp_all
    then have "fill_window ?s1 = Some ?s1" by (simp add: fill_window_def next_seqno_absolute_def)
    with f(1) s1(3) show ?thesis by simp
  qed
  have none: "sn_outstanding_seg s' = []"
    if nowrap: "unat (raw_value (sn_isn s)) + N + 2 < SEQ_MOD" and quiet: "sn_last_ackno s = sn_next_seqno s \<longrightarrow> sn_outstanding_seg s = []"
      and all: "sn_last_ackno s' = sn_next_seqno s'"
  proof -
    have "sn_next_seqno s' = sn_next_seqno s" using all g(4,6) last(1) seg(3) by simp
    then have new: "new = []" using run seg_run_sum [OF run] by (cases new) (auto simp: seg_at_def)
    have "sn_outstanding_seg ?s1 = []"
    proof (cases "sn_last_ackno s < a")
      case False
      then have "sn_last_ackno s = sn_next_seqno s" using all g(4) \<open>sn_next_seqno s' = _\<close> by simp
      then show ?thesis using quiet un False by (simp add: ack_accept_def Let_def)
    next
      case True
      then have an: "a = sn_next_seqno s" using all g(4) \<open>sn_next_seqno s' = _\<close> by simp
      show ?thesis using ack_accept_empties [OF inv _ _ nowrap] True un unfolding seg(2) an by blast
    qed
    then show ?thesis using g(2) new by simp
  qed
  show thesis by (rule that [OF a f(2) g(1) run g(3,4,5,7,8,9,10,11) win]) (use zero none in blast)+
qed

section \<open>One segment\<close>

text \<open>A connection whose sender has handed over all its segments, none of them a RST.\<close>

definition cn_calm :: "tcp_connection \<Rightarrow> bool" where
  "cn_calm c \<longleftrightarrow> sn_plain (cn_sender c) \<and> sn_segments_out (cn_sender c) = [] \<and> (\<forall>seg \<in> set (cn_segments_out c). \<not> rst (header seg))"

text \<open>A segment that calls for no answer: it takes no sequence number and is no keep-alive probe.\<close>

definition silent :: "tcp_receiver \<Rightarrow> tcp_segment \<Rightarrow> bool" where
  "silent r seg \<longleftrightarrow> length_in_sequence_space seg = 0 \<and> \<not> wi_eq (seqno (header seg)) (wi_minus (the (rc_ackno r)) 1)"

lemma respond_eq:
  obtains extra where "respond r seg s = s\<lparr>sn_segments_out := sn_segments_out s @ extra\<rparr>"
    and "\<forall>x \<in> set extra. bare x \<and> plain x \<and> seqno (header x) = next_seqno s"
    and "length_in_sequence_space seg > 0 \<longrightarrow> sn_segments_out s @ extra \<noteq> []" and "silent r seg \<longrightarrow> extra = []"
proof -
  let ?e = "tcp_segment_default\<lparr>header := tcp_header_default\<lparr>seqno := next_seqno s\<rparr>\<rparr>"
  have e: "bare ?e" "plain ?e" by (simp_all add: bare_def plain_def)
  have e': "send_empty_segment s = s\<lparr>sn_segments_out := sn_segments_out s @ [?e]\<rparr>"
    by (simp add: send_empty_segment_def Let_def)
  show thesis
  proof (cases "length_in_sequence_space seg > 0 \<and> sn_segments_out s = []")
    case True
    then have "respond r seg s = send_empty_segment s" by (simp add: respond_def)
    then show thesis using e e' True by (intro that [of "[?e]"]) (simp_all add: silent_def)
  next
    case no: False
    show thesis
    proof (cases "rc_ackno r \<noteq> None \<and> length_in_sequence_space seg = 0 \<and> wi_eq (seqno (header seg)) (wi_minus (the (rc_ackno r)) 1)")
      case True
      then have "respond r seg s = send_empty_segment s" by (simp add: respond_def)
      then show thesis using e e' True by (intro that [of "[?e]"]) (simp_all add: silent_def)
    next
      case False
      then have "respond r seg s = s" using no by (auto simp: respond_def)
      then show thesis using no by (intro that [of "[]"]) auto
    qed
  qed
qed

lemma sender_summary_drain [simp]: "sender_summary (s\<lparr>sn_segments_out := segs\<rparr>) = sender_summary s"
  by (simp add: sender_summary_def sn_bytes_in_flight_def next_seqno_absolute_def)

lemma fill_ack_plain: "\<not> rst (header seg) \<Longrightarrow> \<not> rst (header (fill_ack r seg))"
  by simp

lemma clean_shutdown_active:
  assumes "cn_isactive c" and "sender_summary (cn_sender c) \<noteq> SENDER_FIN_ACKED \<or> receiver_summary (cn_receiver c) \<noteq> RECEIVER_FIN_RECV \<or>
    cn_linger_after_streams_finish c \<and> cn_time_since_last_segment_received c < 10 * unat (rt_timeout (cn_cfg c))"
  shows "cn_isactive (clean_shutdown c)"
  using assms by (auto simp: clean_shutdown_def)

lemma clean_shutdown_lingers:
  "bs_eof (sn_stream (cn_sender c)) \<Longrightarrow> cn_linger_after_streams_finish (clean_shutdown c) = cn_linger_after_streams_finish c"
  by (simp add: clean_shutdown_def)

lemma clean_shutdown_time [simp]:
  "cn_time_since_last_segment_received (clean_shutdown c) = cn_time_since_last_segment_received c"
  by (simp add: clean_shutdown_def)

text \<open>With both streams finished only a connection that lingers stays active.\<close>

lemma clean_shutdown_finished:
  assumes "sender_summary (cn_sender c) = SENDER_FIN_ACKED" and "receiver_summary (cn_receiver c) = RECEIVER_FIN_RECV"
  shows "cn_isactive (clean_shutdown c) \<longleftrightarrow> cn_isactive c \<and> cn_linger_after_streams_finish c \<and>
      cn_time_since_last_segment_received c < 10 * unat (rt_timeout (cn_cfg c))"
    and "cn_linger_after_streams_finish (clean_shutdown c) = cn_linger_after_streams_finish c"
proof -
  have "bs_eof (sn_stream (cn_sender c))" using assms(1) by (auto simp: sender_summary_def split: if_splits)
  then show "cn_isactive (clean_shutdown c) \<longleftrightarrow> cn_isactive c \<and> cn_linger_after_streams_finish c \<and>
      cn_time_since_last_segment_received c < 10 * unat (rt_timeout (cn_cfg c))"
    "cn_linger_after_streams_finish (clean_shutdown c) = cn_linger_after_streams_finish c"
    using assms by (auto simp: clean_shutdown_def)
qed

lemma segment_effect:
  assumes inv: "cn_inv S N c" and fits: "rc_fits (cn_receiver c) seg" and act: "cn_isactive c" "\<not> rst (header seg)"
    and calm: "cn_calm c" and next0: "0 < sn_next_seqno (cn_sender c)" and ack: "acknowledge seg (cn_sender c) = Some s"
  obtains c' r extra where "cn_segment_received c seg = Some c'" and "rc_segment_received (cn_receiver c) seg = Some r"
    and "cn_receiver c' = r" and "cn_sender c' = s\<lparr>sn_segments_out := []\<rparr>"
    and "cn_segments_out c' = cn_segments_out c @ map (fill_ack r) (sn_segments_out s @ extra)"
    and "\<forall>x \<in> set extra. bare x \<and> plain x \<and> seqno (header x) = next_seqno s"
    and "length_in_sequence_space seg > 0 \<longrightarrow> sn_segments_out s @ extra \<noteq> []" and "silent r seg \<longrightarrow> extra = []"
    and "cn_calm c'" and "cn_cfg c' = cn_cfg c" and "cn_time_since_last_segment_received c' = 0"
    and "bs_eof (sn_stream s) \<longrightarrow> cn_linger_after_streams_finish c' = cn_linger_after_streams_finish c"
    and "sender_summary s \<noteq> SENDER_FIN_ACKED \<or> receiver_summary r \<noteq> RECEIVER_FIN_RECV \<or>
      cn_linger_after_streams_finish c \<and> 0 < unat (rt_timeout (cn_cfg c)) \<longrightarrow> cn_isactive c'"
    and "sender_summary s = SENDER_FIN_ACKED \<longrightarrow> receiver_summary r = RECEIVER_FIN_RECV \<longrightarrow> cn_isactive c' \<longrightarrow> cn_linger_after_streams_finish c'"
proof -
  have "rc_inv (cn_receiver c)" using inv by (simp add: cn_inv_def)
  then obtain r where r: "rc_segment_received (cn_receiver c) seg = Some r" using rc_segment_received_total [OF _ fits] by blast
  obtain extra where e: "respond r seg s = s\<lparr>sn_segments_out := sn_segments_out s @ extra\<rparr>"
      "\<forall>x \<in> set extra. bare x \<and> plain x \<and> seqno (header x) = next_seqno s"
      "length_in_sequence_space seg > 0 \<longrightarrow> sn_segments_out s @ extra \<noteq> []" "silent r seg \<longrightarrow> extra = []"
    by (rule respond_eq)
  let ?c1 = "cn_send_segment (c\<lparr>cn_time_since_last_segment_received := 0, cn_receiver := r, cn_sender := respond r seg s\<rparr>)"
  have "sender_summary (cn_sender c) \<noteq> SENDER_CLOSED" using next0 by (simp add: sender_summary_CLOSED)
  then have c': "cn_segment_received c seg = Some (clean_shutdown ?c1)" using act r ack by (simp add: cn_segment_received_eq Let_def)
  have c1: "cn_receiver ?c1 = r" "cn_sender ?c1 = s\<lparr>sn_segments_out := []\<rparr>" "cn_cfg ?c1 = cn_cfg c" "cn_isactive ?c1 = cn_isactive c"
      "cn_time_since_last_segment_received ?c1 = 0" "cn_linger_after_streams_finish ?c1 = cn_linger_after_streams_finish c"
      "cn_segments_out ?c1 = cn_segments_out c @ map (fill_ack r) (sn_segments_out s @ extra)"
    by (simp_all add: cn_send_segment_eq e(1))
  have "sn_plain s" using ack calm sn_ack_received_plain by (auto simp: acknowledge_def cn_calm_def split: if_splits)
  then have "cn_calm (clean_shutdown ?c1)" using calm c1 e(2) by (auto simp: cn_calm_def sn_plain_def plain_def)
  moreover have "cn_isactive (clean_shutdown ?c1)"
    if "sender_summary s \<noteq> SENDER_FIN_ACKED \<or> receiver_summary r \<noteq> RECEIVER_FIN_RECV \<or>
      cn_linger_after_streams_finish c \<and> 0 < unat (rt_timeout (cn_cfg c))"
    using that act(1) c1 by (intro clean_shutdown_active) auto
  moreover have "cn_linger_after_streams_finish (clean_shutdown ?c1) = cn_linger_after_streams_finish c" if "bs_eof (sn_stream s)"
    using that c1 by (subst clean_shutdown_lingers) simp_all
  moreover have "cn_linger_after_streams_finish (clean_shutdown ?c1)"
    if "sender_summary s = SENDER_FIN_ACKED" "receiver_summary r = RECEIVER_FIN_RECV" "cn_isactive (clean_shutdown ?c1)"
    using clean_shutdown_finished [of ?c1] that c1 by simp
  ultimately show thesis using c' r c1 e(2,3,4) by (intro that [of "clean_shutdown ?c1" r extra]) simp_all
qed

section \<open>One tick\<close>

lemma sn_tick_frame [simp]:
  "sn_isn (sn_tick s ms) = sn_isn s" "sn_next_seqno (sn_tick s ms) = sn_next_seqno s" "sn_stream (sn_tick s ms) = sn_stream s"
  "sn_last_ackno (sn_tick s ms) = sn_last_ackno s" "sn_last_win (sn_tick s ms) = sn_last_win s"
  "sn_outstanding_seg (sn_tick s ms) = sn_outstanding_seg s"
  by (simp_all add: sn_tick_cases)

lemma sn_tick_out:
  obtains re where "sn_segments_out (sn_tick s ms) = sn_segments_out s @ re" and "set re \<subseteq> set (sn_outstanding_seg s)"
proof (cases "sn_segments_out (sn_tick s ms) = sn_segments_out s")
  case True
  then show thesis using that [of "[]"] by simp
next
  case False
  then have "sn_outstanding_seg s \<noteq> []" "sn_segments_out (sn_tick s ms) = sn_segments_out s @ [hd (sn_outstanding_seg s)]"
    by (auto simp: sn_tick_cases split: if_splits)
  then show thesis using that [of "[hd (sn_outstanding_seg s)]"] by simp
qed

lemma sn_tick_count:
  assumes "unat (sn_retransmission_count s) < 8"
  shows "unat (sn_retransmission_count (sn_tick s ms)) \<le> unat (sn_retransmission_count s) + 1"
    and "sn_outstanding_seg s = [] \<Longrightarrow> sn_retransmission_count (sn_tick s ms) = sn_retransmission_count s"
proof -
  have "unat (sn_retransmission_count s + 1) = unat (sn_retransmission_count s) + 1"
    using assms by (simp add: unat_word_ariths)
  then show "unat (sn_retransmission_count (sn_tick s ms)) \<le> unat (sn_retransmission_count s) + 1" by (simp add: sn_tick_cases)
qed (simp add: sn_tick_cases)

lemma tick_effect:
  assumes act: "cn_isactive c" and calm: "cn_calm c" and count: "unat (sn_retransmission_count (cn_sender c)) < 8"
  obtains c' re where "cn_tick c ms = Some c'" and "cn_receiver c' = cn_receiver c"
    and "cn_sender c' = (sn_tick (cn_sender c) ms)\<lparr>sn_segments_out := []\<rparr>"
    and "cn_segments_out c' = cn_segments_out c @ map (fill_ack (cn_receiver c)) re" and "set re \<subseteq> set (sn_outstanding_seg (cn_sender c))"
    and "cn_calm c'" and "cn_cfg c' = cn_cfg c"
    and "bs_eof (sn_stream (cn_sender c)) \<longrightarrow> cn_linger_after_streams_finish c' = cn_linger_after_streams_finish c"
    and "sender_summary (cn_sender c) \<noteq> SENDER_FIN_ACKED \<or> receiver_summary (cn_receiver c) \<noteq> RECEIVER_FIN_RECV \<longrightarrow> cn_isactive c'"
    and "cn_time_since_last_segment_received c' = sz_add (cn_time_since_last_segment_received c) ms"
    and "sender_summary (cn_sender c) = SENDER_FIN_ACKED \<longrightarrow> receiver_summary (cn_receiver c) = RECEIVER_FIN_RECV \<longrightarrow>
      (cn_isactive c' \<longleftrightarrow> cn_linger_after_streams_finish c \<and>
        sz_add (cn_time_since_last_segment_received c) ms < 10 * unat (rt_timeout (cn_cfg c)))"
proof -
  let ?s = "sn_tick (cn_sender c) ms"
  let ?c = "c\<lparr>cn_sender := ?s, cn_time_since_last_segment_received := sz_add (cn_time_since_last_segment_received c) ms\<rparr>"
  let ?c1 = "cn_send_segment ?c"
  obtain re where re: "sn_segments_out ?s = re" "set re \<subseteq> set (sn_outstanding_seg (cn_sender c))"
    using sn_tick_out [of "cn_sender c" ms] calm by (auto simp: cn_calm_def)
  have "unat (sn_retransmission_count ?s) \<le> 8" using sn_tick_count(1) [OF count, of ms] count by simp
  then have "\<not> consecutive_retransmissions ?s > MAX_RETX_ATTEMPTS"
    by (simp add: consecutive_retransmissions_def MAX_RETX_ATTEMPTS_def word_less_nat_alt)
  then have c': "cn_tick c ms = Some (clean_shutdown ?c1)" using act by (simp add: cn_tick_def active_def Let_def)
  have c1: "cn_receiver ?c1 = cn_receiver c" "cn_sender ?c1 = ?s\<lparr>sn_segments_out := []\<rparr>" "cn_cfg ?c1 = cn_cfg c" "cn_isactive ?c1"
      "cn_linger_after_streams_finish ?c1 = cn_linger_after_streams_finish c"
      "cn_segments_out ?c1 = cn_segments_out c @ map (fill_ack (cn_receiver c)) re"
      "cn_time_since_last_segment_received ?c1 = sz_add (cn_time_since_last_segment_received c) ms"
    using re(1) act by (simp_all add: cn_send_segment_eq)
  have "sn_plain ?s" using calm sn_tick_plain by (simp add: cn_calm_def)
  then have "cn_calm (clean_shutdown ?c1)" using calm c1 re(2) by (auto simp: cn_calm_def sn_plain_def plain_def)
  moreover have sum: "sender_summary ?s = sender_summary (cn_sender c)"
    by (simp add: sender_summary_def sn_bytes_in_flight_def next_seqno_absolute_def)
  then have "cn_isactive (clean_shutdown ?c1)"
    if "sender_summary (cn_sender c) \<noteq> SENDER_FIN_ACKED \<or> receiver_summary (cn_receiver c) \<noteq> RECEIVER_FIN_RECV"
    using that c1 by (intro clean_shutdown_active) auto
  moreover have "cn_linger_after_streams_finish (clean_shutdown ?c1) = cn_linger_after_streams_finish c" if "bs_eof (sn_stream (cn_sender c))"
    using that c1 by (subst clean_shutdown_lingers) simp_all
  moreover have "cn_isactive (clean_shutdown ?c1) \<longleftrightarrow> cn_linger_after_streams_finish c \<and>
      sz_add (cn_time_since_last_segment_received c) ms < 10 * unat (rt_timeout (cn_cfg c))"
    if "sender_summary (cn_sender c) = SENDER_FIN_ACKED" "receiver_summary (cn_receiver c) = RECEIVER_FIN_RECV"
    using clean_shutdown_finished(1) [of ?c1] that c1 sum by simp
  ultimately show thesis using c' c1 re by (intro that [of "clean_shutdown ?c1" re]) simp_all
qed

section \<open>What a receiver knows\<close>

text \<open>
  The sequence numbers that a receiver of \<open>N\<close> bytes has had: 0 is the SYN, \<open>N + 1\<close> the FIN. \<open>rpos\<close> is the
  number it acknowledges.
\<close>

definition rknown :: "nat \<Rightarrow> tcp_receiver \<Rightarrow> nat \<Rightarrow> bool" where
  "rknown N r p \<longleftrightarrow> rc_syn r \<and> (p = 0 \<or> 1 \<le> p \<and> p \<le> N \<and> sr_known (rc_reassembler r) (p - 1) \<or> p = N + 1 \<and> sr_eof (rc_reassembler r))"

definition rpos :: "tcp_receiver \<Rightarrow> nat" where
  "rpos r = (if rc_syn r then first_unassembled (rc_reassembler r) + 1 + of_bool (input_ended (rc_stream_out r)) else 0)"

definition rclosed :: "nat \<Rightarrow> tcp_receiver \<Rightarrow> bool" where
  "rclosed N r \<longleftrightarrow>
     (input_ended (rc_stream_out r) \<longleftrightarrow> sr_eof (rc_reassembler r) \<and> first_unassembled (rc_reassembler r) = N) \<and>
     (\<not> rc_syn r \<longrightarrow> \<not> sr_eof (rc_reassembler r) \<and> (\<forall>i. \<not> sr_known (rc_reassembler r) i))"

text \<open>The sequence numbers that a segment carries.\<close>

definition holds :: "(nat \<Rightarrow> byte) \<Rightarrow> nat \<Rightarrow> wrapping_int32 \<Rightarrow> tcp_segment \<Rightarrow> nat \<Rightarrow> bool" where
  "holds S N isn seg p \<longleftrightarrow> (\<exists>a. seg_at S N isn a seg \<and> a \<le> p \<and> p < a + seq_len seg)"

lemma holds_fill_ack [simp]: "holds S N isn (fill_ack r seg) = holds S N isn seg"
  by (simp add: holds_def seg_at_def seq_len_def fun_eq_iff)

lemma bare_holds: "bare seg \<Longrightarrow> \<not> holds S N isn seg p"
  by (auto simp: holds_def bare_def seq_len_def)

lemma holds_at:
  assumes "seg_at S N isn a seg" and "N + 2 < SEQ_MOD"
  shows "holds S N isn seg p \<longleftrightarrow> a \<le> p \<and> p < a + seq_len seg"
  using assms(1) seg_at_unique [OF assms(1) _ assms(2)] unfolding holds_def by blast

lemma seg_run_holds: "seg_run S N isn a segs b \<Longrightarrow> a \<le> p \<Longrightarrow> p < b \<Longrightarrow> \<exists>seg \<in> set segs. holds S N isn seg p"
proof (induction segs arbitrary: a)
  case (Cons seg segs)
  show ?case
  proof (cases "p < a + seq_len seg")
    case True
    then show ?thesis using Cons.prems by (auto simp: holds_def)
  next
    case False
    then show ?thesis using Cons.IH [of "a + seq_len seg"] Cons.prems by auto
  qed
qed simp

lemma rpos_known:
  assumes rx: "rx_inv S N isn r log" and cl: "rclosed N r"
  shows "p < rpos r \<Longrightarrow> rknown N r p" and "\<not> rknown N r (rpos r)"
proof -
  have fua: "first_unassembled (rc_reassembler r) \<le> N" and inv: "sr_inv (rc_reassembler r)"
    using rx_inv_assembled(1) [OF rx] rx by (auto simp: rx_inv_def rc_inv_def)
  show "rknown N r p" if "p < rpos r"
    using that fua cl by (auto simp: rknown_def rpos_def rclosed_def sr_known_def split: if_splits)
  show "\<not> rknown N r (rpos r)"
    using fua cl sr_first_unknown [OF inv] by (auto simp: rknown_def rpos_def rclosed_def split: if_splits)
qed

lemma rpos_eq:
  assumes "rx_inv S N isn r log" and "rclosed N r" and "\<And>p. rknown N r p \<longleftrightarrow> p < n"
  shows "rpos r = n"
proof -
  have "\<not> rpos r < n" using rpos_known(2) [OF assms(1,2)] assms(3) by blast
  moreover have "\<not> n < rpos r" using rpos_known(1) [OF assms(1,2), of n] assms(3) [of n] by blast
  ultimately show ?thesis by simp
qed

lemma rpos_le:
  assumes "rx_inv S N isn r log" and "rclosed N r" and "\<And>p. rknown N r p \<Longrightarrow> p < n"
  shows "rpos r \<le> n"
  using rpos_known(1) [OF assms(1,2), of n] assms(3) [of n] by force

lemma rpos_ackno:
  assumes rx: "rx_inv S N isn r log" and "rc_syn r"
  shows "rc_ackno r = Some (wrap (rpos r) isn)"
proof -
  have "first_unassembled (rc_reassembler r) \<le> N" using rx_inv_assembled(1) [OF rx] .
  then have "first_unassembled (rc_reassembler r) + 2 < SIZE_MOD" using rx by (simp add: rx_inv_def SIZE_MOD_def)
  then show ?thesis using rx assms(2) rc_ackno_exact [of r] by (simp add: rx_inv_def rpos_def)
qed

lemma sr_known_limit: "sr_inv r \<Longrightarrow> sr_known r i \<Longrightarrow> i < sr_limit r"
  using sr_core_written(2) [of r] by (fastforce simp: sr_inv_def sr_known_def segs_cover_def seg_covers_def)

text \<open>Where a segment of the peer goes: a SYN or nothing, or a part of the stream inside the window.\<close>

lemma receive_covers:
  assumes rx: "rx_inv S N isn r log" and seg: "sent_seg S N isn n seg" and n: "n \<le> sr_limit (rc_reassembler r) + 1"
    and syn: "rc_syn r \<or> syn (header seg)"
  shows "buffer_str (payload seg) = [] \<and> \<not> fin (header seg) \<and> (\<forall>p. holds S N isn seg p \<longleftrightarrow> p = 0 \<and> syn (header seg)) \<or>
    (\<forall>p. holds S N isn seg p \<longleftrightarrow>
       Suc (rc_index r seg) \<le> p \<and> p < Suc (rc_index r seg) + length (buffer_str (payload seg)) + of_bool (fin (header seg))) \<and>
    rc_index r seg + length (buffer_str (payload seg)) \<le> N \<and>
    (fin (header seg) \<longrightarrow> rc_index r seg + length (buffer_str (payload seg)) = N) \<and>
    rc_index r seg + length (buffer_str (payload seg)) \<le> sr_limit (rc_reassembler r) \<and> rc_syn r"
proof -
  have SEQ: "N + 2 < SEQ_MOD" using rx by (simp add: rx_inv_def SEQ_MOD_def)
  consider (bare) "bare seg" | (at) a where "seg_at S N isn a seg" "a + seq_len seg \<le> n" using seg by (auto simp: sent_seg_def)
  then show ?thesis
  proof cases
    case bare
    then show ?thesis using bare_holds [OF bare] by (auto simp: bare_def)
  next
    case at
    note h = holds_at [OF at(1) SEQ]
    show ?thesis
    proof (cases "a = 0")
      case True
      then show ?thesis using at(1) h by (auto simp: seg_at_def seq_len_def)
    next
      case False
      then have r: "rc_syn r" "rc_isn r = isn" and ns: "\<not> syn (header seg)" using at(1) syn rx by (auto simp: seg_at_def rx_inv_def)
      have aN: "a - 1 \<le> N" "seqno (header seg) = wrap (Suc (a - 1)) isn" using at(1) False by (auto simp: seg_at_def)
      have "first_unassembled (rc_reassembler r) \<le> N" using rx_inv_assembled(1) [OF rx] .
      then have "near r (a - 1)" using aN(1) rx by (simp add: near_def rx_inv_def Let_def)
      then have i: "rc_index r seg = a - 1" using rc_index_near [of r seg "a - 1"] r aN(2) by simp
      then have a: "a = Suc (rc_index r seg)" using False by simp
      show ?thesis using h at r(1) ns n unfolding a by (auto simp: seg_at_def seq_len_def)
    qed
  qed
qed

text \<open>A push that stays in the window makes exactly its bytes known.\<close>

lemma push_known:
  assumes inv: "sr_inv r" "sr_inv ra" and ext: "extends r d i e ra" and d: "d = [] \<or> i + length d \<le> sr_limit r"
    and eof: "sr_eof ra \<longrightarrow> sr_eof_index ra = N" and j: "j < N"
    and ended: "input_ended (sr_output r) \<Longrightarrow> first_unassembled r = N \<and> first_unassembled ra = N"
  shows "sr_known (sr_close ra) j \<longleftrightarrow> sr_known r j \<or> i \<le> j \<and> j < i + length d"
proof (cases "input_ended (sr_output r)")
  case True
  then show ?thesis using ended j by (simp add: sr_known_def)
next
  case False
  have "sr_known ra j \<longleftrightarrow> sr_known r j \<or> i \<le> j \<and> j < i + length d"
  proof (cases "j < sr_limit r")
    case True
    then show ?thesis using ext False by (simp add: extends_def)
  next
    case out: False
    have "\<not> sr_known ra j" "\<not> sr_known r j"
      using out sr_known_limit [OF inv(2)] sr_known_limit [OF inv(1)] ext by (auto simp: extends_def)
    then show ?thesis using out d by auto
  qed
  moreover have "sr_known (sr_close ra) j = sr_known ra j"
    using j eof by (auto simp: sr_close_def sr_known_def first_unassembled_def bytes_written_def end_input_def)
  ultimately show ?thesis by simp
qed

text \<open>The same in sequence numbers.\<close>

lemma rknown_push:
  assumes r': "rc_reassembler r' = sr_close ra" "rc_syn r'" and syn: "rc_syn r \<or> syn (header seg)" and cl: "rclosed N r"
    and eof: "sr_eof ra = (sr_eof (rc_reassembler r) \<or> fin (header seg))"
    and known: "\<And>j. j < N \<Longrightarrow> sr_known (sr_close ra) j \<longleftrightarrow> sr_known (rc_reassembler r) j \<or> i \<le> j \<and> j < i + length (buffer_str (payload seg))"
    and pay: "buffer_str (payload seg) = [] \<and> \<not> fin (header seg) \<and> (\<forall>p. holds S N isn seg p \<longleftrightarrow> p = 0 \<and> syn (header seg)) \<or>
        (\<forall>p. holds S N isn seg p \<longleftrightarrow> Suc i \<le> p \<and> p < Suc i + length (buffer_str (payload seg)) + of_bool (fin (header seg))) \<and>
        i + length (buffer_str (payload seg)) \<le> N \<and> (fin (header seg) \<longrightarrow> i + length (buffer_str (payload seg)) = N) \<and>
        i + length (buffer_str (payload seg)) \<le> lim \<and> rc_syn r"
  shows "rknown N r' p \<longleftrightarrow> rknown N r p \<or> holds S N isn seg p"
proof (cases "rc_syn r")
  case True
  consider "p = 0" | q where "p = Suc q" "q < N" | "p = N + 1" | "N + 1 < p" by (cases p) (auto, linarith)
  then show ?thesis
  proof cases
    case 2
    have "rknown N r p = sr_known (rc_reassembler r) q" "rknown N r' p = sr_known (sr_close ra) q" using 2 True r' by (auto simp: rknown_def)
    moreover have "holds S N isn seg p \<longleftrightarrow> i \<le> q \<and> q < i + length (buffer_str (payload seg))" using 2 pay by (elim disjE conjE) auto
    ultimately show ?thesis using known [OF 2(2)] by blast
  next
    case 3
    moreover have "holds S N isn seg p \<longleftrightarrow> fin (header seg)" using 3 pay by (elim disjE conjE) auto
    ultimately show ?thesis using True r' eof by (simp add: rknown_def)
  next
    case 4
    then have "\<not> holds S N isn seg p" using pay by (elim disjE conjE) auto
    then show ?thesis using 4 by (simp add: rknown_def)
  qed (use True r' in \<open>simp add: rknown_def\<close>)
next
  case False
  then have "syn (header seg)" "buffer_str (payload seg) = []" "\<not> fin (header seg)" "holds S N isn seg p \<longleftrightarrow> p = 0" using syn pay by auto
  moreover have "\<not> sr_eof ra" "j < N \<Longrightarrow> \<not> sr_known (sr_close ra) j" for j
    using known [of j] eof cl False calculation(2,3) by (auto simp: rclosed_def)
  ultimately show ?thesis using False r' by (cases p) (auto simp: rknown_def)
qed

lemma receive_known:
  assumes rx: "rx_inv S N isn r log" and cl: "rclosed N r" and seg: "sent_seg S N isn n seg"
    and n: "n \<le> sr_limit (rc_reassembler r) + 1" "rc_syn r \<or> n \<le> 1" and r': "rc_segment_received r seg = Some r'"
  shows "rclosed N r'" and "rknown N r' p \<longleftrightarrow> rknown N r p \<or> holds S N isn seg p"
    and "sr_limit (rc_reassembler r') = sr_limit (rc_reassembler r)"
proof -
  have rcinv: "rc_inv r" "sr_inv (rc_reassembler r)" "rc_part S N (rc_reassembler r)"
    using rx by (auto simp: rx_inv_def rc_inv_def)
  note of = sent_seg_of_stream [OF rx seg]
  show "sr_limit (rc_reassembler r') = sr_limit (rc_reassembler r)"
    using rc_segment_received_total [OF rcinv(1) of(2)] r' by auto
  have "rclosed N r' \<and> (rknown N r' p \<longleftrightarrow> rknown N r p \<or> holds S N isn seg p)"
  proof (cases "rc_syn r \<or> syn (header seg)")
    case False
    then have "bare seg" using seg n(2) by (auto simp: sent_seg_def seg_at_def)
    then show ?thesis using False r' cl bare_holds by (simp add: rc_segment_received_ignored)
  next
    case True
    let ?d = "buffer_str (payload seg)" and ?i = "rc_index r seg" and ?e = "fin (header seg)" and ?ra = "rc_reassembler r"
    obtain ra where push: "push_substring ?ra ?d ?i ?e = Some (sr_close ra)" and inv: "sr_inv ra" and ext: "extends ?ra ?d ?i ?e ra"
      using push_substring_extends [OF rcinv(2), of ?d ?i ?e] of(2) by (auto simp: rc_fits_def)
    have r'': "rc_reassembler r' = sr_close ra" "rc_syn r'" using r' push by (auto simp: rc_segment_received_push [OF True])
    note pay = receive_covers [OF rx seg n(1) True]
    have "?e \<Longrightarrow> ?i + length ?d = N" "?d = [] \<or> ?i + length ?d \<le> sr_limit ?ra" using pay by blast+
    moreover have "N < SIZE_MOD" using rx by (simp add: rx_inv_def SIZE_MOD_def)
    ultimately have eofN: "sr_eof ra \<longrightarrow> sr_eof_index ra = N" and fit: "?d = [] \<or> ?i + length ?d \<le> sr_limit ?ra"
      using ext rcinv(3) by (auto simp: extends_def rc_part_def sz_add_exact)
    have ended: "input_ended (sr_output ra) = input_ended (sr_output ?ra)" "sr_eof ra = (sr_eof ?ra \<or> ?e)"
        "input_ended (sr_output ?ra) \<Longrightarrow> first_unassembled ra = N \<and> sr_eof ra"
        "input_ended (sr_output ?ra) \<Longrightarrow> first_unassembled ?ra = N \<and> first_unassembled ra = N"
      using ext cl by (auto simp: extends_def rclosed_def rc_stream_out_def first_unassembled_def)
    have "rclosed N r'" using eofN ended r'' by (auto simp: rclosed_def rc_stream_out_def sr_close_ended)
    moreover note known = push_known [OF rcinv(2) inv ext fit eofN _ ended(4)]
    ultimately show ?thesis using rknown_push [OF r'' True cl ended(2) known pay] by blast
  qed
  then show "rclosed N r'" "rknown N r' p \<longleftrightarrow> rknown N r p \<or> holds S N isn seg p" by blast+
qed

end
