(* ===== verification/TCP_Exchange.thy ===== *)
theory TCP_Exchange
  imports TCP_Progress
begin

text \<open>
  Two connections that exchange batches of segments: what a batch of the peer's segments, in any order
  that keeps the window from shrinking, does to the sender, the receiver and the queue of a connection.
\<close>

section \<open>Acknowledgments in a batch\<close>

text \<open>The window as the sender uses it.\<close>

definition room :: "u16 \<Rightarrow> nat" where
  "room w = max 1 (unat w)"

lemma room_usable: "unat (usable w) = room w"
  by (simp only: unat_usable room_def)

text \<open>
  Acknowledgments of at most \<open>B\<close> for a sender whose last acknowledgment is \<open>l\<close>, none of which moves the
  right edge of its window back below \<open>e\<close>.
\<close>

fun ack_chain :: "wrapping_int32 \<Rightarrow> nat \<Rightarrow> nat \<Rightarrow> nat \<Rightarrow> tcp_segment list \<Rightarrow> bool" where
  "ack_chain isn B l e [] \<longleftrightarrow> True"
| "ack_chain isn B l e (seg # segs) \<longleftrightarrow>
     (if ack (header seg)
      then \<exists>a \<le> B. ackno (header seg) = wrap a isn \<and> e \<le> max l a + room (win (header seg)) \<and>
        ack_chain isn B (max l a) (max l a + room (win (header seg))) segs
      else ack_chain isn B l e segs)"

lemma ack_chain_mono: "ack_chain isn B l e segs \<Longrightarrow> B \<le> B' \<Longrightarrow> e' \<le> e \<Longrightarrow> ack_chain isn B' l e' segs"
proof (induction segs arbitrary: l e e')
  case (Cons seg segs)
  then show ?case by (auto 4 3 intro: le_trans split: if_splits)
qed simp

text \<open>The sender keeps to the window, and has used all of it, or sent all it has.\<close>

definition sn_good :: "tcp_sender \<Rightarrow> bool" where
  "sn_good s \<longleftrightarrow> sn_next_seqno s \<le> sn_last_ackno s + room (sn_last_win s) \<and>
     (0 < sn_last_ackno s \<longrightarrow> (\<exists>w. w \<noteq> 0 \<and> window_filled w s))"

text \<open>The retransmissions are counted from the last acknowledgment of something new.\<close>

definition sn_counts :: "tcp_sender \<Rightarrow> tcp_sender \<Rightarrow> bool" where
  "sn_counts s s' \<longleftrightarrow> sn_last_ackno s' = sn_last_ackno s \<and> sn_retransmission_count s' = sn_retransmission_count s \<or>
     sn_last_ackno s < sn_last_ackno s' \<and> sn_retransmission_count s' = 0"

lemma sn_counts_trans: "sn_counts s s1 \<Longrightarrow> sn_counts s1 s2 \<Longrightarrow> sn_counts s s2"
  by (auto simp: sn_counts_def)

abbreviation sn_edge :: "tcp_sender \<Rightarrow> nat" where
  "sn_edge s \<equiv> sn_last_ackno s + room (sn_last_win s)"

lemma acknowledge_effect:
  assumes inv: "sn_inv S N s" and N: "N + 2 < 2147483648" and next0: "0 < sn_next_seqno s" and good: "sn_good s"
    and chain: "ack_chain (sn_isn s) B (sn_last_ackno s) (sn_edge s) (seg # segs)" and B: "B \<le> sn_next_seqno s"
  obtains s' new where "acknowledge seg s = Some s'" and "sn_inv S N s'" and "sn_segments_out s' = sn_segments_out s @ new"
    and "seg_run S N (sn_isn s) (sn_next_seqno s) new (sn_next_seqno s')" and "sn_isn s' = sn_isn s"
    and "sn_last_ackno s \<le> sn_last_ackno s'" and "sn_last_ackno s' \<le> max (sn_last_ackno s) B"
    and "sn_counts s s'"
    and "ack (header seg) \<longrightarrow> (\<exists>a \<le> sn_last_ackno s'. ackno (header seg) = wrap a (sn_isn s))"
    and "sn_last_win s' = (if ack (header seg) then win (header seg) else sn_last_win s)"
    and "sn_last_ackno s' = 0 \<longrightarrow> sn_next_seqno s' = sn_next_seqno s"
    and "bs_bytes_w (sn_stream s') = bs_bytes_w (sn_stream s)" and "bs_end_input (sn_stream s') = bs_end_input (sn_stream s)"
    and "bs_capacity (sn_stream s') = bs_capacity (sn_stream s)" and "bs_error (sn_stream s') = bs_error (sn_stream s)" and "sn_good s'" and "ack_chain (sn_isn s) B (sn_last_ackno s') (sn_edge s') segs"
    and "unat (raw_value (sn_isn s)) + N + 2 < SEQ_MOD \<longrightarrow> sn_quiet s \<longrightarrow> sn_quiet s'"
proof (cases "ack (header seg)")
  case False
  then show thesis using assms by (intro that [of s "[]"]) (auto simp: acknowledge_def sn_counts_def)
next
  case True
  let ?w = "win (header seg)"
  obtain a where a: "a \<le> B" "ackno (header seg) = wrap a (sn_isn s)" "sn_edge s \<le> max (sn_last_ackno s) a + room ?w"
      "ack_chain (sn_isn s) B (max (sn_last_ackno s) a) (max (sn_last_ackno s) a + room ?w) segs"
    using chain True by auto
  have aB: "a \<le> sn_next_seqno s" using a(1) B by simp
  obtain s' new where f: "acknowledge seg s = Some s'" "sn_inv S N s'" "sn_segments_out s' = sn_segments_out s @ new"
      "seg_run S N (sn_isn s) (sn_next_seqno s) new (sn_next_seqno s')" "sn_isn s' = sn_isn s"
      "sn_last_ackno s' = max (sn_last_ackno s) a" "sn_last_win s' = ?w"
      "sn_retransmission_count s' = (if sn_last_ackno s < a then 0 else sn_retransmission_count s)"
      "bs_bytes_w (sn_stream s') = bs_bytes_w (sn_stream s)" "bs_end_input (sn_stream s') = bs_end_input (sn_stream s)"
      "bs_capacity (sn_stream s') = bs_capacity (sn_stream s)" "bs_error (sn_stream s') = bs_error (sn_stream s)"
    and win: "0 < sn_last_ackno s' \<longrightarrow> window_filled (usable ?w) s' \<and>
      (sn_next_seqno s \<le> sn_last_ackno s' + room ?w \<longrightarrow> sn_next_seqno s' \<le> sn_last_ackno s' + room ?w)"
    and zero: "sn_last_ackno s' = 0 \<longrightarrow> sn_next_seqno s' = sn_next_seqno s"
    and quiet: "unat (raw_value (sn_isn s)) + N + 2 < SEQ_MOD \<longrightarrow> sn_quiet s \<longrightarrow> sn_quiet s'"
    by (rule ack_effect [OF inv N next0 True a(2) aB, unfolded room_usable])
  have "sn_next_seqno s \<le> sn_last_ackno s' + room ?w" using good a(3) f(6) unfolding sn_good_def by linarith
  then have "sn_next_seqno s' \<le> sn_edge s'" "0 < sn_last_ackno s' \<Longrightarrow> window_filled (usable ?w) s'"
    unfolding f(7) using win zero by (cases "sn_last_ackno s' = 0"; simp only: not_gr_zero simp_thms)+
  moreover have "usable ?w \<noteq> 0" by simp
  ultimately have "sn_good s'" unfolding sn_good_def by blast
  moreover have "ack_chain (sn_isn s) B (sn_last_ackno s') (sn_edge s') segs" using a(4) f(6,7) by simp
  moreover have "\<exists>a \<le> sn_last_ackno s'. ackno (header seg) = wrap a (sn_isn s)" using a(2) f(6) by (intro exI [of _ a]) simp
  moreover have "sn_counts s s'" using f(6,8) by (auto simp: sn_counts_def)
  ultimately show thesis using f(6,7) a(1) True by (intro that [OF f(1-5) _ _ _ _ _ zero f(9,10,11,12) _ _ quiet]) auto
qed

section \<open>What a receiver announces\<close>

definition advertised :: "tcp_receiver \<Rightarrow> u16" where
  "advertised r = (if rc_window_size r \<le> 65535 then of_nat (rc_window_size r) else 65535)"

lemma unat_advertised: "unat (advertised r) = min 65535 (rc_window_size r)"
proof (cases "rc_window_size r \<le> 65535")
  case True
  then have "unat (of_nat (rc_window_size r) :: u16) = rc_window_size r" by (simp add: unat_of_nat)
  then show ?thesis using True by (simp add: advertised_def)
qed (simp add: advertised_def)

abbreviation rc_edge :: "tcp_receiver \<Rightarrow> nat" where
  "rc_edge r \<equiv> rpos r + room (advertised r)"

lemma fill_ack_fields:
  assumes "rx_inv T M pisn r log" and "rc_syn r"
  shows "ack (header (fill_ack r seg))" and "ackno (header (fill_ack r seg)) = wrap (rpos r) pisn"
    and "win (header (fill_ack r seg)) = advertised r"
  using rpos_ackno [OF assms] by (simp_all add: fill_ack_def advertised_def)

lemma fill_ack_none: "\<not> rc_syn r \<Longrightarrow> fill_ack r seg = seg"
  by (simp add: fill_ack_def rc_ackno_def)

text \<open>A receiver that has had more neither acknowledges less nor moves its edge back.\<close>

lemma rc_edge_mono:
  assumes rx: "rx_inv T M pisn r log" "rx_inv T M pisn r' log'"
    and cl: "rclosed M r'" and lim: "sr_limit (rc_reassembler r) \<le> sr_limit (rc_reassembler r')" and syn: "rc_syn r \<longrightarrow> rc_syn r'"
    and le: "first_unassembled (rc_reassembler r) \<le> first_unassembled (rc_reassembler r')"
      "input_ended (rc_stream_out r) \<longrightarrow> input_ended (rc_stream_out r')"
  shows "rpos r \<le> rpos r'" and "rc_edge r \<le> rc_edge r'"
proof -
  let ?f = "first_unassembled (rc_reassembler r)" and ?f' = "first_unassembled (rc_reassembler r')"
  show pos: "rpos r \<le> rpos r'" using syn le by (auto simp: rpos_def)
  have "rc_window_size r = sr_limit (rc_reassembler r) - ?f" "rc_window_size r' = sr_limit (rc_reassembler r') - ?f'"
    using rc_window_size_exact(1) rx by (auto simp: rx_inv_def)
  then have "?f + room (advertised r) \<le> ?f' + room (advertised r')"
    using lim le(1) unfolding room_def unat_advertised by linarith
  moreover have "rpos r + ?f' \<le> rpos r' + ?f \<or> \<not> rc_syn r" using syn le by (auto simp: rpos_def)
  moreover have "rc_edge r \<le> rc_edge r'" if "\<not> rc_syn r"
    using that calculation(1) le(1) cl by (cases "?f' = 0") (auto simp: rpos_def rclosed_def sr_known_def)
  ultimately show "rc_edge r \<le> rc_edge r'" using syn le by (auto simp: rpos_def)
qed

text \<open>The segments that a connection queued while its receiver went from \<open>r\<close> to \<open>r'\<close>, put before others.\<close>

definition acks_on :: "wrapping_int32 \<Rightarrow> nat \<Rightarrow> tcp_receiver \<Rightarrow> tcp_segment list \<Rightarrow> tcp_receiver \<Rightarrow> bool" where
  "acks_on pisn B r new r' \<longleftrightarrow> (\<forall>l e segs. l \<le> rpos r \<longrightarrow> e \<le> rc_edge r \<longrightarrow>
     (\<forall>l' e'. l' \<le> rpos r' \<longrightarrow> e' \<le> rc_edge r' \<longrightarrow> ack_chain pisn B l' e' segs) \<longrightarrow> ack_chain pisn B l e (new @ segs))"

lemma acks_on_refl: "acks_on pisn B r [] r"
  by (simp add: acks_on_def)

lemma acks_on_trans: "acks_on pisn B r new r1 \<Longrightarrow> acks_on pisn B r1 rest r2 \<Longrightarrow> acks_on pisn B r (new @ rest) r2"
  by (simp add: acks_on_def)

lemma acks_on_fill:
  assumes rx: "rx_inv T M pisn r' log'" and "rpos r \<le> rpos r'" and "rc_edge r \<le> rc_edge r'" and B: "rpos r' \<le> B"
    and plain: "\<forall>x \<in> set segs. plain x"
  shows "acks_on pisn B r (map (fill_ack r') segs) r'"
proof -
  have "ack_chain pisn B l e (map (fill_ack r') segs @ rest)"
    if "l \<le> rpos r'" "e \<le> rc_edge r'" "\<forall>l e. l \<le> rpos r' \<longrightarrow> e \<le> rc_edge r' \<longrightarrow> ack_chain pisn B l e rest" for l e rest
    using that plain
  proof (induction segs arbitrary: l e)
    case (Cons seg segs)
    show ?case
    proof (cases "rc_syn r'")
      case True
      then show ?thesis using Cons fill_ack_fields [OF rx True, of seg] B by (auto simp: max_absorb2 intro!: exI [of _ "rpos r'"])
    next
      case False
      then show ?thesis using Cons fill_ack_none [OF False, of seg] by (auto simp: plain_def)
    qed
  qed simp
  then show ?thesis using assms(2,3) unfolding acks_on_def by (meson le_trans)
qed

section \<open>A batch of segments\<close>

text \<open>
  A connection at work. \<open>S\<close>, \<open>N\<close> and \<open>isn\<close> belong to its own stream, \<open>T\<close>, \<open>M\<close> and \<open>pisn\<close> to the peer's.
\<close>

definition going :: "(nat \<Rightarrow> byte) \<Rightarrow> nat \<Rightarrow> (nat \<Rightarrow> byte) \<Rightarrow> nat \<Rightarrow> wrapping_int32 \<Rightarrow> wrapping_int32 \<Rightarrow> bytes \<Rightarrow> tcp_connection \<Rightarrow> bool" where
  "going S N T M isn pisn log c \<longleftrightarrow> ep_inv S N T M isn pisn (ep c log) \<and> N + 2 < 2147483648 \<and> cn_isactive c \<and> cn_calm c \<and>
     0 < sn_next_seqno (cn_sender c) \<and> sn_good (cn_sender c) \<and> rclosed M (cn_receiver c) \<and>
     \<not> bs_error (sn_stream (cn_sender c)) \<and> \<not> bs_error (rc_stream_out (cn_receiver c))"

text \<open>The same of a connection that may be over.\<close>

abbreviation sound :: "(nat \<Rightarrow> byte) \<Rightarrow> nat \<Rightarrow> (nat \<Rightarrow> byte) \<Rightarrow> nat \<Rightarrow> wrapping_int32 \<Rightarrow> wrapping_int32 \<Rightarrow> bytes \<Rightarrow> tcp_connection \<Rightarrow> bool" where
  "sound S N T M isn pisn log c \<equiv> going S N T M isn pisn log (c\<lparr>cn_isactive := True\<rparr>)"

lemma sound_frame [simp]:
  "ep_inv S N T M isn pisn (ep (c\<lparr>cn_isactive := b\<rparr>) log) = ep_inv S N T M isn pisn (ep c log)"
  "cn_calm (c\<lparr>cn_isactive := b\<rparr>) = cn_calm c"
  by (simp_all add: ep_inv_def cn_inv_def cn_calm_def)

definition acks_upto :: "wrapping_int32 \<Rightarrow> nat \<Rightarrow> nat \<Rightarrow> nat \<Rightarrow> tcp_segment \<Rightarrow> bool" where
  "acks_upto pisn M cap k seg \<longleftrightarrow> (ack (header seg) \<longrightarrow> (\<exists>a \<le> k. ackno (header seg) = wrap a pisn) \<and>
     unat (win (header seg)) \<le> cap \<and> (M = 0 \<longrightarrow> unat (win (header seg)) = min 65535 cap))"

text \<open>The whole stream is in sequence numbers, or there is nothing to send but the FIN.\<close>

definition all_sent :: "nat \<Rightarrow> tcp_sender \<Rightarrow> bool" where
  "all_sent N s \<longleftrightarrow> N = 0 \<and> bs_end_input (sn_stream s) \<or> sn_next_seqno s = N + 2"

lemma all_sent_eof: "sn_inv S N s \<Longrightarrow> all_sent N s \<Longrightarrow> bs_eof (sn_stream s)"
  by (auto simp: all_sent_def sn_inv_def stream_part_def seq_phase_def bs_eof_def buffer_empty_def input_ended_def)

text \<open>
  From \<open>c\<close> to \<open>c'\<close> the connection has had \<open>segs\<close>, whose acknowledgments are at most \<open>B\<close>, and queued \<open>new\<close>: first
  what its sender has done, then its receiver.
\<close>

definition sends :: "(nat \<Rightarrow> byte) \<Rightarrow> nat \<Rightarrow> wrapping_int32 \<Rightarrow> nat \<Rightarrow> tcp_segment list \<Rightarrow> tcp_segment list \<Rightarrow> tcp_sender \<Rightarrow> tcp_sender \<Rightarrow> bool" where
  "sends S N isn B segs new s s' \<longleftrightarrow>
     bs_bytes_w (sn_stream s') = bs_bytes_w (sn_stream s) \<and> bs_end_input (sn_stream s') = bs_end_input (sn_stream s) \<and>
     bs_capacity (sn_stream s') = bs_capacity (sn_stream s) \<and>
     sn_last_ackno s \<le> sn_last_ackno s' \<and> sn_last_ackno s' \<le> max (sn_last_ackno s) B \<and> sn_next_seqno s \<le> sn_next_seqno s' \<and>
     sn_counts s s' \<and> (all_sent N s \<longrightarrow> all_sent N s') \<and> (sn_last_ackno s' = 0 \<longrightarrow> sn_next_seqno s' = sn_next_seqno s) \<and>
     (\<forall>W. unat (sn_last_win s) \<le> W \<longrightarrow> (\<forall>seg \<in> set segs. ack (header seg) \<longrightarrow> unat (win (header seg)) \<le> W) \<longrightarrow> unat (sn_last_win s') \<le> W) \<and>
     (\<forall>seg \<in> set segs. ack (header seg) \<longrightarrow> (\<exists>a \<le> sn_last_ackno s'. ackno (header seg) = wrap a isn)) \<and>
     (\<forall>p. sn_next_seqno s \<le> p \<longrightarrow> p < sn_next_seqno s' \<longrightarrow> (\<exists>seg \<in> set new. holds S N isn seg p)) \<and>
     (unat (raw_value isn) + N + 2 < SEQ_MOD \<longrightarrow> sn_quiet s \<longrightarrow> sn_quiet s')"

definition receives :: "(nat \<Rightarrow> byte) \<Rightarrow> nat \<Rightarrow> wrapping_int32 \<Rightarrow> tcp_segment list \<Rightarrow> tcp_segment list \<Rightarrow> tcp_receiver \<Rightarrow> tcp_receiver \<Rightarrow> bool" where
  "receives T M pisn segs new r r' \<longleftrightarrow>
     sr_limit (rc_reassembler r') = sr_limit (rc_reassembler r) \<and> rc_capacity r' = rc_capacity r \<and> rpos r \<le> rpos r' \<and>
     (\<forall>p. rknown M r' p \<longleftrightarrow> rknown M r p \<or> (\<exists>seg \<in> set segs. holds T M pisn seg p)) \<and>
     (rpos r' = rpos r \<or> (\<exists>seg \<in> set new. ack (header seg) \<and> ackno (header seg) = wrap (rpos r') pisn)) \<and>
     (\<forall>seg \<in> set new. acks_upto pisn M (rc_capacity r) (rpos r') seg) \<and>
     (\<forall>B. rpos r' \<le> B \<longrightarrow> acks_on pisn B r new r')"

text \<open>What a connection still sends once the peer has had its whole stream of \<open>M\<close> bytes and the FIN.\<close>

definition done_seg :: "nat \<Rightarrow> wrapping_int32 \<Rightarrow> tcp_segment \<Rightarrow> bool" where
  "done_seg M pisn seg \<longleftrightarrow> bare seg \<and> seqno (header seg) = wrap (M + 2) pisn"

definition brings :: "(nat \<Rightarrow> byte) \<Rightarrow> nat \<Rightarrow> (nat \<Rightarrow> byte) \<Rightarrow> nat \<Rightarrow> wrapping_int32 \<Rightarrow> wrapping_int32 \<Rightarrow> nat \<Rightarrow>
    tcp_segment list \<Rightarrow> tcp_segment list \<Rightarrow> tcp_connection \<Rightarrow> tcp_connection \<Rightarrow> bool" where
  "brings S N T M isn pisn B segs new c c' \<longleftrightarrow>
     cn_segments_out c' = cn_segments_out c @ new \<and> cn_cfg c' = cn_cfg c \<and>
     cn_time_since_last_segment_received c' = (if segs = [] then cn_time_since_last_segment_received c else 0) \<and>
     (all_sent N (cn_sender c) \<longrightarrow> cn_linger_after_streams_finish c' = cn_linger_after_streams_finish c) \<and>
     sends S N isn B segs new (cn_sender c) (cn_sender c') \<and> receives T M pisn segs new (cn_receiver c) (cn_receiver c') \<and>
     (sn_next_seqno (cn_sender c') = sn_next_seqno (cn_sender c) \<longrightarrow>
       (\<forall>seg \<in> set new. bare seg \<and> seqno (header seg) = wrap (sn_next_seqno (cn_sender c)) isn) \<and>
       (rpos (cn_receiver c) = M + 2 \<longrightarrow> rpos (cn_receiver c') = M + 2 \<longrightarrow> (\<forall>seg \<in> set segs. done_seg M pisn seg) \<longrightarrow> new = []))"

lemma sendsD:
  assumes "sends S N isn B segs new s s'"
  shows "bs_bytes_w (sn_stream s') = bs_bytes_w (sn_stream s)" and "bs_end_input (sn_stream s') = bs_end_input (sn_stream s)"
    and "sn_last_ackno s \<le> sn_last_ackno s'" and "sn_last_ackno s' \<le> max (sn_last_ackno s) B"
    and "sn_next_seqno s \<le> sn_next_seqno s'" and "sn_counts s s'" and "sn_last_ackno s' = 0 \<longrightarrow> sn_next_seqno s' = sn_next_seqno s"
    and "\<forall>W. unat (sn_last_win s) \<le> W \<longrightarrow> (\<forall>seg \<in> set segs. ack (header seg) \<longrightarrow> unat (win (header seg)) \<le> W) \<longrightarrow> unat (sn_last_win s') \<le> W"
    and "\<forall>seg \<in> set segs. ack (header seg) \<longrightarrow> (\<exists>a \<le> sn_last_ackno s'. ackno (header seg) = wrap a isn)"
    and "\<forall>p. sn_next_seqno s \<le> p \<longrightarrow> p < sn_next_seqno s' \<longrightarrow> (\<exists>seg \<in> set new. holds S N isn seg p)"
    and "unat (raw_value isn) + N + 2 < SEQ_MOD \<longrightarrow> sn_quiet s \<longrightarrow> sn_quiet s'"
    and "bs_capacity (sn_stream s') = bs_capacity (sn_stream s)" and "all_sent N s \<longrightarrow> all_sent N s'"
  by (insert assms, unfold sends_def) (elim conjE, assumption)+

lemma sends_trans:
  assumes "sends S N isn B segs new s s1" and "sends S N isn B segs' new' s1 s2"
  shows "sends S N isn B (segs @ segs') (new @ new') s s2"
proof -
  note h1 = sendsD [OF assms(1)] and h2 = sendsD [OF assms(2)]
  have "\<forall>p. sn_next_seqno s \<le> p \<longrightarrow> p < sn_next_seqno s2 \<longrightarrow> (\<exists>seg \<in> set (new @ new'). holds S N isn seg p)"
    using h1(10) h2(10) by (metis UnI1 UnI2 not_less set_append)
  moreover have "\<forall>seg \<in> set (segs @ segs'). ack (header seg) \<longrightarrow> (\<exists>a \<le> sn_last_ackno s2. ackno (header seg) = wrap a isn)"
  proof (intro ballI impI)
    fix seg
    assume "seg \<in> set (segs @ segs')" and a: "ack (header seg)"
    then consider "seg \<in> set segs" | "seg \<in> set segs'" by auto
    then show "\<exists>a \<le> sn_last_ackno s2. ackno (header seg) = wrap a isn"
      using h1(9) h2(9) h2(3) a le_trans by cases blast+
  qed
  moreover have "sn_counts s s2" using sn_counts_trans [OF h1(6) h2(6)] .
  moreover have "\<forall>W. unat (sn_last_win s) \<le> W \<longrightarrow> (\<forall>seg \<in> set (segs @ segs'). ack (header seg) \<longrightarrow> unat (win (header seg)) \<le> W) \<longrightarrow>
      unat (sn_last_win s2) \<le> W"
    using h1(8) h2(8) by simp
  ultimately show ?thesis unfolding sends_def using h1(1-5,7,11,12,13) h2(1-5,7,11,12,13) by auto
qed

lemma acks_upto_mono: "acks_upto pisn M cap k seg \<Longrightarrow> k \<le> k' \<Longrightarrow> acks_upto pisn M cap k' seg"
  by (auto simp: acks_upto_def intro: le_trans)

lemma receivesD:
  assumes "receives T M pisn segs new r r'"
  shows "sr_limit (rc_reassembler r') = sr_limit (rc_reassembler r)" and "rc_capacity r' = rc_capacity r" and "rpos r \<le> rpos r'"
    and "\<forall>p. rknown M r' p \<longleftrightarrow> rknown M r p \<or> (\<exists>seg \<in> set segs. holds T M pisn seg p)"
    and "rpos r' = rpos r \<or> (\<exists>seg \<in> set new. ack (header seg) \<and> ackno (header seg) = wrap (rpos r') pisn)"
    and "\<forall>seg \<in> set new. acks_upto pisn M (rc_capacity r) (rpos r') seg"
    and "\<forall>B. rpos r' \<le> B \<longrightarrow> acks_on pisn B r new r'"
  by (insert assms, unfold receives_def) (elim conjE, assumption)+

lemma receives_trans:
  assumes "receives T M pisn segs new r r1" and "receives T M pisn segs' new' r1 r2"
  shows "receives T M pisn (segs @ segs') (new @ new') r r2"
proof -
  note h1 = receivesD [OF assms(1)] and h2 = receivesD [OF assms(2)]
  have "\<forall>B. rpos r2 \<le> B \<longrightarrow> acks_on pisn B r (new @ new') r2"
  proof (intro allI impI)
    fix B
    assume B: "rpos r2 \<le> B"
    then have "rpos r1 \<le> B" using h2(3) by simp
    then show "acks_on pisn B r (new @ new') r2" using acks_on_trans h1(7) h2(7) B by blast
  qed
  moreover have "\<forall>seg \<in> set (new @ new'). acks_upto pisn M (rc_capacity r) (rpos r2) seg"
    using h1(6) h2(6) [unfolded h1(2)] h2(3) acks_upto_mono by auto
  moreover have "rpos r2 = rpos r \<or> (\<exists>seg \<in> set (new @ new'). ack (header seg) \<and> ackno (header seg) = wrap (rpos r2) pisn)"
    using h1(5) h2(5) by auto
  moreover have "\<forall>p. rknown M r2 p \<longleftrightarrow> rknown M r p \<or> (\<exists>seg \<in> set (segs @ segs'). holds T M pisn seg p)"
    using h1(4) h2(4) by auto
  ultimately show ?thesis unfolding receives_def using h1(1-3) h2(1-3) by simp
qed

lemma bringsD:
  assumes "brings S N T M isn pisn B segs new c c'"
  shows "cn_segments_out c' = cn_segments_out c @ new" and "cn_cfg c' = cn_cfg c"
    and "all_sent N (cn_sender c) \<longrightarrow> cn_linger_after_streams_finish c' = cn_linger_after_streams_finish c"
    and "sends S N isn B segs new (cn_sender c) (cn_sender c')" and "receives T M pisn segs new (cn_receiver c) (cn_receiver c')"
    and "sn_next_seqno (cn_sender c') = sn_next_seqno (cn_sender c) \<longrightarrow>
       (\<forall>seg \<in> set new. bare seg \<and> seqno (header seg) = wrap (sn_next_seqno (cn_sender c)) isn) \<and>
       (rpos (cn_receiver c) = M + 2 \<longrightarrow> rpos (cn_receiver c') = M + 2 \<longrightarrow> (\<forall>seg \<in> set segs. done_seg M pisn seg) \<longrightarrow> new = [])"
    and "cn_time_since_last_segment_received c' = (if segs = [] then cn_time_since_last_segment_received c else 0)"
  by (insert assms, unfold brings_def) (elim conjE, assumption)+

lemma brings_trans:
  assumes "brings S N T M isn pisn B segs new c c1" and "brings S N T M isn pisn B segs' new' c1 c2"
  shows "brings S N T M isn pisn B (segs @ segs') (new @ new') c c2"
proof -
  note h1 = bringsD [OF assms(1)] and h2 = bringsD [OF assms(2)]
  have "(\<forall>seg \<in> set (new @ new'). bare seg \<and> seqno (header seg) = wrap (sn_next_seqno (cn_sender c)) isn) \<and>
      (rpos (cn_receiver c) = M + 2 \<longrightarrow> rpos (cn_receiver c2) = M + 2 \<longrightarrow> (\<forall>seg \<in> set (segs @ segs'). done_seg M pisn seg) \<longrightarrow> new @ new' = [])"
    if "sn_next_seqno (cn_sender c2) = sn_next_seqno (cn_sender c)"
  proof -
    have n: "sn_next_seqno (cn_sender c1) = sn_next_seqno (cn_sender c)" "sn_next_seqno (cn_sender c2) = sn_next_seqno (cn_sender c1)"
      using that sendsD(5) [OF h1(4)] sendsD(5) [OF h2(4)] by simp_all
    have r: "rpos (cn_receiver c) \<le> rpos (cn_receiver c1)" "rpos (cn_receiver c1) \<le> rpos (cn_receiver c2)"
      using receivesD(3) h1(5) h2(5) by blast+
    show ?thesis using h1(6) h2(6) n r by auto
  qed
  then show ?thesis unfolding brings_def
    using sends_trans [OF h1(4) h2(4)] receives_trans [OF h1(5) h2(5)] h1(1-3,7) h2(1-3,7) sendsD(13) [OF h1(4)] by simp
qed

lemma brings_refl: "brings S N T M isn pisn B [] [] c c"
  by (simp add: brings_def sends_def receives_def acks_on_refl sn_counts_def)

subsection \<open>One segment\<close>

lemma rpos_same:
  assumes "rx_inv T M pisn r log" and "rclosed M r" and "rx_inv T M pisn r' log'" and "rclosed M r'"
    and "\<And>p. rknown M r' p = rknown M r p"
  shows "rpos r' = rpos r"
  using rpos_known [OF assms(1,2)] rpos_known [OF assms(3,4)] assms(5) by (metis linorder_neqE_nat)

lemma acks_upto_fill:
  assumes rx: "rx_inv T M pisn r log" and "plain seg" and "rpos r \<le> k"
  shows "acks_upto pisn M (rc_capacity r) k (fill_ack r seg)"
proof (cases "rc_syn r")
  case True
  have inv: "rc_inv r" using rx by (simp add: rx_inv_def)
  have w: "rc_window_size r = rc_capacity r - buffer_size (rc_stream_out r)" using rc_window_size_exact(2) [OF inv] .
  have "buffer_size (rc_stream_out r) \<le> M"
    using rx_inv_assembled(1) [OF rx] sr_core_written(1) [of "rc_reassembler r"] inv
    by (simp add: rc_inv_def sr_inv_def rc_stream_out_def buffer_size_def)
  then show ?thesis
    using fill_ack_fields [OF rx True, of seg] assms(3) w by (auto simp: acks_upto_def unat_advertised)
next
  case False
  then show ?thesis using assms(2) by (simp add: fill_ack_none acks_upto_def plain_def)
qed

lemma receives_segment:
  assumes rx: "rx_inv T M pisn r log" and cl: "rclosed M r" and seg: "sent_seg T M pisn n seg"
    and n: "n \<le> sr_limit (rc_reassembler r) + 1" "rc_syn r \<or> n \<le> 1" and r': "rc_segment_received r seg = Some r'"
    and outs: "\<forall>x \<in> set outs. plain x" "length_in_sequence_space seg > 0 \<Longrightarrow> outs \<noteq> []"
  shows "receives T M pisn [seg] (map (fill_ack r') outs) r r'" and "rclosed M r'" and "rx_inv T M pisn r' log"
proof -
  note k = receive_known [OF rx cl seg n r']
  show rx': "rx_inv T M pisn r' log" using rx_inv_segment [OF rx seg r'] .
  show cl': "rclosed M r'" by (rule k(1))
  have inv: "rc_inv r" "rc_inv r'" using rx rx' by (auto simp: rx_inv_def)
  have tot: "rc_capacity r' = rc_capacity r" "rc_syn r \<longrightarrow> rc_syn r'" "input_ended (rc_stream_out r) \<longrightarrow> input_ended (rc_stream_out r')"
      "first_unassembled (rc_reassembler r) \<le> first_unassembled (rc_reassembler r')"
    using rc_segment_received_total [OF inv(1) sent_seg_of_stream(2) [OF rx seg]] r' by auto
  have lim: "sr_limit (rc_reassembler r) \<le> sr_limit (rc_reassembler r')" using k(3) by simp
  note mono = rc_edge_mono [OF rx rx' cl' lim tot(2,4,3)]
  have "rpos r' = rpos r \<or> (\<exists>x \<in> set (map (fill_ack r') outs). ack (header x) \<and> ackno (header x) = wrap (rpos r') pisn)"
  proof (cases "rpos r' = rpos r")
    case False
    have "\<not> bare seg" using rpos_same [OF rx cl rx' cl'] False k(2) bare_holds by blast
    moreover have "length (buffer_str (payload seg)) \<le> MAX_PAYLOAD_SIZE" using seg by (auto simp: sent_seg_def bare_def seg_at_def)
    ultimately have "length_in_sequence_space seg \<noteq> 0"
      by (subst length_in_sequence_space_0_iff) (auto simp: bare_def MAX_PAYLOAD_SIZE_def SIZE_MOD_def)
    then obtain x where "x \<in> set outs" using outs(2) by (cases outs) auto
    moreover have "rc_syn r'" using False mono(1) by (auto simp: rpos_def split: if_splits)
    ultimately show ?thesis using fill_ack_fields [OF rx'] by auto
  qed simp
  then show "receives T M pisn [seg] (map (fill_ack r') outs) r r'"
    using k(2,3) tot(1) mono(1) acks_upto_fill [OF rx'] outs(1) acks_on_fill [OF rx' mono _ outs(1)]
    unfolding receives_def by simp
qed

lemma acknowledge_plain: "acknowledge seg s = Some s' \<Longrightarrow> sn_plain s \<Longrightarrow> sn_plain s'"
  using sn_ack_received_plain by (auto simp: acknowledge_def split: if_splits)

definition stays :: "nat \<Rightarrow> nat \<Rightarrow> tcp_connection \<Rightarrow> bool" where
  "stays N B c \<longleftrightarrow> B < N + 2 \<and> sn_last_ackno (cn_sender c) < N + 2 \<or>
     all_sent N (cn_sender c) \<and> cn_linger_after_streams_finish c \<and> 0 < unat (rt_timeout (cn_cfg c))"

lemma fin_acked_last:
  assumes "sn_inv S N s" and "sender_summary s = SENDER_FIN_ACKED"
  shows "sn_last_ackno s = N + 2"
  using sender_summary_FIN_ACKED [OF assms(1)] assms stream_part_written
  by (auto simp: sn_inv_def bs_eof_def input_ended_def stream_part_def)

lemma done_seg_silent:
  assumes rx: "rx_inv T M pisn r log" and r: "rpos r = M + 2" and seg: "done_seg M pisn seg"
  shows "silent r seg"
proof -
  have "rc_syn r" using r by (auto simp: rpos_def split: if_splits)
  then have "rc_ackno r = Some (wrap (M + 2) pisn)" using rpos_ackno [OF rx] r by simp
  moreover have "length_in_sequence_space seg = 0"
    using seg by (subst length_in_sequence_space_0_iff) (auto simp: done_seg_def bare_def SIZE_MOD_def)
  moreover have "\<not> wi_eq w (wi_minus w 1)" for w by (cases w) (simp add: wi_eq_def wi_minus_def wi_plus_def)
  ultimately show ?thesis using seg by (simp add: silent_def done_seg_def)
qed

text \<open>The sender's part of one segment, whatever the connection answers beside it.\<close>

lemma sends_segment:
  assumes inv: "sn_inv S N s" and N: "N + 2 < 2147483648" and next0: "0 < sn_next_seqno s" and good: "sn_good s"
    and chain: "ack_chain (sn_isn s) B (sn_last_ackno s) (sn_edge s) (seg # segs)" and B: "B \<le> sn_next_seqno s"
  obtains s' new where "acknowledge seg s = Some s'" and "sn_inv S N s'" and "sn_segments_out s' = sn_segments_out s @ new" and "sn_isn s' = sn_isn s"
    and "\<forall>r extra. sends S N (sn_isn s) B [seg] (map (fill_ack r) (new @ extra)) s (s'\<lparr>sn_segments_out := []\<rparr>)"
    and "sn_next_seqno s' = sn_next_seqno s \<longrightarrow> new = []" and "sn_next_seqno s \<le> sn_next_seqno s'"
    and "sn_last_ackno s' \<le> max (sn_last_ackno s) B" and "bs_error (sn_stream s') = bs_error (sn_stream s)" and "sn_good s'"
    and "ack_chain (sn_isn s) B (sn_last_ackno s') (sn_edge s') segs" and "all_sent N s \<longrightarrow> all_sent N s'"
proof -
  obtain s' new where s': "acknowledge seg s = Some s'" "sn_inv S N s'" "sn_segments_out s' = sn_segments_out s @ new"
      "seg_run S N (sn_isn s) (sn_next_seqno s) new (sn_next_seqno s')" "sn_isn s' = sn_isn s"
      "sn_last_ackno s \<le> sn_last_ackno s'" "sn_last_ackno s' \<le> max (sn_last_ackno s) B" "sn_counts s s'"
      "ack (header seg) \<longrightarrow> (\<exists>a \<le> sn_last_ackno s'. ackno (header seg) = wrap a (sn_isn s))" "sn_last_win s' = (if ack (header seg) then win (header seg) else sn_last_win s)"
      "sn_last_ackno s' = 0 \<longrightarrow> sn_next_seqno s' = sn_next_seqno s"
      "bs_bytes_w (sn_stream s') = bs_bytes_w (sn_stream s)" "bs_end_input (sn_stream s') = bs_end_input (sn_stream s)"
      "bs_capacity (sn_stream s') = bs_capacity (sn_stream s)" "bs_error (sn_stream s') = bs_error (sn_stream s)"
      "sn_good s'" "ack_chain (sn_isn s) B (sn_last_ackno s') (sn_edge s') segs"
      "unat (raw_value (sn_isn s)) + N + 2 < SEQ_MOD \<longrightarrow> sn_quiet s \<longrightarrow> sn_quiet s'"
    by (rule acknowledge_effect [OF assms])
  note le = seg_run_le [OF s'(4)]
  have sent: "all_sent N s'" if "all_sent N s"
    using that s'(13) le sn_inv_next_bound [OF s'(2)] by (auto simp: all_sent_def)
  have none: "new = []" if "sn_next_seqno s' = sn_next_seqno s"
    using seg_run_sum [OF s'(4)] s'(4) that by (cases new) (auto simp: seg_at_def)
  have "sends S N (sn_isn s) B [seg] (map (fill_ack r) (new @ extra)) s (s'\<lparr>sn_segments_out := []\<rparr>)" for r extra
  proof -
    have "\<exists>x \<in> set (map (fill_ack r) (new @ extra)). holds S N (sn_isn s) x p" if p: "sn_next_seqno s \<le> p" "p < sn_next_seqno s'" for p
    proof -
      obtain x where "x \<in> set new" "holds S N (sn_isn s) x p" using seg_run_holds [OF s'(4) p] by blast
      then show ?thesis by (intro bexI [of _ "fill_ack r x"]) simp_all
    qed
    moreover have "sn_counts s (s'\<lparr>sn_segments_out := []\<rparr>)" using s'(8) by (simp add: sn_counts_def)
    moreover have "all_sent N (s'\<lparr>sn_segments_out := []\<rparr>)" if "all_sent N s" using sent [OF that] by (simp add: all_sent_def)
    ultimately show ?thesis using s'(6,7,9,10,11,12,13,14,18) le unfolding sends_def by simp
  qed
  then show thesis using that [OF s'(1,2,3,5) _ _ le s'(7,15,16,17)] none sent by blast
qed

lemma segment_step:
  assumes go: "going S N T M isn pisn log c" and seg: "sent_seg T M pisn n seg" "\<not> rst (header seg)"
    and n: "n \<le> sr_limit (rc_reassembler (cn_receiver c)) + 1" "rc_syn (cn_receiver c) \<or> n \<le> 1"
    and chain: "ack_chain isn B (sn_last_ackno (cn_sender c)) (sn_edge (cn_sender c)) (seg # segs)"
    and B: "B \<le> sn_next_seqno (cn_sender c)"
  obtains c' new where "cn_segment_received c seg = Some c'" and "sound S N T M isn pisn log c'"
    and "brings S N T M isn pisn B [seg] new c c'"
    and "ack_chain isn B (sn_last_ackno (cn_sender c')) (sn_edge (cn_sender c')) segs"
    and "stays N B c \<longrightarrow> cn_isactive c'" and "cn_time_since_last_segment_received c' = 0"
    and "cn_isactive c' \<or> sn_last_ackno (cn_sender c') = N + 2 \<and> input_ended (rc_stream_out (cn_receiver c'))"
    and "sender_summary (cn_sender c') = SENDER_FIN_ACKED \<longrightarrow> receiver_summary (cn_receiver c') = RECEIVER_FIN_RECV \<longrightarrow>
      cn_isactive c' \<longrightarrow> cn_linger_after_streams_finish c'"
proof -
  let ?s = "cn_sender c" and ?r = "cn_receiver c"
  have ep: "ep_inv S N T M isn pisn (ep c log)" and N: "N + 2 < 2147483648" and act: "cn_isactive c" and calm: "cn_calm c"
    and next0: "0 < sn_next_seqno ?s" and good: "sn_good ?s" and cl: "rclosed M ?r" and err: "\<not> bs_error (sn_stream ?s)" "\<not> bs_error (rc_stream_out ?r)"
    using go by (auto simp: going_def)
  have cn: "cn_inv S N c" "sn_inv S N ?s" "sn_isn ?s = isn" "rx_inv T M pisn ?r log" using ep by (auto simp: ep_inv_def cn_inv_def)
  obtain s new where s: "acknowledge seg ?s = Some s" "sn_inv S N s" "sn_segments_out s = sn_segments_out ?s @ new" "sn_isn s = isn"
      "\<forall>r extra. sends S N isn B [seg] (map (fill_ack r) (new @ extra)) ?s (s\<lparr>sn_segments_out := []\<rparr>)"
      "sn_next_seqno s = sn_next_seqno ?s \<longrightarrow> new = []" "sn_next_seqno ?s \<le> sn_next_seqno s" "sn_last_ackno s \<le> max (sn_last_ackno ?s) B"
      "bs_error (sn_stream s) = bs_error (sn_stream ?s)" "sn_good s" "ack_chain isn B (sn_last_ackno s) (sn_edge s) segs"
      "all_sent N ?s \<longrightarrow> all_sent N s"
    by (rule sends_segment [OF cn(2) N next0 good chain [folded cn(3)] B, unfolded cn(3)])
  have out: "sn_segments_out s = new" using s(3) calm by (simp add: cn_calm_def)
  obtain c' r extra where c': "cn_segment_received c seg = Some c'" "rc_segment_received ?r seg = Some r" "cn_receiver c' = r"
      "cn_sender c' = s\<lparr>sn_segments_out := []\<rparr>" "cn_segments_out c' = cn_segments_out c @ map (fill_ack r) (sn_segments_out s @ extra)"
      "\<forall>x \<in> set extra. bare x \<and> plain x \<and> seqno (header x) = next_seqno s"
      "length_in_sequence_space seg > 0 \<longrightarrow> sn_segments_out s @ extra \<noteq> []" "silent r seg \<longrightarrow> extra = []"
      "cn_calm c'" "cn_cfg c' = cn_cfg c" "cn_time_since_last_segment_received c' = 0"
      "bs_eof (sn_stream s) \<longrightarrow> cn_linger_after_streams_finish c' = cn_linger_after_streams_finish c"
      "sender_summary s \<noteq> SENDER_FIN_ACKED \<or> receiver_summary r \<noteq> RECEIVER_FIN_RECV \<or>
        cn_linger_after_streams_finish c \<and> 0 < unat (rt_timeout (cn_cfg c)) \<longrightarrow> cn_isactive c'"
      "sender_summary s = SENDER_FIN_ACKED \<longrightarrow> receiver_summary r = RECEIVER_FIN_RECV \<longrightarrow> cn_isactive c' \<longrightarrow> cn_linger_after_streams_finish c'"
    by (rule segment_effect [OF cn(1) sent_seg_of_stream(2) [OF cn(4) seg(1)] act seg(2) calm next0 s(1)])
  have outs: "\<forall>x \<in> set (new @ extra). plain x"
    using acknowledge_plain [OF s(1)] calm out c'(6) by (auto simp: cn_calm_def sn_plain_def)
  note rc = receives_segment [OF cn(4) cl seg(1) n c'(2) outs c'(7) [unfolded out, rule_format]]
  have "all_sent N ?s \<longrightarrow> bs_eof (sn_stream s)" using all_sent_eof [OF s(2)] s(12) by blast
  moreover have "(\<forall>x \<in> set (map (fill_ack r) (new @ extra)). bare x \<and> seqno (header x) = wrap (sn_next_seqno ?s) isn) \<and>
      (rpos ?r = M + 2 \<longrightarrow> rpos r = M + 2 \<longrightarrow> (\<forall>seg \<in> set [seg]. done_seg M pisn seg) \<longrightarrow> map (fill_ack r) (new @ extra) = [])"
    if same: "sn_next_seqno s = sn_next_seqno ?s"
  proof -
    have "next_seqno s = wrap (sn_next_seqno ?s) isn" using same s(4) by (simp add: next_seqno_def)
    moreover have "rpos r = M + 2 \<Longrightarrow> done_seg M pisn seg \<Longrightarrow> silent r seg" using done_seg_silent [OF rc(3)] by blast
    ultimately show ?thesis using c'(6,8) s(6) same by (auto simp: bare_def)
  qed
  ultimately have "brings S N T M isn pisn B [seg] (map (fill_ack r) (new @ extra)) c c'"
    using c'(5,10,11,12) rc(1) s(5) out unfolding brings_def c'(3,4) by simp
  moreover have "stays N B c \<longrightarrow> cn_isactive c'"
  proof
    assume stay: "stays N B c"
    note fin_acked_last [OF s(2)]
    then have "sender_summary s \<noteq> SENDER_FIN_ACKED \<or> cn_linger_after_streams_finish c \<and> 0 < unat (rt_timeout (cn_cfg c))"
      using stay s(8) unfolding stays_def by linarith
    then show "cn_isactive c'" using c'(13) by blast
  qed
  moreover have "cn_isactive c' \<or> sn_last_ackno (cn_sender c') = N + 2 \<and> input_ended (rc_stream_out (cn_receiver c'))"
    using c'(3,4,13) fin_acked_last [OF s(2)] by (auto simp: receiver_summary_FIN_RECV)
  moreover have "bs_error (rc_stream_out r) = bs_error (rc_stream_out ?r)"
    using rc_segment_received_total [OF _ sent_seg_of_stream(2) [OF cn(4) seg(1)]] cn(4) c'(2) by (auto simp: rx_inv_def)
  then have "sound S N T M isn pisn log c'"
    using ep_takes_segment [OF ep seg(1) c'(1)] N c'(3,4,9) next0 s(7,9,10) rc(2) err
    by (simp add: going_def sn_good_def window_filled_def sn_bytes_in_flight_def)
  moreover have "ack_chain isn B (sn_last_ackno (cn_sender c')) (sn_edge (cn_sender c')) segs" using s(11) c'(4) by simp
  moreover have "sender_summary (cn_sender c') = SENDER_FIN_ACKED \<longrightarrow> receiver_summary (cn_receiver c') = RECEIVER_FIN_RECV \<longrightarrow>
      cn_isactive c' \<longrightarrow> cn_linger_after_streams_finish c'" using c'(3,4,14) by simp
  ultimately show thesis using that [OF c'(1)] c'(11) by blast
qed

lemma sound_active: "sound S N T M isn pisn log c \<Longrightarrow> cn_isactive c \<Longrightarrow> going S N T M isn pisn log c"
  by (cases c) simp

lemma segment_brings:
  assumes "going S N T M isn pisn log c" and "sent_seg T M pisn n seg" "\<not> rst (header seg)"
    and "n \<le> sr_limit (rc_reassembler (cn_receiver c)) + 1" "rc_syn (cn_receiver c) \<or> n \<le> 1"
    and "ack_chain isn B (sn_last_ackno (cn_sender c)) (sn_edge (cn_sender c)) (seg # segs)"
    and "B \<le> sn_next_seqno (cn_sender c)" and "stays N B c"
  obtains c' new where "cn_segment_received c seg = Some c'" and "going S N T M isn pisn log c'"
    and "brings S N T M isn pisn B [seg] new c c'"
    and "ack_chain isn B (sn_last_ackno (cn_sender c')) (sn_edge (cn_sender c')) segs"
  by (rule segment_step [OF assms(1-7)]) (use assms(8) sound_active that in blast)

subsection \<open>The batch\<close>

lemma stays_brings: "stays N B c \<Longrightarrow> brings S N T M isn pisn B segs new c c' \<Longrightarrow> stays N B c'"
  using bringsD(2-4) [of S N T M isn pisn B segs new c c'] sendsD(4,13) [OF bringsD(4) [of S N T M isn pisn B segs new c c']]
  unfolding stays_def by auto

lemma batch_brings:
  assumes "going S N T M isn pisn log c" and "\<forall>seg \<in> set segs. sent_seg T M pisn n seg \<and> \<not> rst (header seg)"
    and "n \<le> sr_limit (rc_reassembler (cn_receiver c)) + 1" and "rc_syn (cn_receiver c) \<or> n \<le> 1"
    and "ack_chain isn B (sn_last_ackno (cn_sender c)) (sn_edge (cn_sender c)) segs"
    and "B \<le> sn_next_seqno (cn_sender c)" and "stays N B c"
  shows "\<exists>c' new. run_steps cn_segment_received c segs = Some c' \<and> going S N T M isn pisn log c' \<and>
    brings S N T M isn pisn B segs new c c' \<and> stays N B c'"
  using assms
proof (induction segs arbitrary: c)
  case Nil
  then show ?case using brings_refl [of S N T M isn pisn B c] by (intro exI [of _ c] exI [of _ "[]"]) simp
next
  case (Cons seg segs)
  have seg: "sent_seg T M pisn n seg" "\<not> rst (header seg)" using Cons.prems(2) by auto
  obtain c1 new where c1: "cn_segment_received c seg = Some c1" "going S N T M isn pisn log c1"
      "brings S N T M isn pisn B [seg] new c c1" "ack_chain isn B (sn_last_ackno (cn_sender c1)) (sn_edge (cn_sender c1)) segs"
    by (rule segment_brings [OF Cons.prems(1) seg Cons.prems(3-7)])
  have "sr_limit (rc_reassembler (cn_receiver c1)) = sr_limit (rc_reassembler (cn_receiver c))"
      "rknown M (cn_receiver c) 0 \<longrightarrow> rknown M (cn_receiver c1) 0" "sn_next_seqno (cn_sender c) \<le> sn_next_seqno (cn_sender c1)"
    using receivesD(1,4) [OF bringsD(5) [OF c1(3)]] sendsD(5) [OF bringsD(4) [OF c1(3)]] by simp_all
  then have "n \<le> sr_limit (rc_reassembler (cn_receiver c1)) + 1" "rc_syn (cn_receiver c1) \<or> n \<le> 1" "B \<le> sn_next_seqno (cn_sender c1)"
    using Cons.prems(3,4,6) by (auto simp: rknown_def)
  with Cons.IH [OF c1(2) _ _ _ c1(4)] stays_brings [OF Cons.prems(7) c1(3)] Cons.prems(2)
  obtain c' new' where c': "run_steps cn_segment_received c1 segs = Some c'" "going S N T M isn pisn log c'"
      "brings S N T M isn pisn B segs new' c1 c'" "stays N B c'" by auto
  have "brings S N T M isn pisn B (seg # segs) (new @ new') c c'" using brings_trans [OF c1(3) c'(3)] by simp
  with c1(1) c'(1,2,4) show ?case by auto
qed

section \<open>Filling the window\<close>

text \<open>What the calls that let the sender send leave of a connection: \<open>c'\<close> has queued more of the stream.\<close>

definition fills :: "(nat \<Rightarrow> byte) \<Rightarrow> nat \<Rightarrow> wrapping_int32 \<Rightarrow> tcp_connection \<Rightarrow> tcp_connection \<Rightarrow> bool" where
  "fills S N isn c c' \<longleftrightarrow>
     cn_receiver c' = cn_receiver c \<and> cn_cfg c' = cn_cfg c \<and> cn_isactive c' = cn_isactive c \<and>
     cn_linger_after_streams_finish c' = cn_linger_after_streams_finish c \<and>
     bs_capacity (sn_stream (cn_sender c')) = bs_capacity (sn_stream (cn_sender c)) \<and>
     sn_last_ackno (cn_sender c') = sn_last_ackno (cn_sender c) \<and> sn_last_win (cn_sender c') = sn_last_win (cn_sender c) \<and>
     sn_retransmission_count (cn_sender c') = sn_retransmission_count (cn_sender c) \<and>
     sn_next_seqno (cn_sender c) \<le> sn_next_seqno (cn_sender c') \<and>
     (sn_last_ackno (cn_sender c) = 0 \<longrightarrow> 0 < sn_next_seqno (cn_sender c) \<longrightarrow> sn_next_seqno (cn_sender c') = sn_next_seqno (cn_sender c)) \<and>
     (\<exists>outs. cn_segments_out c' = cn_segments_out c @ map (fill_ack (cn_receiver c)) outs \<and> (\<forall>x \<in> set outs. plain x) \<and>
       (\<forall>p. sn_next_seqno (cn_sender c) \<le> p \<longrightarrow> p < sn_next_seqno (cn_sender c') \<longrightarrow> (\<exists>x \<in> set outs. holds S N isn x p)))"

lemma fills_refl: "fills S N isn c c"
  by (simp add: fills_def)

lemma fills_trans:
  assumes "fills S N isn c c1" and "fills S N isn c1 c2"
  shows "fills S N isn c c2"
proof -
  obtain o1 where o1: "cn_segments_out c1 = cn_segments_out c @ map (fill_ack (cn_receiver c)) o1" "\<forall>x \<in> set o1. plain x"
      "\<forall>p. sn_next_seqno (cn_sender c) \<le> p \<longrightarrow> p < sn_next_seqno (cn_sender c1) \<longrightarrow> (\<exists>x \<in> set o1. holds S N isn x p)"
    using assms(1) unfolding fills_def by blast
  obtain o2 where o2: "cn_segments_out c2 = cn_segments_out c1 @ map (fill_ack (cn_receiver c1)) o2" "\<forall>x \<in> set o2. plain x"
      "\<forall>p. sn_next_seqno (cn_sender c1) \<le> p \<longrightarrow> p < sn_next_seqno (cn_sender c2) \<longrightarrow> (\<exists>x \<in> set o2. holds S N isn x p)"
    using assms(2) unfolding fills_def by blast
  have r: "cn_receiver c1 = cn_receiver c" using assms(1) by (simp add: fills_def)
  have "\<exists>x \<in> set (o1 @ o2). holds S N isn x p"
    if "sn_next_seqno (cn_sender c) \<le> p" "p < sn_next_seqno (cn_sender c2)" for p
    using o1(3) [rule_format, OF that(1)] o2(3) [rule_format, OF _ that(2)] by (cases "p < sn_next_seqno (cn_sender c1)") force+
  moreover have "cn_segments_out c2 = cn_segments_out c @ map (fill_ack (cn_receiver c)) (o1 @ o2)" using o1(1) o2(1) r by simp
  moreover have "\<forall>x \<in> set (o1 @ o2). plain x" using o1(2) o2(2) by auto
  ultimately have "\<exists>outs. cn_segments_out c2 = cn_segments_out c @ map (fill_ack (cn_receiver c)) outs \<and> (\<forall>x \<in> set outs. plain x) \<and>
      (\<forall>p. sn_next_seqno (cn_sender c) \<le> p \<longrightarrow> p < sn_next_seqno (cn_sender c2) \<longrightarrow> (\<exists>x \<in> set outs. holds S N isn x p))"
    by blast
  then show ?thesis using assms unfolding fills_def by (elim conjE) simp
qed

lemma fill_fills:
  assumes calm: "cn_calm c" and edge: "sn_next_seqno (cn_sender c) \<le> sn_edge (cn_sender c)" and isn: "sn_isn (cn_sender c) = isn"
    and inv: "sn_inv S N ((cn_sender c)\<lparr>sn_stream := st\<rparr>)" and f: "fill_window ((cn_sender c)\<lparr>sn_stream := st\<rparr>) = Some s'"
    and cap: "bs_capacity st = bs_capacity (sn_stream (cn_sender c))"
  shows "fills S N isn c (cn_send_segment (c\<lparr>cn_sender := s'\<rparr>))" and "cn_calm (cn_send_segment (c\<lparr>cn_sender := s'\<rparr>))"
    and "0 < sn_next_seqno (cn_sender c) \<Longrightarrow> sn_good (cn_sender (cn_send_segment (c\<lparr>cn_sender := s'\<rparr>)))"
    and "bs_end_input (sn_stream s') = bs_end_input st" and "bs_bytes_w (sn_stream s') = bs_bytes_w st"
    and "sn_next_seqno (cn_sender c) = 0 \<Longrightarrow> sn_next_seqno s' = 1" and "bs_error (sn_stream s') = bs_error st"
proof -
  let ?s = "(cn_sender c)\<lparr>sn_stream := st\<rparr>" and ?c = "cn_send_segment (c\<lparr>cn_sender := s'\<rparr>)"
  from fill_window_spec [OF inv] f obtain new where s': "sn_inv S N s'" "grows new ?s s'"
    and syn: "sn_next_seqno ?s = 0 \<longrightarrow> sn_next_seqno s' = 1"
    and full: "0 < sn_last_ackno ?s \<longrightarrow> window_filled (usable (sn_last_win ?s)) s' \<and>
        (sn_bytes_in_flight ?s \<le> unat (usable (sn_last_win ?s)) \<longrightarrow> sn_bytes_in_flight s' \<le> unat (usable (sn_last_win ?s)))"
    by (metis option.inject)
  have run: "seg_run S N isn (sn_next_seqno (cn_sender c)) new (sn_next_seqno s')"
    using grows_run [OF inv s'] isn by simp
  have out: "sn_segments_out s' = new" using s'(2) calm by (simp add: grows_def cn_calm_def)
  have pl: "sn_plain s'" using fill_window_plain [OF f] calm by (simp add: cn_calm_def)
  have zero: "sn_next_seqno s' = sn_next_seqno (cn_sender c)" if "sn_last_ackno (cn_sender c) = 0" "0 < sn_next_seqno (cn_sender c)"
  proof -
    have "sn_next_seqno ?s = sn_bytes_in_flight ?s" using sn_bytes_in_flight_exact [OF inv] that(1) by simp
    then have "fill_window ?s = Some ?s" using that(2) by (simp add: fill_window_def next_seqno_absolute_def)
    with f have "s' = ?s" by simp
    then show ?thesis by simp
  qed
  have c: "cn_sender ?c = s'\<lparr>sn_segments_out := []\<rparr>" "cn_segments_out ?c = cn_segments_out c @ map (fill_ack (cn_receiver c)) new"
    using out by (simp_all add: cn_send_segment_eq)
  have "\<exists>outs. cn_segments_out ?c = cn_segments_out c @ map (fill_ack (cn_receiver c)) outs \<and> (\<forall>x \<in> set outs. plain x) \<and>
      (\<forall>p. sn_next_seqno (cn_sender c) \<le> p \<longrightarrow> p < sn_next_seqno (cn_sender ?c) \<longrightarrow> (\<exists>x \<in> set outs. holds S N isn x p))"
    using c pl out seg_run_holds [OF run] by (intro exI [of _ new]) (simp add: sn_plain_def)
  then show "fills S N isn c ?c"
    using s'(2) zero cap unfolding fills_def c(1) by (simp add: grows_def cn_send_segment_eq)
  show "cn_calm ?c" using calm pl c out by (auto simp: cn_calm_def sn_plain_def plain_def)
  show "bs_end_input (sn_stream s') = bs_end_input st" "bs_bytes_w (sn_stream s') = bs_bytes_w st" "bs_error (sn_stream s') = bs_error st" using s'(2) by (simp_all add: grows_def)
  show "sn_next_seqno (cn_sender c) = 0 \<Longrightarrow> sn_next_seqno s' = 1" using syn by simp
  assume next0: "0 < sn_next_seqno (cn_sender c)"
  have g: "sn_last_ackno s' = sn_last_ackno (cn_sender c)" "sn_last_win s' = sn_last_win (cn_sender c)" using s'(2) by (simp_all add: grows_def)
  have bif: "sn_bytes_in_flight ?s = sn_next_seqno (cn_sender c) - sn_last_ackno (cn_sender c)" "sn_bytes_in_flight s' = sn_next_seqno s' - sn_last_ackno s'"
    using sn_bytes_in_flight_exact [OF inv] sn_bytes_in_flight_exact [OF s'(1)] by simp_all
  have "sn_next_seqno s' \<le> sn_edge s' \<and> (0 < sn_last_ackno s' \<longrightarrow> window_filled (usable (sn_last_win s')) s')"
  proof (cases "sn_last_ackno (cn_sender c) = 0")
    case True
    then show ?thesis using zero next0 edge g by simp
  next
    case False
    then have "window_filled (usable (sn_last_win ?s)) s'" "sn_bytes_in_flight ?s \<le> room (sn_last_win ?s) \<longrightarrow> sn_bytes_in_flight s' \<le> room (sn_last_win ?s)"
      using full unfolding room_usable by simp_all
    moreover have w: "sn_last_win ?s = sn_last_win s'" using g(2) by simp
    ultimately have "window_filled (usable (sn_last_win s')) s'"
      "sn_bytes_in_flight ?s \<le> room (sn_last_win s') \<longrightarrow> sn_bytes_in_flight s' \<le> room (sn_last_win s')"
      unfolding w by blast+
    moreover have "sn_bytes_in_flight ?s \<le> room (sn_last_win s')" using edge bif(1) g(2) by simp
    ultimately have "window_filled (usable (sn_last_win s')) s'" "sn_next_seqno s' \<le> sn_edge s'" using bif(2) by linarith+
    then show ?thesis by blast
  qed
  moreover have "usable (sn_last_win s') \<noteq> 0" by simp
  ultimately have "sn_good s'" unfolding sn_good_def by blast
  then show "sn_good (cn_sender ?c)" unfolding c(1) by (simp add: sn_good_def window_filled_def sn_bytes_in_flight_def)
qed

section \<open>Ticks, reads and moved queues\<close>

lemma going_drain: "going S N T M isn pisn log c \<Longrightarrow> going S N T M isn pisn log (c\<lparr>cn_segments_out := []\<rparr>)"
  by (simp add: going_def cn_calm_def ep_inv_def cn_inv_def)

lemma last_fin_acked:
  assumes inv: "sn_inv S N s" and "\<not> bs_error (sn_stream s)" and last: "sn_last_ackno s = N + 2"
  shows "sender_summary s = SENDER_FIN_ACKED"
proof -
  have "sn_next_seqno s = N + 2" using sn_inv_next_bound [OF inv] inv last by (auto simp: sn_inv_def)
  moreover from this have "bs_eof (sn_stream s)" using all_sent_eof [OF inv] by (simp add: all_sent_def)
  moreover from this have "bs_bytes_w (sn_stream s) = N" using inv stream_part_written by (auto simp: sn_inv_def bs_eof_def input_ended_def stream_part_def)
  ultimately show ?thesis using sender_summary_FIN_ACKED [OF inv] assms(2) last by simp
qed

lemma tick_sound:
  assumes go: "going S N T M isn pisn log c" and count: "unat (sn_retransmission_count (cn_sender c)) < 8"
  obtains c' re where "cn_tick c ms = Some c'" and "sound S N T M isn pisn log c'" and "cn_receiver c' = cn_receiver c"
    and "cn_sender c' = (sn_tick (cn_sender c) ms)\<lparr>sn_segments_out := []\<rparr>"
    and "cn_segments_out c' = cn_segments_out c @ map (fill_ack (cn_receiver c)) re" and "\<forall>x \<in> set re. plain x"
    and "set re \<subseteq> set (sn_outstanding_seg (cn_sender c))"
    and "cn_cfg c' = cn_cfg c" and "bs_eof (sn_stream (cn_sender c)) \<longrightarrow> cn_linger_after_streams_finish c' = cn_linger_after_streams_finish c"
    and "cn_time_since_last_segment_received c' = sz_add (cn_time_since_last_segment_received c) ms"
    and "cn_isactive c' \<longleftrightarrow> sn_last_ackno (cn_sender c) < N + 2 \<or> \<not> input_ended (rc_stream_out (cn_receiver c)) \<or>
      cn_linger_after_streams_finish c \<and> sz_add (cn_time_since_last_segment_received c) ms < 10 * unat (rt_timeout (cn_cfg c))"
proof -
  have ep: "ep_inv S N T M isn pisn (ep c log)" and N: "N + 2 < 2147483648" and act: "cn_isactive c" and calm: "cn_calm c"
    and next0: "0 < sn_next_seqno (cn_sender c)" and good: "sn_good (cn_sender c)" and cl: "rclosed M (cn_receiver c)"
    and err: "\<not> bs_error (sn_stream (cn_sender c))" "\<not> bs_error (rc_stream_out (cn_receiver c))"
    using go by (auto simp: going_def)
  have sn: "sn_inv S N (cn_sender c)" using ep by (auto simp: ep_inv_def cn_inv_def)
  obtain c' re where c': "cn_tick c ms = Some c'" "cn_receiver c' = cn_receiver c" "cn_sender c' = (sn_tick (cn_sender c) ms)\<lparr>sn_segments_out := []\<rparr>"
      "cn_segments_out c' = cn_segments_out c @ map (fill_ack (cn_receiver c)) re" "set re \<subseteq> set (sn_outstanding_seg (cn_sender c))"
      "cn_calm c'" "cn_cfg c' = cn_cfg c"
      "bs_eof (sn_stream (cn_sender c)) \<longrightarrow> cn_linger_after_streams_finish c' = cn_linger_after_streams_finish c"
      "sender_summary (cn_sender c) \<noteq> SENDER_FIN_ACKED \<or> receiver_summary (cn_receiver c) \<noteq> RECEIVER_FIN_RECV \<longrightarrow> cn_isactive c'"
      "cn_time_since_last_segment_received c' = sz_add (cn_time_since_last_segment_received c) ms"
      "sender_summary (cn_sender c) = SENDER_FIN_ACKED \<longrightarrow> receiver_summary (cn_receiver c) = RECEIVER_FIN_RECV \<longrightarrow>
        (cn_isactive c' \<longleftrightarrow> cn_linger_after_streams_finish c \<and>
          sz_add (cn_time_since_last_segment_received c) ms < 10 * unat (rt_timeout (cn_cfg c)))"
    by (rule tick_effect [OF act calm count])
  have "sn_last_ackno (cn_sender c) \<le> N + 2" using sn sn_inv_next_bound [OF sn] by (auto simp: sn_inv_def)
  then have "sender_summary (cn_sender c) = SENDER_FIN_ACKED \<longleftrightarrow> \<not> sn_last_ackno (cn_sender c) < N + 2"
    using fin_acked_last [OF sn] last_fin_acked [OF sn err(1)] by auto
  moreover have "receiver_summary (cn_receiver c) = RECEIVER_FIN_RECV \<longleftrightarrow> input_ended (rc_stream_out (cn_receiver c))"
    using err(2) cl by (auto simp: receiver_summary_FIN_RECV rclosed_def)
  ultimately have "cn_isactive c' \<longleftrightarrow> sn_last_ackno (cn_sender c) < N + 2 \<or> \<not> input_ended (rc_stream_out (cn_receiver c)) \<or>
      cn_linger_after_streams_finish c \<and> sz_add (cn_time_since_last_segment_received c) ms < 10 * unat (rt_timeout (cn_cfg c))"
    using c'(9,11) by blast
  moreover have "sn_good (cn_sender c')" using good unfolding c'(3) by (simp add: sn_good_def window_filled_def sn_bytes_in_flight_def)
  then have "sound S N T M isn pisn log c'"
    using ep_takes_tick [OF ep c'(1)] N c'(2,3,6) next0 cl err by (simp add: going_def)
  moreover have "\<forall>x \<in> set re. plain x" using c'(5) calm by (auto simp: cn_calm_def sn_plain_def)
  ultimately show thesis using that [OF c'(1) _ c'(2,3,4) _ c'(5,7,8,10)] by blast
qed

lemma tick_going:
  assumes go: "going S N T M isn pisn log c" and count: "unat (sn_retransmission_count (cn_sender c)) < 8"
    and still: "sn_last_ackno (cn_sender c) < N + 2 \<or> \<not> input_ended (rc_stream_out (cn_receiver c))"
  obtains c' re where "cn_tick c ms = Some c'" and "going S N T M isn pisn log c'" and "cn_receiver c' = cn_receiver c"
    and "cn_sender c' = (sn_tick (cn_sender c) ms)\<lparr>sn_segments_out := []\<rparr>"
    and "cn_segments_out c' = cn_segments_out c @ map (fill_ack (cn_receiver c)) re" and "\<forall>x \<in> set re. plain x"
    and "cn_cfg c' = cn_cfg c" and "bs_eof (sn_stream (cn_sender c)) \<longrightarrow> cn_linger_after_streams_finish c' = cn_linger_after_streams_finish c"
  by (rule tick_sound [OF go count]) (use still sound_active that in blast)

lemma read_going:
  assumes go: "going S N T M isn pisn log c" and rd: "cn_read c n = (out, c')"
  shows "going S N T M isn pisn (log @ out) c'" and "rknown M (cn_receiver c') = rknown M (cn_receiver c)"
    and "rpos (cn_receiver c') = rpos (cn_receiver c)" and "rc_capacity (cn_receiver c') = rc_capacity (cn_receiver c)"
    and "cn_sender c' = cn_sender c" and "cn_segments_out c' = cn_segments_out c" and "cn_cfg c' = cn_cfg c"
    and "cn_linger_after_streams_finish c' = cn_linger_after_streams_finish c"
    and "n = buffer_size (inbound_stream c) \<Longrightarrow> bs_buff (inbound_stream c') = []"
    and "cn_time_since_last_segment_received c' = cn_time_since_last_segment_received c"
proof -
  let ?r = "cn_receiver c" and ?ra = "rc_reassembler (cn_receiver c)"
  have ep: "ep_inv S N T M isn pisn (ep c log)" using go by (simp add: going_def)
  have c': "c' = c\<lparr>cn_receiver := ?r\<lparr>rc_reassembler := ?ra\<lparr>sr_output := snd (bs_read (sr_output ?ra) n)\<rparr>\<rparr>\<rparr>"
    using rd by (auto simp: cn_read_def inbound_stream_def rc_stream_out_def prod.case_eq_if Let_def)
  have fua: "first_unassembled (rc_reassembler (cn_receiver c')) = first_unassembled ?ra"
    "input_ended (rc_stream_out (cn_receiver c')) = input_ended (rc_stream_out ?r)"
    by (simp_all add: c' first_unassembled_def bytes_written_def rc_stream_out_def input_ended_def bs_simps)
  then have "sr_known (rc_reassembler (cn_receiver c')) = sr_known ?ra" by (simp add: sr_known_def fun_eq_iff) (simp add: c')
  with fua show kn: "rknown M (cn_receiver c') = rknown M ?r" and "rpos (cn_receiver c') = rpos ?r"
    by (simp_all add: rknown_def rpos_def fun_eq_iff) (simp_all add: c')
  show "rc_capacity (cn_receiver c') = rc_capacity ?r" "cn_sender c' = cn_sender c" "cn_segments_out c' = cn_segments_out c"
    "cn_cfg c' = cn_cfg c" "cn_linger_after_streams_finish c' = cn_linger_after_streams_finish c"
    "cn_time_since_last_segment_received c' = cn_time_since_last_segment_received c" by (simp_all add: c')
  have "ep_step S N {} (ep c log) (ep c' (log @ out))" using ep_read [of "ep c log" n out c'] rd by simp
  then have "ep_inv S N T M isn pisn (ep c' (log @ out))" using ep_takes_step [OF ep] by blast
  moreover have "rclosed M (cn_receiver c')"
    using go fua \<open>sr_known (rc_reassembler (cn_receiver c')) = sr_known ?ra\<close> by (simp add: going_def rclosed_def) (simp add: c')
  moreover have "bs_error (rc_stream_out (cn_receiver c')) = bs_error (rc_stream_out ?r)" by (simp add: c' rc_stream_out_def bs_simps)
  ultimately show "going S N T M isn pisn (log @ out) c'"
    using go unfolding going_def by (simp add: cn_calm_def c')
  show "n = buffer_size (inbound_stream c) \<Longrightarrow> bs_buff (inbound_stream c') = []"
    by (simp add: c' inbound_stream_def rc_stream_out_def bs_simps buffer_size_def)
qed

section \<open>Facts of a connection at work\<close>

lemma goingD:
  assumes "going S N T M isn pisn log c"
  shows "ep_inv S N T M isn pisn (ep c log)" and "N + 2 < 2147483648" and "cn_calm c" and "0 < sn_next_seqno (cn_sender c)"
    and "sn_good (cn_sender c)" and "rclosed M (cn_receiver c)" and "cn_inv S N c" and "sn_inv S N (cn_sender c)"
    and "rx_inv T M pisn (cn_receiver c) log" and "sn_last_ackno (cn_sender c) \<le> sn_next_seqno (cn_sender c)"
    and "sn_next_seqno (cn_sender c) \<le> N + 2" and "M + 2 \<le> 2147483648" and "cn_isactive c"
    and "\<And>seg. seg \<in> set (cn_segments_out c) \<Longrightarrow> sent_seg S N isn (sn_next_seqno (cn_sender c)) seg \<and> \<not> rst (header seg)"
proof -
  show "ep_inv S N T M isn pisn (ep c log)" "N + 2 < 2147483648" "cn_calm c" "0 < sn_next_seqno (cn_sender c)"
    "sn_good (cn_sender c)" "rclosed M (cn_receiver c)" "cn_isactive c" using assms by (auto simp: going_def)
  then show cn: "cn_inv S N c" "sn_inv S N (cn_sender c)" "rx_inv T M pisn (cn_receiver c) log" by (auto simp: ep_inv_def cn_inv_def)
  then show "sn_last_ackno (cn_sender c) \<le> sn_next_seqno (cn_sender c)" "sn_next_seqno (cn_sender c) \<le> N + 2" "M + 2 \<le> 2147483648"
    using sn_inv_next_bound by (auto simp: sn_inv_def rx_inv_def)
  show "sent_seg S N isn (sn_next_seqno (cn_sender c)) seg \<and> \<not> rst (header seg)" if "seg \<in> set (cn_segments_out c)" for seg
    using that assms cn(1) by (auto simp: going_def cn_calm_def cn_inv_def ep_inv_def)
qed

lemma rpos_ready:
  assumes "going S N T M isn pisn log c" and "\<forall>p. rknown M (cn_receiver c) p \<longleftrightarrow> p < A"
  shows "rpos (cn_receiver c) = A" and "rc_syn (cn_receiver c) \<longleftrightarrow> 0 < A"
proof -
  show "rpos (cn_receiver c) = A" using rpos_eq [OF goingD(9,6) [OF assms(1)]] assms(2) by blast
  have "rknown M (cn_receiver c) 0 = rc_syn (cn_receiver c)" by (simp add: rknown_def)
  then show "rc_syn (cn_receiver c) \<longleftrightarrow> 0 < A" using assms(2) by blast
qed

lemma ended_ready:
  assumes go: "going S N T M isn pisn log c" and know: "\<forall>p. rknown M (cn_receiver c) p \<longleftrightarrow> p < A"
  shows "A = M + 2 \<longleftrightarrow> input_ended (inbound_stream c)"
proof -
  have "first_unassembled (rc_reassembler (cn_receiver c)) \<le> M" using rx_inv_assembled(1) [OF goingD(9) [OF go]] .
  moreover have "input_ended (rc_stream_out (cn_receiver c)) \<longrightarrow> rc_syn (cn_receiver c) \<and> first_unassembled (rc_reassembler (cn_receiver c)) = M"
    using goingD(6) [OF go] by (auto simp: rclosed_def)
  ultimately show ?thesis using rpos_ready(1) [OF go know]
    by (cases "input_ended (rc_stream_out (cn_receiver c))") (auto simp: rpos_def inbound_stream_def split: if_splits)
qed

text \<open>The right edge of the window of a receiver whose reader has taken everything.\<close>

lemma limit_ready:
  assumes go: "going S N T M isn pisn log c" and "bs_buff (inbound_stream c) = []" and "rc_capacity (cn_receiver c) = 64000"
  shows "sr_limit (rc_reassembler (cn_receiver c)) = first_unassembled (rc_reassembler (cn_receiver c)) + 64000"
proof -
  have inv: "rc_inv (cn_receiver c)" using goingD(9) [OF go] by (simp add: rx_inv_def)
  then have "first_unassembled (rc_reassembler (cn_receiver c)) = bs_bytes_r (sr_output (rc_reassembler (cn_receiver c)))"
    using sr_core_written(1) [of "rc_reassembler (cn_receiver c)"] assms(2) by (simp add: rc_inv_def sr_inv_def inbound_stream_def rc_stream_out_def)
  then show ?thesis using inv assms(3) by (simp add: sr_limit_def rc_inv_def)
qed

lemma advertised_ready:
  assumes "going S N T M isn pisn log c" and "bs_buff (inbound_stream c) = []" and "rc_capacity (cn_receiver c) = 64000"
  shows "advertised (cn_receiver c) = 64000"
proof -
  have "rc_inv (cn_receiver c)" using goingD(9) [OF assms(1)] by (simp add: rx_inv_def)
  then have "rc_window_size (cn_receiver c) = 64000"
    using rc_window_size_exact(2) assms(2,3) by (simp add: inbound_stream_def buffer_size_def)
  then show ?thesis by (simp add: advertised_def)
qed

lemma room_le: "unat w \<le> 64000 \<Longrightarrow> room w \<le> 64000"
  by (simp add: room_def)

lemma ack_chain_even:
  assumes "\<forall>seg \<in> set segs. acks_upto isn 0 64000 k seg" and "e \<le> l + 64000"
  shows "ack_chain isn k l e segs"
  using assms
proof (induction segs arbitrary: l e)
  case (Cons seg segs)
  show ?case
  proof (cases "ack (header seg)")
    case True
    then obtain a where a: "a \<le> k" "ackno (header seg) = wrap a isn" "room (win (header seg)) = 64000"
      using Cons.prems(1) by (auto simp: acks_upto_def room_def)
    moreover have "ack_chain isn k (max l a) (max l a + 64000) segs" using Cons by simp
    ultimately show ?thesis using True Cons.prems(2) by (auto simp: max_def intro!: exI [of _ a])
  qed (use Cons in simp)
qed simp

lemma ack_chain_same:
  assumes "\<forall>seg \<in> set segs. ack (header seg) \<longrightarrow> ackno (header seg) = wrap A isn \<and> win (header seg) = 64000" and "A \<le> B"
    and "e \<le> A + 64000" and "\<And>e. e \<le> A + 64000 \<Longrightarrow> ack_chain isn B A e rest"
  shows "ack_chain isn B A e (segs @ rest)"
  using assms(1,3)
proof (induction segs arbitrary: e)
  case Nil
  then show ?case using assms(4) by simp
next
  case (Cons seg segs)
  then show ?case using assms(2) by (auto simp: room_def intro!: exI [of _ A])
qed

lemma wrap_small_eq: "wrap a isn = wrap b isn \<Longrightarrow> a < 4294967296 \<Longrightarrow> b < 4294967296 \<Longrightarrow> a = b"
  by (simp add: wrap_eq_iff SEQ_MOD_def)

text \<open>A sender that was sent the acknowledgment of \<open>k\<close> has it.\<close>

lemma sends_acked:
  assumes "sends S N isn B segs new s s'" and "\<exists>seg \<in> set segs. ack (header seg) \<and> ackno (header seg) = wrap k isn"
    and "k < 4294967296" and "sn_last_ackno s' < 4294967296"
  shows "k \<le> sn_last_ackno s'"
proof -
  obtain a where a: "a \<le> sn_last_ackno s'" "wrap k isn = wrap a isn" using sendsD(9) [OF assms(1)] assms(2) by force
  then have "k = a" using wrap_small_eq [OF a(2)] assms(3,4) by simp
  with a(1) show ?thesis by simp
qed

lemma holds_sent:
  assumes "sent_seg S N isn n seg" and "holds S N isn seg p" and "N + 2 < SEQ_MOD"
  shows "p < n"
proof -
  have "\<not> bare seg" using assms(2) bare_holds by blast
  then obtain a where a: "seg_at S N isn a seg" "a + seq_len seg \<le> n" using assms(1) by (auto simp: sent_seg_def)
  then show ?thesis using holds_at [OF a(1) assms(3)] assms(2) by simp
qed

text \<open>The peer that has had every number up to \<open>A\<close> and a batch that holds those from \<open>A\<close> to \<open>n\<close> has them up to \<open>n\<close>.\<close>

lemma knows_all:
  assumes "\<And>p. rknown M r' p \<longleftrightarrow> rknown M r p \<or> (\<exists>seg \<in> set segs. holds T M pisn seg p)" and "\<forall>p. rknown M r p \<longleftrightarrow> p < A"
    and "\<forall>seg \<in> set segs. sent_seg T M pisn n seg" and "\<And>p. A \<le> p \<Longrightarrow> p < n \<Longrightarrow> \<exists>seg \<in> set segs. holds T M pisn seg p"
    and "M + 2 < SEQ_MOD" and "A \<le> n"
  shows "rknown M r' p \<longleftrightarrow> p < n"
  using assms(1,2,4,6) holds_sent [OF _ _ assms(5)] assms(3) by (metis less_le_trans not_less)

end
