(* ===== verification/TCP_Benchmark.thy ===== *)
theory TCP_Benchmark
  imports TCP_Exchange "HOL-Library.Sublist"
begin

text \<open>
  The throughput test of \<open>apps/tcp_benchmark.cc\<close>: two connections in one process exchange their
  segments, in order or each batch in reverse, while one sends a string to the other. The random
  string and the two random initial sequence numbers are parameters; the clock and the report are
  left out. \<^const>\<open>None\<close> is a thrown exception, or a loop that does not end.
\<close>

section \<open>The program\<close>

definition bench_len :: size_t where "bench_len = 100 * 1024 * 1024"

definition move_segments :: "tcp_connection \<Rightarrow> tcp_connection \<Rightarrow> tcp_segment list \<Rightarrow> bool \<Rightarrow>
    (tcp_connection \<times> tcp_connection \<times> tcp_segment list) option" where
  "move_segments x y segments reorder = do {
     let segments = segments @ cn_segments_out x;
     let x = x\<lparr>cn_segments_out := []\<rparr>;
     y \<leftarrow> run_steps cn_segment_received y (if reorder then rev segments else segments);
     Some (x, y, [])
   }"

record bench =
  be_x :: tcp_connection
  be_y :: tcp_connection
  be_to_send :: buffer
  be_x_closed :: bool
  be_received :: bytes

text \<open>The loop that writes input into \<open>x\<close>; it throws unless all that fits is taken.\<close>

partial_function (option) bench_write :: "tcp_connection \<Rightarrow> buffer \<Rightarrow> (tcp_connection \<times> buffer) option" where
  "bench_write x bytes_to_send =
     (if buf_size bytes_to_send \<noteq> 0 \<and> remaining_outbound_capacity x \<noteq> 0 then
        let want = min (remaining_outbound_capacity x) (buf_size bytes_to_send)
        in cn_write x (take want (buffer_str bytes_to_send)) \<bind> (\<lambda>(written, x).
             if want \<noteq> written then None
             else buffer_remove_prefix bytes_to_send written \<bind> (\<lambda>bytes_to_send. bench_write x bytes_to_send))
      else Some (x, bytes_to_send))"

definition bench_loop :: "bool \<Rightarrow> bench \<Rightarrow> bench option" where
  "bench_loop reorder b = do {
     (x, bytes_to_send) \<leftarrow> bench_write (be_x b) (be_to_send b);
     (x, x_closed) \<leftarrow> (if buf_size bytes_to_send = 0 \<and> \<not> be_x_closed b
        then end_input_stream x \<bind> (\<lambda>x. Some (x, True)) else Some (x, be_x_closed b));
     (x, y, segments) \<leftarrow> move_segments x (be_y b) [] reorder;
     (y, x, segments) \<leftarrow> move_segments y x segments False;
     let available_output = buffer_size (inbound_stream y);
     let (string, y) = (if available_output > 0 then cn_read y available_output else ([], y));
     x \<leftarrow> cn_tick x 1000;
     y \<leftarrow> cn_tick y 1000;
     Some \<lparr>be_x = x, be_y = y, be_to_send = bytes_to_send, be_x_closed = x_closed, be_received = be_received b @ string\<rparr>
   }"

definition bench_start :: "u32 \<Rightarrow> u32 \<Rightarrow> bytes \<Rightarrow> bench option" where
  "bench_start random_x random_y string_to_send = do {
     x \<leftarrow> connect (cn_new random_x tcp_config_default);
     y \<leftarrow> end_input_stream (cn_new random_y tcp_config_default);
     Some \<lparr>be_x = x, be_y = y, be_to_send = buffer_of string_to_send, be_x_closed = False, be_received = []\<rparr>
   }"

partial_function (option) bench_until_eof :: "bool \<Rightarrow> bench \<Rightarrow> bench option" where
  "bench_until_eof reorder b =
     (if bs_eof (inbound_stream (be_y b)) then Some b else bench_loop reorder b \<bind> bench_until_eof reorder)"

partial_function (option) bench_until_closed :: "bool \<Rightarrow> bench \<Rightarrow> bench option" where
  "bench_until_closed reorder b =
     (if active (be_x b) \<or> active (be_y b) then bench_loop reorder b \<bind> bench_until_closed reorder else Some b)"

definition main_loop :: "bool \<Rightarrow> u32 \<Rightarrow> u32 \<Rightarrow> bytes \<Rightarrow> bench option" where
  "main_loop reorder random_x random_y string_to_send = do {
     b \<leftarrow> bench_start random_x random_y string_to_send;
     b \<leftarrow> bench_until_eof reorder b;
     if be_received b \<noteq> string_to_send then None
     else bench_until_closed reorder b
   }"

text \<open>The exit status; \<^const>\<open>None\<close> where an exception makes it \<open>EXIT_FAILURE\<close> or a run does not end.\<close>

definition bench_main :: "(bool \<Rightarrow> u32 \<times> u32 \<times> bytes) \<Rightarrow> nat option" where
  "bench_main random = do {
     let run = (\<lambda>reorder. case random reorder of (rx, ry, string) \<Rightarrow> main_loop reorder rx ry string);
     _ \<leftarrow> run False;
     _ \<leftarrow> run True;
     Some 0
   }"

section \<open>The invariant\<close>

text \<open>
  \<open>data\<close> is the string to send; \<open>x\<close> sends it and \<open>y\<close> sends nothing. Both connections are endpoints in the
  sense of \<open>TCP_Network\<close>, and \<open>x\<close> has been given all but the bytes that are left.
\<close>

definition bench_inv :: "bytes \<Rightarrow> wrapping_int32 \<Rightarrow> wrapping_int32 \<Rightarrow> bench \<Rightarrow> bool" where
  "bench_inv data ix iy b \<longleftrightarrow>
     ep_inv ((!) data) (length data) (\<lambda>_. 0) 0 ix iy (ep (be_x b) []) \<and>
     ep_inv (\<lambda>_. 0) 0 ((!) data) (length data) iy ix (ep (be_y b) (be_received b)) \<and>
     buffer_inv (be_to_send b) \<and> cn_written (be_x b) \<le> length data \<and>
     buffer_str (be_to_send b) = drop (cn_written (be_x b)) data \<and>
     (input_ended (sn_stream (cn_sender (be_x b))) \<longrightarrow> be_x_closed b) \<and> (be_x_closed b \<longrightarrow> buffer_str (be_to_send b) = [])"

text \<open>What the calls leave alone.\<close>

lemma fill_window_ended:
  assumes "sn_inv S N s" and "fill_window s = Some s'"
  shows "bs_end_input (sn_stream s') = bs_end_input (sn_stream s)"
  using fill_window_moves [OF assms(1)] assms(2) by (auto simp: grows_def)

lemma cn_write_frame:
  assumes inv: "cn_inv S N c" and ok: "sn_ok S N (cn_sender c) (SnWrite d)" and wr: "cn_write c d = Some (n, c')"
  shows "active c' = active c" and "input_ended (sn_stream (cn_sender c')) = input_ended (sn_stream (cn_sender c))"
proof -
  let ?s = "(cn_sender c)\<lparr>sn_stream := snd (bs_write (sn_stream (cn_sender c)) d)\<rparr>"
  have inv': "sn_inv S N ?s" using sn_step_write [OF _ ok] inv by (simp add: cn_inv_def)
  from wr consider "c' = c" | s where "fill_window ?s = Some s" "c' = cn_send_segment (c\<lparr>cn_sender := s\<rparr>)"
    by (cases "fill_window ?s"; cases "\<not> cn_isactive c \<or> d = []") (auto simp: cn_write_def prod.case_eq_if)
  then have "active c' = active c \<and> bs_end_input (sn_stream (cn_sender c')) = bs_end_input (sn_stream (cn_sender c))"
  proof cases
    case 2
    from fill_window_ended [OF inv' this(1)] have "bs_end_input (sn_stream s) = bs_end_input (sn_stream (cn_sender c))"
      by (simp add: bs_write_eq Let_def)
    with 2(2) show ?thesis by (simp add: active_def cn_send_segment_eq)
  qed simp
  then show "active c' = active c" "input_ended (sn_stream (cn_sender c')) = input_ended (sn_stream (cn_sender c))"
    by (simp_all add: input_ended_def)
qed

lemma sn_tick_ended [simp]: "bs_end_input (sn_stream (sn_tick s ms)) = bs_end_input (sn_stream s)"
  by (simp add: sn_tick_def Let_def)

lemma cn_tick_ended:
  assumes inv: "cn_inv S N c" and t: "cn_tick c ms = Some c'"
  shows "input_ended (sn_stream (cn_sender c')) = input_ended (sn_stream (cn_sender c))"
proof -
  let ?c = "c\<lparr>cn_sender := sn_tick (cn_sender c) ms,
    cn_time_since_last_segment_received := sz_add (cn_time_since_last_segment_received c) ms\<rparr>"
  have "sn_inv S N (sn_tick (cn_sender c) ms)" using inv by (simp add: cn_inv_def sn_tick_inv)
  from fill_window_moves [OF this] obtain s new where s: "fill_window (sn_tick (cn_sender c) ms) = Some s" "grows new (sn_tick (cn_sender c) ms) s"
    by blast
  have "bs_end_input (sn_stream (cn_sender c1)) = bs_end_input (sn_stream (cn_sender c))" if "send_rst_segment ?c = Some c1" for c1
    using that s by (auto simp: send_rst_segment_def grows_def send_empty_segment_def Let_def split: list.splits)
  then show ?thesis
    using t by (auto simp: cn_tick_def Let_def cn_send_segment_frame unclean_shutdown_def set_error_def input_ended_def split: if_splits)
qed

lemma cn_segment_received_ended:
  assumes inv: "cn_inv S N c" and r: "cn_segment_received c seg = Some c'"
  shows "input_ended (sn_stream (cn_sender c')) = input_ended (sn_stream (cn_sender c))"
proof -
  have sn: "sn_inv S N (cn_sender c)" using inv by (simp add: cn_inv_def)
  have "bs_end_input (sn_stream (respond x seg s)) = bs_end_input (sn_stream s)" for x s
    by (simp add: respond_def send_empty_segment_def Let_def)
  moreover have "bs_end_input (sn_stream s) = bs_end_input (sn_stream (cn_sender c))" if "acknowledge seg (cn_sender c) = Some s" for s
    using that sn_ack_received_spec [OF sn, of "ackno (header seg)" "win (header seg)"] by (auto simp: acknowledge_def split: if_splits)
  moreover have "bs_end_input (sn_stream s) = bs_end_input (sn_stream (cn_sender c))" if "fill_window (cn_sender c) = Some s" for s
    using fill_window_ended [OF sn that] .
  ultimately show ?thesis
    using r by (auto simp: cn_segment_received_eq Let_def TCP_Connection.connect_def bind_eq_Some_conv cn_send_segment_frame
        unclean_shutdown_def set_error_def input_ended_def split: if_splits)
qed

text \<open>Handing segments of the peer to a connection.\<close>

lemma ep_takes_segments:
  assumes "ep_inv S N T M isn pisn (ep c log)" and "\<forall>seg \<in> set segs. sent_seg T M pisn n seg"
  shows "\<exists>c'. run_steps cn_segment_received c segs = Some c' \<and> ep_inv S N T M isn pisn (ep c' log) \<and> cn_written c' = cn_written c \<and>
    input_ended (sn_stream (cn_sender c')) = input_ended (sn_stream (cn_sender c))"
  using assms
proof (induction segs arbitrary: c)
  case (Cons seg segs)
  then have seg: "sent_seg T M pisn n seg" by simp
  obtain c1 where c1: "cn_segment_received c seg = Some c1"
    using ep_calls_return(3) [OF Cons.prems(1), of "{seg}" n seg] seg by auto
  have "input_ended (sn_stream (cn_sender c1)) = input_ended (sn_stream (cn_sender c))"
    using cn_segment_received_ended [OF _ c1] Cons.prems(1) by (auto simp: ep_inv_def)
  with ep_takes_segment [OF Cons.prems(1) seg c1] Cons.IH [of c1] Cons.prems(2) c1 show ?case by auto
qed simp

lemma ep_sent:
  assumes "ep_inv S N T M isn pisn (ep c log)"
  shows "\<forall>seg \<in> set (cn_segments_out c). sent_seg S N isn (N + 2) seg"
proof
  fix seg assume "seg \<in> set (cn_segments_out c)"
  with assms have "sent_seg S N isn (sn_next_seqno (cn_sender c)) seg" "sn_inv S N (cn_sender c)"
    by (auto simp: ep_inv_def cn_inv_def)
  then show "sent_seg S N isn (N + 2) seg" using sent_seg_mono sn_inv_next_bound by blast
qed

lemma move_segments_ok:
  assumes x: "ep_inv S N T M isn pisn (ep x xlog)" and y: "ep_inv T M S N pisn isn (ep y ylog)"
  shows "\<exists>y'. move_segments x y [] reorder = Some (x\<lparr>cn_segments_out := []\<rparr>, y', []) \<and>
    run_steps cn_segment_received y (if reorder then rev (cn_segments_out x) else cn_segments_out x) = Some y' \<and>
    ep_inv S N T M isn pisn (ep (x\<lparr>cn_segments_out := []\<rparr>) xlog) \<and> ep_inv T M S N pisn isn (ep y' ylog) \<and>
    cn_written y' = cn_written y \<and> input_ended (sn_stream (cn_sender y')) = input_ended (sn_stream (cn_sender y))"
proof -
  have "\<forall>seg \<in> set (if reorder then rev (cn_segments_out x) else cn_segments_out x). sent_seg S N isn (N + 2) seg"
    using ep_sent [OF x] by simp
  then obtain y' where "run_steps cn_segment_received y (if reorder then rev (cn_segments_out x) else cn_segments_out x) = Some y'"
    "ep_inv T M S N pisn isn (ep y' ylog)" "cn_written y' = cn_written y"
    "input_ended (sn_stream (cn_sender y')) = input_ended (sn_stream (cn_sender y))"
    using ep_takes_segments [OF y] by blast
  moreover have "ep_inv S N T M isn pisn (ep (x\<lparr>cn_segments_out := []\<rparr>) xlog)" using x by (simp add: ep_inv_def cn_inv_def)
  ultimately show ?thesis by (simp add: move_segments_def)
qed

text \<open>The loop that writes ends: every round takes at least one byte.\<close>

lemma bench_write_ok:
  assumes "ep_inv ((!) data) (length data) T M isn pisn (ep x log)" and "buffer_inv b"
    and "cn_written x \<le> length data" and "buffer_str b = drop (cn_written x) data"
    and "buffer_str b = [] \<or> remaining_outbound_capacity x = 0 \<or> active x \<and> \<not> input_ended (sn_stream (cn_sender x))"
  shows "\<exists>x' b'. bench_write x b = Some (x', b') \<and> ep_inv ((!) data) (length data) T M isn pisn (ep x' log) \<and> buffer_inv b' \<and>
    cn_written x' \<le> length data \<and> buffer_str b' = drop (cn_written x') data \<and> active x' = active x \<and>
    input_ended (sn_stream (cn_sender x')) = input_ended (sn_stream (cn_sender x)) \<and>
    (buffer_str b' = [] \<or> remaining_outbound_capacity x' = 0)"
  using assms
proof (induction "length (buffer_str b)" arbitrary: x b rule: less_induct)
  case less
  note step = bench_write.simps [of x b]
  show ?case
  proof (cases "buffer_str b = [] \<or> remaining_outbound_capacity x = 0")
    case True
    then have "bench_write x b = Some (x, b)" using step by (auto simp: buf_size_def)
    then show ?thesis using less.prems True by auto
  next
    case False
    let ?want = "min (remaining_outbound_capacity x) (buf_size b)" and ?w = "cn_written x"
    let ?d = "take ?want (buffer_str b)"
    have d: "length ?d = ?want" "0 < ?want" "?w + length ?d \<le> length data" using False less.prems(3,4) by (auto simp: buf_size_def)
    have "?d = take ?want (drop ?w data)" using less.prems(4) by simp
    also have "\<dots> = map ((!) data) [?w..<?w + length ?d]" using d by (intro nth_equalityI) auto
    finally have dS: "?d = map ((!) data) [?w..<?w + length ?d]" .
    have cn: "cn_inv ((!) data) (length data) x" "length data + 2 \<le> 2147483648" using less.prems(1) by (auto simp: ep_inv_def)
    have ok: "sn_ok ((!) data) (length data) (cn_sender x) (SnWrite ?d)" using dS d(3) cn(2) by (auto simp: SIZE_MOD_def)
    obtain n x1 where wr: "cn_write x ?d = Some (n, x1)" using cn_write_inv [OF cn(1) ok] by blast
    have act: "active x" "\<not> input_ended (sn_stream (cn_sender x))" using less.prems(5) False by auto
    have n: "n = ?want" using cn_write_accepts(2) [OF cn(1) ok wr act] d(1) by simp
    note x1 = ep_takes_write [OF less.prems(1) wr dS d(3)] and fr = cn_write_frame [OF cn(1) ok wr]
    obtain b1 where b1: "buffer_remove_prefix b ?want = Some b1" "buffer_inv b1" "buffer_str b1 = drop ?want (buffer_str b)"
      using buffer_remove_prefix_ok [OF less.prems(2), of ?want] by (auto simp: buf_size_def)
    have loop: "bench_write x b = bench_write x1 b1" using step False wr n b1(1) by (simp add: buf_size_def Let_def)
    have "length (buffer_str b1) < length (buffer_str b)" using b1(3) d(2) False by auto
    moreover have "ep_inv ((!) data) (length data) T M isn pisn (ep x1 log)" "cn_written x1 = ?w + ?want"
      using x1 n d(1) by auto
    moreover have "buffer_str b1 = drop (cn_written x1) data" using b1(3) less.prems(4) calculation(3) by (simp add: add.commute)
    moreover have "cn_written x1 \<le> length data" using calculation(3) d by simp
    moreover have "active x1 \<and> \<not> input_ended (sn_stream (cn_sender x1))" using fr act by simp
    ultimately obtain x2 b2 where "bench_write x1 b1 = Some (x2, b2)" "ep_inv ((!) data) (length data) T M isn pisn (ep x2 log)"
        "buffer_inv b2" "cn_written x2 \<le> length data" "buffer_str b2 = drop (cn_written x2) data" "active x2 = active x1"
        "input_ended (sn_stream (cn_sender x2)) = input_ended (sn_stream (cn_sender x1))"
        "buffer_str b2 = [] \<or> remaining_outbound_capacity x2 = 0"
      using less.hyps [of b1 x1] b1(2) by blast
    then show ?thesis using loop fr by (intro exI [of _ x2] exI [of _ b2]) simp
  qed
qed

lemma ep_reads:
  assumes inv: "ep_inv S N T M isn pisn (ep c log)" and rd: "cn_read c n = (out, c')"
  shows "ep_inv S N T M isn pisn (ep c' (log @ out))"
proof -
  have "ep_step S N {} (ep c log) (ep c' (log @ out))" using ep_read [of "ep c log" n out c'] rd by simp
  then show ?thesis using ep_takes_step [OF inv] by blast
qed

text \<open>
  One round: it returns, unless the sending connection has been reset with bytes left to send and
  room for them; then the write takes nothing and the round throws.
\<close>

abbreviation can_go_on :: "bench \<Rightarrow> bool" where
  "can_go_on b \<equiv> active (be_x b) \<or> buffer_str (be_to_send b) = [] \<or> remaining_outbound_capacity (be_x b) = 0"

lemma bench_loop_throws:
  assumes "\<not> can_go_on b"
  shows "bench_loop reorder b = None"
proof -
  have "\<not> cn_isactive (be_x b)" and "min (remaining_outbound_capacity (be_x b)) (buf_size (be_to_send b)) \<noteq> 0"
    and more: "buf_size (be_to_send b) \<noteq> 0 \<and> remaining_outbound_capacity (be_x b) \<noteq> 0"
    using assms by (auto simp: active_def buf_size_def)
  then have "bench_write (be_x b) (be_to_send b) = None"
    by (subst bench_write.simps) (simp add: cn_write_def Let_def)
  then show ?thesis by (simp add: bench_loop_def)
qed

lemma bench_loop_ok:
  assumes inv: "bench_inv data ix iy b" and act: "can_go_on b"
  shows "\<exists>b'. bench_loop reorder b = Some b' \<and> bench_inv data ix iy b'"
proof -
  let ?S = "(!) data" and ?N = "length data" and ?T = "\<lambda>_. 0 :: byte" and ?ended = "\<lambda>c. input_ended (sn_stream (cn_sender c))"
  have x: "ep_inv ?S ?N ?T 0 ix iy (ep (be_x b) [])" and y: "ep_inv ?T 0 ?S ?N iy ix (ep (be_y b) (be_received b))"
    and buf: "buffer_inv (be_to_send b)" "cn_written (be_x b) \<le> ?N" "buffer_str (be_to_send b) = drop (cn_written (be_x b)) data"
    and fl: "?ended (be_x b) \<longrightarrow> be_x_closed b" "be_x_closed b \<longrightarrow> buffer_str (be_to_send b) = []"
    using inv by (auto simp: bench_inv_def)
  obtain x1 b1 where w: "bench_write (be_x b) (be_to_send b) = Some (x1, b1)" "ep_inv ?S ?N ?T 0 ix iy (ep x1 [])" "buffer_inv b1"
      "cn_written x1 \<le> ?N" "buffer_str b1 = drop (cn_written x1) data" "?ended x1 = ?ended (be_x b)"
      "be_x_closed b \<longrightarrow> buffer_str b1 = []"
    using bench_write_ok [OF x buf] act fl bench_write.simps [of "be_x b" "be_to_send b"] by (fastforce simp: buf_size_def)
  let ?close = "buf_size b1 = 0 \<and> \<not> be_x_closed b"
  obtain x2 where e: "(if ?close then end_input_stream x1 \<bind> (\<lambda>x. Some (x, True)) else Some (x1, be_x_closed b)) = Some (x2, be_x_closed b \<or> ?close)"
      "ep_inv ?S ?N ?T 0 ix iy (ep x2 [])" "cn_written x2 = cn_written x1" "?ended x2 \<longrightarrow> be_x_closed b \<or> ?close"
  proof (cases ?close)
    case True
    then have N: "cn_written x1 = ?N" using w(4,5) by (simp add: buf_size_def)
    have cn: "cn_inv ?S ?N x1" using w(2) by (simp add: ep_inv_def)
    have "sn_ok ?S ?N (cn_sender x1) SnEndInput" using N by simp
    then obtain x2 where x2: "end_input_stream x1 = Some x2" using end_input_stream_inv [OF cn] by blast
    from ep_takes_end [OF w(2) x2 N] x2 True show thesis by (intro that [of x2]) auto
  next
    case False
    then show thesis using that [of x1] w fl(1) by auto
  qed
  obtain y1 where m1: "move_segments x2 (be_y b) [] reorder = Some (x2\<lparr>cn_segments_out := []\<rparr>, y1, [])"
      "ep_inv ?S ?N ?T 0 ix iy (ep (x2\<lparr>cn_segments_out := []\<rparr>) [])" "ep_inv ?T 0 ?S ?N iy ix (ep y1 (be_received b))"
    using move_segments_ok [OF e(2) y] by blast
  obtain x3 where m2: "move_segments y1 (x2\<lparr>cn_segments_out := []\<rparr>) [] False = Some (y1\<lparr>cn_segments_out := []\<rparr>, x3, [])"
      "ep_inv ?T 0 ?S ?N iy ix (ep (y1\<lparr>cn_segments_out := []\<rparr>) (be_received b))" "ep_inv ?S ?N ?T 0 ix iy (ep x3 [])"
      "cn_written x3 = cn_written x2" "?ended x3 = ?ended x2"
    using move_segments_ok [OF m1(3,2)] by auto
  let ?y2 = "y1\<lparr>cn_segments_out := []\<rparr>"
  obtain out y3 where rd: "(if buffer_size (inbound_stream ?y2) > 0 then cn_read ?y2 (buffer_size (inbound_stream ?y2)) else ([], ?y2)) = (out, y3)"
    by force
  then have y3: "ep_inv ?T 0 ?S ?N iy ix (ep y3 (be_received b @ out))"
    using ep_reads [OF m2(2)] m2(2) by (auto split: if_splits)
  have cx: "cn_inv ?S ?N x3" and cy: "cn_inv ?T 0 y3" using m2(3) y3 by (auto simp: ep_inv_def)
  obtain x4 y4 where t: "cn_tick x3 1000 = Some x4" "cn_tick y3 1000 = Some y4" using cn_tick_inv [OF cx] cn_tick_inv [OF cy] by blast
  note tx = ep_takes_tick [OF m2(3) t(1)] and ty = ep_takes_tick [OF y3 t(2)] and te = cn_tick_ended [OF cx t(1)]
  let ?b = "\<lparr>be_x = x4, be_y = y4, be_to_send = b1, be_x_closed = (be_x_closed b \<or> ?close), be_received = be_received b @ out\<rparr>"
  have "bench_loop reorder b = Some ?b"
    using w(1) e(1) m1(1) m2(1) rd t by (simp add: bench_loop_def Let_def)
  moreover have "bench_inv data ix iy ?b"
    using tx ty te w(3-5,7) e(3,4) m2(4,5) by (auto simp: bench_inv_def buf_size_def)
  ultimately show ?thesis by blast
qed

lemma bench_start_ok:
  assumes "length data + 2 \<le> 2147483648"
  shows "\<exists>b. bench_start rx ry data = Some b \<and>
    bench_inv data (sn_isn (cn_sender (cn_new rx tcp_config_default))) (sn_isn (cn_sender (cn_new ry tcp_config_default))) b"
proof -
  let ?x = "cn_new rx tcp_config_default" and ?y = "cn_new ry tcp_config_default" and ?T = "\<lambda>_. 0 :: byte"
  let ?ix = "sn_isn (cn_sender ?x)" and ?iy = "sn_isn (cn_sender ?y)"
  have caps: "recv_capacity tcp_config_default + 4294967296 + SEQ_MOD < SIZE_MOD" "send_capacity tcp_config_default + 2 < SIZE_MOD"
    by (simp_all add: tcp_config_default_def DEFAULT_CAPACITY_def SEQ_MOD_def SIZE_MOD_def)
  have x: "ep_inv ((!) data) (length data) ?T 0 ?ix ?iy (ep ?x [])" and y: "ep_inv ?T 0 ((!) data) (length data) ?iy ?ix (ep ?y [])"
    using ep_new_inv [OF caps] assms by (simp_all add: ep_new_def)
  then have cx: "cn_inv ((!) data) (length data) ?x" and cy: "cn_inv ?T 0 ?y" by (auto simp: ep_inv_def)
  have w: "cn_written ?x = 0" "cn_written ?y = 0" "\<not> bs_end_input (sn_stream (cn_sender ?x))"
    by (simp_all add: cn_new_def sn_new_def bs_new_def)
  obtain x' where x': "TCP_Connection.connect ?x = Some x'" using connect_inv [OF cx] by blast
  obtain y' where y': "end_input_stream ?y = Some y'" using end_input_stream_inv [OF cy] w(2) by auto
  obtain s where "fill_window (cn_sender ?x) = Some s" "x' = cn_send_segment (?x\<lparr>cn_sender := s\<rparr>)"
    using x' by (auto simp: TCP_Connection.connect_def bind_eq_Some_conv)
  then have "\<not> input_ended (sn_stream (cn_sender x'))"
    using fill_window_ended [of "(!) data" "length data" "cn_sender ?x" s] cx w(3) by (simp add: cn_inv_def cn_send_segment_frame input_ended_def)
  then show ?thesis
    using ep_takes_connect [OF x x'] ep_takes_end [OF y y'] w x' y' assms
    by (auto simp: bench_start_def bench_inv_def buffer_str_def buffer_of_def buffer_inv_def SIZE_MOD_def)
qed

section \<open>What the rounds deliver\<close>

text \<open>The states after any number of rounds, in order or reversed.\<close>

primrec bench_rounds :: "bool \<Rightarrow> nat \<Rightarrow> bench \<Rightarrow> bench option" where
  "bench_rounds reorder 0 b = Some b"
| "bench_rounds reorder (Suc n) b = bench_rounds reorder n b \<bind> bench_loop reorder"

lemma bench_inv_received:
  assumes "bench_inv data ix iy b"
  shows "prefix (be_received b) data" and "bs_eof (inbound_stream (be_y b)) \<Longrightarrow> be_received b = data"
proof -
  obtain k where k: "k \<le> length data" "be_received b @ bs_buff (inbound_stream (be_y b)) = map ((!) data) [0..<k]"
      "input_ended (inbound_stream (be_y b)) \<longrightarrow> k = length data"
    using ep_inv_received [of "\<lambda>_. 0" 0 "(!) data" "length data" iy ix "ep (be_y b) (be_received b)"] assms
    by (auto simp: bench_inv_def)
  have d: "map ((!) data) [0..<k] = take k data" using k(1) by (intro nth_equalityI) auto
  have "prefix (be_received b) (take k data)" using k(2) d by (metis prefix_def)
  then show "prefix (be_received b) data" using take_is_prefix prefix_order.trans by blast
  show "be_received b = data" if "bs_eof (inbound_stream (be_y b))"
    using that k d by (auto simp: bs_eof_def buffer_empty_def input_ended_def)
qed

lemma bench_rounds_inv:
  assumes "length data + 2 \<le> 2147483648" and "bench_start rx ry data = Some b0" and "bench_rounds reorder n b0 = Some b"
  shows "bench_inv data (sn_isn (cn_sender (cn_new rx tcp_config_default))) (sn_isn (cn_sender (cn_new ry tcp_config_default))) b"
  using assms(3)
proof (induction n arbitrary: b)
  case 0
  then show ?case using bench_start_ok [OF assms(1), of rx ry] assms(2) by auto
next
  case (Suc n)
  then obtain b1 where b1: "bench_rounds reorder n b0 = Some b1" "bench_loop reorder b1 = Some b" by (auto simp: bind_eq_Some_conv)
  have "can_go_on b1" using b1(2) bench_loop_throws by force
  with bench_loop_ok [OF Suc.IH [OF b1(1)], of reorder] b1(2) show ?case by auto
qed

text \<open>
  For every string of at most \<open>2\<^sup>3\<^sup>1 - 2\<close> bytes, all initial sequence numbers, with and without
  reordering: after any number of rounds of the benchmark, what was received is a prefix of the string,
  and all of it once the receiving side reports the end, so the comparison after the first loop never
  fails; and the next round throws exactly if the sending connection was reset while it had room for
  bytes that were left.
\<close>

theorem benchmark_rounds_deliver:
  assumes "length data + 2 \<le> 2147483648" and "bench_start rx ry data = Some b0" and "bench_rounds reorder n b0 = Some b"
  shows "prefix (be_received b) data \<and> (bs_eof (inbound_stream (be_y b)) \<longrightarrow> be_received b = data) \<and>
    (bench_loop reorder b = None \<longleftrightarrow> \<not> active (be_x b) \<and> buf_size (be_to_send b) \<noteq> 0 \<and> remaining_outbound_capacity (be_x b) \<noteq> 0)"
proof -
  note inv = bench_rounds_inv [OF assms]
  have "bench_loop reorder b = None \<longleftrightarrow> \<not> can_go_on b"
    using bench_loop_ok [OF inv] bench_loop_throws by (metis option.distinct(1))
  then show ?thesis using bench_inv_received [OF inv] by (auto simp: buf_size_def)
qed

theorem benchmark_rounds_deliver_witness:
  "\<exists>b0 b. bench_start 0 5 [7, 8] = Some b0 \<and> bench_rounds True 1 b0 = Some b \<and> prefix (be_received b) [7, 8]"
proof -
  have N: "length [7 :: byte, 8] + 2 \<le> 2147483648" by simp
  obtain b0 where b0: "bench_start 0 5 [7, 8] = Some b0" using bench_start_ok [OF N, of 0 5] by blast
  then have "active (be_x b0)"
    by (auto simp: bench_start_def TCP_Connection.connect_def bind_eq_Some_conv active_def cn_send_segment_eq cn_new_def)
  moreover have b: "bench_rounds True 0 b0 = Some b0" by simp
  ultimately obtain b where "bench_rounds True 1 b0 = Some b"
    using benchmark_rounds_deliver [OF N b0 b] by auto
  with benchmark_rounds_deliver [OF N b0 this] b0 show ?thesis by blast
qed

end
