(* ===== verification/TCP_Closing.thy ===== *)
theory TCP_Closing
  imports TCP_Exchange
begin

text \<open>
  The end of a connection whose stream is sent and whose peer's stream is in: the batch of segments
  after which it may be closed, and what segments and ticks do to it while it lingers.
\<close>

section \<open>The batch that may end a connection\<close>

lemma inactive_ignores: "\<not> cn_isactive c \<Longrightarrow> run_steps cn_segment_received c segs = Some c"
  by (induction segs) (simp_all add: cn_segment_received_def)

definition lingers :: "tcp_connection \<Rightarrow> bool" where
  "lingers c \<longleftrightarrow> (sender_summary (cn_sender c) = SENDER_FIN_ACKED \<longrightarrow> receiver_summary (cn_receiver c) = RECEIVER_FIN_RECV \<longrightarrow>
     cn_isactive c \<longrightarrow> cn_linger_after_streams_finish c)"

text \<open>The connection ignores what comes after the segment that closed it.\<close>

lemma batch_final:
  assumes "going S N T M isn pisn log c" and "\<forall>seg \<in> set segs. sent_seg T M pisn n seg \<and> \<not> rst (header seg)"
    and "n \<le> sr_limit (rc_reassembler (cn_receiver c)) + 1" and "rc_syn (cn_receiver c) \<or> n \<le> 1"
    and "ack_chain isn B (sn_last_ackno (cn_sender c)) (sn_edge (cn_sender c)) segs"
    and "B \<le> sn_next_seqno (cn_sender c)" and "lingers c"
  shows "\<exists>c' segs1 segs2 new. segs = segs1 @ segs2 \<and> run_steps cn_segment_received c segs = Some c' \<and> sound S N T M isn pisn log c' \<and>
    brings S N T M isn pisn B segs1 new c c' \<and> lingers c' \<and>
    (if cn_isactive c' then segs2 = [] else sn_last_ackno (cn_sender c') = N + 2 \<and> input_ended (rc_stream_out (cn_receiver c')))"
  using assms
proof (induction segs arbitrary: c)
  case Nil
  moreover from Nil(1) have "sound S N T M isn pisn log c" "cn_isactive c" by (simp_all add: going_def)
  ultimately show ?case using brings_refl [of S N T M isn pisn B c]
    by (intro exI [of _ c] exI [of _ "[]"]) simp
next
  case (Cons seg segs)
  have seg: "sent_seg T M pisn n seg" "\<not> rst (header seg)" using Cons.prems(2) by auto
  obtain c1 new where c1: "cn_segment_received c seg = Some c1" "sound S N T M isn pisn log c1" "brings S N T M isn pisn B [seg] new c c1"
      "ack_chain isn B (sn_last_ackno (cn_sender c1)) (sn_edge (cn_sender c1)) segs"
      "cn_isactive c1 \<or> sn_last_ackno (cn_sender c1) = N + 2 \<and> input_ended (rc_stream_out (cn_receiver c1))" "lingers c1"
    by (rule segment_step [OF Cons.prems(1) seg Cons.prems(3-6)]) (auto simp: lingers_def)
  show ?case
  proof (cases "cn_isactive c1")
    case False
    then have "run_steps cn_segment_received c (seg # segs) = Some c1" using c1(1) inactive_ignores by simp
    then show ?thesis using c1(2,3,5,6) False by (intro exI [of _ c1] exI [of _ "[seg]"] exI [of _ segs] exI [of _ new]) simp
  next
    case True
    have "sr_limit (rc_reassembler (cn_receiver c1)) = sr_limit (rc_reassembler (cn_receiver c))"
        "rknown M (cn_receiver c) 0 \<longrightarrow> rknown M (cn_receiver c1) 0" "sn_next_seqno (cn_sender c) \<le> sn_next_seqno (cn_sender c1)"
      using receivesD(1,4) [OF bringsD(5) [OF c1(3)]] sendsD(5) [OF bringsD(4) [OF c1(3)]] by simp_all
    then have "n \<le> sr_limit (rc_reassembler (cn_receiver c1)) + 1" "rc_syn (cn_receiver c1) \<or> n \<le> 1" "B \<le> sn_next_seqno (cn_sender c1)"
      using Cons.prems(3,4,6) by (auto simp: rknown_def)
    with Cons.IH [OF sound_active [OF c1(2) True] _ _ _ c1(4)] c1(6) Cons.prems(2)
    obtain c' segs1 segs2 new' where c': "segs = segs1 @ segs2" "run_steps cn_segment_received c1 segs = Some c'" "sound S N T M isn pisn log c'"
        "brings S N T M isn pisn B segs1 new' c1 c'" "lingers c'"
        "if cn_isactive c' then segs2 = [] else sn_last_ackno (cn_sender c') = N + 2 \<and> input_ended (rc_stream_out (cn_receiver c'))"
      by auto
    have "brings S N T M isn pisn B (seg # segs1) (new @ new') c c'" using brings_trans [OF c1(3) c'(4)] by simp
    moreover have "run_steps cn_segment_received c (seg # segs) = Some c'" using c1(1) c'(2) by simp
    ultimately show ?thesis using c'(1,3,5,6)
      by (intro exI [of _ c'] exI [of _ "seg # segs1"] exI [of _ segs2] exI [of _ "new @ new'"]) simp
  qed
qed

section \<open>A connection that is over\<close>

text \<open>
  Both streams are through, but perhaps for the acknowledgment of the own FIN. The connection lingers, or is closed.
\<close>

definition over :: "(nat \<Rightarrow> byte) \<Rightarrow> nat \<Rightarrow> (nat \<Rightarrow> byte) \<Rightarrow> nat \<Rightarrow> wrapping_int32 \<Rightarrow> wrapping_int32 \<Rightarrow> bytes \<Rightarrow> tcp_connection \<Rightarrow> bool" where
  "over S N T M isn pisn log c \<longleftrightarrow> sound S N T M isn pisn log c \<and> sn_next_seqno (cn_sender c) = N + 2 \<and>
     (\<forall>p. rknown M (cn_receiver c) p \<longleftrightarrow> p < M + 2) \<and> rc_capacity (cn_receiver c) = 64000 \<and> bs_buff (inbound_stream c) = [] \<and>
     unat (sn_last_win (cn_sender c)) \<le> 64000 \<and> sn_quiet (cn_sender c) \<and> unat (sn_retransmission_count (cn_sender c)) \<le> 1 \<and>
     unat (rt_timeout (cn_cfg c)) = 1000 \<and>
     (if cn_isactive c then cn_linger_after_streams_finish c \<and> cn_time_since_last_segment_received c < 10000
      else sn_last_ackno (cn_sender c) = N + 2)"

text \<open>A receiver whose reader has taken everything has its window after the first byte it waits for.\<close>

lemma drained_limit:
  assumes "rx_inv T M pisn r log"
  shows "bs_buff (rc_stream_out r) = [] \<longleftrightarrow> sr_limit (rc_reassembler r) = first_unassembled (rc_reassembler r) + rc_capacity r"
proof -
  have "rc_inv r" using assms by (simp add: rx_inv_def)
  then have "first_unassembled (rc_reassembler r) = bs_bytes_r (sr_output (rc_reassembler r)) + length (bs_buff (sr_output (rc_reassembler r)))"
      "sr_limit (rc_reassembler r) = bs_bytes_r (sr_output (rc_reassembler r)) + rc_capacity r"
    using sr_core_written(1) [of "rc_reassembler r"] by (simp_all add: rc_inv_def sr_inv_def sr_limit_def)
  then show ?thesis by (simp add: rc_stream_out_def)
qed

lemma over_receiver:
  assumes go: "going S N T M isn pisn log c" and know: "\<forall>p. rknown M (cn_receiver c) p \<longleftrightarrow> p < M + 2"
  shows "rpos (cn_receiver c) = M + 2" and "input_ended (rc_stream_out (cn_receiver c))"
    and "first_unassembled (rc_reassembler (cn_receiver c)) = M" and "rc_syn (cn_receiver c)"
proof -
  show "rpos (cn_receiver c) = M + 2" "rc_syn (cn_receiver c)" using rpos_ready [OF go know] by simp_all
  show e: "input_ended (rc_stream_out (cn_receiver c))" using ended_ready [OF go know] by (simp add: inbound_stream_def)
  then show "first_unassembled (rc_reassembler (cn_receiver c)) = M" using goingD(6) [OF go] by (auto simp: rclosed_def)
qed

text \<open>A receiver that has seen the end of the stream knows all of it.\<close>

lemma ended_knows:
  assumes go: "going S N T M isn pisn log c" and rcv: "receives T M pisn segs new r (cn_receiver c)" and know: "\<forall>p. rknown M r p \<longleftrightarrow> p < A" "A \<le> M + 2"
    and segs: "\<forall>seg \<in> set segs. sent_seg T M pisn (M + 2) seg" and ended: "input_ended (rc_stream_out (cn_receiver c))"
  shows "\<forall>p. rknown M (cn_receiver c) p \<longleftrightarrow> p < M + 2"
proof (intro allI iffI)
  fix p
  note D = goingD [OF go]
  have "rc_syn (cn_receiver c)" "first_unassembled (rc_reassembler (cn_receiver c)) = M" using D(6) ended by (auto simp: rclosed_def)
  then have "rpos (cn_receiver c) = M + 2" using ended by (simp add: rpos_def)
  then show "p < M + 2 \<Longrightarrow> rknown M (cn_receiver c) p" using rpos_known(1) [OF D(9,6)] by simp
  have "M + 2 < SEQ_MOD" using D(12) by (simp add: SEQ_MOD_def)
  then show "rknown M (cn_receiver c) p \<Longrightarrow> p < M + 2"
    using receivesD(4) [OF rcv] know holds_sent segs by fastforce
qed

lemma sound_drain: "sound S N T M isn pisn log c \<Longrightarrow> sound S N T M isn pisn log (c\<lparr>cn_segments_out := []\<rparr>)"
  using going_drain [of S N T M isn pisn log "c\<lparr>cn_isactive := True\<rparr>"] by (cases c) simp

lemma over_drain: "over S N T M isn pisn log c \<Longrightarrow> over S N T M isn pisn log (c\<lparr>cn_segments_out := []\<rparr>)"
  unfolding over_def using sound_drain [of S N T M isn pisn log c] by (simp add: inbound_stream_def)

lemma overD:
  assumes "over S N T M isn pisn log c"
  shows "sound S N T M isn pisn log c" and "sn_next_seqno (cn_sender c) = N + 2" and "\<forall>p. rknown M (cn_receiver c) p \<longleftrightarrow> p < M + 2"
    and "rc_capacity (cn_receiver c) = 64000" and "bs_buff (inbound_stream c) = []" and "unat (sn_last_win (cn_sender c)) \<le> 64000"
    and "sn_quiet (cn_sender c)" and "unat (sn_retransmission_count (cn_sender c)) \<le> 1" and "unat (rt_timeout (cn_cfg c)) = 1000"
    and "cn_isactive c \<Longrightarrow> cn_linger_after_streams_finish c" and "cn_isactive c \<Longrightarrow> cn_time_since_last_segment_received c < 10000"
    and "\<not> cn_isactive c \<Longrightarrow> sn_last_ackno (cn_sender c) = N + 2"
    and "\<And>seg. seg \<in> set (cn_segments_out c) \<Longrightarrow> sent_seg S N isn (N + 2) seg \<and> \<not> rst (header seg)"
proof -
  show s: "sound S N T M isn pisn log c" "sn_next_seqno (cn_sender c) = N + 2" using assms by (simp_all add: over_def)
  show "sent_seg S N isn (N + 2) seg \<and> \<not> rst (header seg)" if "seg \<in> set (cn_segments_out c)" for seg
    using goingD(14) [OF s(1)] that s(2) by simp
qed (insert assms, unfold over_def, (elim conjE, simp)+)

lemma going_sound: "going S N T M isn pisn log c \<Longrightarrow> sound S N T M isn pisn log c"
  by (simp add: going_def)

text \<open>Segments leave the connection over; it answers what is not the peer's last word.\<close>

lemma over_receives:
  assumes ov: "over S N T M isn pisn log c" and nowrap: "unat (raw_value isn) + N + 2 < SEQ_MOD"
    and segs: "\<forall>seg \<in> set segs. sent_seg T M pisn (M + 2) seg \<and> \<not> rst (header seg)"
    and acks: "\<forall>seg \<in> set segs. acks_upto isn 0 64000 (N + 2) seg"
  obtains c' new where "run_steps cn_segment_received c segs = Some c'" and "over S N T M isn pisn log c'"
    and "cn_segments_out c' = cn_segments_out c @ new" and "\<forall>seg \<in> set new. done_seg N isn seg \<and> acks_upto pisn M 64000 (M + 2) seg"
    and "(\<forall>seg \<in> set segs. done_seg M pisn seg) \<longrightarrow> new = []"
    and "sn_last_ackno (cn_sender c) = N + 2 \<or> (\<exists>seg \<in> set segs. ack (header seg) \<and> ackno (header seg) = wrap (N + 2) isn) \<longrightarrow>
      sn_last_ackno (cn_sender c') = N + 2"
    and "cn_isactive c' = cn_isactive c" and "cn_isactive c \<longrightarrow> segs \<noteq> [] \<longrightarrow> cn_time_since_last_segment_received c' = 0"
proof (cases "cn_isactive c")
  case False
  then show thesis using that [of c "[]"] ov inactive_ignores overD(12) [OF ov] by simp
next
  case True
  note O = overD [OF ov]
  have go: "going S N T M isn pisn log c" using sound_active [OF O(1) True] .
  note D = goingD [OF go] and R = over_receiver [OF go O(3)]
  have "sr_limit (rc_reassembler (cn_receiver c)) = M + 64000"
    using drained_limit [OF D(9)] O(4,5) R(3) by (simp add: inbound_stream_def)
  then have lim: "M + 2 \<le> sr_limit (rc_reassembler (cn_receiver c)) + 1" by simp
  have syn: "rc_syn (cn_receiver c) \<or> M + 2 \<le> 1" using R(4) by blast
  have chain: "ack_chain isn (N + 2) (sn_last_ackno (cn_sender c)) (sn_edge (cn_sender c)) segs"
    using ack_chain_even [OF acks] room_le [OF O(6)] by simp
  have st: "stays N (N + 2) c" using O(2,9,10) True by (simp add: stays_def all_sent_def)
  obtain c' new where c': "run_steps cn_segment_received c segs = Some c'" "going S N T M isn pisn log c'" "brings S N T M isn pisn (N + 2) segs new c c'"
    using batch_brings [OF go segs lim syn chain eq_imp_le [OF O(2) [symmetric]] st] by blast
  note B = bringsD [OF c'(3)] and D' = goingD [OF c'(2)]
  note sd = sendsD [OF B(4)] and rd = receivesD [OF B(5)]
  have next': "sn_next_seqno (cn_sender c') = N + 2" using sd(5) D'(11) O(2) by simp
  have know: "\<forall>p. rknown M (cn_receiver c') p \<longleftrightarrow> p < M + 2"
    using knows_all [OF _ O(3), of "cn_receiver c'" segs T pisn "M + 2"] rd(4) segs D(12) by (simp add: SEQ_MOD_def)
  note R' = over_receiver [OF c'(2) know]
  have drained: "bs_buff (inbound_stream c') = []"
    using drained_limit [OF D(9)] drained_limit [OF D'(9)] O(5) R(3) R'(3) rd(1,2) by (simp add: inbound_stream_def)
  have "\<forall>seg \<in> set segs. ack (header seg) \<longrightarrow> unat (win (header seg)) \<le> 64000" using acks by (auto simp: acks_upto_def)
  then have w: "unat (sn_last_win (cn_sender c')) \<le> 64000" using sd(8) O(6) by simp
  have "sn_retransmission_count (cn_sender c') = sn_retransmission_count (cn_sender c) \<or> sn_retransmission_count (cn_sender c') = 0"
    using sd(6) by (auto simp: sn_counts_def)
  then have count: "unat (sn_retransmission_count (cn_sender c')) \<le> 1" using O(8) by auto
  have quiet: "sn_quiet (cn_sender c')" using sd(11) nowrap O(7) by blast
  have linger: "cn_linger_after_streams_finish c'" using B(3) O(2,10) True by (simp add: all_sent_def)
  have time: "cn_time_since_last_segment_received c' = (if segs = [] then cn_time_since_last_segment_received c else 0)" using B(7) .
  have "over S N T M isn pisn log c'"
    using going_sound [OF c'(2)] D'(13) next' know rd(2) O(4,9) drained w quiet count linger B(2) time O(11) True unfolding over_def by simp
  moreover have same: "sn_next_seqno (cn_sender c') = sn_next_seqno (cn_sender c)" using next' O(2) by simp
  have "\<forall>seg \<in> set new. done_seg N isn seg"
    using mp [OF B(6) same, THEN conjunct1] unfolding O(2) done_seg_def .
  then have "\<forall>seg \<in> set new. done_seg N isn seg \<and> acks_upto pisn M 64000 (M + 2) seg" using rd(6) unfolding O(4) R'(1) by blast
  moreover have "(\<forall>seg \<in> set segs. done_seg M pisn seg) \<longrightarrow> new = []"
    using mp [OF B(6) same, THEN conjunct2] R(1) R'(1) by blast
  moreover have "sn_last_ackno (cn_sender c') = N + 2"
    if l: "sn_last_ackno (cn_sender c) = N + 2 \<or> (\<exists>seg \<in> set segs. ack (header seg) \<and> ackno (header seg) = wrap (N + 2) isn)"
  proof -
    have le: "sn_last_ackno (cn_sender c') \<le> N + 2" using D'(10) next' by simp
    from l show ?thesis
    proof
      assume "\<exists>seg \<in> set segs. ack (header seg) \<and> ackno (header seg) = wrap (N + 2) isn"
      from sends_acked [OF B(4) this] show ?thesis using le D(2) by simp
    qed (use sd(3) le in simp)
  qed
  ultimately show thesis using that [OF c'(1) _ B(1)] D'(13) True time by simp
qed

lemma over_ticks:
  assumes ov: "over S N T M isn pisn log c"
    and early: "sn_last_ackno (cn_sender c) = N + 2 \<or>
      (sn_outstanding_seg (cn_sender c) = [] \<or> sn_retransmission_count (cn_sender c) = 0) \<and> cn_time_since_last_segment_received c = 0"
  obtains c' where "cn_tick c 1000 = Some c'" and "over S N T M isn pisn log c'" and "sn_last_ackno (cn_sender c') = sn_last_ackno (cn_sender c)"
    and "sn_last_ackno (cn_sender c) = N + 2 \<longrightarrow> cn_segments_out c' = cn_segments_out c"
    and "\<forall>seg \<in> set (cn_segments_out c'). seg \<in> set (cn_segments_out c) \<or> acks_upto pisn 0 64000 (M + 2) seg"
    and "cn_isactive c' \<longrightarrow> cn_isactive c \<and> cn_time_since_last_segment_received c' = cn_time_since_last_segment_received c + 1000"
proof (cases "cn_isactive c")
  case False
  then show thesis using that [of c] ov by (simp add: cn_tick_def active_def)
next
  case True
  note O = overD [OF ov]
  have go: "going S N T M isn pisn log c" using sound_active [OF O(1) True] .
  note D = goingD [OF go] and R = over_receiver [OF go O(3)]
  have c8: "unat (sn_retransmission_count (cn_sender c)) < 8" using O(8) by simp
  have add: "sz_add (cn_time_since_last_segment_received c) 1000 = cn_time_since_last_segment_received c + 1000"
    using O(11) True by (simp add: sz_add_def SIZE_MOD_def)
  obtain c' re where c': "cn_tick c 1000 = Some c'" "sound S N T M isn pisn log c'" "cn_receiver c' = cn_receiver c"
      "cn_sender c' = (sn_tick (cn_sender c) 1000)\<lparr>sn_segments_out := []\<rparr>"
      "cn_segments_out c' = cn_segments_out c @ map (fill_ack (cn_receiver c)) re" "\<forall>x \<in> set re. plain x"
      "set re \<subseteq> set (sn_outstanding_seg (cn_sender c))" "cn_cfg c' = cn_cfg c"
      "bs_eof (sn_stream (cn_sender c)) \<longrightarrow> cn_linger_after_streams_finish c' = cn_linger_after_streams_finish c"
      "cn_time_since_last_segment_received c' = sz_add (cn_time_since_last_segment_received c) 1000"
      "cn_isactive c' \<longleftrightarrow> sn_last_ackno (cn_sender c) < N + 2 \<or> \<not> input_ended (rc_stream_out (cn_receiver c)) \<or>
        cn_linger_after_streams_finish c \<and> sz_add (cn_time_since_last_segment_received c) 1000 < 10 * unat (rt_timeout (cn_cfg c))"
    by (rule tick_sound [OF go c8])
  have quiet: "sn_outstanding_seg (cn_sender c) = []" if "sn_last_ackno (cn_sender c) = N + 2" using O(2,7) that by simp
  have count: "unat (sn_retransmission_count (cn_sender c')) \<le> 1"
    using sn_tick_count [OF c8, of 1000] early quiet O(8) c'(4) by auto
  have "bs_eof (sn_stream (cn_sender c))" using all_sent_eof [OF D(8)] O(2) by (simp add: all_sent_def)
  then have "cn_linger_after_streams_finish c'" using c'(9) O(10) True by simp
  moreover have "cn_isactive c' \<longrightarrow> cn_time_since_last_segment_received c' < 10000" "\<not> cn_isactive c' \<longrightarrow> sn_last_ackno (cn_sender c) = N + 2"
    using c'(10,11) add early R(2) O(9) D(10,11) O(2) by auto
  ultimately have "over S N T M isn pisn log c'"
    using c'(2,3,4,8) O(2-9) count unfolding over_def by (simp add: inbound_stream_def)
  moreover have "acks_upto pisn 0 64000 (M + 2) (fill_ack (cn_receiver c) seg)" for seg
    using fill_ack_fields [OF D(9) R(4), of seg] advertised_ready [OF go O(5,4)] R(1) by (auto simp: acks_upto_def)
  then have "\<forall>seg \<in> set (cn_segments_out c'). seg \<in> set (cn_segments_out c) \<or> acks_upto pisn 0 64000 (M + 2) seg"
    using c'(5) by auto
  moreover have "sn_last_ackno (cn_sender c) = N + 2 \<longrightarrow> cn_segments_out c' = cn_segments_out c" using c'(5,7) quiet by auto
  ultimately show thesis using that [OF c'(1)] c'(4,10) add True by simp
qed

end
