(* ===== verification/Benchmark_Progress.thy ===== *)
theory Benchmark_Progress
  imports TCP_Benchmark TCP_Closing
begin

text \<open>
  The first loop of the benchmark (\<open>apps/tcp_benchmark.cc\<close>) ends: every round delivers and acknowledges
  whatever the sender had sent, and the sender always has something to send until the receiver has seen
  the end of the stream.
\<close>

section \<open>The sending side writes\<close>

lemma write_going:
  assumes go: "going S N T M isn pisn log c" and d: "d = map S [cn_written c..<cn_written c + length d]" "cn_written c + length d \<le> N"
    and wr: "cn_write c d = Some (length d, c')"
  shows "going S N T M isn pisn log c'" and "fills S N isn c c'" and "cn_written c' = cn_written c + length d"
    and "bs_end_input (sn_stream (cn_sender c')) = bs_end_input (sn_stream (cn_sender c))"
proof -
  have ep: "ep_inv S N T M isn pisn (ep c log)" and act: "cn_isactive c" and calm: "cn_calm c"
    and next0: "0 < sn_next_seqno (cn_sender c)" and good: "sn_good (cn_sender c)"
    using go by (auto simp: going_def)
  have cn: "cn_inv S N c" "sn_isn (cn_sender c) = isn" using ep by (auto simp: ep_inv_def)
  note w = ep_takes_write [OF ep wr d refl]
  show "cn_written c' = cn_written c + length d" using w by blast
  have "going S N T M isn pisn log c' \<and> fills S N isn c c' \<and>
    bs_end_input (sn_stream (cn_sender c')) = bs_end_input (sn_stream (cn_sender c))"
  proof (cases "d = []")
    case True
    then show ?thesis using wr go fills_refl by (simp add: cn_write_def)
  next
    case False
    let ?st = "snd (bs_write (sn_stream (cn_sender c)) d)"
    have "sn_ok S N (cn_sender c) (SnWrite d)" using d go by (simp add: going_def SIZE_MOD_def)
    then have inv: "sn_inv S N ((cn_sender c)\<lparr>sn_stream := ?st\<rparr>)" using sn_step_write cn(1) by (simp add: cn_inv_def)
    obtain s' where f: "fill_window ((cn_sender c)\<lparr>sn_stream := ?st\<rparr>) = Some s'" "c' = cn_send_segment (c\<lparr>cn_sender := s'\<rparr>)"
      using wr False act by (auto simp: cn_write_def prod.case_eq_if bind_eq_Some_conv)
    have edge: "sn_next_seqno (cn_sender c) \<le> sn_edge (cn_sender c)" using good by (simp add: sn_good_def)
    have "bs_capacity ?st = bs_capacity (sn_stream (cn_sender c))" by (simp add: bs_write_eq Let_def)
    note ff = fill_fills [OF calm edge cn(2) inv f(1) this, folded f(2)]
    have "bs_end_input (sn_stream (cn_sender c')) = bs_end_input (sn_stream (cn_sender c))"
      using ff(4) f(2) by (simp add: cn_send_segment_eq bs_write_eq Let_def)
    moreover have "bs_error (sn_stream (cn_sender c')) = bs_error (sn_stream (cn_sender c))"
      using ff(7) f(2) by (simp add: cn_send_segment_eq bs_write_eq Let_def)
    then have "going S N T M isn pisn log c'"
      using w go ff(1,2) ff(3) [OF next0] by (auto simp: going_def fills_def)
    ultimately show ?thesis using ff(1) by blast
  qed
  then show "going S N T M isn pisn log c'" "fills S N isn c c'"
    "bs_end_input (sn_stream (cn_sender c')) = bs_end_input (sn_stream (cn_sender c))" by blast+
qed

lemma end_going:
  assumes go: "going S N T M isn pisn log c" and "cn_written c = N" and e: "end_input_stream c = Some c'"
  shows "going S N T M isn pisn log c'" and "fills S N isn c c'" and "bs_end_input (sn_stream (cn_sender c'))"
    and "cn_written c' = N"
proof -
  let ?st = "end_input (sn_stream (cn_sender c))"
  have ep: "ep_inv S N T M isn pisn (ep c log)" and calm: "cn_calm c" and next0: "0 < sn_next_seqno (cn_sender c)"
    and good: "sn_good (cn_sender c)" using go by (auto simp: going_def)
  have cn: "sn_inv S N (cn_sender c)" "sn_isn (cn_sender c) = isn" using ep by (auto simp: ep_inv_def cn_inv_def)
  have "sn_ok S N (cn_sender c) SnEndInput" using assms(2) by simp
  then have inv: "sn_inv S N ((cn_sender c)\<lparr>sn_stream := ?st\<rparr>)" using sn_step_total [OF cn(1), of SnEndInput] by simp
  obtain s' where f: "fill_window ((cn_sender c)\<lparr>sn_stream := ?st\<rparr>) = Some s'" "c' = cn_send_segment (c\<lparr>cn_sender := s'\<rparr>)"
    using e by (auto simp: end_input_stream_def bind_eq_Some_conv)
  have edge: "sn_next_seqno (cn_sender c) \<le> sn_edge (cn_sender c)" using good by (simp add: sn_good_def)
  have "bs_capacity ?st = bs_capacity (sn_stream (cn_sender c))" by (simp add: end_input_def)
  note ff = fill_fills [OF calm edge cn(2) inv f(1) this, folded f(2)] and w = ep_takes_end [OF ep e assms(2)]
  show "fills S N isn c c'" by (rule ff(1))
  show "bs_end_input (sn_stream (cn_sender c'))" using ff(4) f(2) by (simp add: cn_send_segment_eq end_input_def)
  show "cn_written c' = N" using w assms(2) by simp
  have "bs_error (sn_stream (cn_sender c')) = bs_error (sn_stream (cn_sender c))"
    using ff(7) f(2) by (simp add: cn_send_segment_eq end_input_def)
  then show "going S N T M isn pisn log c'" using w go ff(1,2) ff(3) [OF next0] by (auto simp: going_def fills_def)
qed

lemma bench_write_going:
  assumes "bench_write x b = Some (x', b')" and "going ((!) data) (length data) T M isn pisn log x" and "buffer_inv b"
    and "cn_written x \<le> length data" and "buffer_str b = drop (cn_written x) data"
  shows "going ((!) data) (length data) T M isn pisn log x' \<and> fills ((!) data) (length data) isn x x' \<and>
    cn_written x' \<le> length data \<and> buffer_inv b' \<and> buffer_str b' = drop (cn_written x') data \<and>
    bs_end_input (sn_stream (cn_sender x')) = bs_end_input (sn_stream (cn_sender x)) \<and>
    (buffer_str b' = [] \<or> remaining_outbound_capacity x' = 0)"
  using assms
proof (induction "length (buffer_str b)" arbitrary: x b rule: less_induct)
  case less
  note step = less.prems(1) [unfolded bench_write.simps [of x b]] and go = less.prems(2) and b = less.prems(3-5)
  show ?case
  proof (cases "buf_size b \<noteq> 0 \<and> remaining_outbound_capacity x \<noteq> 0")
    case False
    then show ?thesis using step go b fills_refl by (auto simp: buf_size_def)
  next
    case True
    let ?w = "cn_written x" and ?want = "min (remaining_outbound_capacity x) (buf_size b)"
    let ?d = "take ?want (buffer_str b)"
    have len: "length ?d = ?want" by (simp add: buf_size_def)
    obtain x1 b1 where s: "cn_write x ?d = Some (length ?d, x1)" "buffer_remove_prefix b ?want = Some b1" "bench_write x1 b1 = Some (x', b')"
      using step True len by (auto simp: Let_def bind_eq_Some_conv split: if_splits)
    have le: "?w + length ?d \<le> length data" using b(2,3) len by (auto simp: buf_size_def)
    have "?d = take ?want (drop ?w data)" using b(3) by simp
    also have "\<dots> = map ((!) data) [?w..<?w + length ?d]" using le len by (intro nth_equalityI) auto
    finally have d: "?d = map ((!) data) [?w..<?w + length ?d]" .
    note wg = write_going [OF go d le s(1)]
    have b1: "buffer_inv b1" "buffer_str b1 = drop ?want (buffer_str b)"
      using buffer_remove_prefix_ok [OF b(1), of ?want] s(2) by (auto simp: buf_size_def)
    have "cn_written x1 \<le> length data" "buffer_str b1 = drop (cn_written x1) data"
      using wg(3) le len b1(2) b(3) by (simp_all add: add.commute)
    moreover have "length (buffer_str b1) < length (buffer_str b)" using b1(2) True by (auto simp: buf_size_def)
    ultimately show ?thesis using less.hyps [OF _ s(3) wg(1) b1(1)] wg(2,4) fills_trans [OF wg(2)] by auto
  qed
qed

section \<open>The state between two rounds\<close>

text \<open>
  \<open>A\<close> is the sequence number up to which \<open>x\<close> has been acknowledged, \<open>P\<close> the one up to which \<open>x\<close> has
  heard of \<open>y\<close>, which sends a SYN and a FIN. All of \<open>x\<close>'s unacknowledged segments are in its queue.
\<close>

definition x_ready :: "bytes \<Rightarrow> wrapping_int32 \<Rightarrow> wrapping_int32 \<Rightarrow> nat \<Rightarrow> nat \<Rightarrow> tcp_connection \<Rightarrow> bool" where
  "x_ready data ix iy A P x \<longleftrightarrow> going ((!) data) (length data) (\<lambda>_. 0) 0 ix iy [] x \<and>
     sn_last_ackno (cn_sender x) = A \<and> (A = 0 \<longrightarrow> sn_next_seqno (cn_sender x) = 1) \<and> unat (sn_last_win (cn_sender x)) \<le> 64000 \<and>
     unat (sn_retransmission_count (cn_sender x)) \<le> 1 \<and> unat (rt_timeout (cn_cfg x)) = 1000 \<and>
     rc_capacity (cn_receiver x) = 64000 \<and> bs_capacity (sn_stream (cn_sender x)) = 64000 \<and>
     (\<forall>p. rknown 0 (cn_receiver x) p \<longleftrightarrow> p < P) \<and> (\<forall>seg \<in> set (cn_segments_out x). acks_upto iy 0 64000 P seg) \<and>
     (\<forall>p. A \<le> p \<longrightarrow> p < sn_next_seqno (cn_sender x) \<longrightarrow> (\<exists>seg \<in> set (cn_segments_out x). holds ((!) data) (length data) ix seg p))"

text \<open>\<open>y\<close> sends no data; its SYN and FIN are on the way or have arrived.\<close>

definition y_phase :: "nat \<Rightarrow> tcp_sender \<Rightarrow> bool" where
  "y_phase P s \<longleftrightarrow> sn_last_ackno s = 0 \<and> sn_next_seqno s = 1 \<and> P \<le> 1 \<or> 1 \<le> sn_last_ackno s \<and> sn_next_seqno s = 2 \<and> P = 2"

definition y_ready :: "bytes \<Rightarrow> wrapping_int32 \<Rightarrow> wrapping_int32 \<Rightarrow> nat \<Rightarrow> nat \<Rightarrow> bytes \<Rightarrow> tcp_connection \<Rightarrow> bool" where
  "y_ready data ix iy A P log y \<longleftrightarrow> going (\<lambda>_. 0) 0 ((!) data) (length data) iy ix log y \<and>
     (\<forall>p. rknown (length data) (cn_receiver y) p \<longleftrightarrow> p < A) \<and> rc_capacity (cn_receiver y) = 64000 \<and> bs_buff (inbound_stream y) = [] \<and>
     bs_end_input (sn_stream (cn_sender y)) \<and> cn_linger_after_streams_finish y \<and> unat (rt_timeout (cn_cfg y)) = 1000 \<and>
     unat (sn_last_win (cn_sender y)) \<le> 64000 \<and> y_phase P (cn_sender y) \<and> unat (sn_retransmission_count (cn_sender y)) \<le> 1 \<and>
     (P = 0 \<longrightarrow> sn_retransmission_count (cn_sender y) = 0) \<and> sn_quiet (cn_sender y) \<and>
     (\<forall>seg \<in> set (cn_segments_out y). ack (header seg) \<longrightarrow> ackno (header seg) = wrap A ix \<and> win (header seg) = 64000) \<and>
     (\<forall>p. P \<le> p \<longrightarrow> p < sn_next_seqno (cn_sender y) \<longrightarrow> (\<exists>seg \<in> set (cn_segments_out y). holds (\<lambda>_. 0) 0 iy seg p))"

lemma x_ready_fills:
  assumes x: "x_ready data ix iy A P x" and f: "fills ((!) data) (length data) ix x x'"
    and go: "going ((!) data) (length data) (\<lambda>_. 0) 0 ix iy [] x'"
  shows "x_ready data ix iy A P x'" and "set (cn_segments_out x) \<subseteq> set (cn_segments_out x')"
proof -
  let ?h = "holds ((!) data) (length data) ix"
  obtain outs where outs: "cn_segments_out x' = cn_segments_out x @ map (fill_ack (cn_receiver x)) outs" "\<forall>s \<in> set outs. plain s"
      "\<forall>p. sn_next_seqno (cn_sender x) \<le> p \<longrightarrow> p < sn_next_seqno (cn_sender x') \<longrightarrow> (\<exists>s \<in> set outs. ?h s p)"
    using f unfolding fills_def by blast
  then show "set (cn_segments_out x) \<subseteq> set (cn_segments_out x')" by simp
  have xg: "going ((!) data) (length data) (\<lambda>_. 0) 0 ix iy [] x" and kn: "\<forall>p. rknown 0 (cn_receiver x) p \<longleftrightarrow> p < P"
    and cap: "rc_capacity (cn_receiver x) = 64000"
    using x by (auto simp: x_ready_def)
  have "rpos (cn_receiver x) = P" using rpos_ready [OF xg kn] by blast
  then have acks: "\<forall>seg \<in> set (cn_segments_out x'). acks_upto iy 0 64000 P seg"
    using outs(1,2) x acks_upto_fill [OF goingD(9) [OF xg], of _ P] cap by (auto simp: x_ready_def)
  have cov: "\<exists>seg \<in> set (cn_segments_out x'). ?h seg p" if p: "A \<le> p" "p < sn_next_seqno (cn_sender x')" for p
  proof (cases "p < sn_next_seqno (cn_sender x)")
    case True
    then show ?thesis using x p(1) outs(1) by (force simp: x_ready_def)
  next
    case False
    then obtain s where "s \<in> set outs" "?h s p" using outs(3) p(2) not_less by blast
    then show ?thesis using outs(1) by (intro bexI [of _ "fill_ack (cn_receiver x) s"]) simp_all
  qed
  have "0 < sn_next_seqno (cn_sender x)" using goingD(4) [OF xg] .
  then show "x_ready data ix iy A P x'"
    using x go f acks cov unfolding x_ready_def fills_def by (elim conjE) simp
qed

section \<open>One round\<close>

text \<open>After the writes there is something to send, unless everything has been acknowledged.\<close>

lemma send_progress:
  assumes x: "x_ready data ix iy A P x" and "A \<noteq> length data + 2" and room: "all_in \<or> remaining_outbound_capacity x = 0"
    and ended: "all_in \<Longrightarrow> bs_end_input (sn_stream (cn_sender x)) \<and> cn_written x = length data"
  shows "A < sn_next_seqno (cn_sender x)"
proof (cases "A = 0")
  case True
  then show ?thesis using x by (simp add: x_ready_def)
next
  case False
  let ?s = "cn_sender x"
  have go: "going ((!) data) (length data) (\<lambda>_. 0) 0 ix iy [] x" and last: "sn_last_ackno ?s = A" and cap: "bs_capacity (sn_stream ?s) = 64000"
    using x by (auto simp: x_ready_def)
  obtain w where w: "w \<noteq> 0" "window_filled w ?s" using goingD(5) [OF go] last False by (auto simp: sn_good_def)
  have bif: "sn_bytes_in_flight ?s = sn_next_seqno ?s - A" using sn_bytes_in_flight_exact [OF goingD(8) [OF go]] last by simp
  have le: "A \<le> sn_next_seqno ?s" using goingD(10) [OF go] last by simp
  have "sn_next_seqno ?s \<noteq> A"
  proof
    assume eq: "sn_next_seqno ?s = A"
    then have "unat w \<noteq> sn_bytes_in_flight ?s" using bif w(1) by (simp add: unat_eq_zero)
    then have "bs_buff (sn_stream ?s) = []" "bs_end_input (sn_stream ?s) \<longrightarrow> A = cn_written x + 2"
      using w(2) eq by (auto simp: window_filled_def)
    moreover from this have "remaining_outbound_capacity x = 64000"
      using cap by (simp add: remaining_outbound_capacity_def remaining_capacity_def sz_sub_def SIZE_MOD_def)
    ultimately show False using room ended assms(2) by auto
  qed
  then show ?thesis using le by simp
qed

text \<open>What \<open>x\<close> has queued by then is in the window of \<open>y\<close>, and does not move the window of \<open>y\<close> back.\<close>

lemma x_offers:
  assumes x: "x_ready data ix iy A P x" and y: "y_ready data ix iy A P log y" and prog: "A < sn_next_seqno (cn_sender x)"
    and segs: "set segs = set (cn_segments_out x)"
  shows "\<forall>seg \<in> set segs. sent_seg ((!) data) (length data) ix (sn_next_seqno (cn_sender x)) seg \<and> \<not> rst (header seg)"
    and "sn_next_seqno (cn_sender x) \<le> sr_limit (rc_reassembler (cn_receiver y)) + 1"
    and "rc_syn (cn_receiver y) \<or> sn_next_seqno (cn_sender x) \<le> 1"
    and "ack_chain iy P (sn_last_ackno (cn_sender y)) (sn_edge (cn_sender y)) segs"
    and "P \<le> sn_next_seqno (cn_sender y)" and "stays 0 P y" and "sn_last_ackno (cn_sender y) \<le> P" and "P \<le> 2"
proof -
  let ?n = "sn_next_seqno (cn_sender x)"
  have gx: "going ((!) data) (length data) (\<lambda>_. 0) 0 ix iy [] x" and lx: "sn_last_ackno (cn_sender x) = A" and wx: "unat (sn_last_win (cn_sender x)) \<le> 64000"
    and ax: "\<forall>seg \<in> set (cn_segments_out x). acks_upto iy 0 64000 P seg" and one: "A = 0 \<longrightarrow> ?n = 1"
    using x by (auto simp: x_ready_def)
  have gy: "going (\<lambda>_. 0) 0 ((!) data) (length data) iy ix log y" and ky: "\<forall>p. rknown (length data) (cn_receiver y) p \<longleftrightarrow> p < A"
    and cy: "rc_capacity (cn_receiver y) = 64000" "bs_buff (inbound_stream y) = []" and ph: "y_phase P (cn_sender y)"
    and wy: "unat (sn_last_win (cn_sender y)) \<le> 64000"
    using y by (auto simp: y_ready_def)
  note D = goingD [OF gx] and pos = rpos_ready [OF gy ky]
  have "\<not> input_ended (rc_stream_out (cn_receiver y))" using ended_ready [OF gy ky] prog D(11) by (simp add: inbound_stream_def)
  then have "A \<le> first_unassembled (rc_reassembler (cn_receiver y)) + 1" using pos by (auto simp: rpos_def split: if_splits)
  moreover have "?n \<le> A + 64000" using D(5) lx room_le [OF wx] by (simp add: sn_good_def)
  ultimately show "?n \<le> sr_limit (rc_reassembler (cn_receiver y)) + 1" using limit_ready [OF gy cy(2,1)] by simp
  show "rc_syn (cn_receiver y) \<or> ?n \<le> 1" using pos one by auto
  show "ack_chain iy P (sn_last_ackno (cn_sender y)) (sn_edge (cn_sender y)) segs"
    using ack_chain_even ax segs room_le [OF wy] by simp
  show "P \<le> sn_next_seqno (cn_sender y)" "sn_last_ackno (cn_sender y) \<le> P" "P \<le> 2"
    using ph goingD(10) [OF gy] by (auto simp: y_phase_def)
  show "stays 0 P y" using y by (simp add: stays_def all_sent_def y_ready_def)
  show "\<forall>seg \<in> set segs. sent_seg ((!) data) (length data) ix ?n seg \<and> \<not> rst (header seg)" using D(14) segs by blast
qed

text \<open>Once its SYN is acknowledged, \<open>y\<close> sends its FIN.\<close>

lemma fin_follows:
  assumes go: "going (\<lambda>_. 0) 0 T M isn pisn log c" and "0 < sn_last_ackno (cn_sender c)" and "bs_end_input (sn_stream (cn_sender c))"
  shows "sn_next_seqno (cn_sender c) = 2"
proof -
  obtain w where w: "w \<noteq> 0" "window_filled w (cn_sender c)" using goingD(5) [OF go] assms(2) by (auto simp: sn_good_def)
  have "sn_bytes_in_flight (cn_sender c) = sn_next_seqno (cn_sender c) - sn_last_ackno (cn_sender c)"
    using sn_bytes_in_flight_exact [OF goingD(8) [OF go]] by simp
  moreover have "unat w \<noteq> 0" using w(1) by (simp add: unat_eq_zero)
  ultimately have "2 \<le> sn_next_seqno (cn_sender c)" using w(2) assms(2,3) by (auto simp: window_filled_def)
  then show ?thesis using goingD(11) [OF go] by simp
qed

lemma y_receives:
  assumes x: "x_ready data ix iy A P x" and y: "y_ready data ix iy A P log y" and prog: "A < sn_next_seqno (cn_sender x)"
    and link: "sn_last_ackno (cn_sender y) < P \<longrightarrow> (\<exists>seg \<in> set (cn_segments_out x). ack (header seg) \<and> ackno (header seg) = wrap P iy)"
    and nowrap: "unat (raw_value iy) + 2 < SEQ_MOD" and segs: "set segs = set (cn_segments_out x)"
  obtains y' new where "run_steps cn_segment_received y segs = Some y'" and "going (\<lambda>_. 0) 0 ((!) data) (length data) iy ix log y'"
    and "brings (\<lambda>_. 0) 0 ((!) data) (length data) iy ix P segs new y y'"
    and "\<forall>p. rknown (length data) (cn_receiver y') p \<longleftrightarrow> p < sn_next_seqno (cn_sender x)"
    and "sn_last_ackno (cn_sender y') = P" and "sn_next_seqno (cn_sender y') = (if P = 0 then 1 else 2)" and "sn_quiet (cn_sender y')"
    and "unat (sn_retransmission_count (cn_sender y')) \<le> 1"
    and "sn_outstanding_seg (cn_sender y') = [] \<or> sn_retransmission_count (cn_sender y') = 0"
proof -
  let ?S = "(!) data" and ?N = "length data" and ?T = "\<lambda>_. 0 :: byte" and ?sy = "cn_sender y" and ?n = "sn_next_seqno (cn_sender x)"
  have gx: "going ?S ?N ?T 0 ix iy [] x" and kx: "\<forall>p. A \<le> p \<longrightarrow> p < ?n \<longrightarrow> (\<exists>seg \<in> set (cn_segments_out x). holds ?S ?N ix seg p)"
    using x by (auto simp: x_ready_def)
  have gy: "going ?T 0 ?S ?N iy ix log y" and ky: "\<forall>p. rknown ?N (cn_receiver y) p \<longleftrightarrow> p < A" and ph: "y_phase P ?sy"
    and qy: "sn_quiet ?sy" and ct: "unat (sn_retransmission_count ?sy) \<le> 1" "P = 0 \<longrightarrow> sn_retransmission_count ?sy = 0"
    and ey: "bs_end_input (sn_stream ?sy)"
    using y by (auto simp: y_ready_def)
  note X = x_offers [OF x y prog segs]
  obtain y' new where y': "run_steps cn_segment_received y segs = Some y'" "going ?T 0 ?S ?N iy ix log y'" "brings ?T 0 ?S ?N iy ix P segs new y y'"
    using batch_brings [OF gy X(1-6)] by blast
  note sd = sendsD [OF bringsD(4) [OF y'(3)]] and rd = receivesD [OF bringsD(5) [OF y'(3)]] and E' = goingD [OF y'(2)]
  have know: "\<forall>p. rknown ?N (cn_receiver y') p \<longleftrightarrow> p < ?n"
    using knows_all [OF _ ky, of "cn_receiver y'" segs ?S ix ?n] rd(4) X(1) kx segs prog goingD(2) [OF gx] by (simp add: SEQ_MOD_def)
  have ge: "P \<le> sn_last_ackno (cn_sender y')"
  proof (cases "sn_last_ackno ?sy < P")
    case True
    then have "\<exists>seg \<in> set segs. ack (header seg) \<and> ackno (header seg) = wrap P iy" using link segs by blast
    then show ?thesis using sends_acked [OF bringsD(4) [OF y'(3)]] E'(10,11) X(8) by simp
  qed (use sd(3) in simp)
  then have last: "sn_last_ackno (cn_sender y') = P" using sd(4) X(7) by simp
  have next': "sn_next_seqno (cn_sender y') = (if P = 0 then 1 else 2)"
    using fin_follows [OF y'(2)] sd(2,7) ey last ph by (auto simp: y_phase_def)
  have quiet: "sn_quiet (cn_sender y')" using sd(11) nowrap qy by simp
  have cnt: "unat (sn_retransmission_count (cn_sender y')) \<le> 1 \<and> (sn_outstanding_seg (cn_sender y') = [] \<or> sn_retransmission_count (cn_sender y') = 0)"
  proof (cases "sn_last_ackno ?sy < P")
    case True
    then show ?thesis using sd(6) last by (simp add: sn_counts_def)
  next
    case False
    then have eq: "sn_last_ackno ?sy = P" "sn_retransmission_count (cn_sender y') = sn_retransmission_count ?sy"
      using X(7) sd(6) last by (auto simp: sn_counts_def)
    then have "P = 0 \<or> P = 2" using ph by (auto simp: y_phase_def)
    then show ?thesis using eq(2) ct quiet last next' by auto
  qed
  show thesis using that [OF y' know last next' quiet] cnt by blast
qed

text \<open>What \<open>y\<close> has queued by then acknowledges all of what \<open>x\<close> has sent, and holds what \<open>x\<close> has not had.\<close>

lemma y_answers:
  assumes x: "x_ready data ix iy A P x" and y: "y_ready data ix iy A P log y"
    and y': "going (\<lambda>_. 0) 0 ((!) data) (length data) iy ix log y'" "brings (\<lambda>_. 0) 0 ((!) data) (length data) iy ix P segs new y y'"
    and know: "\<forall>p. rknown (length data) (cn_receiver y') p \<longleftrightarrow> p < sn_next_seqno (cn_sender x)"
    and next_y: "sn_next_seqno (cn_sender y') = (if P = 0 then 1 else 2)" and prog: "A < sn_next_seqno (cn_sender x)"
  shows "\<forall>seg \<in> set (cn_segments_out y'). sent_seg (\<lambda>_. 0) 0 iy (sn_next_seqno (cn_sender y')) seg \<and> \<not> rst (header seg)"
    and "sn_next_seqno (cn_sender y') \<le> sr_limit (rc_reassembler (cn_receiver x)) + 1"
    and "rc_syn (cn_receiver x) \<or> sn_next_seqno (cn_sender y') \<le> 1"
    and "ack_chain ix (sn_next_seqno (cn_sender x)) (sn_last_ackno (cn_sender x)) (sn_edge (cn_sender x)) (cn_segments_out y')"
    and "\<exists>seg \<in> set (cn_segments_out y'). ack (header seg) \<and> ackno (header seg) = wrap (sn_next_seqno (cn_sender x)) ix"
    and "P \<le> p \<Longrightarrow> p < sn_next_seqno (cn_sender y') \<Longrightarrow> \<exists>seg \<in> set (cn_segments_out y'). holds (\<lambda>_. 0) 0 iy seg p"
    and "\<forall>seg \<in> set (cn_segments_out y'). ack (header seg) \<longrightarrow> unat (win (header seg)) \<le> 64000" and "P \<le> sn_next_seqno (cn_sender y')"
proof -
  let ?S = "(!) data" and ?N = "length data" and ?T = "\<lambda>_. 0 :: byte"
  let ?n = "sn_next_seqno (cn_sender x)" and ?m = "sn_next_seqno (cn_sender y')" and ?q = "cn_segments_out y'"
  have gx: "going ?S ?N ?T 0 ix iy [] x" and lx: "sn_last_ackno (cn_sender x) = A" and wx: "unat (sn_last_win (cn_sender x)) \<le> 64000"
    and kx: "\<forall>p. rknown 0 (cn_receiver x) p \<longleftrightarrow> p < P" and cx: "rc_capacity (cn_receiver x) = 64000"
    using x by (auto simp: x_ready_def)
  have gy: "going ?T 0 ?S ?N iy ix log y" and ky: "\<forall>p. rknown ?N (cn_receiver y) p \<longleftrightarrow> p < A"
    and cy: "rc_capacity (cn_receiver y) = 64000" "bs_buff (inbound_stream y) = []" and ph: "y_phase P (cn_sender y)"
    and ay: "\<forall>seg \<in> set (cn_segments_out y). ack (header seg) \<longrightarrow> ackno (header seg) = wrap A ix \<and> win (header seg) = 64000"
    and hy: "\<forall>p. P \<le> p \<longrightarrow> p < sn_next_seqno (cn_sender y) \<longrightarrow> (\<exists>seg \<in> set (cn_segments_out y). holds ?T 0 iy seg p)"
    using y by (auto simp: y_ready_def)
  note D = goingD [OF gx] and E' = goingD [OF y'(1)]
  note sd = sendsD [OF bringsD(4) [OF y'(2)]] and rd = receivesD [OF bringsD(5) [OF y'(2)]]
  have q: "?q = cn_segments_out y @ new" using bringsD(1) [OF y'(2)] .
  have pos: "rpos (cn_receiver y) = A" "rpos (cn_receiver y') = ?n" and syn: "rc_syn (cn_receiver x) \<longleftrightarrow> 0 < P"
    using rpos_ready [OF gy ky] rpos_ready [OF y'(1) know] rpos_ready [OF gx kx] by blast+
  show "\<forall>seg \<in> set ?q. sent_seg ?T 0 iy ?m seg \<and> \<not> rst (header seg)" using E'(14) by blast
  have "rc_inv (cn_receiver x)" using D(9) by (simp add: rx_inv_def)
  then show "?m \<le> sr_limit (rc_reassembler (cn_receiver x)) + 1" using next_y cx by (simp add: sr_limit_def rc_inv_def)
  show "rc_syn (cn_receiver x) \<or> ?m \<le> 1" using syn next_y by simp
  have "ack_chain ix ?n A e new" if "e \<le> A + 64000" for e
  proof -
    have "acks_on ix ?n (cn_receiver y) new (cn_receiver y')" using rd(7) pos(2) by simp
    moreover have "rc_edge (cn_receiver y) = A + 64000" using advertised_ready [OF gy cy(2,1)] pos(1) by (simp add: room_def)
    ultimately have "ack_chain ix ?n A e (new @ [])" using that pos(1) unfolding acks_on_def by (metis ack_chain.simps(1) le_refl)
    then show ?thesis by simp
  qed
  moreover have "sn_edge (cn_sender x) \<le> A + 64000" using lx room_le [OF wx] by simp
  ultimately show "ack_chain ix ?n (sn_last_ackno (cn_sender x)) (sn_edge (cn_sender x)) ?q"
    using ack_chain_same [OF ay, of ?n "sn_edge (cn_sender x)" new] prog lx q by simp
  have "rpos (cn_receiver y') \<noteq> rpos (cn_receiver y)" using pos prog by simp
  then show "\<exists>seg \<in> set ?q. ack (header seg) \<and> ackno (header seg) = wrap ?n ix" using rd(5) pos(2) q by auto
  show "\<exists>seg \<in> set ?q. holds ?T 0 iy seg p" if p: "P \<le> p" "p < ?m"
  proof (cases "p < sn_next_seqno (cn_sender y)")
    case True
    then show ?thesis using hy p(1) q by auto
  next
    case False
    then have "sn_next_seqno (cn_sender y) \<le> p" by simp
    then show ?thesis using sd(10) p(2) q by auto
  qed
  show "\<forall>seg \<in> set ?q. ack (header seg) \<longrightarrow> unat (win (header seg)) \<le> 64000"
    using ay rd(6) cy(1) q by (auto simp: acks_upto_def)
  show "P \<le> ?m" using ph next_y by (auto simp: y_phase_def)
qed

lemma x_receives:
  assumes x: "x_ready data ix iy A P x" and y: "y_ready data ix iy A P log y"
    and y': "going (\<lambda>_. 0) 0 ((!) data) (length data) iy ix log y'" "brings (\<lambda>_. 0) 0 ((!) data) (length data) iy ix P segs new y y'"
    and know: "\<forall>p. rknown (length data) (cn_receiver y') p \<longleftrightarrow> p < sn_next_seqno (cn_sender x)"
    and next_y: "sn_next_seqno (cn_sender y') = (if P = 0 then 1 else 2)"
    and prog: "A < sn_next_seqno (cn_sender x)" and more: "sn_next_seqno (cn_sender x) < length data + 2"
  obtains x' where "run_steps cn_segment_received (x\<lparr>cn_segments_out := []\<rparr>) (cn_segments_out y') = Some x'"
    and "x_ready data ix iy (sn_next_seqno (cn_sender x)) (sn_next_seqno (cn_sender y')) x'"
    and "sn_retransmission_count (cn_sender x') = 0" and "bs_end_input (sn_stream (cn_sender x')) = bs_end_input (sn_stream (cn_sender x))"
    and "P < sn_next_seqno (cn_sender y') \<longrightarrow>
      (\<exists>seg \<in> set (cn_segments_out x'). ack (header seg) \<and> ackno (header seg) = wrap (sn_next_seqno (cn_sender y')) iy)"
proof -
  let ?S = "(!) data" and ?N = "length data" and ?T = "\<lambda>_. 0 :: byte" and ?x = "x\<lparr>cn_segments_out := []\<rparr>"
  let ?n = "sn_next_seqno (cn_sender x)" and ?m = "sn_next_seqno (cn_sender y')" and ?q = "cn_segments_out y'"
  have gx: "going ?S ?N ?T 0 ix iy [] x" and lx: "sn_last_ackno (cn_sender x) = A" and wx: "unat (sn_last_win (cn_sender x)) \<le> 64000"
    and kx: "\<forall>p. rknown 0 (cn_receiver x) p \<longleftrightarrow> p < P" and rt: "unat (rt_timeout (cn_cfg x)) = 1000"
    and cx: "rc_capacity (cn_receiver x) = 64000" "bs_capacity (sn_stream (cn_sender x)) = 64000"
    using x by (auto simp: x_ready_def)
  note gx' = going_drain [OF gx] and D = goingD [OF gx] and Q = y_answers [OF x y y' know next_y prog]
  have st: "stays ?N ?n ?x" using lx prog more by (simp add: stays_def)
  obtain x' newx where x': "run_steps cn_segment_received ?x ?q = Some x'" "going ?S ?N ?T 0 ix iy [] x'" "brings ?S ?N ?T 0 ix iy ?n ?q newx ?x x'"
    using batch_brings [OF gx' Q(1) _ _ _ _ st] Q(2,3,4) by auto
  note sx = sendsD [OF bringsD(4) [OF x'(3)], simplified] and rx = receivesD [OF bringsD(5) [OF x'(3)], simplified]
  have out: "cn_segments_out x' = newx" using bringsD(1) [OF x'(3)] by simp
  have "sn_last_ackno (cn_sender x') \<le> ?n" using sx(4) lx prog by simp
  then have last: "sn_last_ackno (cn_sender x') = ?n" using sends_acked [OF bringsD(4) [OF x'(3)] Q(5)] D(2,11) by simp
  have knowx: "\<forall>p. rknown 0 (cn_receiver x') p \<longleftrightarrow> p < ?m"
    using knows_all [OF _ kx _ Q(6), of "cn_receiver x'"] rx(4) Q(1,8) by (simp add: SEQ_MOD_def)
  have posx: "rpos (cn_receiver x') = ?m" "rpos (cn_receiver x) = P" using rpos_ready [OF x'(2) knowx] rpos_ready [OF gx kx] by blast+
  have "sn_counts (cn_sender x) (cn_sender x')" using sx(6) .
  then have cnt: "sn_retransmission_count (cn_sender x') = 0" using last lx prog by (simp add: sn_counts_def)
  have "x_ready data ix iy ?n ?m x'"
    unfolding x_ready_def
    using x'(2) last prog cnt knowx sx(8) wx Q(7) rx(2) cx rt bringsD(2) [OF x'(3)] rx(6) posx(1) out sx(10,12) by simp
  moreover have "P < ?m \<longrightarrow> (\<exists>seg \<in> set (cn_segments_out x'). ack (header seg) \<and> ackno (header seg) = wrap ?m iy)"
    using rx(5) posx out by auto
  ultimately show thesis using that [OF x'(1) _ cnt] sx(2) by simp
qed

text \<open>The end of a round: \<open>x\<close> and \<open>y\<close> tick, and \<open>y\<close> has been read empty before.\<close>

lemma x_ticks:
  assumes x: "x_ready data ix iy A P x" and "sn_retransmission_count (cn_sender x) = 0" and "A < length data + 2"
  obtains x' where "cn_tick x 1000 = Some x'" and "x_ready data ix iy A P x'"
    and "bs_end_input (sn_stream (cn_sender x')) = bs_end_input (sn_stream (cn_sender x))"
    and "set (cn_segments_out x) \<subseteq> set (cn_segments_out x')"
proof -
  have gx: "going ((!) data) (length data) (\<lambda>_. 0) 0 ix iy [] x" and kx: "\<forall>p. rknown 0 (cn_receiver x) p \<longleftrightarrow> p < P"
    and cap: "rc_capacity (cn_receiver x) = 64000"
    using x by (auto simp: x_ready_def)
  have count: "unat (sn_retransmission_count (cn_sender x)) < 8" using assms(2) by simp
  have still: "sn_last_ackno (cn_sender x) < length data + 2 \<or> \<not> input_ended (rc_stream_out (cn_receiver x))"
    using x assms(3) by (simp add: x_ready_def)
  obtain x' re where x': "cn_tick x 1000 = Some x'" "going ((!) data) (length data) (\<lambda>_. 0) 0 ix iy [] x'" "cn_receiver x' = cn_receiver x"
      "cn_sender x' = (sn_tick (cn_sender x) 1000)\<lparr>sn_segments_out := []\<rparr>"
      "cn_segments_out x' = cn_segments_out x @ map (fill_ack (cn_receiver x)) re" "\<forall>s \<in> set re. plain s" "cn_cfg x' = cn_cfg x"
    by (rule tick_going [OF gx count still])
  have "unat (sn_retransmission_count (cn_sender x')) \<le> 1" using sn_tick_count(1) [OF count, of 1000] assms(2) x'(4) by simp
  moreover have "\<forall>seg \<in> set (cn_segments_out x'). acks_upto iy 0 64000 P seg"
    using x'(5,6) x acks_upto_fill [OF goingD(9) [OF gx], of _ P] cap rpos_ready(1) [OF gx kx] by (auto simp: x_ready_def)
  moreover have "\<exists>seg \<in> set (cn_segments_out x'). holds ((!) data) (length data) ix seg p"
    if "A \<le> p" "p < sn_next_seqno (cn_sender x)" for p
    using that x x'(5) by (force simp: x_ready_def)
  ultimately have "x_ready data ix iy A P x'" using x x'(2,3,4,7) unfolding x_ready_def by simp
  with that [OF x'(1)] x'(4,5) show thesis by simp
qed

text \<open>\<open>y\<close> when it has had the segments of a round and has been read empty.\<close>

definition y_read :: "bytes \<Rightarrow> wrapping_int32 \<Rightarrow> wrapping_int32 \<Rightarrow> nat \<Rightarrow> nat \<Rightarrow> bytes \<Rightarrow> tcp_connection \<Rightarrow> bool" where
  "y_read data ix iy A P log y \<longleftrightarrow> going (\<lambda>_. 0) 0 ((!) data) (length data) iy ix log y \<and>
     (\<forall>p. rknown (length data) (cn_receiver y) p \<longleftrightarrow> p < A) \<and> rc_capacity (cn_receiver y) = 64000 \<and> bs_buff (inbound_stream y) = [] \<and>
     cn_segments_out y = [] \<and> bs_end_input (sn_stream (cn_sender y)) \<and> cn_linger_after_streams_finish y \<and>
     unat (rt_timeout (cn_cfg y)) = 1000 \<and> cn_time_since_last_segment_received y = 0 \<and> unat (sn_last_win (cn_sender y)) \<le> 64000 \<and>
     sn_last_ackno (cn_sender y) = P \<and> P \<le> 2 \<and> sn_next_seqno (cn_sender y) = (if P = 0 then 1 else 2) \<and> sn_quiet (cn_sender y) \<and>
     unat (sn_retransmission_count (cn_sender y)) \<le> 1 \<and>
     (sn_outstanding_seg (cn_sender y) = [] \<or> sn_retransmission_count (cn_sender y) = 0)"

lemma y_ticks:
  assumes y: "y_read data ix iy A P log y" and A: "0 < A" "A < length data + 2"
  obtains y' where "cn_tick y 1000 = Some y'" and "y_ready data ix iy A (sn_next_seqno (cn_sender y)) log y'"
    and "sn_last_ackno (cn_sender y') = P"
proof -
  have go: "going (\<lambda>_. 0) 0 ((!) data) (length data) iy ix log y" and know: "\<forall>p. rknown (length data) (cn_receiver y) p \<longleftrightarrow> p < A"
    and cap: "rc_capacity (cn_receiver y) = 64000" "bs_buff (inbound_stream y) = []" "cn_segments_out y = []"
    and ended: "bs_end_input (sn_stream (cn_sender y))" and linger: "cn_linger_after_streams_finish y" "unat (rt_timeout (cn_cfg y)) = 1000"
    and win: "unat (sn_last_win (cn_sender y)) \<le> 64000" and last: "sn_last_ackno (cn_sender y) = P" "P \<le> 2"
    and next_y: "sn_next_seqno (cn_sender y) = (if P = 0 then 1 else 2)" and quiet: "sn_quiet (cn_sender y)"
    and count: "unat (sn_retransmission_count (cn_sender y)) \<le> 1" "sn_outstanding_seg (cn_sender y) = [] \<or> sn_retransmission_count (cn_sender y) = 0"
    by (insert y, unfold y_read_def) (elim conjE, assumption)+
  note E = goingD [OF go] and pos = rpos_ready [OF go know]
  have c8: "unat (sn_retransmission_count (cn_sender y)) < 8" using count(1) by simp
  have "\<not> input_ended (rc_stream_out (cn_receiver y))" using ended_ready [OF go know] A(2) by (simp add: inbound_stream_def)
  then have still: "sn_last_ackno (cn_sender y) < 0 + 2 \<or> \<not> input_ended (rc_stream_out (cn_receiver y))" by blast
  obtain y' re where y': "cn_tick y 1000 = Some y'" "going (\<lambda>_. 0) 0 ((!) data) (length data) iy ix log y'" "cn_receiver y' = cn_receiver y"
      "cn_sender y' = (sn_tick (cn_sender y) 1000)\<lparr>sn_segments_out := []\<rparr>"
      "cn_segments_out y' = cn_segments_out y @ map (fill_ack (cn_receiver y)) re" "\<forall>s \<in> set re. plain s" "cn_cfg y' = cn_cfg y"
      "bs_eof (sn_stream (cn_sender y)) \<longrightarrow> cn_linger_after_streams_finish y' = cn_linger_after_streams_finish y"
    by (rule tick_going [OF go c8 still])
  have "bs_eof (sn_stream (cn_sender y))" using all_sent_eof [OF E(8)] ended by (simp add: all_sent_def)
  then have "cn_linger_after_streams_finish y'" using y'(8) linger(1) by simp
  moreover have "unat (sn_retransmission_count (cn_sender y')) \<le> 1"
    using sn_tick_count [OF c8, of 1000] count y'(4) by auto
  moreover have "\<forall>seg \<in> set (cn_segments_out y'). ack (header seg) \<longrightarrow> ackno (header seg) = wrap A ix \<and> win (header seg) = 64000"
    using y'(5) cap(3) fill_ack_fields(2,3) [OF E(9)] pos A(1) advertised_ready [OF go cap(2,1)] by auto
  moreover have "y_phase (sn_next_seqno (cn_sender y)) (cn_sender y')" using y'(4) last next_y by (auto simp: y_phase_def)
  ultimately have "y_ready data ix iy A (sn_next_seqno (cn_sender y)) log y'"
    using y'(2,3,4,7) know cap(1,2) ended linger(2) win next_y quiet unfolding y_ready_def
    by (simp add: inbound_stream_def)
  with that [OF y'(1)] y'(4) last(1) show thesis by simp
qed

definition bench_live :: "bytes \<Rightarrow> wrapping_int32 \<Rightarrow> wrapping_int32 \<Rightarrow> nat \<Rightarrow> nat \<Rightarrow> bench \<Rightarrow> bool" where
  "bench_live data ix iy A P b \<longleftrightarrow> bench_inv data ix iy b \<and> A < length data + 2 \<and> (0 < A \<longrightarrow> 0 < P) \<and> x_ready data ix iy A P (be_x b) \<and>
     y_ready data ix iy A P (be_received b) (be_y b) \<and> (be_x_closed b \<longleftrightarrow> bs_end_input (sn_stream (cn_sender (be_x b)))) \<and>
     (sn_last_ackno (cn_sender (be_y b)) < P \<longrightarrow>
       (\<exists>seg \<in> set (cn_segments_out (be_x b)). ack (header seg) \<and> ackno (header seg) = wrap P iy))"

text \<open>The writes of a round, and the end of the input once everything is written.\<close>

lemma bench_sends:
  assumes live: "bench_live data ix iy A P b" and "A \<noteq> length data + 2"
  obtains x1 b1 x2 where "bench_write (be_x b) (be_to_send b) = Some (x1, b1)"
    and "(if buf_size b1 = 0 \<and> \<not> be_x_closed b then end_input_stream x1 \<bind> (\<lambda>x. Some (x, True)) else Some (x1, be_x_closed b)) =
      Some (x2, bs_end_input (sn_stream (cn_sender x2)))"
    and "x_ready data ix iy A P x2" and "set (cn_segments_out (be_x b)) \<subseteq> set (cn_segments_out x2)" and "A < sn_next_seqno (cn_sender x2)"
proof -
  let ?S = "(!) data" and ?N = "length data"
  have inv: "bench_inv data ix iy b" and x: "x_ready data ix iy A P (be_x b)"
    and closed: "be_x_closed b \<longleftrightarrow> bs_end_input (sn_stream (cn_sender (be_x b)))" using live by (auto simp: bench_live_def)
  have gx: "going ?S ?N (\<lambda>_. 0) 0 ix iy [] (be_x b)" using x by (simp add: x_ready_def)
  have buf: "buffer_inv (be_to_send b)" "cn_written (be_x b) \<le> ?N" "buffer_str (be_to_send b) = drop (cn_written (be_x b)) data"
    and fl: "be_x_closed b \<longrightarrow> buffer_str (be_to_send b) = []" using inv by (auto simp: bench_inv_def)
  have "buffer_str (be_to_send b) = [] \<or> remaining_outbound_capacity (be_x b) = 0 \<or>
      active (be_x b) \<and> \<not> input_ended (sn_stream (cn_sender (be_x b)))"
    using goingD(13) [OF gx] closed fl by (auto simp: active_def input_ended_def)
  then obtain x1 b1 where w: "bench_write (be_x b) (be_to_send b) = Some (x1, b1)"
    using bench_write_ok [OF goingD(1) [OF gx] buf] by blast
  have wg: "going ?S ?N (\<lambda>_. 0) 0 ix iy [] x1" "fills ?S ?N ix (be_x b) x1" "cn_written x1 \<le> ?N" "buffer_str b1 = drop (cn_written x1) data"
      "bs_end_input (sn_stream (cn_sender x1)) = bs_end_input (sn_stream (cn_sender (be_x b)))"
      "buffer_str b1 = [] \<or> remaining_outbound_capacity x1 = 0"
    by (insert bench_write_going [OF w gx buf]) (elim conjE, assumption)+
  note x1 = x_ready_fills [OF x wg(2,1)]
  have b1: "be_x_closed b \<Longrightarrow> buffer_str b1 = []" "buffer_str b1 = [] \<Longrightarrow> cn_written x1 = ?N"
    using w fl bench_write.simps [of "be_x b" "be_to_send b"] wg(3,4) by (auto simp: buf_size_def)
  show thesis
  proof (cases "buf_size b1 = 0 \<and> \<not> be_x_closed b")
    case True
    then have N: "cn_written x1 = ?N" using b1(2) by (simp add: buf_size_def)
    have "sn_ok ?S ?N (cn_sender x1) SnEndInput" using N by simp
    then obtain x2 where e: "end_input_stream x1 = Some x2" using end_input_stream_inv [OF goingD(7) [OF wg(1)]] by blast
    have e': "going ?S ?N (\<lambda>_. 0) 0 ix iy [] x2" "fills ?S ?N ix x1 x2" "bs_end_input (sn_stream (cn_sender x2))" "cn_written x2 = ?N"
      by (rule end_going [OF wg(1) N e])+
    have x2: "x_ready data ix iy A P x2" "set (cn_segments_out (be_x b)) \<subseteq> set (cn_segments_out x2)"
      by (rule x_ready_fills [OF x fills_trans [OF wg(2) e'(2)] e'(1)])+
    have "A < sn_next_seqno (cn_sender x2)" using send_progress [OF x2(1) assms(2), of True] e'(3,4) by blast
    then show thesis using that [OF w] True e e'(3) x2 by simp
  next
    case False
    have ended: "buffer_str b1 = [] \<Longrightarrow> bs_end_input (sn_stream (cn_sender x1)) \<and> cn_written x1 = ?N"
      using False closed wg(5) b1(2) by (auto simp: buf_size_def)
    have "A < sn_next_seqno (cn_sender x1)" using send_progress [OF x1(1) assms(2) wg(6) ended] .
    moreover have "be_x_closed b = bs_end_input (sn_stream (cn_sender x1))" using closed wg(5) by simp
    ultimately show thesis using that [OF w] False x1 by auto
  qed
qed

lemma bench_reads:
  assumes go: "going S N T M isn pisn log y" and know: "\<forall>p. rknown M (cn_receiver y) p \<longleftrightarrow> p < n"
    and rd: "(if buffer_size (inbound_stream (y\<lparr>cn_segments_out := []\<rparr>)) > 0
      then cn_read (y\<lparr>cn_segments_out := []\<rparr>) (buffer_size (inbound_stream (y\<lparr>cn_segments_out := []\<rparr>))) else ([], y\<lparr>cn_segments_out := []\<rparr>)) = (out, y')"
  shows "going S N T M isn pisn (log @ out) y'" and "\<forall>p. rknown M (cn_receiver y') p \<longleftrightarrow> p < n" and "bs_buff (inbound_stream y') = []"
    and "rc_capacity (cn_receiver y') = rc_capacity (cn_receiver y)" and "cn_sender y' = cn_sender y" and "cn_segments_out y' = []"
    and "cn_cfg y' = cn_cfg y" and "cn_linger_after_streams_finish y' = cn_linger_after_streams_finish y"
    and "cn_time_since_last_segment_received y' = cn_time_since_last_segment_received y"
proof -
  let ?y = "y\<lparr>cn_segments_out := []\<rparr>"
  note go' = going_drain [OF go]
  have "going S N T M isn pisn (log @ out) y' \<and> (\<forall>p. rknown M (cn_receiver y') p \<longleftrightarrow> p < n) \<and> bs_buff (inbound_stream y') = [] \<and>
    rc_capacity (cn_receiver y') = rc_capacity (cn_receiver y) \<and> cn_sender y' = cn_sender y \<and> cn_segments_out y' = [] \<and>
    cn_cfg y' = cn_cfg y \<and> cn_linger_after_streams_finish y' = cn_linger_after_streams_finish y \<and>
    cn_time_since_last_segment_received y' = cn_time_since_last_segment_received y"
  proof (cases "buffer_size (inbound_stream ?y) > 0")
    case True
    then have "cn_read ?y (buffer_size (inbound_stream ?y)) = (out, y')" using rd by simp
    from read_going [OF go' this] know show ?thesis by simp
  next
    case False
    then have "out = []" "y' = ?y" using rd by simp_all
    then show ?thesis using go' know False by (simp add: buffer_size_def inbound_stream_def)
  qed
  then show "going S N T M isn pisn (log @ out) y'" "\<forall>p. rknown M (cn_receiver y') p \<longleftrightarrow> p < n" "bs_buff (inbound_stream y') = []"
    "rc_capacity (cn_receiver y') = rc_capacity (cn_receiver y)" "cn_sender y' = cn_sender y" "cn_segments_out y' = []"
    "cn_cfg y' = cn_cfg y" "cn_linger_after_streams_finish y' = cn_linger_after_streams_finish y"
    "cn_time_since_last_segment_received y' = cn_time_since_last_segment_received y" by blast+
qed

lemma y1_frame:
  assumes x: "x_ready data ix iy A P x" and y: "y_ready data ix iy A P log y"
    and br: "brings (\<lambda>_. 0) 0 ((!) data) (length data) iy ix P segs new y y'" and segs: "set segs = set (cn_segments_out x)"
  shows "rc_capacity (cn_receiver y') = 64000" and "cn_cfg y' = cn_cfg y" and "cn_linger_after_streams_finish y'"
    and "bs_end_input (sn_stream (cn_sender y'))" and "unat (sn_last_win (cn_sender y')) \<le> 64000"
proof -
  note D = bringsD [OF br] and sd = sendsD [OF bringsD(4) [OF br]] and rd = receivesD [OF bringsD(5) [OF br]]
  have "\<forall>seg \<in> set segs. ack (header seg) \<longrightarrow> unat (win (header seg)) \<le> 64000"
    using x segs by (auto simp: x_ready_def acks_upto_def)
  then show "rc_capacity (cn_receiver y') = 64000" "cn_cfg y' = cn_cfg y" "cn_linger_after_streams_finish y'"
    "bs_end_input (sn_stream (cn_sender y'))" "unat (sn_last_win (cn_sender y')) \<le> 64000"
    using D(2,3) sd(2,8) rd(2) y unfolding y_ready_def all_sent_def by simp_all
qed

text \<open>The rest of a round: \<open>y\<close>'s segments reach \<open>x\<close>, and time passes.\<close>

definition bench_rest :: "tcp_connection \<Rightarrow> tcp_connection \<Rightarrow> tcp_connection \<Rightarrow> buffer \<Rightarrow> bytes \<Rightarrow> bench option" where
  "bench_rest x y1 y3 buf string = do {
     x' \<leftarrow> run_steps cn_segment_received (x\<lparr>cn_segments_out := []\<rparr>) (cn_segments_out y1);
     x' \<leftarrow> cn_tick x' 1000;
     y' \<leftarrow> cn_tick y3 1000;
     Some \<lparr>be_x = x', be_y = y', be_to_send = buf, be_x_closed = bs_end_input (sn_stream (cn_sender x)), be_received = string\<rparr>
   }"

text \<open>A round up to the read: \<open>y\<close> has had what \<open>x\<close> sent, and answers.\<close>

lemma bench_half:
  assumes live: "bench_live data ix iy A P b" and nowrap: "unat (raw_value iy) + 2 < SEQ_MOD"
  obtains x2 y1 segs new b1 out y3 where "x_ready data ix iy A P x2" and "A < sn_next_seqno (cn_sender x2)"
    and "going (\<lambda>_. 0) 0 ((!) data) (length data) iy ix (be_received b) y1"
    and "brings (\<lambda>_. 0) 0 ((!) data) (length data) iy ix P segs new (be_y b) y1"
    and "\<forall>p. rknown (length data) (cn_receiver y1) p \<longleftrightarrow> p < sn_next_seqno (cn_sender x2)"
    and "sn_next_seqno (cn_sender y1) = (if P = 0 then 1 else 2)"
    and "y_read data ix iy (sn_next_seqno (cn_sender x2)) P (be_received b @ out) y3"
    and "bench_loop reorder b = bench_rest x2 y1 y3 b1 (be_received b @ out)"
proof -
  let ?S = "(!) data" and ?N = "length data" and ?T = "\<lambda>_. 0 :: byte" and ?y = "be_y b" and ?log = "be_received b"
  have y: "y_ready data ix iy A P ?log ?y" and A: "A \<noteq> ?N + 2"
    and link: "sn_last_ackno (cn_sender ?y) < P \<longrightarrow> (\<exists>seg \<in> set (cn_segments_out (be_x b)). ack (header seg) \<and> ackno (header seg) = wrap P iy)"
    using live by (auto simp: bench_live_def)
  obtain x1 b1 x2 where s: "bench_write (be_x b) (be_to_send b) = Some (x1, b1)"
      "(if buf_size b1 = 0 \<and> \<not> be_x_closed b then end_input_stream x1 \<bind> (\<lambda>x. Some (x, True)) else Some (x1, be_x_closed b)) =
        Some (x2, bs_end_input (sn_stream (cn_sender x2)))"
      "x_ready data ix iy A P x2" "set (cn_segments_out (be_x b)) \<subseteq> set (cn_segments_out x2)" "A < sn_next_seqno (cn_sender x2)"
    by (rule bench_sends [OF live A])
  let ?q = "if reorder then rev (cn_segments_out x2) else cn_segments_out x2" and ?n = "sn_next_seqno (cn_sender x2)"
  have link2: "sn_last_ackno (cn_sender ?y) < P \<longrightarrow> (\<exists>seg \<in> set (cn_segments_out x2). ack (header seg) \<and> ackno (header seg) = wrap P iy)"
    using link s(4) by blast
  have q: "set ?q = set (cn_segments_out x2)" by simp
  obtain y1 new where y1: "run_steps cn_segment_received ?y ?q = Some y1" "going ?T 0 ?S ?N iy ix ?log y1" "brings ?T 0 ?S ?N iy ix P ?q new ?y y1"
      "\<forall>p. rknown ?N (cn_receiver y1) p \<longleftrightarrow> p < ?n" "sn_last_ackno (cn_sender y1) = P" "sn_next_seqno (cn_sender y1) = (if P = 0 then 1 else 2)"
      "sn_quiet (cn_sender y1)" "unat (sn_retransmission_count (cn_sender y1)) \<le> 1"
      "sn_outstanding_seg (cn_sender y1) = [] \<or> sn_retransmission_count (cn_sender y1) = 0"
    by (rule y_receives [OF s(3) y s(5) link2 nowrap q])
  let ?y2 = "y1\<lparr>cn_segments_out := []\<rparr>"
  obtain out y3 where rd: "(if buffer_size (inbound_stream ?y2) > 0 then cn_read ?y2 (buffer_size (inbound_stream ?y2)) else ([], ?y2)) = (out, y3)"
    by force
  obtain seg where "seg \<in> set (cn_segments_out x2)" using s(3,5) unfolding x_ready_def by blast
  then have "cn_time_since_last_segment_received y1 = 0" using bringsD(7) [OF y1(3)] by auto
  moreover have "P \<le> 2" "unat (rt_timeout (cn_cfg ?y)) = 1000" using y by (auto simp: y_ready_def y_phase_def)
  ultimately have "y_read data ix iy ?n P (?log @ out) y3"
    using bench_reads [OF y1(2,4) rd] y1_frame [OF s(3) y y1(3) q] y1(5-9) unfolding y_read_def by simp
  moreover have "bench_loop reorder b = bench_rest x2 y1 y3 b1 (?log @ out)"
    using rd unfolding bench_loop_def bench_rest_def s(1) by (simp add: s(2) move_segments_def y1(1) Let_def del: if_split)
  ultimately show thesis using that [OF s(3,5) y1(2,3,4,6)] by blast
qed

section \<open>The last round\<close>

text \<open>A receiver of an empty stream has nothing to read.\<close>

lemma empty_buffer:
  assumes "rx_inv T 0 pisn r log"
  shows "bs_buff (rc_stream_out r) = []"
  using rx_inv_assembled(1) [OF assms] sr_core_written(1) [of "rc_reassembler r"] assms
  by (simp add: rx_inv_def rc_inv_def sr_inv_def rc_stream_out_def)

lemma x_finishes:
  assumes x: "x_ready data ix iy A P x" and y: "y_ready data ix iy A P log y"
    and y': "going (\<lambda>_. 0) 0 ((!) data) (length data) iy ix log y'" "brings (\<lambda>_. 0) 0 ((!) data) (length data) iy ix P segs new y y'"
    and know: "\<forall>p. rknown (length data) (cn_receiver y') p \<longleftrightarrow> p < sn_next_seqno (cn_sender x)"
    and next_y: "sn_next_seqno (cn_sender y') = (if P = 0 then 1 else 2)" and P: "0 < P"
    and prog: "A < sn_next_seqno (cn_sender x)" and all: "sn_next_seqno (cn_sender x) = length data + 2"
    and nowrap: "unat (raw_value ix) + length data + 2 < SEQ_MOD"
  obtains x' where "run_steps cn_segment_received (x\<lparr>cn_segments_out := []\<rparr>) (cn_segments_out y') = Some x'"
    and "over ((!) data) (length data) (\<lambda>_. 0) 0 ix iy [] x'" and "sn_last_ackno (cn_sender x') = length data + 2"
    and "\<forall>seg \<in> set (cn_segments_out x'). done_seg (length data) ix seg \<and> acks_upto iy 0 64000 2 seg"
    and "P = 2 \<or> (\<exists>seg \<in> set (cn_segments_out x'). ack (header seg) \<and> ackno (header seg) = wrap 2 iy)"
proof -
  let ?S = "(!) data" and ?N = "length data" and ?T = "\<lambda>_. 0 :: byte" and ?x = "x\<lparr>cn_segments_out := []\<rparr>" and ?q = "cn_segments_out y'"
  have gx: "going ?S ?N ?T 0 ix iy [] x" and lx: "sn_last_ackno (cn_sender x) = A" and wx: "unat (sn_last_win (cn_sender x)) \<le> 64000"
    and kx: "\<forall>p. rknown 0 (cn_receiver x) p \<longleftrightarrow> p < P" and rt: "unat (rt_timeout (cn_cfg x)) = 1000"
    and cx: "rc_capacity (cn_receiver x) = 64000"
    using x by (auto simp: x_ready_def)
  have m: "sn_next_seqno (cn_sender y') = 2" using next_y P by simp
  note gx' = going_drain [OF gx] and D = goingD [OF gx]
  note Q = y_answers [OF x y y' know next_y prog, unfolded m all]
  have "lingers ?x" using fin_acked_last [OF D(8)] lx prog all by (auto simp: lingers_def)
  have pre: "2 \<le> sr_limit (rc_reassembler (cn_receiver ?x)) + 1" "rc_syn (cn_receiver ?x) \<or> (2 :: nat) \<le> 1"
      "ack_chain ix (?N + 2) (sn_last_ackno (cn_sender ?x)) (sn_edge (cn_sender ?x)) ?q" "?N + 2 \<le> sn_next_seqno (cn_sender ?x)"
    using Q(2,3,4) all by simp_all
  obtain x' segs1 segs2 newx where x': "?q = segs1 @ segs2" "run_steps cn_segment_received ?x ?q = Some x'" "sound ?S ?N ?T 0 ix iy [] x'"
      "brings ?S ?N ?T 0 ix iy (?N + 2) segs1 newx ?x x'" "lingers x'"
      "if cn_isactive x' then segs2 = [] else sn_last_ackno (cn_sender x') = ?N + 2 \<and> input_ended (rc_stream_out (cn_receiver x'))"
    using batch_final [OF gx' Q(1) pre \<open>lingers ?x\<close>] by blast
  note B = bringsD [OF x'(4)] and D' = goingD [OF x'(3), simplified]
  note sx = sendsD [OF B(4), simplified] and rx = receivesD [OF B(5), simplified]
  have seg1: "set segs1 \<subseteq> set ?q" using x'(1) by auto
  have next': "sn_next_seqno (cn_sender x') = ?N + 2" using sx(5) D'(11) all by simp
  have last: "sn_last_ackno (cn_sender x') = ?N + 2"
  proof (cases "cn_isactive x'")
    case True
    then have "?q = segs1" using x'(1,6) by simp
    then show ?thesis using sends_acked [OF B(4), of "?N + 2"] Q(5) D(2) D'(10) next' by simp
  qed (use x'(6) in simp)
  have knowx: "\<forall>p. rknown 0 (cn_receiver x') p \<longleftrightarrow> p < 0 + 2"
  proof (cases "cn_isactive x'")
    case True
    then have q: "?q = segs1" using x'(1,6) by simp
    have "\<forall>seg \<in> set segs1. sent_seg ?T 0 iy 2 seg" using Q(1) q by simp
    from knows_all [OF rx(4) [rule_format] kx this Q(6) [unfolded q]] Q(8) show ?thesis by (simp add: SEQ_MOD_def numeral_2_eq_2)
  next
    case False
    have "\<forall>seg \<in> set segs1. sent_seg ?T 0 iy (0 + 2) seg" using Q(1) seg1 unfolding add_0 by blast
    then show ?thesis using ended_knows [OF x'(3) _ kx] B(5) Q(8) x'(6) False by simp
  qed
  note R = over_receiver [OF x'(3), simplified, OF knowx [simplified]]
  have "sn_counts (cn_sender x) (cn_sender x')" using sx(6) .
  then have cnt: "sn_retransmission_count (cn_sender x') = 0" using last lx prog all by (simp add: sn_counts_def)
  have quiet: "sn_quiet (cn_sender x')" using sx(11) nowrap lx prog all by simp
  have win: "unat (sn_last_win (cn_sender x')) \<le> 64000" using sx(8) wx Q(7) seg1 by auto
  have "sender_summary (cn_sender x') = SENDER_FIN_ACKED" "receiver_summary (cn_receiver x') = RECEIVER_FIN_RECV"
    using last_fin_acked [OF D'(8) _ last] R(2,4) x'(3) by (auto simp: receiver_summary_FIN_RECV going_def)
  then have linger: "cn_isactive x' \<longrightarrow> cn_linger_after_streams_finish x'" using x'(5) by (simp add: lingers_def)
  have time: "cn_isactive x' \<longrightarrow> cn_time_since_last_segment_received x' < 10000" using B(7) x'(1,6) Q(5) by (cases segs1) auto
  have "over ?S ?N ?T 0 ix iy [] x'"
    using x'(3) next' knowx rx(2) cx empty_buffer [OF D'(9)] win quiet cnt B(2) rt linger time last unfolding over_def
    by (simp add: inbound_stream_def)
  moreover have out: "cn_segments_out x' = newx" using B(1) by simp
  moreover have "\<forall>seg \<in> set newx. done_seg ?N ix seg"
    using B(6) next' all by (simp add: done_seg_def)
  moreover have "rpos (cn_receiver x) = P" "P = 2 \<or> P \<noteq> 2" using rpos_ready(1) [OF gx kx] by simp_all
  ultimately show thesis using that [OF x'(2)] last rx(5,6) cx R(1) by (auto simp: numeral_2_eq_2)
qed

lemma y_finishes:
  assumes y: "y_read data ix iy (length data + 2) P log y" and P: "0 < P"
  obtains y' where "cn_tick y 1000 = Some y'" and "over (\<lambda>_. 0) 0 ((!) data) (length data) iy ix log y'"
    and "sn_last_ackno (cn_sender y') = P"
    and "\<forall>seg \<in> set (cn_segments_out y'). acks_upto ix 0 64000 (length data + 2) seg"
proof -
  have go: "going (\<lambda>_. 0) 0 ((!) data) (length data) iy ix log y" and last: "sn_last_ackno (cn_sender y) = P" and out: "cn_segments_out y = []"
    and early: "(sn_outstanding_seg (cn_sender y) = [] \<or> sn_retransmission_count (cn_sender y) = 0) \<and> cn_time_since_last_segment_received y = 0"
    using y by (auto simp: y_read_def)
  have "over (\<lambda>_. 0) 0 ((!) data) (length data) iy ix log y"
    using going_sound [OF go] goingD(13) [OF go] y P unfolding over_def y_read_def by simp
  then show thesis by (rule over_ticks [OF _ disjI2 [OF early]]) (use that last out in simp)
qed

text \<open>
  Both connections are over, and \<open>x\<close> has its acknowledgment. All that \<open>x\<close> still sends is acknowledgments, among
  them that of \<open>y\<close>'s FIN, unless \<open>y\<close> has it.
\<close>

definition bench_closing :: "bytes \<Rightarrow> wrapping_int32 \<Rightarrow> wrapping_int32 \<Rightarrow> bench \<Rightarrow> bool" where
  "bench_closing data ix iy b \<longleftrightarrow> bench_inv data ix iy b \<and> be_x_closed b \<and>
     over ((!) data) (length data) (\<lambda>_. 0) 0 ix iy [] (be_x b) \<and> sn_last_ackno (cn_sender (be_x b)) = length data + 2 \<and>
     over (\<lambda>_. 0) 0 ((!) data) (length data) iy ix (be_received b) (be_y b) \<and>
     (\<forall>seg \<in> set (cn_segments_out (be_x b)). done_seg (length data) ix seg \<and> acks_upto iy 0 64000 2 seg) \<and>
     (\<forall>seg \<in> set (cn_segments_out (be_y b)). acks_upto ix 0 64000 (length data + 2) seg) \<and>
     (sn_last_ackno (cn_sender (be_y b)) = 2 \<or>
       (\<exists>seg \<in> set (cn_segments_out (be_x b)). ack (header seg) \<and> ackno (header seg) = wrap 2 iy))"

lemma bench_finishes:
  assumes live: "bench_live data ix iy A P b" and x: "x_ready data ix iy A P x" and prog: "A < sn_next_seqno (cn_sender x)"
    and y: "going (\<lambda>_. 0) 0 ((!) data) (length data) iy ix (be_received b) y" "brings (\<lambda>_. 0) 0 ((!) data) (length data) iy ix P segs new (be_y b) y"
      "\<forall>p. rknown (length data) (cn_receiver y) p \<longleftrightarrow> p < sn_next_seqno (cn_sender x)" "sn_next_seqno (cn_sender y) = (if P = 0 then 1 else 2)"
    and y3: "y_read data ix iy (sn_next_seqno (cn_sender x)) P (be_received b @ out) y3"
    and loop: "bench_loop reorder b = bench_rest x y y3 b1 (be_received b @ out)"
    and all: "sn_next_seqno (cn_sender x) = length data + 2" and b': "bench_loop reorder b = Some b'" "bench_inv data ix iy b'"
    and nowrap: "unat (raw_value ix) + length data + 2 < SEQ_MOD"
  shows "bench_closing data ix iy b'"
proof -
  let ?S = "(!) data" and ?N = "length data" and ?T = "\<lambda>_. 0 :: byte"
  have "A \<noteq> 0" using x all by (auto simp: x_ready_def)
  then have P: "0 < P" and yr: "y_ready data ix iy A P (be_received b) (be_y b)" using live by (auto simp: bench_live_def)
  have gx: "going ?S ?N ?T 0 ix iy [] x" using x by (simp add: x_ready_def)
  obtain x3 where x3: "run_steps cn_segment_received (x\<lparr>cn_segments_out := []\<rparr>) (cn_segments_out y) = Some x3"
      "over ?S ?N ?T 0 ix iy [] x3" "sn_last_ackno (cn_sender x3) = ?N + 2"
      "\<forall>seg \<in> set (cn_segments_out x3). done_seg ?N ix seg \<and> acks_upto iy 0 64000 2 seg"
      "P = 2 \<or> (\<exists>seg \<in> set (cn_segments_out x3). ack (header seg) \<and> ackno (header seg) = wrap 2 iy)"
    by (rule x_finishes [OF x yr y P prog all nowrap])
  obtain x4 where x4: "cn_tick x3 1000 = Some x4" "over ?S ?N ?T 0 ix iy [] x4" "sn_last_ackno (cn_sender x4) = ?N + 2" "cn_segments_out x4 = cn_segments_out x3"
    by (rule over_ticks [OF x3(2) disjI1 [OF x3(3)]]) (use x3(3) in simp)
  obtain y4 where y4: "cn_tick y3 1000 = Some y4" "over ?T 0 ?S ?N iy ix (be_received b @ out) y4" "sn_last_ackno (cn_sender y4) = P"
      "\<forall>seg \<in> set (cn_segments_out y4). acks_upto ix 0 64000 (?N + 2) seg"
    by (rule y_finishes [OF y3 [unfolded all] P])
  have "bs_end_input (sn_stream (cn_sender x))"
    using all_sent_eof [OF goingD(8) [OF gx]] all by (simp add: all_sent_def bs_eof_def input_ended_def)
  then have "b' = \<lparr>be_x = x4, be_y = y4, be_to_send = b1, be_x_closed = True, be_received = be_received b @ out\<rparr>"
    using b'(1) x3(1) x4(1) y4(1) unfolding loop by (simp add: bench_rest_def)
  then show ?thesis using b'(2) x4(2-4) x3(4,5) y4(2-4) unfolding bench_closing_def by auto
qed

text \<open>The other rounds bring \<open>x\<close> forward.\<close>

lemma bench_goes_on:
  assumes live: "bench_live data ix iy A P b" and x: "x_ready data ix iy A P x" and prog: "A < sn_next_seqno (cn_sender x)"
    and y: "going (\<lambda>_. 0) 0 ((!) data) (length data) iy ix (be_received b) y" "brings (\<lambda>_. 0) 0 ((!) data) (length data) iy ix P segs new (be_y b) y"
      "\<forall>p. rknown (length data) (cn_receiver y) p \<longleftrightarrow> p < sn_next_seqno (cn_sender x)" "sn_next_seqno (cn_sender y) = (if P = 0 then 1 else 2)"
    and y3: "y_read data ix iy (sn_next_seqno (cn_sender x)) P (be_received b @ out) y3"
    and loop: "bench_loop reorder b = bench_rest x y y3 b1 (be_received b @ out)"
    and more: "sn_next_seqno (cn_sender x) < length data + 2" and b': "bench_loop reorder b = Some b'" "bench_inv data ix iy b'"
  shows "bench_live data ix iy (sn_next_seqno (cn_sender x)) (sn_next_seqno (cn_sender y)) b'"
proof -
  let ?n = "sn_next_seqno (cn_sender x)" and ?m = "sn_next_seqno (cn_sender y)"
  have yr: "y_ready data ix iy A P (be_received b) (be_y b)" using live by (simp add: bench_live_def)
  obtain x3 where x3: "run_steps cn_segment_received (x\<lparr>cn_segments_out := []\<rparr>) (cn_segments_out y) = Some x3"
      "x_ready data ix iy ?n ?m x3" "sn_retransmission_count (cn_sender x3) = 0" "bs_end_input (sn_stream (cn_sender x3)) = bs_end_input (sn_stream (cn_sender x))"
      "P < ?m \<longrightarrow> (\<exists>seg \<in> set (cn_segments_out x3). ack (header seg) \<and> ackno (header seg) = wrap ?m iy)"
    by (rule x_receives [OF x yr y prog more])
  obtain x4 where x4: "cn_tick x3 1000 = Some x4" "x_ready data ix iy ?n ?m x4" "bs_end_input (sn_stream (cn_sender x4)) = bs_end_input (sn_stream (cn_sender x3))"
      "set (cn_segments_out x3) \<subseteq> set (cn_segments_out x4)"
    by (rule x_ticks [OF x3(2,3) more])
  have n0: "0 < ?n" using prog by simp
  have m: "sn_next_seqno (cn_sender y3) = ?m" using y3 y(4) by (simp add: y_read_def)
  obtain y4 where y4: "cn_tick y3 1000 = Some y4" "y_ready data ix iy ?n (sn_next_seqno (cn_sender y3)) (be_received b @ out) y4" "sn_last_ackno (cn_sender y4) = P"
    by (rule y_ticks [OF y3 n0 more])
  have eq: "b' = \<lparr>be_x = x4, be_y = y4, be_to_send = b1, be_x_closed = bs_end_input (sn_stream (cn_sender x)), be_received = be_received b @ out\<rparr>"
    using b'(1) x3(1) x4(1) y4(1) unfolding loop by (simp add: bench_rest_def)
  then show ?thesis
    using b'(2) goingD(4) [OF y(1)] x4(2,3) x3(4,5) y4(2,3) m x4(4) more unfolding bench_live_def eq by auto
qed

lemma bench_round:
  assumes live: "bench_live data ix iy A P b" and nowrap: "unat (raw_value iy) + 2 < SEQ_MOD"
  obtains b' where "bench_loop reorder b = Some b'" and "bench_inv data ix iy b'"
    and "bs_eof (inbound_stream (be_y b')) \<and> (unat (raw_value ix) + length data + 2 < SEQ_MOD \<longrightarrow> bench_closing data ix iy b') \<or>
      (\<exists>A' P'. A < A' \<and> bench_live data ix iy A' P' b')"
proof -
  let ?S = "(!) data" and ?N = "length data" and ?T = "\<lambda>_. 0 :: byte" and ?log = "be_received b"
  obtain x2 y1 segs new b1 out y3 where h: "x_ready data ix iy A P x2" "A < sn_next_seqno (cn_sender x2)"
      "going ?T 0 ?S ?N iy ix ?log y1" "brings ?T 0 ?S ?N iy ix P segs new (be_y b) y1"
      "\<forall>p. rknown ?N (cn_receiver y1) p \<longleftrightarrow> p < sn_next_seqno (cn_sender x2)" "sn_next_seqno (cn_sender y1) = (if P = 0 then 1 else 2)"
      "y_read data ix iy (sn_next_seqno (cn_sender x2)) P (?log @ out) y3"
      "bench_loop reorder b = bench_rest x2 y1 y3 b1 (?log @ out)"
    by (rule bench_half [OF live nowrap])
  have inv: "bench_inv data ix iy b" and "can_go_on b" using live goingD(13) by (auto simp: bench_live_def x_ready_def active_def)
  then obtain b' where b': "bench_loop reorder b = Some b'" "bench_inv data ix iy b'" using bench_loop_ok [OF inv] by blast
  have "sn_next_seqno (cn_sender x2) \<le> ?N + 2" using h(1) goingD(11) by (auto simp: x_ready_def)
  then consider "sn_next_seqno (cn_sender x2) < ?N + 2" | "sn_next_seqno (cn_sender x2) = ?N + 2" by linarith
  then show thesis
  proof cases
    case 1
    then show thesis using that [OF b'] bench_goes_on [OF live h 1 b'] h(2) by blast
  next
    case 2
    obtain y4 where y4: "cn_tick y3 1000 = Some y4" "be_y b' = y4" using b'(1) unfolding h(8) by (auto simp: bench_rest_def bind_eq_Some_conv)
    have go: "going ?T 0 ?S ?N iy ix (?log @ out) y3" and know: "\<forall>p. rknown ?N (cn_receiver y3) p \<longleftrightarrow> p < ?N + 2" and read: "bs_buff (inbound_stream y3) = []"
      using h(7) 2 by (simp_all add: y_read_def)
    have "cn_receiver y4 \<in> {cn_receiver y3, rc_set_error (cn_receiver y3)}" using cn_tick_inv [OF goingD(7) [OF go], of 1000] y4(1) by auto
    then have "bs_eof (inbound_stream (be_y b'))" using over_receiver(2) [OF go know] read y4(2)
      by (auto simp: bs_eof_def buffer_empty_def inbound_stream_def rc_set_error_def rc_stream_out_def set_error_def input_ended_def)
    then show thesis using that [OF b'] bench_finishes [OF live h 2 b'] by blast
  qed
qed

section \<open>The loop ends\<close>

lemma bench_live_not_eof:
  assumes "bench_live data ix iy A P b"
  shows "\<not> bs_eof (inbound_stream (be_y b))"
proof -
  have "going (\<lambda>_. 0) 0 ((!) data) (length data) iy ix (be_received b) (be_y b)" "\<forall>p. rknown (length data) (cn_receiver (be_y b)) p \<longleftrightarrow> p < A"
    using assms by (auto simp: bench_live_def y_ready_def)
  from ended_ready [OF this] show ?thesis using assms by (simp add: bs_eof_def bench_live_def)
qed

lemma bench_until_eof_ends:
  assumes "bench_live data ix iy A P b" and nowrap: "unat (raw_value iy) + 2 < SEQ_MOD"
  shows "\<exists>b'. bench_until_eof reorder b = Some b' \<and> bench_inv data ix iy b' \<and> bs_eof (inbound_stream (be_y b')) \<and>
    (unat (raw_value ix) + length data + 2 < SEQ_MOD \<longrightarrow> bench_closing data ix iy b')"
  using assms(1)
proof (induction "length data + 2 - A" arbitrary: A P b rule: less_induct)
  case less
  obtain b' where b': "bench_loop reorder b = Some b'" "bench_inv data ix iy b'"
      "bs_eof (inbound_stream (be_y b')) \<and> (unat (raw_value ix) + length data + 2 < SEQ_MOD \<longrightarrow> bench_closing data ix iy b') \<or>
        (\<exists>A' P'. A < A' \<and> bench_live data ix iy A' P' b')"
    by (rule bench_round [OF less.prems nowrap])
  have step: "bench_until_eof reorder b = bench_until_eof reorder b'"
    using bench_until_eof.simps [of reorder b] bench_live_not_eof [OF less.prems] b'(1) by simp
  from b'(3) show ?case
  proof
    assume "bs_eof (inbound_stream (be_y b')) \<and> (unat (raw_value ix) + length data + 2 < SEQ_MOD \<longrightarrow> bench_closing data ix iy b')"
    then show ?thesis using step b'(2) bench_until_eof.simps [of reorder b'] by simp
  next
    assume "\<exists>A' P'. A < A' \<and> bench_live data ix iy A' P' b'"
    then obtain A' P' where A': "A < A'" "bench_live data ix iy A' P' b'" by blast
    have "A' < length data + 2" using A'(2) by (simp add: bench_live_def)
    then have "length data + 2 - A' < length data + 2 - A" using A'(1) by linarith
    from less.hyps [OF this A'(2)] show ?thesis using step by simp
  qed
qed

text \<open>A new connection that has sent its SYN.\<close>

lemma start_effect:
  fixes r :: u32
  defines "c0 \<equiv> cn_new r tcp_config_default"
  assumes ep: "ep_inv S N T M (sn_isn (cn_sender c0)) pisn (ep c [])" and N: "N + 2 < 2147483648"
    and inv: "sn_inv S N ((cn_sender c0)\<lparr>sn_stream := st\<rparr>)" and cap: "bs_capacity st = bs_capacity (sn_stream (cn_sender c0))"
    and err: "\<not> bs_error st" and f: "fill_window ((cn_sender c0)\<lparr>sn_stream := st\<rparr>) = Some s" and c: "c = cn_send_segment (c0\<lparr>cn_sender := s\<rparr>)"
  shows "going S N T M (sn_isn (cn_sender c0)) pisn [] c" and "sn_last_ackno (cn_sender c) = 0" and "sn_next_seqno (cn_sender c) = 1"
    and "sn_last_win (cn_sender c) = 1" and "sn_retransmission_count (cn_sender c) = 0" and "rc_capacity (cn_receiver c) = 64000"
    and "bs_capacity (sn_stream (cn_sender c)) = 64000" and "\<not> rknown M (cn_receiver c) p"
    and "seg \<in> set (cn_segments_out c) \<Longrightarrow> \<not> ack (header seg)"
    and "p < 1 \<Longrightarrow> \<exists>seg \<in> set (cn_segments_out c). holds S N (sn_isn (cn_sender c0)) seg p"
    and "cn_linger_after_streams_finish c" and "cn_cfg c = tcp_config_default" and "bs_end_input (sn_stream (cn_sender c)) = bs_end_input st"
    and "bs_buff (inbound_stream c) = []"
proof -
  have new: "sn_last_ackno (cn_sender c0) = 0" "sn_next_seqno (cn_sender c0) = 0" "sn_last_win (cn_sender c0) = 1"
      "sn_retransmission_count (cn_sender c0) = 0" "bs_capacity (sn_stream (cn_sender c0)) = 64000" "cn_segments_out c0 = []"
      "cn_receiver c0 = rc_new 64000" "cn_linger_after_streams_finish c0" "cn_cfg c0 = tcp_config_default" "cn_isactive c0"
    by (simp_all add: c0_def cn_new_def sn_new_def bs_new_def tcp_config_default_def DEFAULT_CAPACITY_def)
  have calm: "cn_calm c0" by (simp add: c0_def cn_calm_def cn_new_def sn_new_def sn_plain_def)
  have edge: "sn_next_seqno (cn_sender c0) \<le> sn_edge (cn_sender c0)" using new(2) by simp
  note ff = fill_fills [OF calm edge refl inv f cap, folded c]
  have fl: "cn_receiver c = rc_new 64000" "cn_cfg c = tcp_config_default" "cn_isactive c" "cn_linger_after_streams_finish c"
      "bs_capacity (sn_stream (cn_sender c)) = 64000" "sn_last_ackno (cn_sender c) = 0" "sn_last_win (cn_sender c) = 1"
      "sn_retransmission_count (cn_sender c) = 0"
    using ff(1) new unfolding fills_def by (elim conjE, simp)+
  have next1: "sn_next_seqno (cn_sender c) = 1" using ff(6) new(2) c by (simp add: cn_send_segment_eq)
  have nosyn: "\<not> rc_syn (rc_new 64000)" by (simp add: rc_new_def)
  obtain outs where outs: "cn_segments_out c = map (fill_ack (rc_new 64000)) outs" "\<forall>x \<in> set outs. plain x"
      "\<forall>p. 0 \<le> p \<longrightarrow> p < (1 :: nat) \<longrightarrow> (\<exists>x \<in> set outs. holds S N (sn_isn (cn_sender c0)) x p)"
    using ff(1) new next1 unfolding fills_def by auto
  have outs': "cn_segments_out c = outs" using outs(1) fill_ack_none [OF nosyn] by (simp add: map_idI)
  have "rclosed M (rc_new 64000)"
    by (auto simp: rclosed_def rc_new_def sr_new_def bs_new_def rc_stream_out_def input_ended_def sr_known_def first_unassembled_def bytes_written_def)
  moreover have "sn_good (cn_sender c)" using fl next1 by (simp add: sn_good_def room_def)
  ultimately show "going S N T M (sn_isn (cn_sender c0)) pisn [] c" using ep N fl(1,3) ff(2,7) next1 err c by (simp add: going_def cn_send_segment_eq) (simp add: rc_new_def rc_stream_out_def sr_new_def bs_new_def)
  show "sn_last_ackno (cn_sender c) = 0" "sn_next_seqno (cn_sender c) = 1" "sn_last_win (cn_sender c) = 1" "sn_retransmission_count (cn_sender c) = 0"
    "bs_capacity (sn_stream (cn_sender c)) = 64000" "cn_linger_after_streams_finish c" "cn_cfg c = tcp_config_default" using fl next1 by simp_all
  show "rc_capacity (cn_receiver c) = 64000" "\<not> rknown M (cn_receiver c) p" "bs_buff (inbound_stream c) = []"
    using fl(1) nosyn by (simp_all add: rknown_def inbound_stream_def) (simp_all add: rc_new_def rc_stream_out_def sr_new_def bs_new_def)
  show "seg \<in> set (cn_segments_out c) \<Longrightarrow> \<not> ack (header seg)" using outs(2) outs' by (simp add: plain_def)
  show "p < 1 \<Longrightarrow> \<exists>seg \<in> set (cn_segments_out c). holds S N (sn_isn (cn_sender c0)) seg p" using outs(3) outs' by simp
  show "bs_end_input (sn_stream (cn_sender c)) = bs_end_input st" using ff(4) c by (simp add: cn_send_segment_eq)
qed

lemma bench_start_live:
  assumes N: "length data + 2 < 2147483648" and b: "bench_start rx ry data = Some b"
  shows "bench_live data (sn_isn (cn_sender (cn_new rx tcp_config_default))) (sn_isn (cn_sender (cn_new ry tcp_config_default))) 0 0 b"
proof -
  let ?x = "cn_new rx tcp_config_default" and ?y = "cn_new ry tcp_config_default"
  let ?ix = "sn_isn (cn_sender ?x)" and ?iy = "sn_isn (cn_sender ?y)" and ?S = "(!) data" and ?N = "length data" and ?T = "\<lambda>_. 0 :: byte"
  let ?st = "end_input (sn_stream (cn_sender ?y))"
  have inv: "bench_inv data ?ix ?iy b" using bench_start_ok [of data rx ry] N b by simp
  obtain sx sy where s: "fill_window (cn_sender ?x) = Some sx" "fill_window ((cn_sender ?y)\<lparr>sn_stream := ?st\<rparr>) = Some sy"
      "be_x b = cn_send_segment (?x\<lparr>cn_sender := sx\<rparr>)" "be_y b = cn_send_segment (?y\<lparr>cn_sender := sy\<rparr>)" "\<not> be_x_closed b" "be_received b = []"
    using b by (auto simp: bench_start_def TCP_Connection.connect_def end_input_stream_def bind_eq_Some_conv)
  have ep: "ep_inv ?S ?N ?T 0 ?ix ?iy (ep (be_x b) [])" "ep_inv ?T 0 ?S ?N ?iy ?ix (ep (be_y b) [])" using inv s(6) by (auto simp: bench_inv_def)
  have new: "sn_inv S M (cn_sender (cn_new r tcp_config_default))" for S M r
    using sn_new_inv [of "send_capacity tcp_config_default"] by (simp add: cn_new_def tcp_config_default_def DEFAULT_CAPACITY_def SIZE_MOD_def)
  have "sn_ok ?T 0 (cn_sender ?y) SnEndInput" by (simp add: cn_new_def sn_new_def bs_new_def)
  then have invy: "sn_inv ?T 0 ((cn_sender ?y)\<lparr>sn_stream := ?st\<rparr>)" using sn_step_total [OF new [of ?T 0 ry], of SnEndInput] by simp
  have invx: "sn_inv ?S ?N ((cn_sender ?x)\<lparr>sn_stream := sn_stream (cn_sender ?x)\<rparr>)" using new by simp
  have caps: "bs_capacity ?st = bs_capacity (sn_stream (cn_sender ?y))" "\<not> bs_error ?st" "\<not> bs_error (sn_stream (cn_sender ?x))"
    by (simp_all add: end_input_def cn_new_def sn_new_def bs_new_def)
  have fx: "fill_window ((cn_sender ?x)\<lparr>sn_stream := sn_stream (cn_sender ?x)\<rparr>) = Some sx" using s(1) by simp
  have "(0 :: nat) + 2 < 2147483648" by simp
  note X = start_effect [OF ep(1) N invx refl caps(3) fx s(3)] and Y = start_effect [OF ep(2) this invy caps(1,2) s(2,4)]
  have "x_ready data ?ix ?iy 0 0 (be_x b)" unfolding x_ready_def using X(1-8,10,12) X(9) by (auto simp: acks_upto_def tcp_config_default_def TIMEOUT_DFLT_def)
  moreover have "y_ready data ?ix ?iy 0 0 [] (be_y b)"
    unfolding y_ready_def y_phase_def using Y(1-8,10-14) Y(9) by (auto simp: end_input_def tcp_config_default_def TIMEOUT_DFLT_def)
  moreover have "\<not> bs_end_input (sn_stream (cn_sender (be_x b)))" using X(13) by (simp add: cn_new_def sn_new_def bs_new_def)
  ultimately show ?thesis using inv s(5,6) Y(2) unfolding bench_live_def by simp
qed

section \<open>Properties\<close>

text \<open>
  For every string of less than \<open>2\<^sup>3\<^sup>1 - 2\<close> bytes, every initial sequence number of the sending side, and
  every one of the other side but the two highest, with and without reordering: the first loop
  of the benchmark ends, and what the receiving side has read by then is the string, so the comparison
  after it does not throw.
\<close>

theorem benchmark_delivers:
  assumes "length data + 2 < 2147483648" and "unat ry + 2 < 4294967296"
  shows "\<exists>b0 b. bench_start rx ry data = Some b0 \<and> bench_until_eof reorder b0 = Some b \<and>
    bs_eof (inbound_stream (be_y b)) \<and> be_received b = data"
proof -
  have iy: "sn_isn (cn_sender (cn_new ry tcp_config_default)) = WrappingInt32 ry"
    by (simp add: cn_new_def sn_new_def tcp_config_default_def)
  obtain b0 where b0: "bench_start rx ry data = Some b0" using bench_start_ok [of data rx ry] assms(1) by auto
  note live = bench_start_live [OF assms(1) b0]
  have "unat (raw_value (WrappingInt32 ry)) + 2 < SEQ_MOD" using assms(2) by (simp add: SEQ_MOD_def)
  then obtain b where b: "bench_until_eof reorder b0 = Some b" "bs_eof (inbound_stream (be_y b))"
      "bench_inv data (sn_isn (cn_sender (cn_new rx tcp_config_default))) (WrappingInt32 ry) b"
    using bench_until_eof_ends [OF live] iy by auto
  have "be_received b = data" using bench_inv_received(2) [OF b(3,2)] .
  with b0 b(1,2) show ?thesis by blast
qed

theorem benchmark_delivers_witness:
  "\<exists>b0 b. bench_start 0 5 [7, 8] = Some b0 \<and> bench_until_eof True b0 = Some b \<and> bs_eof (inbound_stream (be_y b)) \<and> be_received b = [7, 8]"
  by (rule benchmark_delivers) simp_all

end
