(* ===== verification/Benchmark_Closing.thy ===== *)
theory Benchmark_Closing
  imports Benchmark_Progress
begin

text \<open>
  The second loop of the benchmark (\<open>apps/tcp_benchmark.cc\<close>) ends as well: after the last byte the two connections
  exchange what is left of their acknowledgments and linger until they are closed. With that, the whole program ends.
\<close>

section \<open>One round\<close>

lemma closing_round:
  assumes cl: "bench_closing data ix iy b" and nowrap: "unat (raw_value ix) + length data + 2 < SEQ_MOD" "unat (raw_value iy) + 2 < SEQ_MOD"
  obtains b' where "bench_loop reorder b = Some b'" and "bench_closing data ix iy b'" and "cn_segments_out (be_y b') = []"
    and "cn_segments_out (be_y b) = [] \<longrightarrow> cn_segments_out (be_x b') = []"
    and "cn_segments_out (be_x b) = [] \<longrightarrow> cn_segments_out (be_y b) = [] \<longrightarrow>
      (cn_isactive (be_x b') \<longrightarrow> cn_isactive (be_x b) \<and>
        cn_time_since_last_segment_received (be_x b') = cn_time_since_last_segment_received (be_x b) + 1000) \<and>
      (cn_isactive (be_y b') \<longrightarrow> cn_isactive (be_y b) \<and>
        cn_time_since_last_segment_received (be_y b') = cn_time_since_last_segment_received (be_y b) + 1000)"
proof -
  let ?S = "(!) data" and ?N = "length data" and ?T = "\<lambda>_. 0 :: byte" and ?x = "be_x b" and ?y = "be_y b" and ?log = "be_received b"
  have inv: "bench_inv data ix iy b" and closed: "be_x_closed b" and ox: "over ?S ?N ?T 0 ix iy [] ?x" and lx: "sn_last_ackno (cn_sender ?x) = ?N + 2"
    and oy: "over ?T 0 ?S ?N iy ix ?log ?y"
    and qx: "\<forall>seg \<in> set (cn_segments_out ?x). done_seg ?N ix seg \<and> acks_upto iy 0 64000 2 seg"
    and qy: "\<forall>seg \<in> set (cn_segments_out ?y). acks_upto ix 0 64000 (?N + 2) seg"
    and link: "sn_last_ackno (cn_sender ?y) = 2 \<or> (\<exists>seg \<in> set (cn_segments_out ?x). ack (header seg) \<and> ackno (header seg) = wrap 2 iy)"
    using cl by (auto simp: bench_closing_def)
  let ?q = "if reorder then rev (cn_segments_out ?x) else cn_segments_out ?x"
  have q: "set ?q = set (cn_segments_out ?x)" "?q = [] \<longleftrightarrow> cn_segments_out ?x = []" by simp_all
  have empty: "buffer_str (be_to_send b) = []" using inv closed unfolding bench_inv_def by blast
  then have w: "bench_write ?x (be_to_send b) = Some (?x, be_to_send b)" by (simp add: bench_write.simps [of ?x] buf_size_def)
  have s: "\<forall>seg \<in> set ?q. sent_seg ?S ?N ix (?N + 2) seg \<and> \<not> rst (header seg)" "\<forall>seg \<in> set ?q. acks_upto iy 0 64000 (0 + 2) seg"
      "\<forall>seg \<in> set ?q. done_seg ?N ix seg"
    using overD(13) [OF ox] qx unfolding q(1) add_0 by blast+
  have nwy: "unat (raw_value iy) + 0 + 2 < SEQ_MOD" using nowrap(2) by simp
  obtain y1 newy where y1: "run_steps cn_segment_received ?y ?q = Some y1" "over ?T 0 ?S ?N iy ix ?log y1" "cn_segments_out y1 = cn_segments_out ?y @ newy"
      "(\<forall>seg \<in> set ?q. done_seg ?N ix seg) \<longrightarrow> newy = []"
      "sn_last_ackno (cn_sender ?y) = 0 + 2 \<or> (\<exists>seg \<in> set ?q. ack (header seg) \<and> ackno (header seg) = wrap (0 + 2) iy) \<longrightarrow> sn_last_ackno (cn_sender y1) = 0 + 2"
      "cn_isactive y1 = cn_isactive ?y"
    by (rule over_receives [OF oy nwy s(1,2)])
  have out1: "cn_segments_out y1 = cn_segments_out ?y" using y1(3,4) s(3) by simp
  have last1: "sn_last_ackno (cn_sender y1) = 2" using y1(5) link unfolding q(1) add_0 by blast
  let ?x1 = "?x\<lparr>cn_segments_out := []\<rparr>" and ?y2 = "y1\<lparr>cn_segments_out := []\<rparr>"
  have s': "\<forall>seg \<in> set (cn_segments_out ?y). sent_seg ?T 0 iy (0 + 2) seg \<and> \<not> rst (header seg)" using overD(13) [OF oy] by blast
  obtain x2 newx where x2: "run_steps cn_segment_received ?x1 (cn_segments_out ?y) = Some x2" "over ?S ?N ?T 0 ix iy [] x2"
      "cn_segments_out x2 = cn_segments_out ?x1 @ newx" "\<forall>seg \<in> set newx. done_seg ?N ix seg \<and> acks_upto iy 0 64000 (0 + 2) seg"
      "sn_last_ackno (cn_sender ?x1) = ?N + 2 \<or> (\<exists>seg \<in> set (cn_segments_out ?y). ack (header seg) \<and> ackno (header seg) = wrap (?N + 2) ix) \<longrightarrow>
        sn_last_ackno (cn_sender x2) = ?N + 2" "cn_isactive x2 = cn_isactive ?x1"
    by (rule over_receives [OF over_drain [OF ox] nowrap(1) s' qy])
  have last2: "sn_last_ackno (cn_sender x2) = ?N + 2" using x2(5) lx by simp
  obtain x3 where x3: "cn_tick x2 1000 = Some x3" "over ?S ?N ?T 0 ix iy [] x3" "sn_last_ackno (cn_sender x3) = ?N + 2" "cn_segments_out x3 = cn_segments_out x2"
      "cn_isactive x3 \<longrightarrow> cn_isactive x2 \<and> cn_time_since_last_segment_received x3 = cn_time_since_last_segment_received x2 + 1000"
    by (rule over_ticks [OF x2(2) disjI1 [OF last2]]) (use last2 in simp)
  have l2: "sn_last_ackno (cn_sender ?y2) = 0 + 2" using last1 by simp
  obtain y3 where y3: "cn_tick ?y2 1000 = Some y3" "over ?T 0 ?S ?N iy ix ?log y3" "sn_last_ackno (cn_sender y3) = 2" "cn_segments_out y3 = []"
      "cn_isactive y3 \<longrightarrow> cn_isactive ?y2 \<and> cn_time_since_last_segment_received y3 = cn_time_since_last_segment_received ?y2 + 1000"
    by (rule over_ticks [OF over_drain [OF y1(2)] disjI1 [OF l2]]) (use l2 in simp)
  let ?b = "\<lparr>be_x = x3, be_y = y3, be_to_send = be_to_send b, be_x_closed = True, be_received = ?log\<rparr>"
  have "buffer_size (inbound_stream ?y2) = 0" using overD(5) [OF over_drain [OF y1(2)]] by (simp add: buffer_size_def)
  then have loop: "bench_loop reorder b = Some ?b"
    using w closed y1(1) x2(1) x3(1) y3(1) out1 by (simp add: bench_loop_def move_segments_def)
  then have "bench_inv data ix iy ?b" using bench_loop_ok [OF inv, of reorder] empty by auto
  then have "bench_closing data ix iy ?b"
    using x3(2,3,4) x2(3,4) [unfolded add_0] y3(2,3,4) unfolding bench_closing_def by simp
  moreover have "cn_segments_out ?y = [] \<longrightarrow> x2 = ?x1" "cn_segments_out ?x = [] \<longrightarrow> y1 = ?y" using x2(1) y1(1) by (auto split: if_splits)
  ultimately show thesis using that [OF loop] x3(4,5) y3(4,5) x2(6) y1(6) by auto
qed

section \<open>The loop ends\<close>

text \<open>The time a connection may still linger.\<close>

definition linger_left :: "tcp_connection \<Rightarrow> nat" where
  "linger_left c = (if cn_isactive c then 10000 - cn_time_since_last_segment_received c else 0)"

lemma linger_left_less:
  assumes "over S N T M isn pisn log c" and "cn_isactive c' \<longrightarrow> cn_isactive c \<and>
    cn_time_since_last_segment_received c' = cn_time_since_last_segment_received c + 1000"
  shows "linger_left c' \<le> linger_left c" and "cn_isactive c \<Longrightarrow> linger_left c' < linger_left c"
  using assms(2) overD(11) [OF assms(1)] by (auto simp: linger_left_def)

definition closing_left :: "bench \<Rightarrow> nat" where
  "closing_left b = linger_left (be_x b) + linger_left (be_y b) +
     (if cn_segments_out (be_y b) = [] then 0 else 50000) + (if cn_segments_out (be_x b) = [] then 0 else 20001)"

lemma bench_until_closed_ends:
  assumes "bench_closing data ix iy b" and nowrap: "unat (raw_value ix) + length data + 2 < SEQ_MOD" "unat (raw_value iy) + 2 < SEQ_MOD"
  shows "\<exists>b'. bench_until_closed reorder b = Some b' \<and> bench_closing data ix iy b' \<and> \<not> active (be_x b') \<and> \<not> active (be_y b')"
  using assms(1)
proof (induction "closing_left b" arbitrary: b rule: less_induct)
  case less
  show ?case
  proof (cases "active (be_x b) \<or> active (be_y b)")
    case False
    then show ?thesis using less.prems bench_until_closed.simps [of reorder b] by simp
  next
    case True
    obtain b' where b': "bench_loop reorder b = Some b'" "bench_closing data ix iy b'" "cn_segments_out (be_y b') = []"
        "cn_segments_out (be_y b) = [] \<longrightarrow> cn_segments_out (be_x b') = []"
        "cn_segments_out (be_x b) = [] \<longrightarrow> cn_segments_out (be_y b) = [] \<longrightarrow>
          (cn_isactive (be_x b') \<longrightarrow> cn_isactive (be_x b) \<and>
            cn_time_since_last_segment_received (be_x b') = cn_time_since_last_segment_received (be_x b) + 1000) \<and>
          (cn_isactive (be_y b') \<longrightarrow> cn_isactive (be_y b) \<and>
            cn_time_since_last_segment_received (be_y b') = cn_time_since_last_segment_received (be_y b) + 1000)"
      by (rule closing_round [OF less.prems nowrap])
    have le: "linger_left c \<le> 10000" for c by (simp add: linger_left_def)
    have "closing_left b' < closing_left b"
    proof (cases "cn_segments_out (be_x b) = [] \<and> cn_segments_out (be_y b) = []")
      case False
      then show ?thesis using b'(3,4) le [of "be_x b'"] le [of "be_y b'"] by (auto simp: closing_left_def)
    next
      case quiet: True
      have "over ((!) data) (length data) (\<lambda>_. 0) 0 ix iy [] (be_x b)" "over (\<lambda>_. 0) 0 ((!) data) (length data) iy ix (be_received b) (be_y b)"
        using less.prems by (auto simp: bench_closing_def)
      note L = linger_left_less [OF this(1), of "be_x b'"] linger_left_less [OF this(2), of "be_y b'"]
      have "linger_left (be_x b') + linger_left (be_y b') < linger_left (be_x b) + linger_left (be_y b)"
        using L b'(5) quiet True by (auto simp: active_def intro: add_less_le_mono add_le_less_mono)
      then show ?thesis using quiet b'(3,4) by (simp add: closing_left_def)
    qed
    from less.hyps [OF this b'(2)] show ?thesis using True b'(1) bench_until_closed.simps [of reorder b] by simp
  qed
qed

section \<open>The program ends\<close>

lemma closing_eof: "bench_closing data ix iy b \<Longrightarrow> bs_eof (inbound_stream (be_y b))"
  using over_receiver(2) [OF overD(1), of "\<lambda>_. 0" 0 "(!) data" "length data" iy ix "be_received b" "be_y b"]
    overD(3,5) [of "\<lambda>_. 0" 0 "(!) data" "length data" iy ix "be_received b" "be_y b"]
  by (simp add: bench_closing_def bs_eof_def buffer_empty_def inbound_stream_def)

lemma main_loop_ends:
  assumes "length data + 2 < 2147483648" and "unat rx + length data + 2 < 4294967296" and "unat ry + 2 < 4294967296"
  shows "\<exists>b. main_loop reorder rx ry data = Some b \<and> be_received b = data \<and> \<not> active (be_x b) \<and> \<not> active (be_y b)"
proof -
  have i: "sn_isn (cn_sender (cn_new r tcp_config_default)) = WrappingInt32 r" for r
    by (simp add: cn_new_def sn_new_def tcp_config_default_def)
  have nowrap: "unat (raw_value (WrappingInt32 rx)) + length data + 2 < SEQ_MOD" "unat (raw_value (WrappingInt32 ry)) + 2 < SEQ_MOD"
    using assms(2,3) by (simp_all add: SEQ_MOD_def)
  obtain b0 where b0: "bench_start rx ry data = Some b0" using bench_start_ok [of data rx ry] assms(1) by auto
  obtain b1 where b1: "bench_until_eof reorder b0 = Some b1" "bench_closing data (WrappingInt32 rx) (WrappingInt32 ry) b1"
    using bench_until_eof_ends [OF bench_start_live [OF assms(1) b0], of reorder] nowrap i by auto
  obtain b2 where b2: "bench_until_closed reorder b1 = Some b2" "bench_closing data (WrappingInt32 rx) (WrappingInt32 ry) b2"
      "\<not> active (be_x b2)" "\<not> active (be_y b2)"
    using bench_until_closed_ends [OF b1(2) nowrap] by blast
  have "be_received b = data" if "bench_closing data (WrappingInt32 rx) (WrappingInt32 ry) b" for b
    using bench_inv_received(2) [OF _ closing_eof [OF that]] that unfolding bench_closing_def by blast
  then have "be_received b1 = data" "be_received b2 = data" using b1(2) b2(2) by blast+
  then show ?thesis using b0 b1(1) b2 by (simp add: main_loop_def)
qed

text \<open>
  C3: The benchmark succeeds. Let both random strings have less than \<open>2\<^sup>3\<^sup>1 - 2\<close> bytes, as those of the program have,
  and the initial sequence numbers be such that neither side's sequence numbers wrap. Then both runs end, with and without
  reordering: no call throws, the string that is received is the one that was sent, the second loop is left with
  both connections closed; and the program returns \<open>EXIT_SUCCESS\<close>.
\<close>

theorem benchmark_succeeds:
  assumes "\<And>reorder rx ry string. random reorder = (rx, ry, string) \<Longrightarrow>
    length string + 2 < 2147483648 \<and> unat rx + length string + 2 < 4294967296 \<and> unat ry + 2 < 4294967296"
  shows "bench_main random = Some 0 \<and> (\<forall>reorder rx ry string. random reorder = (rx, ry, string) \<longrightarrow>
    (\<exists>b. main_loop reorder rx ry string = Some b \<and> be_received b = string \<and> \<not> active (be_x b) \<and> \<not> active (be_y b)))"
proof
  show runs: "\<forall>reorder rx ry string. random reorder = (rx, ry, string) \<longrightarrow>
    (\<exists>b. main_loop reorder rx ry string = Some b \<and> be_received b = string \<and> \<not> active (be_x b) \<and> \<not> active (be_y b))"
    using main_loop_ends assms by blast
  obtain rx ry s rx' ry' s' where "random False = (rx, ry, s)" "random True = (rx', ry', s')" by (metis prod_cases3)
  with runs obtain b b' where "main_loop False rx ry s = Some b" "main_loop True rx' ry' s' = Some b'" by blast
  then show "bench_main random = Some 0"
    using \<open>random False = (rx, ry, s)\<close> \<open>random True = (rx', ry', s')\<close> by (simp add: bench_main_def)
qed

theorem benchmark_succeeds_witness:
  "bench_main (\<lambda>reorder. if reorder then (0, 5, [7, 8]) else (3, 4, replicate bench_len 1)) = Some 0"
  by (rule benchmark_succeeds [THEN conjunct1]) (auto simp: bench_len_def split: if_splits)

end
