(* ===== verification/Command_Line.thy ===== *)
theory Command_Line
  imports Fd_Adapters TCP_Sender
begin

text \<open>
  The command lines of \<open>apps/tcp_ipv4.cc\<close> and \<open>apps/tcp_udp.cc\<close>: \<open>show_usage\<close>, \<open>check_argc\<close> and
  \<open>get_config\<close>. \<open>argv\<close> is a list of strings without the null character, with the name of the program
  first; each use of a word of it is checked. The resolver, the random source port and the conversion of a
  loss rate (\<open>strtof\<close>, a product of floats and a cast) are parameters.
\<close>

section \<open>How a program ends\<close>

text \<open>
  A program may call \<open>exit\<close>, with what was printed and the status, throw an exception, which only the
  constructor of an address and \<open>port()\<close> do, or use a word past the end of \<open>argv\<close>: \<open>argv[argc]\<close> is the null
  pointer, and nothing is known of what follows.
\<close>

datatype ending = Exits string nat | Throws | PastEnd

definition and_then :: "ending + 'a \<Rightarrow> ('a \<Rightarrow> ending + 'b) \<Rightarrow> ending + 'b" where
  "and_then m f = (case m of Inl e \<Rightarrow> Inl e | Inr x \<Rightarrow> f x)"

lemma and_then_simps [simp]: "and_then (Inl e) f = Inl e" "and_then (Inr x) f = f x"
  by (simp_all add: and_then_def)

definition argv_at :: "string list \<Rightarrow> nat \<Rightarrow> ending + string" where
  "argv_at argv i = (if i < length argv then Inr (argv ! i) else Inl PastEnd)"

lemma argv_at_append [simp]: "argv_at (w # ws) 0 = Inr w" "argv_at (pre @ w # ws) (length pre) = Inr w" "argv_at (pre @ v # w # ws) (Suc (length pre)) = Inr w"
  by (simp_all add: argv_at_def nth_append)

fun or_throws :: "'a option \<Rightarrow> ending + 'a" where
  "or_throws None = Inl Throws"
| "or_throws (Some x) = Inr x"

section \<open>The C library\<close>

text \<open>\<open>strncmp(a, b, n) == 0\<close>: the strings end with the null character, which is compared as well.\<close>

definition strncmp_eq :: "string \<Rightarrow> string \<Rightarrow> nat \<Rightarrow> bool" where
  "strncmp_eq a b n \<longleftrightarrow> take n (a @ [CHR 0x00]) = take n (b @ [CHR 0x00])"

text \<open>\<open>strtol\<close> with base 0: white space, a sign, the prefix that selects the base, and as many digits as
  there are; the value is cut off at the ends of the range of a 64 bit \<open>long\<close>.\<close>

definition digit_of :: "char \<Rightarrow> nat" where
  "digit_of c =
     (let n = of_char c :: nat
      in if 48 \<le> n \<and> n \<le> 57 then n - 48
         else if 97 \<le> n \<and> n \<le> 122 then n - 87
         else if 65 \<le> n \<and> n \<le> 90 then n - 55
         else 36)"

definition read_digits :: "nat \<Rightarrow> string \<Rightarrow> nat" where
  "read_digits b s = foldl (\<lambda>a c. a * b + digit_of c) 0 (takeWhile (\<lambda>c. digit_of c < b) s)"

definition is_space :: "char \<Rightarrow> bool" where
  "is_space c \<longleftrightarrow> c \<in> {CHR '' '', CHR 0x09, CHR 0x0A, CHR 0x0B, CHR 0x0C, CHR 0x0D}"

definition strtol0 :: "string \<Rightarrow> int" where
  "strtol0 s =
     (let s = dropWhile is_space s;
          neg = (s \<noteq> [] \<and> hd s = CHR ''-'');
          s = (if s \<noteq> [] \<and> (hd s = CHR ''-'' \<or> hd s = CHR ''+'') then tl s else s);
          v = (case s of
                 c0 # c1 # c2 # cs \<Rightarrow>
                   if c0 = CHR ''0'' \<and> (c1 = CHR ''x'' \<or> c1 = CHR ''X'') \<and> digit_of c2 < 16
                   then read_digits 16 (c2 # cs)
                   else read_digits (if c0 = CHR ''0'' then 8 else 10) s
               | c0 # cs \<Rightarrow> read_digits (if c0 = CHR ''0'' then 8 else 10) s
               | [] \<Rightarrow> 0)
      in if neg then max (- 9223372036854775808) (- int v) else min 9223372036854775807 (int v))"

text \<open>The implicit conversions of the result to \<open>size_t\<close> and to \<open>uint16_t\<close>.\<close>

definition long_to_size :: "int \<Rightarrow> size_t" where
  "long_to_size v = nat (v mod int SIZE_MOD)"

definition long_to_u16 :: "int \<Rightarrow> u16" where
  "long_to_u16 v = of_int v"

section \<open>Options\<close>

text \<open>
  What a branch of the \<open>if\<close> chain does: set a flag, take the next argument (after \<open>check_argc\<close> with its
  message), show the usage, or report an unknown option. Both programs share the loop around it.
\<close>

datatype 's opt_action = OptFlag 's | OptArg string "string \<Rightarrow> 's" | OptHelp | OptUnknown

definition check_argc :: "nat \<Rightarrow> nat \<Rightarrow> bool" where
  "check_argc argc cur \<longleftrightarrow> \<not> cur + 3 \<ge> argc"

function option_loop ::
  "(string option \<Rightarrow> string) \<Rightarrow> (string \<Rightarrow> 's \<Rightarrow> 's opt_action) \<Rightarrow> string list \<Rightarrow> nat \<Rightarrow> 's \<Rightarrow> ending + (nat \<times> 's)" where
  "option_loop usage act argv cur st =
     (if int (length argv) - int cur > 2 then
        and_then (argv_at argv cur) (\<lambda>arg. case act arg st of
          OptFlag st' \<Rightarrow> option_loop usage act argv (cur + 1) st'
        | OptArg err f \<Rightarrow>
            if \<not> check_argc (length argv) cur then Inl (Exits (usage (Some err)) 1)
            else and_then (argv_at argv (cur + 1)) (\<lambda>v. option_loop usage act argv (cur + 2) (f v))
        | OptHelp \<Rightarrow> Inl (Exits (usage None) 0)
        | OptUnknown \<Rightarrow>
            and_then (argv_at argv cur) (\<lambda>w. Inl (Exits (usage (Some (''ERROR: unrecognized option '' @ w))) 1)))
      else Inr (cur, st))"
  by pat_completeness auto
termination
  by (relation "measure (\<lambda>(usage, act, argv, cur, st). length argv - cur)") auto

declare option_loop.simps [simp del]

section \<open>\<open>tcp_ipv4\<close>\<close>

definition TUN_DFLT :: string where "TUN_DFLT = ''tun144''"
definition LOCAL_ADDRESS_DFLT :: string where "LOCAL_ADDRESS_DFLT = ''169.254.144.9''"

definition ip_show_usage :: "string \<Rightarrow> string option \<Rightarrow> string" where
  "ip_show_usage argv0 msg =
     ''Usage: '' @ argv0 @ '' [options] <host> <port>\<newline>\<newline>'' @
     ''   Option                                                          Default\<newline>'' @
     ''   --                                                              --\<newline>\<newline>'' @
     ''   -l              Server (listen) mode.                           (client mode)\<newline>'' @
     ''                   In server mode, <host>:<port> is the address to bind.\<newline>\<newline>'' @
     ''   -a <addr>       Set source address (client mode only)           '' @ LOCAL_ADDRESS_DFLT @ ''\<newline>'' @
     ''   -s <port>       Set source port (client mode only)              (random)\<newline>\<newline>'' @
     ''   -w <winsz>      Use a window of <winsz> bytes                   '' @ show_dec MAX_PAYLOAD_SIZE @ ''\<newline>\<newline>'' @
     ''   -t <tmout>      Set rt_timeout to tmout                         '' @ show_dec (unat TIMEOUT_DFLT) @ ''\<newline>\<newline>'' @
     ''   -d <tundev>     Connect to tun <tundev>                         '' @ TUN_DFLT @ ''\<newline>\<newline>'' @
     ''   -Lu <loss>      Set uplink loss to <rate> (float in 0..1)       (no loss)\<newline>'' @
     ''   -Ld <loss>      Set downlink loss to <rate> (float in 0..1)     (no loss)\<newline>\<newline>'' @
     ''   -h              Show this message.\<newline>\<newline>'' @
     (case msg of None \<Rightarrow> [] | Some m \<Rightarrow> m) @ ''\<newline>''"

record ip_config =
  ic_fsm :: tcp_config
  ic_filt :: fd_adapter_config
  ic_tundev :: "string option"
  ic_listen :: bool
  ic_source_address :: string
  ic_source_port :: string

definition ip_option :: "(string \<Rightarrow> u16) \<Rightarrow> string \<Rightarrow> ip_config \<Rightarrow> ip_config opt_action" where
  "ip_option lossrate arg c =
     (if strncmp_eq ''-l'' arg 3 then OptFlag (c\<lparr>ic_listen := True\<rparr>)
      else if strncmp_eq ''-a'' arg 3 then
        OptArg ''ERROR: -a requires one argument.'' (\<lambda>v. c\<lparr>ic_source_address := v\<rparr>)
      else if strncmp_eq ''-s'' arg 3 then
        OptArg ''ERROR: -s requires one argument.'' (\<lambda>v. c\<lparr>ic_source_port := v\<rparr>)
      else if strncmp_eq ''-w'' arg 3 then
        OptArg ''ERROR: -w requires one argument.'' (\<lambda>v. c\<lparr>ic_fsm := (ic_fsm c)\<lparr>recv_capacity := long_to_size (strtol0 v)\<rparr>\<rparr>)
      else if strncmp_eq ''-t'' arg 3 then
        OptArg ''ERROR: -t requires one argument.'' (\<lambda>v. c\<lparr>ic_fsm := (ic_fsm c)\<lparr>rt_timeout := long_to_u16 (strtol0 v)\<rparr>\<rparr>)
      else if strncmp_eq ''-d'' arg 3 then
        OptArg ''ERROR: -t requires one argument.'' (\<lambda>v. c\<lparr>ic_tundev := Some v\<rparr>)
      else if strncmp_eq ''-Lu'' arg 3 then
        OptArg ''ERROR: -Lu requires one argument.'' (\<lambda>v. c\<lparr>ic_filt := (ic_filt c)\<lparr>loss_rate_up := lossrate v\<rparr>\<rparr>)
      else if strncmp_eq ''-Ld'' arg 3 then
        OptArg ''ERROR: -Lu requires one argument.'' (\<lambda>v. c\<lparr>ic_filt := (ic_filt c)\<lparr>loss_rate_dn := lossrate v\<rparr>\<rparr>)
      else if strncmp_eq ''-h'' arg 3 then OptHelp
      else OptUnknown)"

definition ip_config_new :: "fd_adapter_config \<Rightarrow> u32 \<Rightarrow> ip_config" where
  "ip_config_new c_filt random =
     \<lparr>ic_fsm = tcp_config_default, ic_filt = c_filt, ic_tundev = None, ic_listen = False,
      ic_source_address = LOCAL_ADDRESS_DFLT, ic_source_port = show_dec (unat (ucast random :: u16))\<rparr>"

definition ip_positional ::
  "resolver \<Rightarrow> string \<Rightarrow> string list \<Rightarrow> nat \<Rightarrow> ip_config \<Rightarrow> ending + ip_config" where
  "ip_positional R argv0 argv cur c =
     (if ic_listen c then
        and_then (argv_at argv (cur + 1)) (\<lambda>port.
        and_then (or_throws (address_of_host R ''0'' port)) (\<lambda>source.
        and_then (or_throws (addr_port R source)) (\<lambda>p.
          if p = 0 then Inl (Exits (ip_show_usage argv0 (Some ''ERROR: listen port cannot be zero in server mode.'')) 1)
          else Inr (c\<lparr>ic_filt := (ic_filt c)\<lparr>fa_source := source\<rparr>\<rparr>))))
      else
        and_then (argv_at argv cur) (\<lambda>host.
        and_then (argv_at argv (cur + 1)) (\<lambda>port.
        and_then (or_throws (address_of_host R host port)) (\<lambda>destination.
        and_then (or_throws (address_of_host R (ic_source_address c) (ic_source_port c))) (\<lambda>source.
          Inr (c\<lparr>ic_filt := (ic_filt c)\<lparr>fa_source := source, fa_destination := destination\<rparr>\<rparr>))))))"

definition ip_get_config :: "resolver \<Rightarrow> (string \<Rightarrow> u16) \<Rightarrow> u32 \<Rightarrow> string list \<Rightarrow> ending + ip_config" where
  "ip_get_config R lossrate random argv =
     and_then (or_throws (fd_adapter_config_default R)) (\<lambda>c_filt.
     and_then (argv_at argv 0) (\<lambda>argv0.
     and_then (option_loop (ip_show_usage argv0) (ip_option lossrate) argv 1 (ip_config_new c_filt random)) (\<lambda>(cur, c).
       ip_positional R argv0 argv cur c)))"

section \<open>\<open>tcp_udp\<close>\<close>

definition udp_show_usage :: "string \<Rightarrow> string option \<Rightarrow> string" where
  "udp_show_usage argv0 msg =
     ''Usage: '' @ argv0 @ '' [options] <host> <port>\<newline>\<newline>'' @
     ''   Option                                                          Default\<newline>'' @
     ''   --                                                              --\<newline>\<newline>'' @
     ''   -l              Server (listen) mode.                           (client mode)\<newline>'' @
     ''                   In server mode, <host>:<port> is the address to bind.\<newline>\<newline>'' @
     ''   -w <winsz>      Use a window of <winsz> bytes                   '' @ show_dec MAX_PAYLOAD_SIZE @ ''\<newline>\<newline>'' @
     ''   -t <tmout>      Set rt_timeout to tmout                         '' @ show_dec (unat TIMEOUT_DFLT) @ ''\<newline>\<newline>'' @
     ''   -Lu <loss>      Set uplink loss to <rate> (float in 0..1)       (no loss)\<newline>'' @
     ''   -Ld <loss>      Set downlink loss to <rate> (float in 0..1)     (no loss)\<newline>\<newline>'' @
     ''   -h              Show this message and quit.\<newline>\<newline>'' @
     (case msg of None \<Rightarrow> [] | Some m \<Rightarrow> m) @ ''\<newline>''"

record udp_config =
  uc_fsm :: tcp_config
  uc_filt :: fd_adapter_config
  uc_listen :: bool

definition udp_option :: "(string \<Rightarrow> u16) \<Rightarrow> string \<Rightarrow> udp_config \<Rightarrow> udp_config opt_action" where
  "udp_option lossrate arg c =
     (if strncmp_eq ''-l'' arg 3 then OptFlag (c\<lparr>uc_listen := True\<rparr>)
      else if strncmp_eq ''-w'' arg 3 then
        OptArg ''ERROR: -w requires one argument.'' (\<lambda>v. c\<lparr>uc_fsm := (uc_fsm c)\<lparr>recv_capacity := long_to_size (strtol0 v)\<rparr>\<rparr>)
      else if strncmp_eq ''-t'' arg 3 then
        OptArg ''ERROR: -t requires one argument.'' (\<lambda>v. c\<lparr>uc_fsm := (uc_fsm c)\<lparr>rt_timeout := long_to_u16 (strtol0 v)\<rparr>\<rparr>)
      else if strncmp_eq ''-Lu'' arg 3 then
        OptArg ''ERROR: -Lu requires one argument.'' (\<lambda>v. c\<lparr>uc_filt := (uc_filt c)\<lparr>loss_rate_up := lossrate v\<rparr>\<rparr>)
      else if strncmp_eq ''-Ld'' arg 3 then
        OptArg ''ERROR: -Lu requires one argument.'' (\<lambda>v. c\<lparr>uc_filt := (uc_filt c)\<lparr>loss_rate_dn := lossrate v\<rparr>\<rparr>)
      else if strncmp_eq ''-h'' arg 3 then OptHelp
      else OptUnknown)"

definition udp_positional :: "resolver \<Rightarrow> string list \<Rightarrow> udp_config \<Rightarrow> ending + udp_config" where
  "udp_positional R argv c =
     (if uc_listen c then
        and_then (argv_at argv (length argv - 1)) (\<lambda>port.
        and_then (or_throws (address_of_host R ''0'' port)) (\<lambda>source.
          Inr (c\<lparr>uc_filt := (uc_filt c)\<lparr>fa_source := source\<rparr>\<rparr>)))
      else
        and_then (argv_at argv (length argv - 2)) (\<lambda>host.
        and_then (argv_at argv (length argv - 1)) (\<lambda>port.
        and_then (or_throws (address_of_host R host port)) (\<lambda>destination.
          Inr (c\<lparr>uc_filt := (uc_filt c)\<lparr>fa_destination := destination\<rparr>\<rparr>)))))"

definition udp_get_config :: "resolver \<Rightarrow> (string \<Rightarrow> u16) \<Rightarrow> string list \<Rightarrow> ending + udp_config" where
  "udp_get_config R lossrate argv =
     and_then (or_throws (fd_adapter_config_default R)) (\<lambda>c_filt.
     and_then (argv_at argv 0) (\<lambda>argv0.
     and_then (option_loop (udp_show_usage argv0) (udp_option lossrate) argv 1
         \<lparr>uc_fsm = tcp_config_default, uc_filt = c_filt, uc_listen = False\<rparr>) (\<lambda>(cur, c).
       udp_positional R argv c)))"

section \<open>What the loop accepts\<close>

text \<open>An option as it is written: its words, and what it does to the state.\<close>

datatype option_line = Flag string | Valued string string

fun option_words :: "option_line \<Rightarrow> string list" where
  "option_words (Flag n) = [n]"
| "option_words (Valued n v) = [n, v]"

fun option_apply :: "(string \<Rightarrow> 's \<Rightarrow> 's opt_action) \<Rightarrow> 's \<Rightarrow> option_line \<Rightarrow> 's option" where
  "option_apply act st (Flag n) = (case act n st of OptFlag st' \<Rightarrow> Some st' | _ \<Rightarrow> None)"
| "option_apply act st (Valued n v) = (case act n st of OptArg err f \<Rightarrow> Some (f v) | _ \<Rightarrow> None)"

lemma option_loop_prefix:
  assumes "run_steps (option_apply act) st opts = Some st'" and "2 \<le> length rest"
  shows "option_loop usage act (pre @ concat (map option_words opts) @ rest) (length pre) st =
    option_loop usage act (pre @ concat (map option_words opts) @ rest) (length (pre @ concat (map option_words opts))) st'"
  using assms
proof (induction opts arbitrary: pre st)
  case Nil
  then show ?case by simp
next
  case (Cons opt opts)
  then obtain st1 where st1: "option_apply act st opt = Some st1" "run_steps (option_apply act) st1 opts = Some st'"
    by (auto simp: bind_eq_Some_conv)
  show ?case
  proof (cases opt)
    case (Flag n)
    then have "act n st = OptFlag st1" using st1(1) by (simp split: opt_action.splits)
    with Cons.IH [OF st1(2) Cons.prems(2), of "pre @ [n]"] Flag Cons.prems(2) show ?thesis
      by (subst option_loop.simps) simp
  next
    case (Valued n v)
    then obtain err f where "act n st = OptArg err f" "f v = st1" using st1(1) by (auto split: opt_action.splits)
    with Cons.IH [OF st1(2) Cons.prems(2), of "pre @ [n, v]"] Valued Cons.prems(2) show ?thesis
      by (subst option_loop.simps) (simp add: check_argc_def)
  qed
qed

text \<open>Where the loop stops: two words are left, or what is left begins with no complete option.\<close>

definition stops_at :: "(string \<Rightarrow> 's \<Rightarrow> 's opt_action) \<Rightarrow> string list \<Rightarrow> 's \<Rightarrow> bool" where
  "stops_at act ws st \<longleftrightarrow> length ws = 2 \<or> 2 < length ws \<and>
     (case act (hd ws) st of OptFlag _ \<Rightarrow> False | OptArg _ _ \<Rightarrow> length ws = 3 | OptHelp \<Rightarrow> True | OptUnknown \<Rightarrow> True)"

lemma options_split:
  "2 \<le> length ws \<Longrightarrow> \<exists>opts rest st'. ws = concat (map option_words opts) @ rest \<and>
     run_steps (option_apply act) st opts = Some st' \<and> stops_at act rest st'"
proof (induction ws arbitrary: st rule: length_induct)
  case (1 ws)
  show ?case
  proof (cases "stops_at act ws st")
    case True
    then show ?thesis by (intro exI [of _ "[]"] exI [of _ ws] exI [of _ st]) simp
  next
    case False
    obtain w ws1 where ws: "ws = w # ws1" using 1 by (cases ws) auto
    consider (flag) st1 where "act w st = OptFlag st1" "2 \<le> length ws1"
      | (valued) err f v ws2 where "act w st = OptArg err f" "ws1 = v # ws2" "2 \<le> length ws2"
      using False ws "1.prems" by (cases ws1; cases "tl ws1"; cases "tl (tl ws1)") (auto simp: stops_at_def split: opt_action.splits)
    then show ?thesis
    proof cases
      case flag
      with "1.IH" ws obtain opts rest st' where "ws1 = concat (map option_words opts) @ rest"
        "run_steps (option_apply act) st1 opts = Some st'" "stops_at act rest st'" by (metis length_Cons lessI)
      with ws flag show ?thesis by (intro exI [of _ "Flag w # opts"] exI [of _ rest] exI [of _ st']) simp
    next
      case valued
      with "1.IH" ws obtain opts rest st' where "ws2 = concat (map option_words opts) @ rest"
        "run_steps (option_apply act) (f v) opts = Some st'" "stops_at act rest st'"
        by (metis length_Cons less_Suc_eq)
      with ws valued show ?thesis by (intro exI [of _ "Valued w v # opts"] exI [of _ rest] exI [of _ st']) simp
    qed
  qed
qed

lemma option_loop_stops:
  assumes "stops_at act rest st"
  shows "option_loop usage act (pre @ rest) (length pre) st =
    (if length rest = 2 then Inr (length pre, st)
     else case act (hd rest) st of
         OptArg err f \<Rightarrow> Inl (Exits (usage (Some err)) 1)
       | OptHelp \<Rightarrow> Inl (Exits (usage None) 0)
       | _ \<Rightarrow> Inl (Exits (usage (Some (''ERROR: unrecognized option '' @ hd rest))) 1))"
proof (cases "length rest = 2")
  case True
  then show ?thesis by (simp add: option_loop.simps)
next
  case False
  then obtain w ws where "rest = w # ws" "2 \<le> length ws" using assms by (cases rest) (auto simp: stops_at_def)
  with assms False show ?thesis
    by (subst option_loop.simps) (auto simp: stops_at_def check_argc_def split: opt_action.splits)
qed

lemma option_loop_run:
  assumes "run_steps (option_apply act) st opts = Some st'" and "stops_at act rest st'"
  shows "option_loop usage act (prog # concat (map option_words opts) @ rest) 1 st =
    (if length rest = 2 then Inr (length (prog # concat (map option_words opts)), st')
     else case act (hd rest) st' of
         OptArg err f \<Rightarrow> Inl (Exits (usage (Some err)) 1)
       | OptHelp \<Rightarrow> Inl (Exits (usage None) 0)
       | _ \<Rightarrow> Inl (Exits (usage (Some (''ERROR: unrecognized option '' @ hd rest))) 1))"
proof -
  have "2 \<le> length rest" using assms(2) by (auto simp: stops_at_def)
  from option_loop_prefix [OF assms(1) this, of usage "[prog]"]
    option_loop_stops [OF assms(2), of usage "prog # concat (map option_words opts)"]
  show ?thesis by simp
qed

section \<open>Numbers\<close>

lemma digits_lead: "0 < n \<Longrightarrow> hd (digits 10 n) \<noteq> 0"
proof (induction "10 :: nat" n rule: digits.induct)
  case (1 n)
  then show ?case by (subst digits.simps) (auto simp: hd_append div_greater_zero_iff)
qed

lemma digit_of_char: "d < 10 \<Longrightarrow> digit_of (digit_char d) = d"
proof -
  assume "d < 10"
  then have "d \<in> {0, 1, 2, 3, 4, 5, 6, 7, 8, 9}" by auto
  then show "digit_of (digit_char d) = d" by (auto simp: digit_char_def digit_of_def)
qed

lemma read_digits_show: "read_digits 10 (show_dec n) = n"
proof -
  have b: "\<forall>d \<in> set (digits 10 n). d < 10" using digits_bound [of 10] by simp
  then have "takeWhile (\<lambda>c. digit_of c < 10) (show_dec n) = show_dec n"
    by (simp add: takeWhile_eq_all_conv show_dec_def show_nat_def digit_of_char)
  moreover have "foldl (\<lambda>a c. a * 10 + digit_of c) a (map digit_char ds) = foldl (\<lambda>a d. a * 10 + d) a ds"
    if "\<forall>d \<in> set ds. d < 10" for ds a
    using that by (induction ds arbitrary: a) (simp_all add: digit_of_char)
  ultimately show ?thesis using b digits_value [of 10 n]
    by (simp only: read_digits_def) (simp add: show_dec_def show_nat_def)
qed

lemma strtol0_show_dec: "strtol0 (show_dec n) = int (min n 9223372036854775807)"
proof (cases "n = 0")
  case True
  then show ?thesis by (simp add: show_dec_def show_nat_def digits.simps digit_char_def strtol0_def is_space_def read_digits_def digit_of_def)
next
  case False
  obtain c cs where s: "show_dec n = c # cs" by (cases "show_dec n") simp_all
  have "is_digit c" using show_dec_digits [of c n] s by simp
  moreover have "c \<noteq> CHR ''0''"
  proof -
    have "c = digit_char (hd (digits 10 n))" using s by (cases "digits 10 n") (auto simp: show_dec_def show_nat_def)
    moreover have "hd (digits 10 n) < 10" using digits_bound [of 10 "hd (digits 10 n)" n] by simp
    ultimately have "digit_of c \<noteq> 0" using digits_lead [of n] False by (simp add: digit_of_char)
    then show ?thesis by (auto simp: digit_of_def)
  qed
  ultimately have c: "\<not> is_space c" "c \<noteq> CHR ''-''" "c \<noteq> CHR ''+''" "c \<noteq> CHR ''0''"
    by (auto simp: is_digit_def is_space_def)
  have "strtol0 (show_dec n) = min 9223372036854775807 (int (read_digits 10 (show_dec n)))"
    using c unfolding s by (simp add: strtol0_def Let_def split: list.split)
  then show ?thesis by (simp add: read_digits_show min.commute)
qed

section \<open>Settings\<close>

text \<open>The settings of the two programs, the words that ask for them, and their effect.\<close>

datatype setting = Listen | SourceAddress string | SourcePort string | Window nat | Timeout nat | TunDevice string
  | LossUp string | LossDown string

fun setting_line :: "setting \<Rightarrow> option_line" where
  "setting_line Listen = Flag ''-l''"
| "setting_line (SourceAddress s) = Valued ''-a'' s"
| "setting_line (SourcePort s) = Valued ''-s'' s"
| "setting_line (Window n) = Valued ''-w'' (show_dec n)"
| "setting_line (Timeout n) = Valued ''-t'' (show_dec n)"
| "setting_line (TunDevice s) = Valued ''-d'' s"
| "setting_line (LossUp s) = Valued ''-Lu'' s"
| "setting_line (LossDown s) = Valued ''-Ld'' s"

definition command_line :: "string \<Rightarrow> setting list \<Rightarrow> string \<Rightarrow> string \<Rightarrow> string list" where
  "command_line prog settings host port = prog # concat (map (option_words \<circ> setting_line) settings) @ [host, port]"

text \<open>\<open>LONG_MAX\<close>, at which \<open>strtol\<close> cuts a number off.\<close>

abbreviation LONG_MAX :: nat where "LONG_MAX \<equiv> 9223372036854775807"

fun ip_apply :: "(string \<Rightarrow> u16) \<Rightarrow> ip_config \<Rightarrow> setting \<Rightarrow> ip_config" where
  "ip_apply lossrate c Listen = c\<lparr>ic_listen := True\<rparr>"
| "ip_apply lossrate c (SourceAddress s) = c\<lparr>ic_source_address := s\<rparr>"
| "ip_apply lossrate c (SourcePort s) = c\<lparr>ic_source_port := s\<rparr>"
| "ip_apply lossrate c (Window n) = c\<lparr>ic_fsm := (ic_fsm c)\<lparr>recv_capacity := min n LONG_MAX\<rparr>\<rparr>"
| "ip_apply lossrate c (Timeout n) = c\<lparr>ic_fsm := (ic_fsm c)\<lparr>rt_timeout := of_nat (min n LONG_MAX)\<rparr>\<rparr>"
| "ip_apply lossrate c (TunDevice s) = c\<lparr>ic_tundev := Some s\<rparr>"
| "ip_apply lossrate c (LossUp s) = c\<lparr>ic_filt := (ic_filt c)\<lparr>loss_rate_up := lossrate s\<rparr>\<rparr>"
| "ip_apply lossrate c (LossDown s) = c\<lparr>ic_filt := (ic_filt c)\<lparr>loss_rate_dn := lossrate s\<rparr>\<rparr>"

fun udp_setting :: "setting \<Rightarrow> bool" where
  "udp_setting (SourceAddress _) = False"
| "udp_setting (SourcePort _) = False"
| "udp_setting (TunDevice _) = False"
| "udp_setting _ = True"

fun udp_apply :: "(string \<Rightarrow> u16) \<Rightarrow> udp_config \<Rightarrow> setting \<Rightarrow> udp_config" where
  "udp_apply lossrate c Listen = c\<lparr>uc_listen := True\<rparr>"
| "udp_apply lossrate c (Window n) = c\<lparr>uc_fsm := (uc_fsm c)\<lparr>recv_capacity := min n LONG_MAX\<rparr>\<rparr>"
| "udp_apply lossrate c (Timeout n) = c\<lparr>uc_fsm := (uc_fsm c)\<lparr>rt_timeout := of_nat (min n LONG_MAX)\<rparr>\<rparr>"
| "udp_apply lossrate c (LossUp s) = c\<lparr>uc_filt := (uc_filt c)\<lparr>loss_rate_up := lossrate s\<rparr>\<rparr>"
| "udp_apply lossrate c (LossDown s) = c\<lparr>uc_filt := (uc_filt c)\<lparr>loss_rate_dn := lossrate s\<rparr>\<rparr>"
| "udp_apply lossrate c _ = c"

lemma long_conversions: "long_to_size (int (min n LONG_MAX)) = min n LONG_MAX" "long_to_u16 (int m) = of_nat m"
proof -
  have "int (min n LONG_MAX) mod int SIZE_MOD = int (min n LONG_MAX)" by (rule mod_pos_pos_trivial) (simp_all add: SIZE_MOD_def)
  then show "long_to_size (int (min n LONG_MAX)) = min n LONG_MAX" by (simp only: long_to_size_def nat_int)
qed (simp add: long_to_u16_def)

lemma ip_option_setting: "option_apply (ip_option lossrate) c (setting_line s) = Some (ip_apply lossrate c s)"
  by (cases s) (simp_all add: ip_option_def strncmp_eq_def strtol0_show_dec long_conversions del: of_nat_min)

lemma udp_option_setting:
  "udp_setting s \<Longrightarrow> option_apply (udp_option lossrate) c (setting_line s) = Some (udp_apply lossrate c s)"
  by (cases s) (simp_all add: udp_option_def strncmp_eq_def strtol0_show_dec long_conversions del: of_nat_min)

lemma run_settings:
  assumes "\<And>s c. s \<in> set settings \<Longrightarrow> option_apply act c (setting_line s) = Some (app c s)"
  shows "run_steps (option_apply act) c (map setting_line settings) = Some (foldl app c settings)"
  using assms by (induction settings arbitrary: c) auto

lemma command_line_loop:
  fixes prog host port :: string
  assumes "\<And>s c. s \<in> set settings \<Longrightarrow> option_apply act c (setting_line s) = Some (app c s)"
  defines "argv \<equiv> command_line prog settings host port"
  shows "option_loop usage act argv 1 c = Inr (length argv - 2, foldl app c settings)"
    and "argv_at argv 0 = Inr prog" and "argv_at argv (length argv - 2) = Inr host"
    and "argv_at argv (length argv - 2 + 1) = Inr port" and "argv_at argv (length argv - 1) = Inr port"
proof -
  let ?ws = "concat (map option_words (map setting_line settings))"
  have argv: "argv = prog # ?ws @ [host, port]" by (simp add: argv_def command_line_def comp_def)
  have "stops_at act [host, port] (foldl app c settings)" by (simp add: stops_at_def)
  from option_loop_run [OF run_settings [OF assms(1)] this]
  show "option_loop usage act argv 1 c = Inr (length argv - 2, foldl app c settings)" by (simp add: argv)
  show "argv_at argv 0 = Inr prog" "argv_at argv (length argv - 2) = Inr host"
    "argv_at argv (length argv - 2 + 1) = Inr port" "argv_at argv (length argv - 1) = Inr port"
    using argv_at_append(2,3) [of "prog # ?ws"] by (simp_all add: argv)
qed

text \<open>
  The configuration of \<open>tcp_ipv4\<close> that a list of settings asks for: the last setting of a kind counts, and
  what is not set has its default. A number has the type of the field that it is stored in; one that is too
  large for a \<open>long\<close> is cut off there.
\<close>

definition ip_wanted :: "(string \<Rightarrow> u16) \<Rightarrow> u32 \<Rightarrow> setting list \<Rightarrow> address \<Rightarrow> address \<Rightarrow> ip_config" where
  "ip_wanted lossrate random settings source destination =
     \<lparr>ic_fsm = \<lparr>rt_timeout = last (1000 # [of_nat (min n LONG_MAX). Timeout n \<leftarrow> settings]),
               recv_capacity = last (64000 # [min n LONG_MAX. Window n \<leftarrow> settings]),
               send_capacity = 64000, fixed_isn = None\<rparr>,
      ic_filt = \<lparr>fa_source = source, fa_destination = destination,
                loss_rate_dn = last (0 # [lossrate r. LossDown r \<leftarrow> settings]),
                loss_rate_up = last (0 # [lossrate r. LossUp r \<leftarrow> settings])\<rparr>,
      ic_tundev = last (None # [Some d. TunDevice d \<leftarrow> settings]),
      ic_listen = (Listen \<in> set settings),
      ic_source_address = last (''169.254.144.9'' # [a. SourceAddress a \<leftarrow> settings]),
      ic_source_port = last (show_dec (unat random mod 65536) # [p. SourcePort p \<leftarrow> settings])\<rparr>"

lemma ip_apply_wanted:
  "foldl (ip_apply lossrate) (ip_config_new \<lparr>fa_source = a, fa_destination = b, loss_rate_dn = 0, loss_rate_up = 0\<rparr> random) settings =
     ip_wanted lossrate random settings a b"
proof (induction settings rule: rev_induct)
  case Nil
  show ?case by (simp add: ip_wanted_def ip_config_new_def tcp_config_default_def TIMEOUT_DFLT_def DEFAULT_CAPACITY_def
        LOCAL_ADDRESS_DFLT_def unsigned_ucast_eq take_bit_eq_mod)
next
  case (snoc s settings)
  then show ?case by (cases s) (simp_all add: ip_wanted_def)
qed

text \<open>
  C8: \<open>get_config\<close> of \<open>tcp_ipv4\<close> understands every command line: options in any order and number, with any
  text as their values and any decimal numbers, set exactly what they name, the last one of a kind counts, and
  the last two words are the host and the port, whatever they look like. A client gets the address of the host
  and the port as its destination and the address and port set for it as its source; a server gets the port
  on every address as its source, and port zero makes it exit. An exception means that an address does not
  resolve.
\<close>

theorem ipv4_command_line:
  "ip_get_config R lossrate random (command_line prog settings host port) =
     (case address_of_ip R ''0'' 0 of
        None \<Rightarrow> Inl Throws
      | Some zero \<Rightarrow>
          if Listen \<in> set settings then
            case address_of_host R ''0'' port of
              None \<Rightarrow> Inl Throws
            | Some source \<Rightarrow>
                (case addr_port R source of
                   None \<Rightarrow> Inl Throws
                 | Some p \<Rightarrow>
                     if p = 0 then Inl (Exits (ip_show_usage prog (Some ''ERROR: listen port cannot be zero in server mode.'')) 1)
                     else Inr (ip_wanted lossrate random settings source zero))
          else
            case (address_of_host R host port,
                  address_of_host R (last (''169.254.144.9'' # [a. SourceAddress a \<leftarrow> settings]))
                    (last (show_dec (unat random mod 65536) # [p. SourcePort p \<leftarrow> settings]))) of
              (Some destination, Some source) \<Rightarrow> Inr (ip_wanted lossrate random settings source destination)
            | _ \<Rightarrow> Inl Throws)"
proof (cases "address_of_ip R ''0'' 0")
  case None
  then show ?thesis by (simp add: ip_get_config_def fd_adapter_config_default_def)
next
  case (Some zero)
  let ?argv = "command_line prog settings host port" and ?c = "ip_wanted lossrate random settings zero zero"
  note l = command_line_loop [OF ip_option_setting, where settings = settings and prog = prog and host = host and port = port]
  have c: "ic_listen ?c = (Listen \<in> set settings)"
    "ic_source_address ?c = last (''169.254.144.9'' # [a. SourceAddress a \<leftarrow> settings])"
    "ic_source_port ?c = last (show_dec (unat random mod 65536) # [p. SourcePort p \<leftarrow> settings])"
    by (simp_all only: ip_wanted_def ip_config.simps)
  have upd: "?c\<lparr>ic_filt := (ic_filt ?c)\<lparr>fa_source := a\<rparr>\<rparr> = ip_wanted lossrate random settings a zero"
    "?c\<lparr>ic_filt := (ic_filt ?c)\<lparr>fa_source := a, fa_destination := b\<rparr>\<rparr> = ip_wanted lossrate random settings a b" for a b
    by (simp_all add: ip_wanted_def)
  have "ip_get_config R lossrate random ?argv = ip_positional R prog ?argv (length ?argv - 2) ?c"
    by (simp add: ip_get_config_def fd_adapter_config_default_def Some l(1) [simplified] l(2) ip_apply_wanted)
  then show ?thesis
    unfolding ip_positional_def l c upd
    by (simp add: Some split: option.split)
qed

lemma numeric_host [simp]:
  "address_of_host numeric_resolver host port = Some (inet_address (read_quad host) (of_nat (read_dec port)))"
  by (simp add: address_of_host_def address_resolve_def numeric_resolver_def address_of_sockaddr)

theorem ipv4_command_line_witness:
  "\<exists>c. ip_get_config numeric_resolver (\<lambda>_. 7) 0
       [''tcp_ipv4'', ''-w'', ''4096'', ''-d'', ''-l'', ''-t'', ''70000'', ''-s'', ''1440'', ''169.254.144.1'', ''80''] = Inr c \<and>
     recv_capacity (ic_fsm c) = 4096 \<and> rt_timeout (ic_fsm c) = 4464 \<and> ic_tundev c = Some ''-l'' \<and> \<not> ic_listen c \<and>
     addr_port numeric_resolver (fa_source (ic_filt c)) = Some 1440 \<and>
     addr_port numeric_resolver (fa_destination (ic_filt c)) = Some 80"
proof -
  let ?ss = "[Window 4096, TunDevice ''-l'', Timeout 70000, SourcePort ''1440'']"
  have w: "command_line ''tcp_ipv4'' ?ss ''169.254.144.1'' ''80'' =
      [''tcp_ipv4'', ''-w'', ''4096'', ''-d'', ''-l'', ''-t'', ''70000'', ''-s'', ''1440'', ''169.254.144.1'', ''80'']"
    by (simp add: command_line_def show_dec_def show_nat_def digits.simps digit_char_def)
  from ipv4_command_line [of numeric_resolver "\<lambda>_. 7" 0 "''tcp_ipv4''" ?ss "''169.254.144.1''" "''80''"]
  show ?thesis unfolding w
    by (simp add: address_of_zero [OF numeric_resolver_ok] addr_port_inet [OF numeric_resolver_ok] ip_wanted_def
        read_dec_def digit_val_def)
qed

text \<open>
  The same for \<open>get_config\<close> of \<open>tcp_udp\<close>, which has no source address, source port and device.
\<close>

theorem udp_command_line:
  assumes "\<forall>s \<in> set settings. udp_setting s"
  shows "udp_get_config R lossrate (command_line prog settings host port) =
    (case address_of_ip R ''0'' 0 of
       None \<Rightarrow> Inl Throws
     | Some zero \<Rightarrow>
         let c = foldl (udp_apply lossrate) \<lparr>uc_fsm = tcp_config_default,
               uc_filt = \<lparr>fa_source = zero, fa_destination = zero, loss_rate_dn = 0, loss_rate_up = 0\<rparr>, uc_listen = False\<rparr> settings
         in case if uc_listen c then address_of_host R ''0'' port else address_of_host R host port of
              None \<Rightarrow> Inl Throws
            | Some a \<Rightarrow> Inr (if uc_listen c then c\<lparr>uc_filt := (uc_filt c)\<lparr>fa_source := a\<rparr>\<rparr>
                else c\<lparr>uc_filt := (uc_filt c)\<lparr>fa_destination := a\<rparr>\<rparr>))"
proof -
  have "s \<in> set settings \<Longrightarrow> option_apply (udp_option lossrate) c (setting_line s) = Some (udp_apply lossrate c s)" for s c
    using assms udp_option_setting by blast
  note l = command_line_loop [OF this, where settings = settings and prog = prog and host = host and port = port]
  show ?thesis
  proof (cases "address_of_ip R ''0'' 0")
    case None
    then show ?thesis by (simp add: udp_get_config_def fd_adapter_config_default_def)
  next
    case (Some zero)
    then show ?thesis
      by (simp add: udp_get_config_def fd_adapter_config_default_def l(1) [simplified] l(2)
          udp_positional_def l(3) l(5) [simplified] Let_def split: option.split)
  qed
qed

section \<open>Every command line\<close>

text \<open>The words of \<open>tcp_ipv4\<close> that take an argument; of \<open>-Lu\<close> and \<open>-Ld\<close> only three characters are compared.\<close>

definition takes_argument :: "string \<Rightarrow> bool" where
  "takes_argument w \<longleftrightarrow> w \<in> {''-a'', ''-s'', ''-w'', ''-t'', ''-d''} \<or> take 3 w \<in> {''-Lu'', ''-Ld''}"

lemma strncmp_eq_two:
  assumes "CHR 0x00 \<notin> set w" and "a \<noteq> CHR 0x00" and "b \<noteq> CHR 0x00"
  shows "strncmp_eq [a, b] w 3 \<longleftrightarrow> w = [a, b]"
  using assms by (cases w; cases "tl w"; cases "tl (tl w)") (auto simp: strncmp_eq_def)

lemma strncmp_eq_three:
  assumes "b \<noteq> CHR 0x00" and "c \<noteq> CHR 0x00"
  shows "strncmp_eq [a, b, c] w 3 \<longleftrightarrow> take 3 w = [a, b, c]"
  using assms by (cases w; cases "tl w"; cases "tl (tl w)") (auto simp: strncmp_eq_def)

lemma ip_option_kind:
  assumes "CHR 0x00 \<notin> set w"
  shows "case ip_option lossrate w c of
      OptFlag c' \<Rightarrow> w = ''-l'' \<and> ic_listen c'
    | OptArg err f \<Rightarrow> w \<noteq> ''-l'' \<and> takes_argument w \<and> (\<forall>v. ic_listen (f v) = ic_listen c) \<and>
        err = ''ERROR: '' @ (if w = ''-d'' then ''-t'' else if take 2 w = ''-L'' then ''-Lu'' else w) @ '' requires one argument.''
    | OptHelp \<Rightarrow> w = ''-h''
    | OptUnknown \<Rightarrow> \<not> takes_argument w \<and> w \<notin> {''-l'', ''-h''}"
  using assms unfolding ip_option_def takes_argument_def
  by (simp add: strncmp_eq_two strncmp_eq_three) (cases w; cases "tl w"; cases "tl (tl w)"; auto)

lemma ip_options_words:
  assumes "run_steps (option_apply (ip_option lossrate)) c opts = Some c'"
    and "\<forall>w \<in> set (concat (map option_words opts)). CHR 0x00 \<notin> set w"
  shows "(\<forall>opt \<in> set (map option_words opts). opt = [''-l''] \<or> (\<exists>w v. opt = [w, v] \<and> takes_argument w)) \<and>
    (ic_listen c' \<longleftrightarrow> ic_listen c \<or> [''-l''] \<in> set (map option_words opts))"
  using assms
proof (induction opts arbitrary: c)
  case Nil
  then show ?case by simp
next
  case (Cons opt opts)
  then obtain c1 where c1: "option_apply (ip_option lossrate) c opt = Some c1"
    "run_steps (option_apply (ip_option lossrate)) c1 opts = Some c'"
    by (auto simp: bind_eq_Some_conv)
  note IH = Cons.IH [OF c1(2)]
  show ?case
  proof (cases opt)
    case (Flag w)
    then show ?thesis using IH c1(1) Cons.prems(2) ip_option_kind [of w c lossrate] by (auto split: opt_action.splits)
  next
    case (Valued w v)
    then show ?thesis using IH c1(1) Cons.prems(2) ip_option_kind [of w c lossrate] by (auto split: opt_action.splits)
  qed
qed

lemma ip_positional_cases:
  fixes pre :: "string list"
  assumes "argv = pre @ [host, port]"
  shows "case ip_positional R argv0 argv (length pre) c of
      Inr c' \<Rightarrow> ic_listen c' = ic_listen c \<and>
        (if ic_listen c then address_of_host R ''0'' port = Some (fa_source (ic_filt c'))
         else address_of_host R host port = Some (fa_destination (ic_filt c')))
    | Inl (Exits out status) \<Rightarrow> ic_listen c \<and> status = 1 \<and>
        out = ip_show_usage argv0 (Some ''ERROR: listen port cannot be zero in server mode.'')
    | Inl Throws \<Rightarrow> \<exists>h p. address_of_host R h p \<bind> addr_port R = None
    | Inl PastEnd \<Rightarrow> False"
proof -
  have w: "argv_at argv (length pre) = Inr host" "argv_at argv (Suc (length pre)) = Inr port" by (simp_all add: assms)
  have fails: "\<exists>h p. address_of_host R h p \<bind> addr_port R = None" if "address_of_host R a b \<bind> addr_port R = None" for a b
    using that by blast
  show ?thesis
  proof (cases "ic_listen c")
    case True
    then show ?thesis
    proof (cases "address_of_host R ''0'' port")
      case (Some a)
      then show ?thesis using True fails [of "''0''" port] by (cases "addr_port R a") (simp_all add: ip_positional_def w)
    qed (use fails [of "''0''" port] in \<open>simp add: ip_positional_def w\<close>)
  next
    case False
    let ?src = "address_of_host R (ic_source_address c) (ic_source_port c)"
    show ?thesis
    proof (cases "address_of_host R host port")
      case (Some a)
      then show ?thesis using False fails [of "ic_source_address c" "ic_source_port c"]
        by (cases ?src) (simp_all add: ip_positional_def w)
    qed (use False fails [of host port] in \<open>simp add: ip_positional_def w\<close>)
  qed
qed

text \<open>How \<open>get_config\<close> goes on after the options that it has taken.\<close>

definition ip_goes_on :: "resolver \<Rightarrow> (string \<Rightarrow> u16) \<Rightarrow> string list \<Rightarrow> string list \<Rightarrow> ip_config \<Rightarrow> ending + ip_config" where
  "ip_goes_on R lossrate argv rest c =
     (if length rest = 2 then ip_positional R (hd argv) argv (length argv - 2) c
      else case ip_option lossrate (hd rest) c of
          OptArg err f \<Rightarrow> Inl (Exits (ip_show_usage (hd argv) (Some err)) 1)
        | OptHelp \<Rightarrow> Inl (Exits (ip_show_usage (hd argv) None) 0)
        | _ \<Rightarrow> Inl (Exits (ip_show_usage (hd argv) (Some (''ERROR: unrecognized option '' @ hd rest))) 1))"

lemma ip_get_config_options:
  assumes "3 \<le> length argv" and "\<forall>w \<in> set argv. CHR 0x00 \<notin> set w" and "address_of_ip R ''0'' 0 = Some zero"
  obtains opts rest c where "tl argv = concat opts @ rest"
    "\<forall>opt \<in> set opts. opt = [''-l''] \<or> (\<exists>w v. opt = [w, v] \<and> takes_argument w)"
    "ic_listen c \<longleftrightarrow> [''-l''] \<in> set opts" "stops_at (ip_option lossrate) rest c"
    "ip_get_config R lossrate random argv = ip_goes_on R lossrate argv rest c"
proof -
  obtain prog ws where argv: "argv = prog # ws" "2 \<le> length ws" using assms(1) by (cases argv) auto
  let ?c = "ip_config_new \<lparr>fa_source = zero, fa_destination = zero, loss_rate_dn = 0, loss_rate_up = 0\<rparr> random"
  obtain opts rest c where split: "ws = concat (map option_words opts) @ rest"
    "run_steps (option_apply (ip_option lossrate)) ?c opts = Some c" "stops_at (ip_option lossrate) rest c"
    using options_split [OF argv(2), of "ip_option lossrate" ?c] by (elim exE conjE)
  have get: "ip_get_config R lossrate random (prog # ws) =
      and_then (option_loop (ip_show_usage prog) (ip_option lossrate) (prog # ws) 1 ?c) (\<lambda>(cur, c). ip_positional R prog (prog # ws) cur c)"
    using assms(3) by (simp add: ip_get_config_def fd_adapter_config_default_def)
  have "ip_get_config R lossrate random argv = ip_goes_on R lossrate argv rest c"
    using option_loop_run [OF split(2,3), of "ip_show_usage prog" prog, folded split(1)]
    unfolding argv(1) get by (simp add: ip_goes_on_def split(1) split: opt_action.split)
  then show thesis
    using that [of "map option_words opts" rest c] ip_options_words [OF split(2)] split(3) assms(2)
    by (simp add: argv(1) split(1) ip_config_new_def)
qed

lemma ip_goes_on_accepted:
  assumes "tl argv = pre @ [host, port]"
  shows "case ip_goes_on R lossrate argv [host, port] c of
      Inr c' \<Rightarrow> ic_listen c' = ic_listen c \<and>
        (if ic_listen c' then address_of_host R ''0'' port = Some (fa_source (ic_filt c'))
         else address_of_host R host port = Some (fa_destination (ic_filt c')))
    | Inl (Exits out status) \<Rightarrow> ic_listen c \<and> status = 1 \<and>
        out = ip_show_usage (hd argv) (Some ''ERROR: listen port cannot be zero in server mode.'')
    | Inl Throws \<Rightarrow> \<exists>h p. address_of_host R h p \<bind> addr_port R = None
    | Inl PastEnd \<Rightarrow> False"
proof -
  have argv: "argv = (hd argv # pre) @ [host, port]" using assms by (cases argv) auto
  then have "length argv - 2 = length (hd argv # pre)" by (metis add_diff_cancel_right' length_append length_Cons list.size(3) numeral_2_eq_2)
  then have "ip_goes_on R lossrate argv [host, port] c = ip_positional R (hd argv) argv (length (hd argv # pre)) c"
    by (simp add: ip_goes_on_def)
  with ip_positional_cases [OF argv, where R = R and c = c and ?argv0.0 = "hd argv"] show ?thesis
    by (simp split: sum.splits ending.splits)
qed

lemma ip_goes_on_refused:
  assumes "stops_at (ip_option lossrate) rest c" and "length rest \<noteq> 2" and "CHR 0x00 \<notin> set (hd rest)"
  obtains (usage) ws where "rest = ''-h'' # ws" "2 \<le> length ws"
      "ip_goes_on R lossrate argv rest c = Inl (Exits (ip_show_usage (hd argv) None) 0)"
    | (unknown) w ws where "rest = w # ws" "2 \<le> length ws" "\<not> takes_argument w" "w \<notin> {''-l'', ''-h''}"
      "ip_goes_on R lossrate argv rest c = Inl (Exits (ip_show_usage (hd argv) (Some (''ERROR: unrecognized option '' @ w))) 1)"
    | (short) w host port where "rest = [w, host, port]" "takes_argument w"
      "ip_goes_on R lossrate argv rest c = Inl (Exits (ip_show_usage (hd argv) (Some (''ERROR: '' @
        (if w = ''-d'' then ''-t'' else if take 2 w = ''-L'' then ''-Lu'' else w) @ '' requires one argument.''))) 1)"
proof -
  obtain w ws where rest: "rest = w # ws" "2 \<le> length ws" using assms(1,2) by (cases rest) (auto simp: stops_at_def)
  note kind = ip_option_kind [OF assms(3), of c lossrate]
  show thesis
  proof (cases "ip_option lossrate w c")
    case (OptFlag c1)
    with assms(1,2) rest show ?thesis by (simp add: stops_at_def)
  next
    case (OptArg err f)
    with assms(1,2) rest have "length ws = 2" by (simp add: stops_at_def)
    then obtain host port where "ws = [host, port]" by (cases ws; cases "tl ws") auto
    then show ?thesis using short [of w host port] kind OptArg rest by (simp add: ip_goes_on_def)
  next
    case OptHelp
    then show ?thesis using usage [of ws] kind rest assms(2) by (simp add: ip_goes_on_def)
  next
    case OptUnknown
    then show ?thesis using unknown [of w ws] kind rest assms(2) by (simp add: ip_goes_on_def)
  qed
qed

text \<open>
  C9: On every command line with at least a host and a port, \<open>get_config\<close> of \<open>tcp_ipv4\<close> takes the options
  that stand before, \<open>-l\<close> and the words with an argument, until two words are left or something else begins.
  If two words are left they are the host and the port. Otherwise the program prints its usage and exits:
  with status 0 on \<open>-h\<close>, and with status 1 and a message on an unknown word, which is repeated, and on a word
  whose argument would leave less than host and port. It never uses a word past the end.
\<close>

theorem options_exact:
  assumes "3 \<le> length argv" and "\<forall>w \<in> set argv. CHR 0x00 \<notin> set w" and "address_of_ip R ''0'' 0 = Some zero"
  shows "\<exists>opts rest. tl argv = concat opts @ rest \<and>
    (\<forall>opt \<in> set opts. opt = [''-l''] \<or> (\<exists>w v. opt = [w, v] \<and> takes_argument w)) \<and>
    ((\<exists>host port. rest = [host, port] \<and>
        (case ip_get_config R lossrate random argv of
           Inr c \<Rightarrow> ic_listen c = ([''-l''] \<in> set opts) \<and>
             (if ic_listen c then address_of_host R ''0'' port = Some (fa_source (ic_filt c))
              else address_of_host R host port = Some (fa_destination (ic_filt c)))
         | Inl (Exits out status) \<Rightarrow> [''-l''] \<in> set opts \<and> status = 1 \<and>
             out = ip_show_usage (hd argv) (Some ''ERROR: listen port cannot be zero in server mode.'')
         | Inl Throws \<Rightarrow> \<exists>h p. address_of_host R h p \<bind> addr_port R = None
         | Inl PastEnd \<Rightarrow> False)) \<or>
     (\<exists>ws. rest = ''-h'' # ws \<and> 2 \<le> length ws \<and>
        ip_get_config R lossrate random argv = Inl (Exits (ip_show_usage (hd argv) None) 0)) \<or>
     (\<exists>w ws. rest = w # ws \<and> 2 \<le> length ws \<and> \<not> takes_argument w \<and> w \<notin> {''-l'', ''-h''} \<and>
        ip_get_config R lossrate random argv = Inl (Exits (ip_show_usage (hd argv) (Some (''ERROR: unrecognized option '' @ w))) 1)) \<or>
     (\<exists>w host port. rest = [w, host, port] \<and> takes_argument w \<and>
        ip_get_config R lossrate random argv = Inl (Exits (ip_show_usage (hd argv) (Some (''ERROR: '' @
          (if w = ''-d'' then ''-t'' else if take 2 w = ''-L'' then ''-Lu'' else w) @ '' requires one argument.''))) 1)))"
proof -
  let ?get = "ip_get_config R lossrate random argv"
  obtain opts rest c where o: "tl argv = concat opts @ rest"
    "\<forall>opt \<in> set opts. opt = [''-l''] \<or> (\<exists>w v. opt = [w, v] \<and> takes_argument w)"
    "ic_listen c \<longleftrightarrow> [''-l''] \<in> set opts" "stops_at (ip_option lossrate) rest c"
    and get: "?get = ip_goes_on R lossrate argv rest c"
    by (rule ip_get_config_options [OF assms])
  show ?thesis
  proof (cases "length rest = 2")
    case True
    then obtain host port where rest: "rest = [host, port]" by (cases rest; cases "tl rest") auto
    note ip_goes_on_accepted [OF o(1) [unfolded rest], of c R lossrate, folded rest, folded get, unfolded o(3)]
    then show ?thesis
      by (intro exI [of _ opts] exI [of _ rest] conjI o(1,2) disjI1) (rule exI [of _ host], rule exI [of _ port], rule conjI [OF rest])
  next
    case False
    have "hd rest \<in> set argv" using o(1,4) by (cases argv; cases rest) (auto simp: stops_at_def)
    then have "CHR 0x00 \<notin> set (hd rest)" using assms(2) by blast
    from o(4) False this show ?thesis
    proof (cases rule: ip_goes_on_refused [where R = R and argv = argv])
      case usage
      with o(1,2) show ?thesis unfolding get [symmetric] by blast
    next
      case unknown
      with o(1,2) show ?thesis unfolding get [symmetric] by blast
    next
      case short
      with o(1,2) show ?thesis unfolding get [symmetric] by blast
    qed
  qed
qed

theorem options_exact_witness:
  "ip_get_config numeric_resolver (\<lambda>_. 0) 0 [''tcp_ipv4'', ''-d'', ''host'', ''80''] =
     Inl (Exits (ip_show_usage ''tcp_ipv4'' (Some ''ERROR: -t requires one argument.'')) 1)"
proof -
  let ?argv = "[''tcp_ipv4'', ''-d'', ''host'', ''80'']"
  have "3 \<le> length ?argv" "\<forall>w \<in> set ?argv. CHR 0x00 \<notin> set w"
    "address_of_ip numeric_resolver ''0'' 0 = Some (inet_address 0 0)"
    by (simp_all add: address_of_zero [OF numeric_resolver_ok])
  from options_exact [OF this, of "\<lambda>_. 0" 0] show ?thesis
  proof (elim exE conjE, goal_cases)
    case (1 opts rest)
    show ?thesis
    proof (cases opts)
      case Nil
      with 1(1) have "rest = [''-d'', ''host'', ''80'']" by simp
      then show ?thesis using 1(3) by (simp add: takes_argument_def)
    next
      case (Cons opt opts')
      with 1(1,2) have "concat opts' @ rest = [''80'']" by auto
      then have "length rest < 2" by (cases "concat opts'") auto
      then show ?thesis using 1(3) by auto
    qed
  qed
qed

end
