(* ===== verification/Packet_Dump.thy ===== *)
theory Packet_Dump
  imports Command_Line File_Descriptor
begin

text \<open>
  The two programs that print packets: \<open>apps/udp_tcpdump.cc\<close>, which captures UDP datagrams and shows the
  TCP segments in them, and \<open>apps/tun.cc\<close>, which shows what arrives on a TUN device. The capture library
  is a parameter, the record \<open>capture\<close>, and so is \<open>inet_ntop\<close>. A packet is the list of its captured
  bytes; \<^const>\<open>None\<close> is an access outside of it, an exception, or a loop that does not end. What goes to
  \<open>cerr\<close> is kept only in the reports on single packets.
\<close>

unbundle bit_operations_syntax

section \<open>The command line of \<open>udp_tcpdump\<close>\<close>

definition dump_show_usage :: "string \<Rightarrow> string option \<Rightarrow> string" where
  "dump_show_usage arg0 errmsg =
     ''Usage: '' @ arg0 @ '' [-i <intf>] [-F <file>] [-h|--help] <expression>\<newline>\<newline>'' @
     ''  -i <intf>    only capture packets from <intf> (default: all)\<newline>\<newline>'' @
     ''  -F <file>    reads in a filter expression from <file>\<newline>'' @
     ''               <expression> is ignored if -F is supplied.\<newline>\<newline>'' @
     ''  -h, --help   show this message\<newline>\<newline>'' @
     ''  <expression> a filter expression in pcap-filter(7) syntax\<newline>'' @
     (case errmsg of None \<Rightarrow> [] | Some m \<Rightarrow> ''\<newline>'' @ m) @ ''\<newline>''"

definition check_arg :: "nat \<Rightarrow> nat \<Rightarrow> bool" where
  "check_arg argc cur \<longleftrightarrow> \<not> cur + 1 \<ge> argc"

function parse_arguments :: "string list \<Rightarrow> nat \<Rightarrow> string option \<Rightarrow> ending + (nat \<times> string option)" where
  "parse_arguments argv cur dev =
     (if cur < length argv then
        and_then (argv_at argv cur) (\<lambda>arg.
          if strncmp_eq ''-i'' arg 3 then
            if \<not> check_arg (length argv) cur
            then and_then (argv_at argv 0) (\<lambda>arg0. Inl (Exits (dump_show_usage arg0 (Some ''ERROR: -i requires an argument'')) 1))
            else and_then (argv_at argv (cur + 1)) (\<lambda>v. parse_arguments argv (cur + 2) (Some v))
          else if strncmp_eq ''-h'' arg 3 \<or> strncmp_eq ''--help'' arg 7
          then and_then (argv_at argv 0) (\<lambda>arg0. Inl (Exits (dump_show_usage arg0 None) 0))
          else Inr (cur, dev))
      else Inr (cur, dev))"
  by pat_completeness auto
termination
  by (relation "measure (\<lambda>(argv, cur, dev). length argv - cur)") auto

declare parse_arguments.simps [simp del]

section \<open>IP packets\<close>

text \<open>Reading one byte, and a block of bytes, of a packet.\<close>

definition octet :: "bytes \<Rightarrow> nat \<Rightarrow> byte option" where
  "octet data i = (if i < length data then Some (data ! i) else None)"

definition octets :: "bytes \<Rightarrow> nat \<Rightarrow> nat \<Rightarrow> bytes option" where
  "octets data i n = (if i + n \<le> length data then Some (take n (drop i data)) else None)"

text \<open>\<open>inet_ntop\<close> for the two families; it may fail.\<close>

record ntop =
  ntop4 :: "bytes \<Rightarrow> string option"
  ntop6 :: "bytes \<Rightarrow> string option"

definition inet4_addr :: "ntop \<Rightarrow> bytes \<Rightarrow> nat \<Rightarrow> string option" where
  "inet4_addr T data i = map_option (\<lambda>a. case ntop4 T a of None \<Rightarrow> ''unknown'' | Some s \<Rightarrow> s) (octets data i 4)"

definition inet6_addr :: "ntop \<Rightarrow> bytes \<Rightarrow> nat \<Rightarrow> string option" where
  "inet6_addr T data i = map_option (\<lambda>a. case ntop6 T a of None \<Rightarrow> ''unknown'' | Some s \<Rightarrow> s) (octets data i 16)"

text \<open>
  The loop over the extension headers of IPv6; \<^const>\<open>Inl\<close> is the result \<open>-1\<close> with what was printed on
  \<open>cerr\<close>.
\<close>

function skip_extensions :: "bytes \<Rightarrow> byte \<Rightarrow> nat \<Rightarrow> (string + nat) option" where
  "skip_extensions data nxt data_offset =
     (if nxt \<noteq> 0x11 then
        if nxt \<noteq> 0 \<and> nxt \<noteq> 43 \<and> nxt \<noteq> 60 then Some (Inl ''Not UDP or fragmented; '')
        else octet data data_offset \<bind> (\<lambda>nxt. octet data (data_offset + 1) \<bind> (\<lambda>n.
          let data_offset = data_offset + 8 * (1 + unat n)
          in if length data < data_offset + 2 then Some (Inl []) else skip_extensions data nxt data_offset))
      else Some (Inr data_offset))"
  by pat_completeness auto
termination
  by (relation "measure (\<lambda>(data, nxt, off). length data - off)") auto

declare skip_extensions.simps [simp del]

definition process_ipv4_ipv6 :: "ntop \<Rightarrow> bytes \<Rightarrow> (string + (nat \<times> string \<times> string)) option" where
  "process_ipv4_ipv6 T data =
     (if length data < 1 then Some (Inl [])
      else do {
        b0 \<leftarrow> octet data 0;
        let pt = b0 AND 0xf0;
        if pt = 0x40 then do {
          let data_offset = unat (b0 AND 0x0f) * 4;
          if length data < data_offset then Some (Inl []) else do {
            proto \<leftarrow> octet data 9;
            if proto \<noteq> 0x11 then Some (Inl ''Not UDP; '') else do {
              src \<leftarrow> inet4_addr T data 12;
              dst \<leftarrow> inet4_addr T data 16;
              Some (Inr (data_offset + 8, src, dst))
            }
          }
        }
        else if pt = 0x60 then
          if length data < 42 then Some (Inl []) else do {
            nxt \<leftarrow> octet data 6;
            r \<leftarrow> skip_extensions data nxt 40;
            case r of
              Inl msg \<Rightarrow> Some (Inl msg)
            | Inr data_offset \<Rightarrow> do {
                src \<leftarrow> inet6_addr T data 8;
                dst \<leftarrow> inet6_addr T data 24;
                Some (Inr (data_offset + 8, src, dst))
              }
          }
        else Some (Inl [])
      })"

section \<open>Link types\<close>

text \<open>The link types that the program tells apart, under the names of the capture library.\<close>

datatype dlt = DLT_NULL | DLT_EN10MB | DLT_LINUX_SLL | DLT_LINUX_SLL2 | DLT_RAW | DLT_OTHER int

datatype link = LinkOff nat | LinkSkip string | LinkGiveUp

definition link_skip :: "bytes \<Rightarrow> nat \<Rightarrow> nat \<Rightarrow> (byte \<Rightarrow> byte \<Rightarrow> bool) \<Rightarrow> link option" where
  "link_skip pkt hdr_off i is_ip =
     (if length pkt < hdr_off then Some (LinkSkip ''[INFO] Skipping malformed packet.\<newline>'')
      else do {
        hi \<leftarrow> octet pkt i;
        lo \<leftarrow> octet pkt (i + 1);
        Some (if is_ip hi lo then LinkOff hdr_off else LinkSkip ''[INFO] Skipping non-IP packet.\<newline>'')
      })"

definition ether_ip :: "byte \<Rightarrow> byte \<Rightarrow> bool" where
  "ether_ip hi lo = (let pt = push_bit 8 (ucast hi) OR ucast lo :: u16 in pt = 0x0800 \<or> pt = 0x86dd)"

definition link_header :: "dlt \<Rightarrow> bytes \<Rightarrow> link option" where
  "link_header dl_type pkt =
     (case dl_type of
        DLT_NULL \<Rightarrow>
          if length pkt < 4 then Some (LinkSkip ''[INFO] Skipping malformed packet.\<newline>'')
          else octet pkt 3 \<bind> (\<lambda>pt.
            Some (if pt \<noteq> 2 \<and> pt \<noteq> 24 \<and> pt \<noteq> 28 \<and> pt \<noteq> 30 then LinkSkip ''[INFO] Skipping non-IP packet.\<newline>''
                  else LinkOff 4))
      | DLT_EN10MB \<Rightarrow> link_skip pkt 14 12 ether_ip
      | DLT_LINUX_SLL \<Rightarrow> link_skip pkt 16 14 ether_ip
      | DLT_LINUX_SLL2 \<Rightarrow> link_skip pkt 20 0 ether_ip
      | DLT_RAW \<Rightarrow> Some (LinkOff 0)
      | DLT_OTHER _ \<Rightarrow> Some LinkGiveUp)"

section \<open>One packet\<close>

definition dump_flags :: "tcp_header \<Rightarrow> string" where
  "dump_flags h = (if urg h then ''U'' else []) @ (if psh h then ''P'' else []) @ (if rst h then ''R'' else []) @
     (if syn h then ''S'' else []) @ (if fin h then ''F'' else []) @ (if ack h then ''.'' else [])"

definition dump_segment :: "string \<Rightarrow> string \<Rightarrow> bool \<Rightarrow> tcp_segment \<Rightarrow> size_t \<Rightarrow> string" where
  "dump_segment src dst correct seg payload_len =
     (let h = header seg; seqlen = of_nat (length_in_sequence_space seg) :: u32
      in src @ '':'' @ show_dec (unat (sport h)) @ '' > '' @ dst @ '':'' @ show_dec (unat (dport h)) @ ''\<newline>    Flags ['' @
         dump_flags h @ ''] cksum 0x'' @ zero_pad 4 (show_hex (unat (cksum h))) @
         (if correct then '' (correct)'' else '' (incorrect!)'') @ '' seq '' @ show_dec (unat (raw_value (seqno h))) @
         (if seqlen > 0 then '':'' @ show_dec (unat (raw_value (wi_plus (seqno h) seqlen))) else []) @
         '' ack '' @ show_dec (unat (raw_value (ackno h))) @ '' win '' @ show_dec (unat (win h)) @
         '' length '' @ show_dec payload_len @ ''\<newline>'')"

datatype report = Shown string | Skipped string | GaveUp

definition dump_packet :: "ntop \<Rightarrow> dlt \<Rightarrow> bytes \<Rightarrow> report option" where
  "dump_packet T dl_type pkt = link_header dl_type pkt \<bind> (\<lambda>l. case l of
     LinkSkip msg \<Rightarrow> Some (Skipped msg)
   | LinkGiveUp \<Rightarrow> Some GaveUp
   | LinkOff hdr_off \<Rightarrow> process_ipv4_ipv6 T (drop hdr_off pkt) \<bind> (\<lambda>r. case r of
       Inl msg \<Rightarrow> Some (Skipped (msg @ ''Error parsing IPv4/IPv6 packet. Skipping.\<newline>''))
     | Inr (start_off, src, dst) \<Rightarrow> do {
         let payload_off = hdr_off + start_off;
         let payload_len = sz_sub (length pkt) payload_off;
         payload \<leftarrow> octets pkt payload_off payload_len;
         (res, seg) \<leftarrow> tcp_segment_parse tcp_segment_default (buffer_of payload) 0;
         Some (Shown (
           (if parse_code res > parse_code BadChecksum
            then ''(did not recognize TCP header) src: '' @ src @ '' dst: '' @ dst @ ''\<newline>''
            else dump_segment src dst (res = NoError) seg payload_len) @ hexdump payload 8))
       }))"

section \<open>\<open>main\<close> of \<open>udp_tcpdump\<close>\<close>

record 'w capture =
  pc_open_live :: "string option \<Rightarrow> 'w \<Rightarrow> string + 'w"
  pc_datalink :: "'w \<Rightarrow> dlt"
  pc_description :: "dlt \<Rightarrow> string"
  pc_compile :: "string \<Rightarrow> 'w \<Rightarrow> int \<times> 'w"
  pc_setfilter :: "'w \<Rightarrow> int \<times> 'w"
  pc_geterr :: "'w \<Rightarrow> string"
  pc_next_ex :: "'w \<Rightarrow> int \<times> bytes \<times> 'w"

text \<open>
  The loop over the packets, with what has been printed and the exit status. After an error the program
  asks a handle that it has closed for the message, which is undefined.
\<close>

partial_function (option) capture_loop :: "'w capture \<Rightarrow> ntop \<Rightarrow> dlt \<Rightarrow> string \<Rightarrow> 'w \<Rightarrow> (string \<times> nat) option" where
  "capture_loop C T dl_type out w =
     (let (next_ret, pkt, w) = pc_next_ex C w
      in if next_ret \<ge> 0 then
           if next_ret = 0 then capture_loop C T dl_type out w
           else dump_packet T dl_type pkt \<bind> (\<lambda>r. case r of
                  Skipped msg \<Rightarrow> capture_loop C T dl_type out w
                | Shown s \<Rightarrow> capture_loop C T dl_type (out @ s) w
                | GaveUp \<Rightarrow> Some (out, 1))
         else if next_ret = - 1 then None
         else Some (out, 0))"

definition filter_expression :: "string list \<Rightarrow> nat \<Rightarrow> string" where
  "filter_expression argv exp_start = concat (map (\<lambda>a. a @ '' '') (drop exp_start argv))"

definition udp_tcpdump :: "'w capture \<Rightarrow> ntop \<Rightarrow> string list \<Rightarrow> 'w \<Rightarrow> (string \<times> nat) option" where
  "udp_tcpdump C T argv w =
     (case parse_arguments argv 1 None of
        Inl (Exits out status) \<Rightarrow> Some (out, status)
      | Inl _ \<Rightarrow> None
      | Inr (exp_start, dev) \<Rightarrow>
          let out = (case dev of Some d \<Rightarrow> ''Capturing on interface '' @ d | None \<Rightarrow> ''Capturing on all interfaces'')
          in case pc_open_live C dev w of
               Inl errbuf \<Rightarrow> Some (out @ ''\<newline>Error initiating capture: '' @ errbuf @ ''\<newline>'', 1)
             | Inr w \<Rightarrow>
                 let dlt = pc_datalink C w
                 in case dlt of
                      DLT_OTHER _ \<Rightarrow> Some (out @ ''\<newline>Error: unsupported datalink type '' @ pc_description C dlt @ ''\<newline>'', 1)
                    | _ \<Rightarrow>
                        let out = out @ '' (type: '' @ pc_description C dlt @ '')\<newline>'';
                            expr = filter_expression argv exp_start;
                            out = out @ ''Using filter expression: '' @ expr @ ''\<newline>'';
                            (ret, w) = pc_compile C expr w
                        in if ret \<noteq> 0 then Some (out @ ''Error compiling filter expression: '' @ pc_geterr C w @ ''\<newline>'', 1)
                           else let (ret, w) = pc_setfilter C w
                                in if ret \<noteq> 0
                                   then Some (out @ ''Error configuring packet filter: '' @ pc_geterr C w @ ''\<newline>'', 1)
                                   else capture_loop C T dlt out w)"

section \<open>\<open>tun\<close>\<close>

text \<open>What the body of the loop of \<open>main\<close> prints for one datagram.\<close>

definition tun_report :: "bytes \<Rightarrow> string option" where
  "tun_report buffer = do {
     let out = ''\<newline>\<newline>***\<newline>*** Got packet:\<newline>***\<newline>'' @ hexdump buffer 0 @ ''attempting to parse as ipv4 datagram... '';
     (res, ip_dgram) \<leftarrow> ipv4_datagram_parse ipv4_datagram_default (buffer_of buffer);
     let h = ip_header ip_dgram;
     if res \<noteq> NoError then Some (out @ ''failed.\<newline>'') else do {
       let out = out @ ''success! totlen='' @ show_dec (unat (ip_len h)) @ '', IPv4 header contents:\<newline>'' @ ipv4_header_to_string h;
       if ip_proto h \<noteq> PROTO_TCP then Some (out @ ''\<newline>Not TCP, skipping.\<newline>'') else do {
         let out = out @ ''\<newline>Attempting to parse as a TCP segment... '';
         b \<leftarrow> bl_to_buffer (ip_payload ip_dgram);
         (res, tcp_seg) \<leftarrow> tcp_segment_parse tcp_segment_default b (pseudo_cksum h);
         if res \<noteq> NoError then Some (out @ ''failed.\<newline>'')
         else Some (out @ ''success! payload len='' @ show_dec (buf_size (payload tcp_seg)) @ '', TCP header contents:\<newline>'' @
                tcp_header_to_string (header tcp_seg) @ ''\<newline>'')
       }
     }
   }"

text \<open>The loop ends only by an exception, which \<open>main\<close> turns into a message, left out here, and a
  failure: the result is the text printed before, or \<^const>\<open>None\<close> if the loop does not end.\<close>

partial_function (option) tun_loop :: "'w os \<Rightarrow> nat \<Rightarrow> string \<Rightarrow> 'w fd_state \<Rightarrow> (string \<times> 'w fd_state) option" where
  "tun_loop os tun out s =
     (case fd_read os tun (SIZE_MOD - 1) s of
        None \<Rightarrow> Some (out, s)
      | Some (buffer, s') \<Rightarrow>
          (case tun_report buffer of
             None \<Rightarrow> Some (out, s')
           | Some t \<Rightarrow> tun_loop os tun (out @ t) s'))"

definition tun_main :: "'w os \<Rightarrow> 'w fd_state \<Rightarrow> (string \<times> nat) option" where
  "tun_main os s =
     (case tun_new os ''tun144'' s of
        None \<Rightarrow> Some ([], 1)
      | Some (tun, s) \<Rightarrow> map_option (\<lambda>(out, s). (out, 1)) (tun_loop os tun [] s))"

section \<open>The layout of a hexdump\<close>

text \<open>
  What \<open>hexdump\<close> is meant to print: lines of sixteen bytes, each with the indentation, the offset in eight
  digits, the bytes in pairs and padded to the width of a full line, and the characters, where a byte that
  cannot be printed is a dot; an empty line follows.
\<close>

definition hex2 :: "byte \<Rightarrow> string" where
  "hex2 b = zero_pad 2 (show_hex (unat b))"

fun hex_pairs :: "bytes \<Rightarrow> string" where
  "hex_pairs (a # b # c # bs) = hex2 a @ hex2 b @ '' '' @ hex_pairs (c # bs)"
| "hex_pairs bs = concat (map hex2 bs)"

definition hex_line :: "nat \<Rightarrow> nat \<Rightarrow> bytes \<Rightarrow> string" where
  "hex_line indent off bs =
     replicate indent (CHR '' '') @ zero_pad 8 (show_hex off) @ '':    '' @
     hex_pairs bs @ replicate (39 - length (hex_pairs bs)) (CHR '' '') @ ''    '' @
     map (\<lambda>b. if 32 \<le> b \<and> b \<le> 126 then char_of (unat b) else CHR ''.'') bs @ ''\<newline>''"

fun hex_lines :: "nat \<Rightarrow> nat \<Rightarrow> bytes \<Rightarrow> string" where
  "hex_lines indent off bs =
     (if bs = [] then [] else hex_line indent off (take 16 bs) @ hex_lines indent (off + 16) (drop 16 bs))"

declare hex_lines.simps [simp del]

lemma hex2_length [simp]: "length (hex2 b) = 2"
proof -
  have "unat b < 256" using unsigned_less [of b, where 'a = nat] by simp
  then have "length (digits 16 (unat b)) = (if unat b < 16 then 1 else 2)"
    by (auto simp: digits.simps [of 16 "unat b"] digits.simps [of 16 "unat b div 16"])
  then show ?thesis by (simp add: hex2_def zero_pad_def show_hex_def show_nat_def)
qed

lemma hex_pairs_length: "bs \<noteq> [] \<Longrightarrow> length (hex_pairs bs) = 2 * length bs + (length bs - 1) div 2"
  by (induction bs rule: hex_pairs.induct) auto

fun hex_rest :: "nat \<Rightarrow> bytes \<Rightarrow> string" where
  "hex_rest r [] = []"
| "hex_rest r (b # bs) = (if r mod 2 = 0 then '' '' else []) @ hex2 b @ hex_rest (Suc r) bs"

lemma hex_rest_step: "hex_rest (Suc (Suc r)) bs = hex_rest r bs"
  by (induction bs arbitrary: r) simp_all

lemma hex_pairs_rest: "r mod 2 = 1 \<Longrightarrow> hex_pairs (b # bs) = hex2 b @ hex_rest r bs"
  by (induction "b # bs" arbitrary: b bs r rule: hex_pairs.induct) (auto simp: hex_rest_step mod_Suc)

lemma hexdump_in_line:
  assumes "0 < p mod 16" and "p mod 16 + length bs \<le> 16" and "ts_pos pc = length (ts_text pc)"
  shows "hexdump_loop ind bs p pc out =
    (p + length bs, \<lparr>ts_text = ts_text pc @ map (\<lambda>b. if 32 \<le> b \<and> b \<le> 126 then char_of (unat b) else CHR ''.'') bs,
      ts_pos = ts_pos pc + length bs\<rparr>, out @ hex_rest p bs)"
  using assms
proof (induction bs arbitrary: p pc out)
  case Nil
  then show ?case by simp
next
  case (Cons b bs)
  show ?case
  proof (cases bs)
    case Nil
    then show ?thesis using Cons.prems by (auto simp: Let_def ts_put_def is_print_def hex2_def)
  next
    case (Cons b' bs')
    then have "0 < Suc p mod 16" "Suc p mod 16 = Suc (p mod 16)" using Cons.prems by (auto simp: mod_Suc)
    with Cons.prems Cons.IH [of "Suc p"] show ?thesis by (auto simp: Let_def ts_put_def is_print_def hex2_def)
  qed
qed

lemma hexdump_line:
  assumes "p mod 16 = 0" and "bs \<noteq> []" and "length bs \<le> 16" and "p = 0 \<Longrightarrow> pc = ts_open '' ''"
  shows "hexdump_loop ind bs p pc out =
    (p + length bs, \<lparr>ts_text = map (\<lambda>b. if 32 \<le> b \<and> b \<le> 126 then char_of (unat b) else CHR ''.'') bs, ts_pos = length bs\<rparr>,
     (if p \<noteq> 0 then out @ ''    '' @ ts_text pc @ ''\<newline>'' else out) @ ind @ zero_pad 8 (show_hex p) @ '':    '' @ hex_pairs bs)"
proof -
  obtain b bs' where bs: "bs = b # bs'" using assms(2) by (cases bs) auto
  have p: "Suc p mod 16 = 1" "Suc p mod 2 = 1" using assms(1) by presburger+
  note l = hexdump_in_line [of "Suc p" bs' "\<lparr>ts_text = [if 32 \<le> b \<and> b \<le> 126 then char_of (unat b) else CHR ''.''], ts_pos = 1\<rparr>" ind]
  show ?thesis using l p assms unfolding bs hex_pairs_rest [OF p(2)]
    by (cases "p = 0"; cases "32 \<le> b \<and> b \<le> 126") (auto simp: Let_def ts_put_def ts_open_def is_print_def hex2_def)
qed

lemma hexdump_append:
  "hexdump_loop ind (xs @ ys) p pc out = (let (p, pc, out) = hexdump_loop ind xs p pc out in hexdump_loop ind ys p pc out)"
  by (induction xs arbitrary: p pc out) (simp_all add: Let_def)

text \<open>The end of a line, after \<open>p\<close> bytes: the padding, the characters and the newline.\<close>

definition line_end :: "nat \<times> text_stream \<times> string \<Rightarrow> string" where
  "line_end = (\<lambda>(p, pc, out). let print_rem = (16 - p mod 16) mod 16
     in out @ replicate (2 * print_rem + print_rem div 2 + 4) (CHR '' '') @ ts_text pc @ ''\<newline>'')"

lemma line_padding:
  fixes n p :: nat
  assumes "0 < n" and "n \<le> 16" and "p mod 16 = 0"
  shows "2 * ((16 - (p + n) mod 16) mod 16) + (16 - (p + n) mod 16) mod 16 div 2 = 39 - (2 * n + (n - 1) div 2)"
proof -
  have "(p + n) mod 16 = n mod 16" using assms(3) by (metis add_0 mod_add_left_eq)
  moreover have "2 * (16 - n) + (16 - n) div 2 = 39 - (2 * n + (n - 1) div 2)"
  proof (cases "even n")
    case True
    then obtain k where "n = 2 * k" by blast
    moreover have "(2 * k - 1) div 2 = k - 1" by (cases k) simp_all
    ultimately show ?thesis using assms(1,2) by simp
  next
    case False
    then obtain k where "n = 2 * k + 1" by (rule oddE)
    moreover have "(16 - (2 * k + 1)) div 2 = 7 - k" 
by presburger
    ultimately show ?thesis using assms(1,2) by simp
  qed
  ultimately show ?thesis using assms(1,2) by (cases "n = 16") (simp_all add: Let_def)
qed

lemma hexdump_loop_lines:
  assumes "bs \<noteq> []" and "p mod 16 = 0" and "p = 0 \<Longrightarrow> pc = ts_open '' ''"
  shows "line_end (hexdump_loop (replicate indent (CHR '' '')) bs p pc out) =
    (if p \<noteq> 0 then out @ ''    '' @ ts_text pc @ ''\<newline>'' else out) @ hex_lines indent p bs"
  using assms
proof (induction indent p bs arbitrary: pc out rule: hex_lines.induct)
  case (1 indent p bs)
  let ?ind = "replicate indent (CHR '' '')" and ?l = "take 16 bs" and ?r = "drop 16 bs"
  have l: "?l \<noteq> []" "length ?l \<le> 16" using "1.prems" by auto
  have line: "hexdump_loop ?ind ?l p pc out =
    (p + length ?l, \<lparr>ts_text = map (\<lambda>b. if 32 \<le> b \<and> b \<le> 126 then char_of (unat b) else CHR ''.'') ?l, ts_pos = length ?l\<rparr>,
     (if p \<noteq> 0 then out @ ''    '' @ ts_text pc @ ''\<newline>'' else out) @ ?ind @ zero_pad 8 (show_hex p) @ '':    '' @ hex_pairs ?l)"
    by (rule hexdump_line [OF "1.prems"(2) l]) (rule "1.prems"(3))
  have pad: "line_end (hexdump_loop ?ind ?l p pc out) =
      (if p \<noteq> 0 then out @ ''    '' @ ts_text pc @ ''\<newline>'' else out) @ hex_line indent p ?l"
  proof -
    have "0 < length ?l" using l(1) by simp
    note e = line_padding [OF this l(2) "1.prems"(2)]
    have four: "replicate (n + 4) (CHR '' '') = replicate n (CHR '' '') @ ''    ''" for n
      by (induction n) (simp_all add: numeral_eq_Suc)
    show ?thesis
      unfolding line line_end_def hex_line_def prod.case Let_def e four hex_pairs_length [OF l(1)] by simp
  qed
  show ?case
  proof (cases "?r = []")
    case True
    then have "?l = bs" by simp
    with pad "1.prems"(1) True show ?thesis by (subst hex_lines.simps) (simp add: hex_lines.simps)
  next
    case False
    then have len: "length ?l = 16" by simp
    have "hexdump_loop ?ind bs p pc out = hexdump_loop ?ind (?l @ ?r) p pc out" by simp
    also have "\<dots> = hexdump_loop ?ind ?r (p + 16) \<lparr>ts_text = map (\<lambda>b. if 32 \<le> b \<and> b \<le> 126 then char_of (unat b) else CHR ''.'') ?l, ts_pos = 16\<rparr>
        ((if p \<noteq> 0 then out @ ''    '' @ ts_text pc @ ''\<newline>'' else out) @ ?ind @ zero_pad 8 (show_hex p) @ '':    '' @ hex_pairs ?l)"
      unfolding hexdump_append line len by simp
    finally show ?thesis
      using "1.IH" [OF "1.prems"(1) False] "1.prems" hex_pairs_length [OF l(1)] len
      by (simp add: hex_lines.simps [of indent p bs] hex_line_def)
  qed
qed

lemma hexdump_lines: "data \<noteq> [] \<Longrightarrow> hexdump data indent = hex_lines indent 0 data @ ''\<newline>''"
  using hexdump_loop_lines [of data 0 "ts_open '' ''" indent "[]"]
  by (cases "hexdump_loop (replicate indent (CHR '' '')) data 0 (ts_open '' '') []") (simp add: hexdump_def line_end_def Let_def)

section \<open>Packets that are understood\<close>

text \<open>
  A chain of IPv6 extension headers after a first next-header value: each header has a known type and
  the length it claims, and the last one names UDP.
\<close>

fun ext_chain :: "byte \<Rightarrow> bytes list \<Rightarrow> bool" where
  "ext_chain nxt [] \<longleftrightarrow> nxt = 0x11"
| "ext_chain nxt (e # es) \<longleftrightarrow> nxt \<in> {0, 43, 60} \<and> length e = 8 * (1 + unat (e ! 1)) \<and> ext_chain (e ! 0) es"

lemma skip_extensions_chain:
  assumes "ext_chain nxt es" and "8 \<le> length rest"
  shows "skip_extensions (pre @ concat es @ rest) nxt (length pre) = Some (Inr (length pre + length (concat es)))"
  using assms(1)
proof (induction es arbitrary: pre nxt)
  case Nil
  then show ?case by (simp add: skip_extensions.simps)
next
  case (Cons e es)
  then have e: "length e = 8 * (1 + unat (e ! 1))" "nxt = 0 \<or> nxt = 43 \<or> nxt = 60" by auto
  have l: "2 \<le> length e" using e(1) by simp
  have "octet (pre @ concat (e # es) @ rest) (length pre) = Some (e ! 0)"
    "octet (pre @ concat (e # es) @ rest) (length pre + 1) = Some (e ! 1)"
    using l by (auto simp: octet_def nth_append)
  moreover have "skip_extensions (pre @ concat (e # es) @ rest) (e ! 0) (length pre + length e) =
      Some (Inr (length pre + length e + length (concat es)))"
    using Cons.IH [of "e ! 0" "pre @ e"] Cons.prems by simp
  ultimately show ?case using e assms(2) by (subst skip_extensions.simps) (auto simp: Let_def)
qed

text \<open>
  An IP header in front of a UDP datagram, with the printed addresses: \<open>inet_ntop\<close> of the bytes of the
  header that hold them.
\<close>

definition printed :: "string option \<Rightarrow> string" where
  "printed a = (case a of None \<Rightarrow> ''unknown'' | Some s \<Rightarrow> s)"

definition ip_header_of :: "ntop \<Rightarrow> bytes \<Rightarrow> string \<Rightarrow> string \<Rightarrow> bool" where
  "ip_header_of T ip src dst \<longleftrightarrow>
     (ip ! 0 AND 0xf0 = 0x40 \<and> 20 \<le> length ip \<and> length ip = 4 * unat (ip ! 0 AND 0x0f) \<and> ip ! 9 = 0x11 \<and>
        src = printed (ntop4 T (take 4 (drop 12 ip))) \<and> dst = printed (ntop4 T (take 4 (drop 16 ip)))) \<or>
     (\<exists>base es. ip = base @ concat es \<and> length base = 40 \<and> base ! 0 AND 0xf0 = 0x60 \<and> ext_chain (base ! 6) es \<and>
        src = printed (ntop6 T (take 16 (drop 8 base))) \<and> dst = printed (ntop6 T (take 16 (drop 24 base))))"

lemma inet_addr_printed:
  "i + 4 \<le> length data \<Longrightarrow> inet4_addr T data i = Some (printed (ntop4 T (take 4 (drop i data))))"
  "i + 16 \<le> length data \<Longrightarrow> inet6_addr T data i = Some (printed (ntop6 T (take 16 (drop i data))))"
  by (simp_all add: inet4_addr_def inet6_addr_def octets_def printed_def)

lemma octets_append: "octets xs i n = Some b \<Longrightarrow> octets (xs @ ys) i n = Some b"
  by (auto simp: octets_def split: if_splits)

lemma inet_addr_append:
  "inet4_addr T xs i = Some s \<Longrightarrow> inet4_addr T (xs @ ys) i = Some s"
  "inet6_addr T xs i = Some s \<Longrightarrow> inet6_addr T (xs @ ys) i = Some s"
  using octets_append by (fastforce simp: inet4_addr_def inet6_addr_def)+

lemma process_header:
  assumes "ip_header_of T ip src dst" and "8 \<le> length rest"
  shows "process_ipv4_ipv6 T (ip @ rest) = Some (Inr (length ip + 8, src, dst))"
proof -
  from assms(1) consider
    "ip ! 0 AND 0xf0 = 0x40" "20 \<le> length ip" "length ip = 4 * unat (ip ! 0 AND 0x0f)" "ip ! 9 = 0x11"
      "inet4_addr T ip 12 = Some src" "inet4_addr T ip 16 = Some dst"
    | base es where "ip = base @ concat es" "length base = 40" "base ! 0 AND 0xf0 = 0x60" "ext_chain (base ! 6) es"
      "inet6_addr T base 8 = Some src" "inet6_addr T base 24 = Some dst"
    by (auto simp: ip_header_of_def inet_addr_printed)
  then show ?thesis
  proof cases
    case 1
    then have "octet (ip @ rest) 0 = Some (ip ! 0)" "octet (ip @ rest) 9 = Some 0x11" by (auto simp: octet_def nth_append)
    with 1 inet_addr_append(1) [OF 1(5), of rest] inet_addr_append(1) [OF 1(6), of rest] show ?thesis
      by (simp add: process_ipv4_ipv6_def Let_def)
  next
    case 2
    have "octet (ip @ rest) 0 = Some (base ! 0)" "octet (ip @ rest) 6 = Some (base ! 6)"
      using 2(1,2) by (auto simp: octet_def nth_append)
    moreover have "skip_extensions (ip @ rest) (base ! 6) 40 = Some (Inr (length ip))"
      using skip_extensions_chain [OF 2(4) assms(2), of base] 2(1,2) by simp
    ultimately show ?thesis
      using 2 assms(2) inet_addr_append(2) [OF 2(5), of "concat es @ rest"] inet_addr_append(2) [OF 2(6), of "concat es @ rest"]
      by (simp add: process_ipv4_ipv6_def Let_def)
  qed
qed

text \<open>
  A link layer header that announces IPv4 or IPv6: the protocol numbers 0x0800 and 0x86dd of Ethernet, in
  network order, or the four bytes of a protocol family in the order of a big-endian host.
\<close>

fun link_of :: "dlt \<Rightarrow> bytes \<Rightarrow> bool" where
  "link_of DLT_NULL l \<longleftrightarrow> l \<in> {[0, 0, 0, 2], [0, 0, 0, 24], [0, 0, 0, 28], [0, 0, 0, 30]}"
| "link_of DLT_EN10MB l \<longleftrightarrow> length l = 14 \<and> (l ! 12, l ! 13) \<in> {(0x08, 0x00), (0x86, 0xdd)}"
| "link_of DLT_LINUX_SLL l \<longleftrightarrow> length l = 16 \<and> (l ! 14, l ! 15) \<in> {(0x08, 0x00), (0x86, 0xdd)}"
| "link_of DLT_LINUX_SLL2 l \<longleftrightarrow> length l = 20 \<and> (l ! 0, l ! 1) \<in> {(0x08, 0x00), (0x86, 0xdd)}"
| "link_of DLT_RAW l \<longleftrightarrow> l = []"
| "link_of (DLT_OTHER _) l \<longleftrightarrow> False"

lemma ether_ip_types [simp]: "ether_ip 0x08 0" "ether_ip 0x86 0xdd"
  by (simp_all add: ether_ip_def)

lemma link_header_of: "link_of dl l \<Longrightarrow> link_header dl (l @ rest) = Some (LinkOff (length l))"
  by (cases dl) (auto simp: link_header_def link_skip_def octet_def nth_append)

lemma dump_payload:
  assumes "link_of dl l" and "ip_header_of T ip src dst" and "length udp = 8"
    and "length (l @ ip @ udp @ pl) < SIZE_MOD"
  shows "dump_packet T dl (l @ ip @ udp @ pl) = tcp_segment_parse tcp_segment_default (buffer_of pl) 0 \<bind> (\<lambda>(res, seg).
    Some (Shown ((if parse_code res > parse_code BadChecksum
       then ''(did not recognize TCP header) src: '' @ src @ '' dst: '' @ dst @ ''\<newline>''
       else dump_segment src dst (res = NoError) seg (length pl)) @ hexdump pl 8)))"
proof -
  let ?off = "length l + (length ip + 8)"
  have "octets (l @ ip @ udp @ pl) ?off (length pl) = Some pl"
    using assms(3) by (simp add: octets_def)
  moreover have "sz_sub (length (l @ ip @ udp @ pl)) ?off = length pl"
    using assms(3,4) by (simp add: sz_sub_exact)
  moreover have "process_ipv4_ipv6 T (ip @ udp @ pl) = Some (Inr (length ip + 8, src, dst))"
    using process_header [OF assms(2), of "udp @ pl"] assms(3) by simp
  ultimately show ?thesis using link_header_of [OF assms(1), of "ip @ udp @ pl"]
    by (cases "tcp_segment_parse tcp_segment_default (buffer_of pl) 0") (auto simp: dump_packet_def Let_def)
qed

section \<open>Properties\<close>

lemma tcp_bytes_cksum: "256 * unat (tcp_bytes seg cs ! 16) + unat (tcp_bytes seg cs ! 17) = unat (tcp_cksum seg cs)"
proof -
  have "length (nu_u16 [] (tcp_cksum seg cs)) = 2" by simp
  then obtain hi lo where c: "nu_u16 [] (tcp_cksum seg cs) = [hi, lo]"
    by (cases "nu_u16 [] (tcp_cksum seg cs)"; cases "tl (nu_u16 [] (tcp_cksum seg cs))") auto
  then have "be_val [hi, lo] = unat (tcp_cksum seg cs)"
    using be_val_unparse_int(1) [where val = "tcp_cksum seg cs" and n = 2] by (simp add: nu_u16_def)
  then show ?thesis by (simp add: tcp_bytes_def c nth_append be_val_def)
qed

lemma dump_segment_shown:
  assumes "header seg' = (header seg)\<lparr>cksum := c\<rparr>" and "buffer_str (payload seg') = buffer_str (payload seg)"
    and "length (buffer_str (payload seg)) \<le> 65535"
  shows "let h = header seg; n = length (buffer_str (payload seg)) + of_bool (syn h) + of_bool (fin h) in
    dump_segment src dst True seg' k =
      src @ '':'' @ show_dec (unat (sport h)) @ '' > '' @ dst @ '':'' @ show_dec (unat (dport h)) @ ''\<newline>    Flags ['' @
      (if urg h then ''U'' else []) @ (if psh h then ''P'' else []) @ (if rst h then ''R'' else []) @
      (if syn h then ''S'' else []) @ (if fin h then ''F'' else []) @ (if ack h then ''.'' else []) @
      ''] cksum 0x'' @ zero_pad 4 (show_hex (unat c)) @ '' (correct) seq '' @ show_dec (unat (raw_value (seqno h))) @
      (if 0 < n then '':'' @ show_dec ((unat (raw_value (seqno h)) + n) mod 2 ^ 32) else []) @
      '' ack '' @ show_dec (unat (raw_value (ackno h))) @ '' win '' @ show_dec (unat (win h)) @
      '' length '' @ show_dec k @ ''\<newline>''"
proof -
  define n where "n = length (buffer_str (payload seg)) + of_bool (syn (header seg)) + of_bool (fin (header seg))"
  have len: "length_in_sequence_space seg' = n"
    using assms by (simp add: n_def length_in_sequence_space_def sz_add_def SIZE_MOD_def)
  have "n < 2 ^ 32" using assms(3) by (simp add: n_def of_bool_def)
  then have u: "unat (of_nat n :: u32) = n" by (simp add: unsigned_of_nat take_bit_nat_eq_self)
  then have "0 < (of_nat n :: u32) \<longleftrightarrow> 0 < n" by (simp add: word_less_nat_alt)
  moreover have "unat (raw_value (wi_plus (seqno (header seg)) (of_nat n))) = (unat (raw_value (seqno (header seg))) + n) mod 2 ^ 32"
    using u by (simp add: wi_plus_def unat_word_ariths)
  ultimately show ?thesis
    unfolding Let_def n_def [symmetric] by (simp add: dump_segment_def dump_flags_def Let_def assms(1) len)
qed

text \<open>
  C7: A captured packet that carries a TCP segment of the library in UDP, on any link type and over IPv4 with
  options or IPv6 with any chain of extension headers, is shown with the addresses of its IP header and the
  ports, flags, sequence number, with its end if the segment occupies any, acknowledgment number and window of
  that segment, the checksum in its bytes 16 and 17, reported as correct, its length, and a dump of its bytes
  in lines of sixteen.
\<close>

theorem tcpdump_shows_segment:
  assumes "link_of dl l" and "ip_header_of T ip src dst" and "length udp = 8" and "cksum_fits seg 0"
    and "tcp_segment_serialize seg 0 = Some segment" and "length l \<le> 65535" and "length ip \<le> 65535"
  shows "let h = header seg; bytes = bl_concatenate segment;
      n = length (buffer_str (payload seg)) + of_bool (syn h) + of_bool (fin h)
    in dump_packet T dl (l @ ip @ udp @ bytes) = Some (Shown (
      src @ '':'' @ show_dec (unat (sport h)) @ '' > '' @ dst @ '':'' @ show_dec (unat (dport h)) @ ''\<newline>    Flags ['' @
      (if urg h then ''U'' else []) @ (if psh h then ''P'' else []) @ (if rst h then ''R'' else []) @
      (if syn h then ''S'' else []) @ (if fin h then ''F'' else []) @ (if ack h then ''.'' else []) @
      ''] cksum 0x'' @ zero_pad 4 (show_hex (256 * unat (bytes ! 16) + unat (bytes ! 17))) @
      '' (correct) seq '' @ show_dec (unat (raw_value (seqno h))) @
      (if 0 < n then '':'' @ show_dec ((unat (raw_value (seqno h)) + n) mod 2 ^ 32) else []) @
      '' ack '' @ show_dec (unat (raw_value (ackno h))) @ '' win '' @ show_dec (unat (win h)) @
      '' length '' @ show_dec (length bytes) @ ''\<newline>'' @ hex_lines 8 0 bytes @ ''\<newline>''))"
proof -
  let ?bytes = "bl_concatenate segment"
  have bs: "?bytes = tcp_bytes seg 0"
    using assms(4,5) unat_valid_doff [of "header seg"]
    by (auto simp: cksum_fits_def tcp_segment_serialize_eq bl_concatenate_def tcp_bytes_def)
  note len = tcp_bytes_length [OF assms(4)]
  have inv: "buffer_inv (buffer_of ?bytes)" using len bs by (simp add: SIZE_MOD_def)
  from tcp_parse_serialized [OF assms(4,5) this, of tcp_segment_default] obtain seg' where
    p: "tcp_segment_parse tcp_segment_default (buffer_of ?bytes) 0 = Some (NoError, seg')"
      "header seg' = (header seg)\<lparr>cksum := tcp_cksum seg 0\<rparr>" "buffer_str (payload seg') = buffer_str (payload seg)" by auto
  have "length (l @ ip @ udp @ ?bytes) < SIZE_MOD" using len bs assms(3,6,7) by (simp add: SIZE_MOD_def)
  from dump_payload [OF assms(1-3) this] p
  have d: "dump_packet T dl (l @ ip @ udp @ ?bytes) = Some (Shown (dump_segment src dst True seg' (length ?bytes) @ hexdump ?bytes 8))"
    by simp
  have ne: "?bytes \<noteq> []" using tcp_before_length [of "header seg"] unfolding bs tcp_bytes_def by fastforce
  have ck: "256 * unat (?bytes ! 16) + unat (?bytes ! 17) = unat (tcp_cksum seg 0)" using tcp_bytes_cksum bs by simp
  have "length (buffer_str (payload seg)) \<le> 65535" using assms(4) by (simp add: cksum_fits_def)
  note shown = dump_segment_shown [OF p(2,3) this, unfolded Let_def]
  show ?thesis unfolding Let_def d shown hexdump_lines [OF ne] ck by (simp only: append_assoc)
qed

definition ntop_example :: ntop where
  "ntop_example = \<lparr>ntop4 = (\<lambda>a. Some (inet_ntoa (field 0 4 a))), ntop6 = (\<lambda>_. None)\<rparr>"

definition ip_example :: bytes where
  "ip_example = [0x45, 0, 0, 48, 0, 0, 0, 0, 64, 17, 0, 0, 127, 0, 0, 1, 10, 0, 0, 2]"

lemma header_example: "ip_header_of ntop_example ip_example ''127.0.0.1'' ''10.0.0.2''"
  by (simp add: ip_header_of_def printed_def ntop_example_def ip_example_def field_def be_val_def inet_ntoa_def
      show_dec_def show_nat_def digits.simps digit_char_def)

theorem tcpdump_shows_segment_witness:
  "\<exists>segment. tcp_segment_serialize tcp_segment_default 0 = Some segment \<and> length (bl_concatenate segment) = 20 \<and>
     dump_packet ntop_example DLT_EN10MB
       (replicate 12 9 @ [8, 0] @ ip_example @ replicate 8 0 @ bl_concatenate segment) =
     Some (Shown (''127.0.0.1:0 > 10.0.0.2:0\<newline>    Flags [] cksum 0x'' @
       zero_pad 4 (show_hex (256 * unat (bl_concatenate segment ! 16) + unat (bl_concatenate segment ! 17))) @
       '' (correct) seq 0 ack 0 win 0 length 20\<newline>'' @ hex_lines 8 0 (bl_concatenate segment) @ ''\<newline>''))"
proof -
  note ip = header_example
  have fits: "cksum_fits tcp_segment_default 0" by (simp add: cksum_fits_def tcp_header_valid_def)
  obtain segment where s: "tcp_segment_serialize tcp_segment_default 0 = Some segment" by (simp add: tcp_segment_serialize_eq)
  then have len: "length (bl_concatenate segment) = 20"
    by (auto simp: tcp_segment_serialize_eq bl_concatenate_def tcp_after_def tcp_header_default_def)
  have l: "link_of DLT_EN10MB (replicate 12 9 @ [8, 0])" "length (replicate 8 0 :: bytes) = 8"
    "length (replicate 12 9 @ [8, 0] :: bytes) \<le> 65535" "length ip_example \<le> 65535"
    by (simp_all add: ip_example_def nth_append)
  have z: "show_dec 0 = ''0''" "show_dec 20 = ''20''" by (simp_all add: show_dec_def show_nat_def digits.simps digit_char_def)
  from tcpdump_shows_segment [OF l(1) ip l(2) fits s l(3,4)] s len show ?thesis
    by (simp add: Let_def tcp_header_default_def z)
qed

text \<open>
  The capture library gives the protocol family of a \<open>DLT_NULL\<close> header in the byte order of the host; the
  program looks at the last byte only. On a little-endian host every IP packet is therefore skipped.
\<close>

theorem tcpdump_null_little_endian:
  assumes "f \<in> {2, 24, 28, 30}"
  shows "dump_packet T DLT_NULL ([f, 0, 0, 0] @ packet) = Some (Skipped ''[INFO] Skipping non-IP packet.\<newline>'')"
  by (simp add: dump_packet_def link_header_def octet_def)

lemma skip_extensions_in_bounds:
  "off + 2 \<le> length data \<Longrightarrow> \<exists>r. skip_extensions data nxt off = Some r \<and> (\<forall>n. r = Inr n \<longrightarrow> off \<le> n \<and> n + 2 \<le> length data)"
proof (induction data nxt off rule: skip_extensions.induct)
  case (1 data nxt off)
  show ?case
  proof (cases "nxt \<noteq> 0x11 \<and> (nxt = 0 \<or> nxt = 43 \<or> nxt = 60)")
    case False
    then show ?thesis using "1.prems" by (subst skip_extensions.simps) auto
  next
    case True
    let ?off = "off + 8 * (1 + unat (data ! (off + 1)))"
    have o: "octet data off = Some (data ! off)" "octet data (off + 1) = Some (data ! (off + 1))"
      using "1.prems" by (auto simp: octet_def)
    then have s: "skip_extensions data nxt off = (if length data < ?off + 2 then Some (Inl []) else skip_extensions data (data ! off) ?off)"
      using True by (subst skip_extensions.simps) (auto simp: Let_def)
    show ?thesis
    proof (cases "length data < ?off + 2")
      case False
      then obtain r where "skip_extensions data (data ! off) ?off = Some r" "\<forall>n. r = Inr n \<longrightarrow> ?off \<le> n \<and> n + 2 \<le> length data"
        using "1.IH" [OF _ _ o refl] True by (auto simp: not_less)
      with False s show ?thesis by (intro exI [of _ r]) auto
    qed (simp add: s)
  qed
qed

text \<open>
  \<open>process_ipv4_ipv6\<close> reads inside the packet for every packet of at least 20 bytes, and its loop over
  the extension headers ends; the start of the payload that it returns lies behind a whole IP header, at
  most the 8 bytes of the UDP header past the end of the packet.
\<close>

theorem process_in_bounds:
  assumes "20 \<le> length data"
  shows "\<exists>r. process_ipv4_ipv6 T data = Some r \<and>
    (\<forall>off src dst. r = Inr (off, src, dst) \<longrightarrow> 8 \<le> off \<and> off \<le> length data + 8)"
proof -
  have o: "octet data 0 = Some (data ! 0)" "octet data 9 = Some (data ! 9)" using assms by (auto simp: octet_def)
  obtain s d where a4: "inet4_addr T data 12 = Some s" "inet4_addr T data 16 = Some d"
    using assms by (simp add: inet4_addr_def octets_def)
  consider "data ! 0 AND 0xf0 = 0x40" | "data ! 0 AND 0xf0 = 0x60" "42 \<le> length data"
    | "data ! 0 AND 0xf0 \<noteq> 0x40" "data ! 0 AND 0xf0 = 0x60 \<longrightarrow> length data < 42" by force
  then show ?thesis
  proof cases
    case 1
    then show ?thesis using o a4 assms by (simp add: process_ipv4_ipv6_def Let_def)
  next
    case 2
    then have o6: "octet data 6 = Some (data ! 6)" by (simp add: octet_def)
    obtain s d where a6: "inet6_addr T data 8 = Some s" "inet6_addr T data 24 = Some d"
      using 2(2) by (simp add: inet6_addr_def octets_def)
    obtain r where "skip_extensions data (data ! 6) 40 = Some r" "\<forall>n. r = Inr n \<longrightarrow> 40 \<le> n \<and> n + 2 \<le> length data"
      using skip_extensions_in_bounds [of 40 data "data ! 6"] 2(2) by auto
    then show ?thesis using o o6 a6 2 assms by (cases r) (auto simp: process_ipv4_ipv6_def Let_def)
  next
    case 3
    then show ?thesis using o assms by (auto simp: process_ipv4_ipv6_def Let_def)
  qed
qed

theorem process_in_bounds_witness: "\<exists>r. process_ipv4_ipv6 ntop_example (0x45 # replicate 19 0) = Some r"
  using process_in_bounds [of "0x45 # replicate 19 0" ntop_example] by auto

text \<open>
  A segment whose checksum is wrong is shown as such, but with the fields of an empty header instead of
  its own, because parsing stops at the checksum.
\<close>

theorem tcpdump_bad_checksum_blank:
  assumes "link_of dl l" and "ip_header_of T ip src dst" and "length udp = 8"
    and "length (l @ ip @ udp @ segment) < SIZE_MOD" and "ic_value (ic_add (ic_new 0) segment) \<noteq> 0"
  shows "dump_packet T dl (l @ ip @ udp @ segment) =
    Some (Shown (src @ '':0 > '' @ dst @ '':0\<newline>    Flags [] cksum 0x0000 (incorrect!) seq 0 ack 0 win 0 length '' @
      show_dec (length segment) @ ''\<newline>'' @ hexdump segment 8))"
proof -
  have "length_in_sequence_space tcp_segment_default = 0"
    by (simp add: length_in_sequence_space_def sz_add_def buffer_default_def buffer_str_def)
  then have "dump_segment src dst False tcp_segment_default n =
      src @ '':0 > '' @ dst @ '':0\<newline>    Flags [] cksum 0x0000 (incorrect!) seq 0 ack 0 win 0 length '' @ show_dec n @ ''\<newline>''" for n
    by (simp add: dump_segment_def dump_flags_def tcp_header_default_def zero_pad_def show_dec_def [of 0] show_hex_def show_nat_def
        digits.simps digit_char_def numeral_3_eq_3)
  with dump_payload [OF assms(1-4)] assms(5) show ?thesis by (simp add: tcp_segment_parse_def)
qed

theorem tcpdump_bad_checksum_blank_witness:
  "dump_packet ntop_example DLT_RAW
       (ip_example @ replicate 8 0 @ [1, 2]) =
     Some (Shown (''127.0.0.1:0 > 10.0.0.2:0\<newline>    Flags [] cksum 0x0000 (incorrect!) seq 0 ack 0 win 0 length '' @
       show_dec 2 @ ''\<newline>'' @ hexdump [1, 2] 8))"
proof -
  note ip = header_example
  have "ic_value (ic_add (ic_new 0) [1, 2]) \<noteq> 0" by (simp add: ic_value_0_iff ic_add_sum ic_new_def)
  with tcpdump_bad_checksum_blank [of DLT_RAW "[]" ntop_example ip_example "''127.0.0.1''" "''10.0.0.2''" "replicate 8 0" "[1, 2]"] ip
  show ?thesis by (simp add: SIZE_MOD_def numeral_2_eq_2 ip_example_def)
qed

text \<open>
  A captured IPv4 packet that ends inside the UDP header makes the program read outside of it: the
  length of the payload wraps around below zero.
\<close>

theorem tcpdump_short_datagram:
  assumes "link_of dl l" and "ip ! 0 AND 0xf0 = 0x40" and "20 \<le> length ip" and "length ip = 4 * unat (ip ! 0 AND 0x0f)"
    and "ip ! 9 = 0x11" and "length rest < 8"
  shows "dump_packet T dl (l @ ip @ rest) = None"
proof -
  have "octet (ip @ rest) 0 = Some (ip ! 0)" "octet (ip @ rest) 9 = Some 0x11" using assms by (auto simp: octet_def nth_append)
  moreover obtain s d where "inet4_addr T (ip @ rest) 12 = Some s" "inet4_addr T (ip @ rest) 16 = Some d"
    using assms(3) by (simp add: inet4_addr_def octets_def)
  ultimately have "process_ipv4_ipv6 T (ip @ rest) = Some (Inr (length ip + 8, s, d))"
    using assms(2-5) by (simp add: process_ipv4_ipv6_def Let_def)
  then show ?thesis using link_header_of [OF assms(1), of "ip @ rest"] assms(6) by (simp add: dump_packet_def Let_def octets_def)
qed

text \<open>
  What an adapter of the library writes to a TUN device is reported by \<open>tun\<close> as an IPv4 datagram with a
  TCP segment in it, with the header of that segment and the length of its payload.
\<close>

theorem tun_reports_segment:
  assumes "resolver_ok R" and "fits_datagram seg"
    and "fa_source (fa_cfg a) = inet_address ipa pa" and "fa_destination (fa_cfg a) = inet_address ipb pb"
  shows "\<exists>out seg' h got. tun_adapter_write R a seg = Some (out, seg') \<and> ip_src h = ipa \<and> ip_dst h = ipb \<and>
    same_segment seg got \<and> sport (header got) = pa \<and> dport (header got) = pb \<and>
    tun_report (bl_concatenate out) = Some (''\<newline>\<newline>***\<newline>*** Got packet:\<newline>***\<newline>'' @ hexdump (bl_concatenate out) 0 @
      ''attempting to parse as ipv4 datagram... success! totlen='' @ show_dec (unat (ip_len h)) @
      '', IPv4 header contents:\<newline>'' @ ipv4_header_to_string h @
      ''\<newline>Attempting to parse as a TCP segment... success! payload len='' @ show_dec (length (buffer_str (payload seg))) @
      '', TCP header contents:\<newline>'' @ tcp_header_to_string (header got) @ ''\<newline>'')"
proof -
  from tun_write_read [OF assms(2,1,3,4)] obtain out seg' h c got where
    w: "tun_adapter_write R a seg = Some (out, seg')" "ip_src h = ipa" "ip_dst h = ipb" "ip_proto h = PROTO_TCP"
      "ipv4_datagram_parse ipv4_datagram_default (buffer_of (bl_concatenate out)) = Some (NoError, \<lparr>ip_header = h, ip_payload = bl_of_buffer c\<rparr>)"
      "tcp_segment_parse tcp_segment_default c (pseudo_cksum h) = Some (NoError, got)"
      "sport (header got) = pa" "dport (header got) = pb" "same_segment seg got" by blast
  then have "buf_size (payload got) = length (buffer_str (payload seg))" by (simp add: same_segment_def buf_size_def)
  with w show ?thesis
    by (intro exI [of _ out] exI [of _ seg'] exI [of _ h] exI [of _ got])
      (simp add: tun_report_def Let_def bl_to_buffer_def bl_of_buffer_def)
qed

theorem tun_reports_segment_witness:
  "\<exists>out seg' t. tun_adapter_write numeric_resolver (adapter_example 1 80 2 90 False)
       (tcp_segment_default\<lparr>payload := buffer_of [5, 6]\<rparr>) = Some (out, seg') \<and> tun_report (bl_concatenate out) = Some t"
proof -
  have "fits_datagram (tcp_segment_default\<lparr>payload := buffer_of [5, 6]\<rparr>)"
    by (simp add: fits_datagram_def tcp_header_valid_def SIZE_MOD_def)
  from tun_reports_segment [OF numeric_resolver_ok this, of "adapter_example 1 80 2 90 False" 1 80 2 90]
  show ?thesis by (auto simp: adapter_example_def)
qed

end
