(* ===== verification/Socket_Apps.thy ===== *)
theory Socket_Apps
  imports Stream_Copy Command_Line
begin

text \<open>
  The applications on the sockets of the system: \<open>apps/webget.cc\<close>, which fetches a page, and
  \<open>apps/tcp_native.cc\<close>, which connects a TCP socket with the terminal. \<^const>\<open>None\<close> is an exception or a loop
  that does not end. A \<open>main\<close> that catches an exception prints its message and returns the failure status; in
  the model the result is then \<^const>\<open>None\<close> as well, like for \<open>abort\<close>.
\<close>

definition argv_word :: "string list \<Rightarrow> nat \<Rightarrow> string option" where
  "argv_word argv i = (case argv_at argv i of Inl _ \<Rightarrow> None | Inr w \<Rightarrow> Some w)"

section \<open>\<open>webget\<close>\<close>

definition str_bytes :: "string \<Rightarrow> bytes" where
  "str_bytes s = map of_char s"

definition CRLF :: string where "CRLF = [CHR 0x0D, CHR 0x0A]"

definition http_request :: "string \<Rightarrow> string \<Rightarrow> string" where
  "http_request host path =
     ''GET '' @ path @ '' HTTP/1.1'' @ CRLF @ ''HOST: '' @ host @ CRLF @ ''Connection: close'' @ CRLF @ CRLF"

text \<open>The loop that prints; the result is what went to \<open>cout\<close>.\<close>

partial_function (option) print_until_eof :: "'w os \<Rightarrow> nat \<Rightarrow> bytes \<Rightarrow> 'w fd_state \<Rightarrow> (bytes \<times> 'w fd_state) option" where
  "print_until_eof os tcp out s =
     (if fd_eof (fs_fds s tcp) then Some (out, s)
      else fd_read os tcp (SIZE_MOD - 1) s \<bind> (\<lambda>(data, s). print_until_eof os tcp (out @ data) s))"

definition get_URL :: "'w os \<Rightarrow> resolver \<Rightarrow> string \<Rightarrow> string \<Rightarrow> 'w fd_state \<Rightarrow> (bytes \<times> 'w fd_state) option" where
  "get_URL os R host path s = do {
     (tcp, s) \<leftarrow> sock_new os AF_INET SOCK_STREAM s;
     add \<leftarrow> address_of_host R host ''http'';
     s \<leftarrow> sock_connect os tcp add s;
     (_, s) \<leftarrow> fd_write os tcp (bv_of_view (str_bytes (http_request host path))) True s;
     s \<leftarrow> sock_shutdown os tcp SHUT_WR s;
     (out, s) \<leftarrow> print_until_eof os tcp [] s;
     s \<leftarrow> fd_close os tcp s;
     Some (out, fdw_destroy os tcp s)
   }"

definition webget_main :: "'w os \<Rightarrow> resolver \<Rightarrow> string list \<Rightarrow> 'w fd_state \<Rightarrow> (bytes \<times> nat) option" where
  "webget_main os R argv s =
     (if length argv \<le> 0 then None
      else if length argv \<noteq> 3 then Some ([], 1)
      else do {
        host \<leftarrow> argv_word argv 1;
        path \<leftarrow> argv_word argv 2;
        (out, s) \<leftarrow> get_URL os R host path s;
        Some (out, 0)
      })"

section \<open>\<open>tcp_native\<close>\<close>

definition tcp_native_socket :: "'w os \<Rightarrow> resolver \<Rightarrow> bool \<Rightarrow> string list \<Rightarrow> 'w fd_state \<Rightarrow> (nat \<times> 'w fd_state) option" where
  "tcp_native_socket os R server_mode argv s =
     (if server_mode then do {
        (listening_socket, s) \<leftarrow> sock_new os AF_INET SOCK_STREAM s;
        s \<leftarrow> set_reuseaddr os listening_socket s;
        host \<leftarrow> argv_word argv 2;
        port \<leftarrow> argv_word argv 3;
        a \<leftarrow> address_of_host R host port;
        s \<leftarrow> sock_bind os listening_socket a s;
        s \<leftarrow> tcp_listen os listening_socket 16 s;
        (socket, s) \<leftarrow> tcp_accept os listening_socket s;
        Some (socket, fdw_destroy os listening_socket s)
      }
      else do {
        (connecting_socket, s) \<leftarrow> sock_new os AF_INET SOCK_STREAM s;
        host \<leftarrow> argv_word argv 1;
        port \<leftarrow> argv_word argv 2;
        a \<leftarrow> address_of_host R host port;
        s \<leftarrow> sock_connect os connecting_socket a s;
        Some (connecting_socket, s)
      })"

definition tcp_native_main :: "'w os \<Rightarrow> resolver \<Rightarrow> string list \<Rightarrow> 'w fd_state \<Rightarrow> nat option" where
  "tcp_native_main os R argv s =
     (if length argv < 3 then Some 1
      else argv_word argv 1 \<bind> (\<lambda>arg.
        let server_mode = strncmp_eq ''-l'' arg 3
        in if server_mode \<and> length argv < 4 then Some 1
         else do {
           (socket, s) \<leftarrow> tcp_native_socket os R server_mode argv s;
           s \<leftarrow> bidirectional_stream_copy os socket s;
           Some 0
         }))"

section \<open>Fetching a page\<close>

text \<open>
  A connection to a server, on descriptor number \<open>fd\<close>: \<open>sent\<close> is what has been written, \<open>reply\<close> what
  is still to be read. The server answers the whole request once the client is done with sending;
  a read gives at least one byte of what is left, or none at the end.
\<close>

locale http_server =
  fixes os :: "'w os" and fd :: int and sent reply :: "'w \<Rightarrow> bytes" and answer :: "bytes \<Rightarrow> bytes"
  assumes fd: "0 \<le> fd"
    and socket: "os_socket os AF_INET SOCK_STREAM w = (ret, w') \<Longrightarrow> ret = fd \<and> sent w' = []"
    and conn: "os_connect os fd a w = (ret, w') \<Longrightarrow> 0 \<le> ret \<and> sent w' = sent w"
    and writing: "writev_ok os sent fd"
    and done_sending: "os_shutdown os fd SHUT_WR w = (ret, w') \<Longrightarrow> 0 \<le> ret \<and> sent w' = sent w \<and> reply w' = answer (sent w)"
    and reading: "os_read os fd k w = (ret, buf, w') \<Longrightarrow> 0 < k \<Longrightarrow>
      0 \<le> ret \<and> nat ret \<le> k \<and> nat ret \<le> length buf \<and> take (nat ret) buf = take (nat ret) (reply w) \<and>
      nat ret \<le> length (reply w) \<and> (reply w \<noteq> [] \<longrightarrow> 0 < ret) \<and> reply w' = drop (nat ret) (reply w) \<and> sent w' = sent w"
    and closing: "os_close os fd w = (ret, w') \<Longrightarrow> 0 \<le> ret \<and> sent w' = sent w"
begin

lemma read_round:
  assumes "fd_num (fs_fds s r) = fd" and "\<not> fd_eof (fs_fds s r)"
  shows "\<exists>n s'. fd_read os r (SIZE_MOD - 1) s = Some (take n (reply (fs_os s)), s') \<and> fd_num (fs_fds s' r) = fd \<and>
    reply (fs_os s') = drop n (reply (fs_os s)) \<and> sent (fs_os s') = sent (fs_os s) \<and> n \<le> length (reply (fs_os s)) \<and>
    (if n = 0 then reply (fs_os s) = [] \<and> fd_eof (fs_fds s' r) else \<not> fd_eof (fs_fds s' r))"
proof -
  obtain ret buf w where rd: "os_read os fd BUFFER_SIZE (fs_os s) = (ret, buf, w)"
    by (cases "os_read os fd BUFFER_SIZE (fs_os s)")
  have k: "0 < BUFFER_SIZE" "min BUFFER_SIZE (SIZE_MOD - 1) = BUFFER_SIZE" "0 < SIZE_MOD - 1"
    by (simp_all add: BUFFER_SIZE_def SIZE_MOD_def)
  note r = reading [OF rd k(1)]
  have "str_resize buf (nat ret) = take (nat ret) (reply (fs_os s))" using r by (simp add: str_resize_def)
  then have "fd_read os r (SIZE_MOD - 1) s = Some (take (nat ret) (reply (fs_os s)), register_read r
      (if ret = 0 then fd_update r (\<lambda>f. f\<lparr>fd_eof := True\<rparr>) (s\<lparr>fs_os := w\<rparr>) else s\<lparr>fs_os := w\<rparr>))"
    using rd r assms(1) k by (auto simp: fd_read_def SystemCall_def Let_def str_resize_def)
  then show ?thesis using r assms
    by (intro exI [of _ "nat ret"]) (auto simp: register_read_def fd_update_def)
qed

lemma prints_everything:
  assumes "fd_num (fs_fds s r) = fd" and "\<not> fd_eof (fs_fds s r)"
  shows "\<exists>s'. print_until_eof os r out s = Some (out @ reply (fs_os s), s') \<and> fd_num (fs_fds s' r) = fd \<and>
    sent (fs_os s') = sent (fs_os s)"
  using assms
proof (induction "length (reply (fs_os s))" arbitrary: s out rule: less_induct)
  case less
  from read_round [OF less.prems] obtain n s1 where
    r: "fd_read os r (SIZE_MOD - 1) s = Some (take n (reply (fs_os s)), s1)" "fd_num (fs_fds s1 r) = fd"
      "reply (fs_os s1) = drop n (reply (fs_os s))" "sent (fs_os s1) = sent (fs_os s)" "n \<le> length (reply (fs_os s))"
      "if n = 0 then reply (fs_os s) = [] \<and> fd_eof (fs_fds s1 r) else \<not> fd_eof (fs_fds s1 r)" by blast
  have loop: "print_until_eof os r out s = print_until_eof os r (out @ take n (reply (fs_os s))) s1"
    using less.prems(2) r(1) by (subst print_until_eof.simps) simp
  show ?case
  proof (cases "n = 0")
    case True
    then have "print_until_eof os r (out @ take n (reply (fs_os s))) s1 = Some (out, s1)"
      using r(6) by (subst print_until_eof.simps) simp
    then show ?thesis using loop r(2,4,6) True by simp
  next
    case False
    then have "length (reply (fs_os s1)) < length (reply (fs_os s))" using r(3,5) by simp
    from less.hyps [OF this r(2), of "out @ take n (reply (fs_os s))"] False r loop show ?thesis by auto
  qed
qed

lemma fetches:
  assumes "address_of_host R host ''http'' = Some a" and "length (http_request host path) < SIZE_MOD"
  shows "\<exists>s'. get_URL os R host path s = Some (answer (str_bytes (http_request host path)), s') \<and>
    sent (fs_os s') = str_bytes (http_request host path)"
proof -
  let ?req = "str_bytes (http_request host path)" and ?r = "fs_next s"
  obtain w0 where w0: "os_socket os AF_INET SOCK_STREAM (fs_os s) = (fd, w0)" "sent w0 = []"
    using socket by (metis prod.collapse)
  obtain s1 where s1: "sock_new os AF_INET SOCK_STREAM s = Some (?r, s1)" "fd_num (fs_fds s1 ?r) = fd"
      "\<not> fd_eof (fs_fds s1 ?r)" "fs_os s1 = w0"
    using w0(1) fd by (simp add: sock_new_def SystemCall_def fd_new_def fdw_new_def)
  obtain ret w1 where w1: "os_connect os fd a (fs_os s1) = (ret, w1)" "0 \<le> ret" "sent w1 = sent (fs_os s1)"
    using conn by (metis prod.collapse)
  then have s2: "sock_connect os ?r a s1 = Some (s1\<lparr>fs_os := w1\<rparr>)"
    using s1(2) by (simp add: sock_connect_def sys_check_def SystemCall_def)
  have c: "bv_contents (bv_of_view ?req) = ?req" "length ?req < SIZE_MOD"
    using assms(2) by (simp_all add: bv_contents_def bv_of_view_def str_bytes_def)
  have "writev_ok os sent (fd_num (fs_fds (s1\<lparr>fs_os := w1\<rparr>) ?r))" using writing s1(2) by simp
  from fd_write_loop_all [OF this, of 0 "bv_of_view ?req"] c obtain s3 where
    s3: "fd_write os ?r (bv_of_view ?req) True (s1\<lparr>fs_os := w1\<rparr>) = Some (length ?req, s3)" "sent (fs_os s3) = ?req"
      "fd_num (fs_fds s3 ?r) = fd" "\<not> fd_eof (fs_fds s3 ?r)"
    using w1(3) w0(2) s1 by (auto simp: fd_write_def)
  obtain ret w2 where w2: "os_shutdown os fd SHUT_WR (fs_os s3) = (ret, w2)" "0 \<le> ret" "sent w2 = ?req" "reply w2 = answer ?req"
    using done_sending s3(2) by (metis prod.collapse)
  let ?s4 = "register_write ?r (s3\<lparr>fs_os := w2\<rparr>)"
  have s4: "sock_shutdown os ?r SHUT_WR s3 = Some ?s4"
    using w2 s3(3) by (simp add: sock_shutdown_def SystemCall_def SHUT_WR_def SHUT_RD_def)
  obtain s5 where s5: "print_until_eof os ?r [] ?s4 = Some (answer ?req, s5)" "fd_num (fs_fds s5 ?r) = fd" "sent (fs_os s5) = ?req"
    using prints_everything [of ?s4 ?r "[]"] s3(3,4) w2 by auto
  obtain ret w3 where w3: "os_close os fd (fs_os s5) = (ret, w3)" "0 \<le> ret" "sent w3 = ?req"
    using closing s5(3) by (metis prod.collapse)
  then have "fd_close os ?r s5 = Some (fd_update ?r (\<lambda>f. f\<lparr>fd_eof := True, fd_closed := True\<rparr>) (s5\<lparr>fs_os := w3\<rparr>))"
    using s5(2) by (simp add: fd_close_def SystemCall_def)
  then show ?thesis using s1(1) s2 s3(1) s4 s5(1) w3(3) assms(1) by (simp add: get_URL_def fdw_destroy_def fd_update_def)
qed

end

text \<open>
  The model's own instance: a server that answers each request with its bytes in reverse, over a
  connection that takes and gives one byte at a time.
\<close>

definition slow_server :: "(bytes \<times> bytes) os" where
  "slow_server = null_os
     \<lparr>os_socket := (\<lambda>d t w. (3, [], [])),
      os_writev := (\<lambda>fd iov w. let data = take 1 (concat (map iov_base iov)) in (int (length data), fst w @ data, snd w)),
      os_shutdown := (\<lambda>fd how w. (0, fst w, rev (fst w))),
      os_read := (\<lambda>fd k w. let data = take (min 1 k) (snd w) in (int (length data), data, fst w, drop (min 1 k) (snd w)))\<rparr>"

interpretation slow: http_server slow_server 3 fst snd rev
proof unfold_locales
  have "let (ret, w') = os_writev slow_server 3 iov w; data = concat (map iov_base iov)
     in 0 \<le> ret \<and> ret \<le> int (length data) \<and> (data \<noteq> [] \<longrightarrow> 0 < ret) \<and> fst w' = fst w @ take (nat ret) data" for iov w
    by (cases "concat (map iov_base iov)") (simp_all add: slow_server_def null_os_def del: concat_eq_Nil_conv)
  then show "writev_ok slow_server fst 3" by (simp only: writev_ok_def) blast
  fix k w ret buf w'
  assume "os_read slow_server 3 k w = (ret, buf, w')" and "0 < k"
  then show "0 \<le> ret \<and> nat ret \<le> k \<and> nat ret \<le> length buf \<and> take (nat ret) buf = take (nat ret) (snd w) \<and>
      nat ret \<le> length (snd w) \<and> (snd w \<noteq> [] \<longrightarrow> 0 < ret) \<and> snd w' = drop (nat ret) (snd w) \<and> fst w' = fst w"
    by (cases "snd w") (auto simp: slow_server_def Let_def null_os_def min_def)
qed (auto simp: slow_server_def null_os_def)

text \<open>
  C6: \<open>get_URL\<close> returns; it has sent exactly the request for the path, with the host and with the wish to
  close the connection, and has printed the whole answer of the server, however the system cuts the
  request and the answer into pieces.
\<close>

theorem get_URL_prints_answer:
  assumes "http_server os fd sent reply answer" and "address_of_host R host ''http'' = Some a"
    and "length (http_request host path) < SIZE_MOD"
  shows "\<exists>s'. get_URL os R host path s = Some (answer (str_bytes (http_request host path)), s') \<and>
    sent (fs_os s') = str_bytes (http_request host path)"
  using http_server.fetches [OF assms] .

definition idle_fds :: "'w \<Rightarrow> 'w fd_state" where
  "idle_fds w = \<lparr>fs_fds = (\<lambda>_. \<lparr>fd_num = 0, fd_eof = False, fd_closed = False, fd_read_count = 0, fd_write_count = 0\<rparr>),
     fs_next = 0, fs_os = w\<rparr>"

theorem get_URL_prints_answer_witness:
  "\<exists>s'. get_URL slow_server numeric_resolver ''a.org'' ''/x'' (idle_fds ([], [])) =
     Some (rev (str_bytes (http_request ''a.org'' ''/x'')), s')"
proof -
  have "address_of_host numeric_resolver ''a.org'' ''http'' = Some (inet_address (read_quad ''a.org'') (of_nat (read_dec ''http'')))"
    by (simp add: address_of_host_def address_resolve_def numeric_resolver_def address_of_sockaddr)
  moreover have "length (http_request ''a.org'' ''/x'') < SIZE_MOD" by (simp add: http_request_def CRLF_def SIZE_MOD_def)
  ultimately show ?thesis
    using get_URL_prints_answer [OF slow.http_server_axioms, of numeric_resolver "''a.org''" _ "''/x''" "idle_fds ([], [])"] by blast
qed

end
