(* ===== verification/Spec2Isabelle.thy ===== *)
theory Spec2Isabelle
  imports TCP_Network Fd_Adapters Sponge_Socket Stream_Copy Benchmark_Closing Packet_Dump Socket_Apps
begin

text \<open>
  The program is a TCP implementation in user space. Its parts and the theories that model them:

  \<^item> \<^bold>\<open>Streams.\<close> A \<open>ByteStream\<close> is a bounded buffer between a writer and a reader
    (\<open>byte_stream.hh/.cc\<close>, theory \<open>Byte_Stream\<close>); a \<open>StreamReassembler\<close> writes substrings that arrive in
    any order into one (\<open>stream_reassembler.hh/.cc\<close>, theory \<open>Stream_Reassembler\<close>).
  \<^item> \<^bold>\<open>Sequence numbers.\<close> \<open>wrap\<close> and \<open>unwrap\<close> convert between 64 bit stream indices and 32 bit sequence
    numbers (\<open>wrapping_integers.hh/.cc\<close>, theory \<open>Wrapping_Integers\<close>).
  \<^item> \<^bold>\<open>The protocol.\<close> \<open>TCPReceiver\<close>, \<open>TCPSender\<close> with its timer, \<open>TCPState\<close> and \<open>TCPConnection\<close>, which
    ties a receiver and a sender together (\<open>tcp_receiver\<close>, \<open>tcp_sender\<close>, \<open>tcp_helpers/tcp_state\<close>,
    \<open>tcp_connection\<close>; theories \<open>TCP_Receiver\<close>, \<open>TCP_Sender\<close>, \<open>TCP_State\<close>, \<open>TCP_Connection\<close>). The segments
    they exchange are in \<open>TCP_Segment\<close>, and \<open>TCP_Network\<close> puts two connections on an unreliable network.
    \<open>TCP_Progress\<close> describes exactly what one segment or tick does to a connection, \<open>TCP_Exchange\<close> what a batch of
    segments does, and \<open>TCP_Closing\<close> how a connection ends.
  \<^item> \<^bold>\<open>The wire.\<close> Reference-counted buffers (\<open>util/buffer\<close>, theory \<open>Net_Buffer\<close>), parsing and unparsing of
    integers (\<open>util/parser\<close>, theory \<open>Net_Parser\<close>), the Internet checksum (\<open>util/util\<close>, theory
    \<open>Internet_Checksum\<close>), TCP segments (\<open>tcp_header\<close>, \<open>tcp_segment\<close>, theory \<open>TCP_Wire\<close>) and IPv4 datagrams
    (\<open>ipv4_header\<close>, \<open>ipv4_datagram\<close>, theory \<open>IPv4_Wire\<close>) as bytes; printing in \<open>Text_Format\<close>.
  \<^item> \<^bold>\<open>Adapters.\<close> Addresses (\<open>util/address\<close>, theory \<open>Net_Address\<close>) and the adapters that put segments into
    UDP or IPv4 datagrams, filter what comes in and may drop segments (\<open>fd_adapter\<close>, \<open>tcp_over_ip\<close>,
    \<open>tuntap_adapter\<close>, \<open>lossy_fd_adapter\<close>, theory \<open>Fd_Adapters\<close>).
  \<^item> \<^bold>\<open>The system.\<close> File descriptors, sockets and the TUN device over the system calls
    (\<open>util/file_descriptor\<close>, \<open>util/socket\<close>, \<open>util/tun\<close>, theory \<open>File_Descriptor\<close>), the event loop
    (\<open>util/eventloop\<close>, theory \<open>Event_Loop\<close>), and \<open>TCPSpongeSocket\<close>, in which four rules of an event loop
    connect a \<open>TCPConnection\<close> with an adapter and with the application (\<open>tcp_sponge_socket\<close>, theory
    \<open>Sponge_Socket\<close>).
  \<^item> \<^bold>\<open>Applications.\<close> Copying between a socket and the terminal (\<open>apps/bidirectional_stream_copy\<close>, theory
    \<open>Stream_Copy\<close>), the throughput test that lets two connections exchange their segments
    (\<open>apps/tcp_benchmark\<close>, theory \<open>TCP_Benchmark\<close>; that its two loops end is in \<open>Benchmark_Progress\<close> and
    \<open>Benchmark_Closing\<close>), the command lines of \<open>tcp_ipv4\<close> and \<open>tcp_udp\<close> (theory
    \<open>Command_Line\<close>), the programs that print packets, \<open>udp_tcpdump\<close> and \<open>tun\<close> (theory \<open>Packet_Dump\<close>), and
    \<open>webget\<close> and \<open>tcp_native\<close> on the sockets of the system (theory \<open>Socket_Apps\<close>).

  \<^bold>\<open>How the code is modelled.\<close> Classes are records and member functions are functions that return the
  new object, under the names of the code with a short prefix for the class (\<open>bs_\<close>, \<open>sr_\<close>, \<open>rc_\<close>, \<open>sn_\<close>,
  \<open>cn_\<close>, \<open>sp_\<close> and others). \<open>size_t\<close> is \<^typ>\<open>nat\<close> with the wrap-around at 64 bits written out (\<open>sz_add\<close>,
  \<open>sz_sub\<close> of \<open>Sponge_Prelude\<close>); \<open>uint8_t\<close>, \<open>uint16_t\<close> and \<open>uint32_t\<close> are words. \<^const>\<open>None\<close> is a thrown
  exception, undefined behaviour, or a loop that does not end; the command lines tell an exit, an exception and a
  use of \<open>argv\<close> past its end apart (\<open>ending\<close>). Structural loops are \<open>fun\<close>, other loops
  that end are \<open>function\<close> with a measure; the loop of \<open>TCPSender::fill_window\<close>, that of
  \<open>FileDescriptor::write\<close>, the loop of the benchmark that writes, that of \<open>get_URL\<close>, the main loops of the benchmark and of
  the programs that print packets and the event loops of \<open>TCPSpongeSocket::_tcp_loop\<close> and
  \<open>bidirectional_stream_copy\<close> are partial functions. Those of \<open>fill_window\<close>, \<open>write\<close>, \<open>get_URL\<close> and all three of the
  benchmark come with a proof that they end. No fuel is used. Code outside the repository is a parameter: the kernel is
  a record of system calls on a state, the resolver a record of two functions, random numbers and the
  clock are arguments. What is assumed of them is stated by \<open>resolver_ok\<close>, \<open>writev_ok\<close> and the locales
  \<open>sponge_env\<close>, \<open>copy_env\<close> and \<open>http_server\<close>.

  \<^bold>\<open>What is shown.\<close> Streams: a byte stream refines a channel that keeps its history; the reassembler
  delivers exactly the stream whose pieces it is given, in bounded memory. Protocol: the receiver
  delivers a prefix of the peer's stream; the sender returns from every call, its outstanding
  segments cover what is not acknowledged, it fills the window and retransmits with backoff; a
  connection returns from every call, acknowledges what it must, and ends by reset, by exhausted
  retransmissions or after lingering. Wire: round trips of segments, datagrams and addresses, and
  detection of any single wrong byte. Adapters carry segments unchanged and let only the peer's
  segments through. The event loop gives each rule what its poll result calls for. Each interface is
  a locale: byte channels, buffers and invariant machines in the lower theories, codecs of integers,
  carriers of segments, rules of an event loop, and the surroundings of a socket. This theory
  composes the parts: end-to-end delivery and the opening handshake. \<open>Sponge_Socket\<close> shows that the
  socket drives its connection only by the steps of that composition. Applications: copying keeps the
  order and ends complete, the benchmark delivers its string, closes both connections and ends, a page is fetched whole, packets are shown
  with the fields of the segment in them, and every command line of \<open>tcp_ipv4\<close> is understood as its options say or
  refused with the message it calls for.

  \<^bold>\<open>Bounds.\<close> The theorems about whole streams take streams of at most \<open>2\<^sup>3\<^sup>1 - 2\<close> bytes, so that a
  32 bit sequence number determines its index from a nearby checkpoint, and capacities so far below
  \<open>2\<^sup>6\<^sup>4\<close> that the 64 bit counters do not wrap. Where the code breaks such a bound by itself, a theorem
  shows what happens (a shrunk window, an acknowledgment across the 32 bit wrap, a repeated SYN).

  \<^bold>\<open>Not modelled.\<close> The mains of \<open>tcp_ipv4\<close> and \<open>tcp_udp\<close>, the doctests and the test harness; messages on \<open>cerr\<close> and texts of
  exceptions; the seeding of the random generator and the clock, which are parameters; the scheduling
  of the two threads of a \<open>TCPSpongeSocket\<close>, where the owner's thread acts through the state of the
  system between the calls of the other one.
\<close>

section \<open>Two connections over an unreliable network\<close>

text \<open>
  C1: Let two connections talk over a network that loses, repeats, delays and reorders segments at
  will, while their applications write two streams of at most \<open>2\<^sup>3\<^sup>1 - 2\<close> bytes and read when they
  like. At every moment and on both sides, what the application has read followed by what waits for
  it is a prefix of the other side's stream; the inbound stream ends only when it is complete; and
  a connection processes every segment the other side has sent.
\<close>

theorem end_to_end_delivery:
  assumes "recv_capacity ca + 4294967296 + SEQ_MOD < SIZE_MOD" and "send_capacity ca + 2 < SIZE_MOD"
    and "recv_capacity cb + 4294967296 + SEQ_MOD < SIZE_MOD" and "send_capacity cb + 2 < SIZE_MOD"
    and "N + 2 \<le> 2147483648" and "M + 2 \<le> 2147483648"
    and "(net_step S N T M)\<^sup>*\<^sup>* (ep_new ra ca, ep_new rb cb) (a, b)"
  shows "(\<exists>k \<le> M. ep_log a @ bs_buff (inbound_stream (ep_conn a)) = map T [0..<k] \<and>
           (input_ended (inbound_stream (ep_conn a)) \<longrightarrow> k = M)) \<and>
    (\<exists>k \<le> N. ep_log b @ bs_buff (inbound_stream (ep_conn b)) = map S [0..<k] \<and>
           (input_ended (inbound_stream (ep_conn b)) \<longrightarrow> k = N)) \<and>
    (\<forall>seg \<in> set (ep_sent b). cn_segment_received (ep_conn a) seg \<noteq> None) \<and>
    (\<forall>seg \<in> set (ep_sent a). cn_segment_received (ep_conn b) seg \<noteq> None)"
proof -
  let ?ia = "sn_isn (cn_sender (cn_new ra ca))" and ?ib = "sn_isn (cn_sender (cn_new rb cb))"
  have "net_inv S N T M ?ia ?ib (ep_new ra ca, ep_new rb cb)"
    using assms(1-6) by (simp add: net_inv_def ep_new_inv)
  from net_inv_reachable [OF assms(7) this]
  have inv: "ep_inv S N T M ?ia ?ib a" "ep_inv T M S N ?ib ?ia b" by (simp_all add: net_inv_def)
  have "\<forall>seg \<in> set (ep_sent b). sent_seg T M ?ib (M + 2) seg" "\<forall>seg \<in> set (ep_sent a). sent_seg S N ?ia (N + 2) seg"
    using inv by (simp_all add: ep_inv_def)
  with ep_calls_return(3) [OF inv(1)] ep_calls_return(3) [OF inv(2)] ep_inv_received [OF inv(1)] ep_inv_received [OF inv(2)]
  show ?thesis by (metis option.distinct(1))
qed

theorem end_to_end_delivery_witness:
  "\<exists>c. connect (cn_new 7 tcp_config_default) = Some c \<and>
     (\<exists>k \<le> 3. ep_log (ep_new 8 tcp_config_default) @ bs_buff (inbound_stream (ep_conn (ep_new 8 tcp_config_default)))
        = map of_nat [0..<k])"
proof -
  let ?cfg = tcp_config_default
  have caps: "recv_capacity ?cfg + 4294967296 + SEQ_MOD < SIZE_MOD" "send_capacity ?cfg + 2 < SIZE_MOD"
    by (simp_all add: tcp_config_default_def DEFAULT_CAPACITY_def SEQ_MOD_def SIZE_MOD_def)
  then have "cn_inv of_nat 3 (cn_new 7 ?cfg)" by (intro cn_new_inv) auto
  then obtain c where c: "connect (cn_new 7 ?cfg) = Some c" using connect_inv by blast
  then have "ep_step of_nat 3 (set (ep_sent (ep_new 8 ?cfg))) (ep_new 7 ?cfg) ((ep_new 7 ?cfg)\<lparr>ep_conn := c\<rparr>)"
    by (intro ep_connect) (simp add: ep_new_def)
  then have "(net_step of_nat 3 of_nat 0)\<^sup>*\<^sup>* (ep_new 7 ?cfg, ep_new 8 ?cfg) ((ep_new 7 ?cfg)\<lparr>ep_conn := c\<rparr>, ep_new 8 ?cfg)"
    by (intro r_into_rtranclp net_left)
  from end_to_end_delivery [OF caps caps _ _ this] c show ?thesis by auto
qed

section \<open>Opening a connection\<close>

text \<open>Hand all queued segments of one connection to the other.\<close>

definition deliver :: "tcp_connection \<Rightarrow> tcp_connection \<Rightarrow> (tcp_connection \<times> tcp_connection) option" where
  "deliver a b = do {
     b' \<leftarrow> run_steps cn_segment_received b (cn_segments_out a);
     Some (a\<lparr>cn_segments_out := []\<rparr>, b')
   }"

definition handshake :: "tcp_connection \<Rightarrow> tcp_connection \<Rightarrow> (tcp_connection \<times> tcp_connection) option" where
  "handshake a b = do {
     a \<leftarrow> connect a;
     (a, b) \<leftarrow> deliver a b;
     (b, a) \<leftarrow> deliver b a;
     deliver a b
   }"

lemma fill_window_new:
  "fill_window (sn_new r cap rto fi) = Some ((sn_new r cap rto fi)
     \<lparr>sn_next_seqno := 1, sn_segments_out := [syn_segment (sn_isn (sn_new r cap rto fi))],
      sn_outstanding_seg := [syn_segment (sn_isn (sn_new r cap rto fi))],
      sn_timer := timer_start timer_default (ucast rto)\<rparr>)"
  by (simp add: fill_window_def sn_new_def next_seqno_absolute_def sn_send_segment_def next_seqno_def Let_def
      is_start_def timer_default_def syn_segment_def length_in_sequence_space_def sz_add_def SIZE_MOD_def)

lemma rc_takes_syn:
  assumes "syn (header seg)" and "buffer_str (payload seg) = []" and "\<not> fin (header seg)"
  shows "rc_segment_received (rc_new cap) seg = Some ((rc_new cap)\<lparr>rc_syn := True, rc_isn := seqno (header seg)\<rparr>)"
  using assms
  by (simp add: rc_segment_received_def rc_new_def sr_new_def bs_new_def push_substring_def buffer_copy_def
      sr_flush.simps Let_def)

lemma rc_takes_bare:
  assumes "bare seg"
  shows "rc_segment_received ((rc_new cap)\<lparr>rc_syn := True, rc_isn := x\<rparr>) seg = Some ((rc_new cap)\<lparr>rc_syn := True, rc_isn := x\<rparr>)"
  using assms
  by (simp add: rc_segment_received_def rc_new_def sr_new_def bs_new_def push_substring_def buffer_copy_def
      sr_flush.simps Let_def bare_def)

text \<open>The receiver after a SYN: it acknowledges the SYN and reports that it has one.\<close>

lemma rc_after_syn:
  "rc_ackno ((rc_new cap)\<lparr>rc_syn := True, rc_isn := x\<rparr>) = Some (wrap 1 x)"
  "receiver_summary ((rc_new cap)\<lparr>rc_syn := True, rc_isn := x\<rparr>) = RECEIVER_SYN_RECV"
  by (simp_all add: rc_ackno_def receiver_summary_def rc_new_def sr_new_def bs_new_def rc_stream_out_def
      first_unassembled_def bytes_written_def input_ended_def sz_add_def SIZE_MOD_def Let_def)

text \<open>A sender that has only sent its SYN and has nothing to send yet.\<close>

definition syn_sent :: "tcp_sender \<Rightarrow> bool" where
  "syn_sent s \<longleftrightarrow> sn_inv (\<lambda>_. 0) 0 s \<and> sn_next_seqno s = 1 \<and> sn_last_ackno s = 0 \<and> sn_segments_out s = [] \<and>
     bs_buff (sn_stream s) = [] \<and> \<not> bs_end_input (sn_stream s) \<and> \<not> bs_error (sn_stream s)"

lemma syn_sent_summary: "syn_sent s \<Longrightarrow> sender_summary s = SENDER_SYN_SENT"
  using sn_bytes_in_flight_exact [of "\<lambda>_. 0" 0 s]
  by (simp add: syn_sent_def sender_summary_def next_seqno_absolute_def)

lemma syn_sent_ack_received:
  assumes "syn_sent s"
  shows "\<exists>s'. sn_ack_received s (wrap 1 (sn_isn s)) w = Some s' \<and> sender_summary s' = SENDER_SYN_ACKED \<and>
    sn_segments_out s' = [] \<and> next_seqno s' = wrap 1 (sn_isn s)"
proof -
  let ?k = "wrap 1 (sn_isn s)" and ?s = "ack_accept s (wrap 1 (sn_isn s)) w"
  have s: "sn_inv (\<lambda>_. 0) 0 s" "sn_next_seqno s = 1" "sn_last_ackno s = 0"
    using assms by (simp_all add: syn_sent_def)
  have u: "unwrap ?k (sn_isn s) (sn_last_ackno s) = 1"
    unfolding s by (rule unwrap_wrap_near) (simp_all add: SEQ_MOD_def SIZE_MOD_def)
  then have inv: "sn_inv (\<lambda>_. 0) 0 ?s" using ack_accept_inv [OF s(1)] s by simp
  have fr: "sn_last_ackno ?s = 1" "sn_next_seqno ?s = 1" "sn_stream ?s = sn_stream s" "sn_isn ?s = sn_isn s"
      "sn_segments_out ?s = sn_segments_out s"
    using s u by (simp_all add: ack_accept_def Let_def)
  then have "fill_window ?s = Some ?s" using assms by (intro fill_window_idle [OF inv]) (simp_all add: syn_sent_def)
  moreover have "sender_summary ?s = SENDER_SYN_ACKED"
    using fr assms sn_bytes_in_flight_exact [OF inv]
    by (simp add: sender_summary_def next_seqno_absolute_def syn_sent_def bs_eof_def input_ended_def)
  ultimately show ?thesis
    using u s fr assms by (simp add: sn_ack_received_eq next_seqno_def syn_sent_def)
qed


text \<open>Connecting a fresh sender queues its SYN, with the receiver's acknowledgment if there is one.\<close>

lemma connect_new:
  assumes "cn_sender c = sn_new r cap rto fi" and "cap + 2 < SIZE_MOD"
  shows "\<exists>s. connect c = Some (c\<lparr>cn_sender := s, cn_segments_out := cn_segments_out c @
      [fill_ack (cn_receiver c) (syn_segment (sn_isn (cn_sender c)))]\<rparr>) \<and> syn_sent s \<and> sn_isn s = sn_isn (cn_sender c)"
proof -
  let ?s0 = "sn_new r cap rto fi"
  obtain s where s: "fill_window ?s0 = Some s" "sn_inv (\<lambda>_. 0) 0 s"
    using fill_window_spec [OF sn_new_inv [OF assms(2)]] by blast
  have fr: "sn_isn s = sn_isn ?s0" "sn_segments_out s = [syn_segment (sn_isn ?s0)]" "sn_next_seqno s = 1"
      "sn_last_ackno s = 0" "sn_stream s = bs_new cap"
    using s(1) by (auto simp: fill_window_new) (simp_all add: sn_new_def)
  have "syn_sent (s\<lparr>sn_segments_out := []\<rparr>)"
    using sn_inv_drain [OF s(2), of "[]"] fr by (simp add: syn_sent_def bs_new_def)
  then show ?thesis
    using s(1) fr assms(1) by (intro exI [of _ "s\<lparr>sn_segments_out := []\<rparr>"]) (simp add: connect_def cn_send_segment_eq)
qed

lemma sender_summary_queue [simp]: "sender_summary (s\<lparr>sn_segments_out := q\<rparr>) = sender_summary s"
  by (simp add: sender_summary_def next_seqno_absolute_def sn_bytes_in_flight_def)

text \<open>The acknowledgment of the SYN opens the sender; a segment that occupies sequence numbers is answered.\<close>

lemma syn_sent_segment_received:
  fixes cap :: nat and x :: wrapping_int32
  defines "r \<equiv> (rc_new cap)\<lparr>rc_syn := True, rc_isn := x\<rparr>"
  assumes c: "cn_isactive c" "syn_sent (cn_sender c)" "rc_segment_received (cn_receiver c) seg = Some r"
    and seg: "\<not> rst (header seg)" "ack (header seg)" "ackno (header seg) = wrap 1 (sn_isn (cn_sender c))"
    and seq: "length_in_sequence_space seg = 0 \<Longrightarrow> seqno (header seg) = wrap 1 x"
  shows "\<exists>c' s. cn_segment_received c seg = Some c' \<and> cn_isactive c' \<and>
    cn_linger_after_streams_finish c' = cn_linger_after_streams_finish c \<and> cn_receiver c' = r \<and>
    sender_summary (cn_sender c') = SENDER_SYN_ACKED \<and> next_seqno s = wrap 1 (sn_isn (cn_sender c)) \<and>
    cn_segments_out c' = cn_segments_out c @ (if length_in_sequence_space seg > 0 then
      [fill_ack r (tcp_segment_default\<lparr>header := tcp_header_default\<lparr>seqno := next_seqno s\<rparr>\<rparr>)] else [])"
proof -
  obtain s where s: "sn_ack_received (cn_sender c) (wrap 1 (sn_isn (cn_sender c))) (win (header seg)) = Some s"
      "sender_summary s = SENDER_SYN_ACKED" "sn_segments_out s = []" "next_seqno s = wrap 1 (sn_isn (cn_sender c))"
    using syn_sent_ack_received [OF c(2)] by blast
  let ?s = "if length_in_sequence_space seg > 0 then send_empty_segment s else s"
  have "wi_minus (wrap 1 x) 1 = wrap 0 x" using wrap_minus [of 1 1 x] by simp
  moreover have "wrap 1 x \<noteq> wrap 0 x" unfolding wrap_eq_iff by (simp add: SEQ_MOD_def)
  ultimately have "wrap 1 x \<noteq> wi_minus (wrap 1 x) 1" by simp
  then have resp: "respond r seg s = ?s"
    using s(3) seq by (simp add: respond_def Let_def r_def rc_after_syn)
  have sum: "sender_summary ?s = SENDER_SYN_ACKED" "sender_summary (?s\<lparr>sn_segments_out := []\<rparr>) = SENDER_SYN_ACKED"
    using s(2) by (simp_all add: send_empty_segment_def Let_def)
  have cs: "clean_shutdown d = d" if "cn_receiver d = r" "sender_summary (cn_sender d) = SENDER_SYN_ACKED" for d
    using that by (simp add: clean_shutdown_def r_def rc_new_def sr_new_def bs_new_def rc_stream_out_def input_ended_def)
  have "cn_segment_received c seg = Some (cn_send_segment
      (c\<lparr>cn_time_since_last_segment_received := 0, cn_receiver := r, cn_sender := ?s\<rparr>))"
    using c seg s(1) resp sum syn_sent_summary [OF c(2)]
    by (simp add: cn_segment_received_eq Let_def acknowledge_def cs cn_send_segment_frame)
  then show ?thesis
    using c(1) s(3,4) sum by (intro exI conjI) (assumption | simp add: cn_send_segment_eq send_empty_segment_def Let_def)+
qed

text \<open>The listener answers a SYN with its own SYN, which carries the acknowledgment.\<close>

lemma listener_segment_received_syn:
  fixes rb :: u32 and cb :: tcp_config and x :: wrapping_int32
  defines "b \<equiv> cn_new rb cb" and "r \<equiv> (rc_new (recv_capacity cb))\<lparr>rc_syn := True, rc_isn := x\<rparr>"
  assumes cap: "send_capacity cb + 2 < SIZE_MOD"
  shows "\<exists>c. cn_segment_received b (syn_segment x) = Some c \<and> cn_isactive c \<and> cn_linger_after_streams_finish c \<and>
    cn_receiver c = r \<and> syn_sent (cn_sender c) \<and> sn_isn (cn_sender c) = sn_isn (cn_sender b) \<and>
    cn_segments_out c = [fill_ack r (syn_segment (sn_isn (cn_sender b)))]"
proof -
  let ?b = "b\<lparr>cn_time_since_last_segment_received := 0, cn_receiver := r\<rparr>"
  have sender: "cn_sender ?b = sn_new rb (send_capacity cb) (rt_timeout cb) (fixed_isn cb)"
    by (simp add: b_def cn_new_def)
  have "sender_summary (cn_sender b) = SENDER_CLOSED"
    by (simp add: b_def cn_new_def sender_summary_def sn_new_def bs_new_def next_seqno_absolute_def)
  moreover have "rc_segment_received (cn_receiver b) (syn_segment x) = Some r"
    using rc_takes_syn [of "syn_segment x" "recv_capacity cb"] by (simp add: b_def cn_new_def r_def syn_segment_def)
  moreover have "\<not> rst (header (syn_segment x))" "cn_isactive b" by (simp_all add: b_def cn_new_def syn_segment_def)
  ultimately have "cn_segment_received b (syn_segment x) = connect ?b"
    by (simp add: cn_segment_received_eq Let_def r_def rc_after_syn)
  with connect_new [OF sender cap] show ?thesis by (auto simp: b_def cn_new_def)
qed

text \<open>
  C15: Two fresh connections, whatever their configurations and initial sequence numbers, complete the
  three-way handshake: after the client's connect() and three deliveries of all queued segments, both
  are in the official state ESTABLISHED and no segment is left to send.
\<close>

theorem three_way_handshake:
  assumes "send_capacity ca + 2 < SIZE_MOD" and "send_capacity cb + 2 < SIZE_MOD"
  shows "\<exists>a b. handshake (cn_new ra ca) (cn_new rb cb) = Some (a, b) \<and>
    tcp_state_eq (cn_state a) (tcp_state_of ESTABLISHED) \<and> tcp_state_eq (cn_state b) (tcp_state_of ESTABLISHED) \<and>
    cn_segments_out a = [] \<and> cn_segments_out b = []"
proof -
  let ?a = "cn_new ra ca" and ?b = "cn_new rb cb"
  let ?x = "sn_isn (cn_sender ?a)" and ?y = "sn_isn (cn_sender ?b)"
  let ?r = "\<lambda>cfg x. (rc_new (recv_capacity cfg))\<lparr>rc_syn := True, rc_isn := x\<rparr>"
  have established: "tcp_state_eq (cn_state c) (tcp_state_of ESTABLISHED)"
    if "cn_isactive c" "cn_linger_after_streams_finish c" "cn_receiver c = ?r cfg x"
      "sender_summary (cn_sender c) = SENDER_SYN_ACKED" for c cfg x
    using that by (simp add: tcp_state_eq_def cn_state_def tcp_state_new_def active_def tcp_state_default_def rc_after_syn)
  have "cn_sender ?a = sn_new ra (send_capacity ca) (rt_timeout ca) (fixed_isn ca)" by (simp add: cn_new_def)
  from connect_new [OF this assms(1)] obtain s where
    s: "connect ?a = Some (?a\<lparr>cn_sender := s, cn_segments_out := [syn_segment ?x]\<rparr>)" "syn_sent s" "sn_isn s = ?x"
    by (auto simp: cn_new_def rc_new_def fill_ack_def rc_ackno_def)
  let ?a1 = "?a\<lparr>cn_sender := s, cn_segments_out := []\<rparr>"
  obtain b1 where b1: "cn_segment_received ?b (syn_segment ?x) = Some b1" "cn_isactive b1"
      "cn_linger_after_streams_finish b1" "cn_receiver b1 = ?r cb ?x" "syn_sent (cn_sender b1)"
      "sn_isn (cn_sender b1) = ?y" "cn_segments_out b1 = [fill_ack (?r cb ?x) (syn_segment ?y)]"
    using listener_segment_received_syn [OF assms(2)] by blast
  let ?sa = "fill_ack (?r cb ?x) (syn_segment ?y)"
  have sa: "\<not> rst (header ?sa)" "ack (header ?sa)" "ackno (header ?sa) = wrap 1 ?x" "0 < length_in_sequence_space ?sa"
    by (simp_all add: syn_segment_def fill_ack_def rc_after_syn length_in_sequence_space_def sz_add_def SIZE_MOD_def)
  have "rc_segment_received (cn_receiver ?a1) ?sa = Some (?r ca ?y)"
    using rc_takes_syn [of ?sa "recv_capacity ca"] by (simp add: cn_new_def syn_segment_def)
  with syn_sent_segment_received [where c = ?a1 and seg = ?sa and cap = "recv_capacity ca" and x = ?y] obtain a2 t where
    a2: "cn_segment_received ?a1 ?sa = Some a2" "cn_isactive a2" "cn_linger_after_streams_finish a2"
      "cn_receiver a2 = ?r ca ?y" "sender_summary (cn_sender a2) = SENDER_SYN_ACKED" "next_seqno t = wrap 1 ?x"
      "cn_segments_out a2 = [fill_ack (?r ca ?y) (tcp_segment_default\<lparr>header := tcp_header_default\<lparr>seqno := next_seqno t\<rparr>\<rparr>)]"
    using s(2,3) sa by (auto simp: cn_new_def)
  let ?b1 = "b1\<lparr>cn_segments_out := []\<rparr>" and ?ak = "hd (cn_segments_out a2)"
  have ak: "\<not> rst (header ?ak)" "ack (header ?ak)" "ackno (header ?ak) = wrap 1 ?y" "length_in_sequence_space ?ak = 0"
      "seqno (header ?ak) = wrap 1 ?x" "bare ?ak"
    using a2(6,7) by (simp_all add: fill_ack_def rc_after_syn length_in_sequence_space_def sz_add_def SIZE_MOD_def bare_def)
  have "rc_segment_received (cn_receiver ?b1) ?ak = Some (?r cb ?x)"
    using rc_takes_bare [OF ak(6)] b1(4) by simp
  with syn_sent_segment_received [where c = ?b1 and seg = ?ak and cap = "recv_capacity cb" and x = ?x] obtain b2 where
    b2: "cn_segment_received ?b1 ?ak = Some b2" "cn_isactive b2" "cn_linger_after_streams_finish b2"
      "cn_receiver b2 = ?r cb ?x" "sender_summary (cn_sender b2) = SENDER_SYN_ACKED" "cn_segments_out b2 = []"
    using b1 ak by auto
  have "handshake ?a ?b = Some (a2\<lparr>cn_segments_out := []\<rparr>, b2)"
    using s(1) b1(1,7) a2(1,7) b2(1) by (simp add: handshake_def deliver_def)
  moreover have "tcp_state_eq (cn_state (a2\<lparr>cn_segments_out := []\<rparr>)) (tcp_state_of ESTABLISHED)"
    using a2 by (intro established) auto
  moreover have "tcp_state_eq (cn_state b2) (tcp_state_of ESTABLISHED)" using b2 by (intro established) auto
  ultimately show ?thesis using b2(6) by auto
qed

theorem three_way_handshake_witness:
  "\<exists>a b. handshake (cn_new 0 tcp_config_default) (cn_new 4294967295 tcp_config_default) = Some (a, b) \<and>
    tcp_state_eq (cn_state a) (tcp_state_of ESTABLISHED) \<and> tcp_state_eq (cn_state b) (tcp_state_of ESTABLISHED)"
proof -
  have cap: "send_capacity tcp_config_default + 2 < SIZE_MOD"
    by (simp add: tcp_config_default_def DEFAULT_CAPACITY_def SIZE_MOD_def)
  show ?thesis using three_way_handshake [OF cap cap, of 0 4294967295] by blast
qed

end
